(* ===== verification/Prelude.thy ===== *)
theory Prelude
  imports Main
begin

text \<open>
  Shared ground of the development: the result type of C code that may abort, the wrap-around
  of \<open>size_t\<close>, the locale of transition systems that the concurrent components interpret,
  and generic lemmas on lists and maps.
\<close>

section \<open>Results of C code\<close>

text \<open>
  A C function either returns or stops the program: a failed \<open>assert\<close>, a dereference of
  \<open>NULL\<close>, an access to memory that holds no object of that type, or a call of \<open>exit\<close>.
  A loop that is modelled with fuel adds the outcome that the fuel ran out; a loop that is
  modelled by \<open>while_option\<close> adds the outcome that it never ends.
\<close>

datatype fault =
    Assert_failed
  | Null_deref
  | Bad_access
  | Exited int
  | Out_of_fuel
  | Diverges
  | Div_by_zero

type_synonym 'a res = "fault + 'a"

fun rbind :: "'a res \<Rightarrow> ('a \<Rightarrow> 'b res) \<Rightarrow> 'b res" where
  "rbind (Inl e) f = Inl e"
| "rbind (Inr x) f = f x"

text \<open>The collection of facts that say when a computation returns, and with what.\<close>

named_theorems res_conv

lemma rbind_Inr_conv [res_conv]:
  "rbind m f = Inr y \<longleftrightarrow> (\<exists>x. m = Inr x \<and> f x = Inr y)"
  by (cases m) auto

lemma rbind_cong [fundef_cong]:
  assumes "m = m'" and "\<And>x. m' = Inr x \<Longrightarrow> f x = f' x"
  shows "rbind m f = rbind m' f'"
  using assms by (cases m') auto

definition guard :: "bool \<Rightarrow> fault \<Rightarrow> unit res" where
  "guard b e = (if b then Inr () else Inl e)"

lemma guard_True [simp]: "guard True e = Inr ()"
  by (simp add: guard_def)

lemma guard_False [simp]: "guard False e = Inl e"
  by (simp add: guard_def)

lemma guard_Inr [simp]: "guard b e = Inr u \<longleftrightarrow> b"
  by (simp add: guard_def)

definition or_diverges :: "'a option \<Rightarrow> 'a res" where
  "or_diverges r = (case r of None \<Rightarrow> Inl Diverges | Some x \<Rightarrow> Inr x)"

lemma or_diverges_simps [simp]: "or_diverges None = Inl Diverges" "or_diverges (Some x) = Inr x"
  by (simp_all add: or_diverges_def)

section \<open>The wrap-around of size_t\<close>

text \<open>
  A \<open>size_t\<close> or an address is a natural number below \<open>2 ^ 64\<close>; the code's arithmetic on
  them is taken modulo \<open>2 ^ 64\<close>.
\<close>

definition w64 :: "nat \<Rightarrow> nat" where
  "w64 n = n mod 2 ^ 64"

definition sub64 :: "nat \<Rightarrow> nat \<Rightarrow> nat" where
  "sub64 a b = (a + (2 ^ 64 - b mod 2 ^ 64)) mod 2 ^ 64"

lemma w64_id: "n < 2 ^ 64 \<Longrightarrow> w64 n = n"
  by (simp add: w64_def)

lemma w64_less [simp]: "w64 n < 2 ^ 64"
  by (simp add: w64_def)

lemma w64_w64 [simp]: "w64 (w64 n) = w64 n"
  by (simp add: w64_def)

lemma w64_add_left: "w64 (w64 a + b) = w64 (a + b)"
  by (simp add: w64_def mod_simps)

lemma sub64_id: "b \<le> a \<Longrightarrow> a < 2 ^ 64 \<Longrightarrow> sub64 a b = a - b"
  unfolding sub64_def by (subst mod_if) (auto simp: mod_less)

text \<open>The value of a 64-bit pattern read as a signed \<open>intptr_t\<close>.\<close>

definition signed64 :: "nat \<Rightarrow> int" where
  "signed64 n = (if n < 2 ^ 63 then int n else int n - 2 ^ 64)"

text \<open>The value of a number converted to the signed type \<open>int\<close> of 32 bits.\<close>

definition int32 :: "int \<Rightarrow> int" where
  "int32 n = (n + 2 ^ 31) mod 2 ^ 32 - 2 ^ 31"

lemma int32_id: "- (2 ^ 31) \<le> n \<Longrightarrow> n < 2 ^ 31 \<Longrightarrow> int32 n = n"
  by (simp add: int32_def)

section \<open>Transition systems\<close>

text \<open>
  The threads of a concurrent component interleave at the points where the code takes or
  releases a lock. An interpretation of this locale gives the initial states and the step
  relation of a component with an invariant; its facts hold in every reachable state.
\<close>

inductive reachable :: "('s \<Rightarrow> bool) \<Rightarrow> ('s \<Rightarrow> 's \<Rightarrow> bool) \<Rightarrow> 's \<Rightarrow> bool"
  for init :: "'s \<Rightarrow> bool" and step :: "'s \<Rightarrow> 's \<Rightarrow> bool"
  where
    reach_init: "init s \<Longrightarrow> reachable init step s"
  | reach_step: "reachable init step s \<Longrightarrow> step s t \<Longrightarrow> reachable init step t"

lemma reachable_weaken: "reachable init step s \<Longrightarrow> (\<And>s. init s \<Longrightarrow> init' s) \<Longrightarrow> reachable init' step s"
  by (induction rule: reachable.induct) (auto intro: reachable.intros)

locale transition_system =
  fixes init :: "'s \<Rightarrow> bool"
    and step :: "'s \<Rightarrow> 's \<Rightarrow> bool"
    and inv :: "'s \<Rightarrow> bool"
  assumes init_inv: "init s \<Longrightarrow> inv s"
    and step_inv: "inv s \<Longrightarrow> step s t \<Longrightarrow> inv t"
begin

lemma reachable_inv: "reachable init step s \<Longrightarrow> inv s"
  by (induction rule: reachable.induct) (auto intro: init_inv step_inv)

end

text \<open>
  A schedule names who moves at each step: the runs of a concurrent component are built from an
  executable step of each of its threads.
\<close>

primrec run_schedule :: "('a \<Rightarrow> 's \<Rightarrow> 's option) \<Rightarrow> 'a list \<Rightarrow> 's \<Rightarrow> 's option" where
  "run_schedule act [] s = Some s"
| "run_schedule act (x # xs) s = (case act x s of None \<Rightarrow> None | Some t \<Rightarrow> run_schedule act xs t)"

lemma run_schedule_reachable:
  assumes "run_schedule act xs s = Some t" and "reachable init step s"
    and "\<And>x u v. x \<in> set xs \<Longrightarrow> act x u = Some v \<Longrightarrow> step u v"
  shows "reachable init step t"
  using assms
proof (induction xs arbitrary: s)
  case (Cons x xs)
  then obtain u where u: "act x s = Some u" "run_schedule act xs u = Some t" by (auto split: option.splits)
  from Cons.prems(3) [OF _ u(1)] have "reachable init step u" using Cons.prems(2) by (auto intro: reach_step)
  then show ?case by (rule Cons.IH [OF u(2)]) (rule Cons.prems(3), simp_all)
qed simp

section \<open>What the threads hold together\<close>

lemma sum_upd:
  fixes g :: "'a \<Rightarrow> 'b::comm_monoid_add" and n :: nat
  assumes "i < n"
  shows "(\<Sum>j < n. g ((f(i := x)) j)) + g (f i) = (\<Sum>j < n. g (f j)) + g x"
proof -
  have "(\<Sum>j < n. g ((f(i := x)) j)) = g x + (\<Sum>j \<in> {..<n} - {i}. g ((f(i := x)) j))"
    using assms by (subst sum.remove [of _ i]) auto
  moreover have "(\<Sum>j < n. g (f j)) = g (f i) + (\<Sum>j \<in> {..<n} - {i}. g (f j))"
    using assms by (subst sum.remove [of _ i]) auto
  moreover have "(\<Sum>j \<in> {..<n} - {i}. g ((f(i := x)) j)) = (\<Sum>j \<in> {..<n} - {i}. g (f j))"
    by (rule sum.cong) auto
  ultimately show ?thesis by (simp add: ac_simps)
qed

section \<open>Lists\<close>

definition hd_or :: "'a \<Rightarrow> 'a list \<Rightarrow> 'a" where
  "hd_or d xs = (case xs of [] \<Rightarrow> d | x # _ \<Rightarrow> x)"

definition last_or :: "'a \<Rightarrow> 'a list \<Rightarrow> 'a" where
  "last_or d xs = (case xs of [] \<Rightarrow> d | _ \<Rightarrow> last xs)"

lemma hd_or_simps [simp]: "hd_or d [] = d" "hd_or d (x # xs) = x"
  by (simp_all add: hd_or_def)

lemma hd_or_append [simp]: "hd_or d (xs @ ys) = hd_or (hd_or d ys) xs"
  by (cases xs) simp_all

lemma last_or_Nil [simp]: "last_or d [] = d"
  by (simp add: last_or_def)

lemma last_or_Cons [simp]: "last_or d (x # xs) = last_or x xs"
  by (cases xs) (simp_all add: last_or_def)

lemma last_or_append [simp]: "last_or d (xs @ ys) = last_or (last_or d xs) ys"
  by (induction xs arbitrary: d) simp_all

lemma last_or_in: "last_or d xs \<in> insert d (set xs)"
  by (induction xs arbitrary: d) auto

lemma hd_or_in: "hd_or d xs \<in> insert d (set xs)"
  by (cases xs) auto

lemma last_or_eq_iff: "d \<notin> set xs \<Longrightarrow> last_or d xs = d \<longleftrightarrow> xs = []"
  by (cases xs) (use last_or_in in fastforce)+

lemma hd_or_eq_iff: "d \<notin> set xs \<Longrightarrow> hd_or d xs = d \<longleftrightarrow> xs = []"
  by (cases xs) auto

lemma take_drop_split: "i < length xs \<Longrightarrow> take i xs @ xs ! i # drop (Suc i) xs = xs"
  by (simp add: id_take_nth_drop [symmetric])

end
