(* ===== verification/Alloc.thy ===== *)
theory Alloc
  imports Prelude "HOL-Library.Word"
begin

text \<open>
  \<^verbatim>\<open>src/malloc/alloc.c\<close>: the heap allocator. This theory holds its data, its state
  and its four entry points \<open>malloc\<close>, \<open>free\<close>, \<open>calloc\<close>, \<open>realloc\<close>; the theory
  \<open>Alloc_Correct\<close> proves them against lists of blocks.

  An address is a natural number and \<open>NULL\<close> is 0. The program's memory is seen through
  three maps: the \<open>entry\<close> structs by the address where they were written, the \<open>end\<close>
  structs likewise, and the payload bytes. \<open>sizeof(entry)\<close> is 32 and \<open>sizeof(end)\<close> is 8 on
  the 64-bit target of the code. \<open>sbrk\<close> is the POSIX call: it moves the break by a signed
  increment, within the limits the kernel sets, and answers the old break.
\<close>

section \<open>Data and state\<close>

record entry =
  e_size :: nat
  e_free :: bool
  e_next :: nat
  e_prev :: nat

definition sizeof_entry :: nat where "sizeof_entry = 32"

definition sizeof_end :: nat where "sizeof_end = 8"

definition threshold :: nat where "threshold = 1024"

lemmas sizeof_defs [simp] = sizeof_entry_def sizeof_end_def threshold_def

record heap =
  hdr :: "nat \<rightharpoonup> entry"
  endtag :: "nat \<rightharpoonup> nat"
  payload :: "nat \<Rightarrow> 8 word"
  h_head :: nat
  h_start :: nat
  h_final :: nat
  brk :: nat
  brk_low :: nat
  brk_limit :: nat

text \<open>The static pointers are \<open>NULL\<close> when the program starts.\<close>

definition heap_init :: "nat \<Rightarrow> nat \<Rightarrow> heap" where
  "heap_init low limit = \<lparr>hdr = Map.empty, endtag = Map.empty, payload = (\<lambda>_. 0),
     h_head = 0, h_start = 0, h_final = 0, brk = low, brk_low = low, brk_limit = limit\<rparr>"

section \<open>Memory accesses\<close>

definition ld :: "heap \<Rightarrow> nat \<Rightarrow> entry res" where
  "ld h p = (if p = 0 then Inl Null_deref
     else case hdr h p of None \<Rightarrow> Inl Bad_access | Some e \<Rightarrow> Inr e)"

definition ld_end :: "heap \<Rightarrow> nat \<Rightarrow> nat res" where
  "ld_end h p = (case endtag h p of None \<Rightarrow> Inl Bad_access | Some s \<Rightarrow> Inr s)"

definition st :: "heap \<Rightarrow> nat \<Rightarrow> entry \<Rightarrow> heap" where
  "st h p e = h\<lparr>hdr := (hdr h)(p \<mapsto> e)\<rparr>"

text \<open>
  \<open>st\<close> stores to a header that has been read before. A header or an end tag at a computed address
  is stored only in memory that \<open>sbrk\<close> has given out, between \<open>brk_low\<close> and the break; a store
  elsewhere is a fault, like a load of a struct that was never stored.
\<close>

definition in_heap :: "heap \<Rightarrow> nat \<Rightarrow> nat \<Rightarrow> bool" where
  "in_heap h a n \<longleftrightarrow> brk_low h \<le> a \<and> a + n \<le> brk h"

definition st_new :: "heap \<Rightarrow> nat \<Rightarrow> entry \<Rightarrow> heap res" where
  "st_new h p e = rbind (guard (in_heap h p sizeof_entry) Bad_access) (\<lambda>_. Inr (st h p e))"

definition st_end :: "heap \<Rightarrow> nat \<Rightarrow> nat \<Rightarrow> heap res" where
  "st_end h p s = rbind (guard (in_heap h p sizeof_end) Bad_access) (\<lambda>_.
     Inr (h\<lparr>endtag := (endtag h)(p \<mapsto> s)\<rparr>))"

text \<open>\<open>p->next = v\<close> and \<open>p->prev = v\<close>, and the same under the code's guard \<open>if (p != NULL)\<close>.\<close>

definition set_next :: "heap \<Rightarrow> nat \<Rightarrow> nat \<Rightarrow> heap res" where
  "set_next h p v = rbind (ld h p) (\<lambda>e. Inr (st h p (e\<lparr>e_next := v\<rparr>)))"

definition set_prev :: "heap \<Rightarrow> nat \<Rightarrow> nat \<Rightarrow> heap res" where
  "set_prev h p v = rbind (ld h p) (\<lambda>e. Inr (st h p (e\<lparr>e_prev := v\<rparr>)))"

definition set_next_if :: "heap \<Rightarrow> nat \<Rightarrow> nat \<Rightarrow> heap res" where
  "set_next_if h p v = (if p \<noteq> 0 then set_next h p v else Inr h)"

definition set_prev_if :: "heap \<Rightarrow> nat \<Rightarrow> nat \<Rightarrow> heap res" where
  "set_prev_if h p v = (if p \<noteq> 0 then set_prev h p v else Inr h)"

definition sbrk :: "heap \<Rightarrow> nat \<Rightarrow> (nat \<times> heap) option" where
  "sbrk h inc =
     (let new = int (brk h) + signed64 inc
      in if int (brk_low h) \<le> new \<and> new \<le> int (brk_limit h)
         then Some (brk h, h\<lparr>brk := nat new\<rparr>) else None)"

section \<open>malloc\<close>

text \<open>\<open>size\<close> after the rounding at the head of \<open>malloc\<close> and of \<open>realloc\<close>.\<close>

definition round_size :: "nat \<Rightarrow> nat" where
  "round_size sz =
     (let total = w64 (sz + sizeof_entry + sizeof_end + 15) div 16;
          total = w64 (total * 16)
      in sub64 (sub64 total sizeof_entry) sizeof_end)"

text \<open>
  The search of the free list for the first block that is large enough, 0 when none is. The
  fuel bounds the number of entries visited.
\<close>

fun find_fit :: "nat \<Rightarrow> heap \<Rightarrow> nat \<Rightarrow> nat \<Rightarrow> nat res" where
  "find_fit 0 h ptr sz = Inl Out_of_fuel"
| "find_fit (Suc fuel) h ptr sz =
     (if ptr = 0 then Inr 0
      else rbind (ld h ptr) (\<lambda>e. if sz \<le> e_size e then Inr ptr
        else find_fit fuel h (e_next e) sz))"

text \<open>Every entry is at least 48 bytes away from the next, so this fuel is enough.\<close>

definition walk_fuel :: "heap \<Rightarrow> nat" where
  "walk_fuel h = Suc ((brk h - brk_low h) div 48)"

definition malloc_sbrk :: "heap \<Rightarrow> nat \<Rightarrow> (nat \<times> heap) res" where
  "malloc_sbrk h sz =
     (case sbrk h (w64 (sizeof_entry + sz + sizeof_end)) of
        None \<Rightarrow> Inr (0, h)
      | Some (entr, h) \<Rightarrow>
          let h = (if h_start h = 0 then h\<lparr>h_start := entr\<rparr> else h);
              h = h\<lparr>h_final := entr\<rparr>
          in rbind (st_new h entr \<lparr>e_size = sz, e_free = False, e_next = 0, e_prev = 0\<rparr>) (\<lambda>h.
             rbind (st_end h (w64 (entr + sizeof_entry + sz)) sz) (\<lambda>h.
             Inr (w64 (entr + sizeof_entry), h))))"

text \<open>The headers, the end tags and the static pointers of the two halves of a split block.\<close>

definition split_headers :: "heap \<Rightarrow> nat \<Rightarrow> entry \<Rightarrow> nat \<Rightarrow> nat \<Rightarrow> heap res" where
  "split_headers h entr e sz newentry =
     (let newsize = sub64 (sub64 (sub64 (e_size e) sz) sizeof_entry) sizeof_end;
          h = st h entr (e\<lparr>e_size := sz, e_prev := 0, e_next := 0\<rparr>)
      in rbind (st_end h (w64 (entr + sz + sizeof_entry)) sz) (\<lambda>h.
         rbind (st_new h newentry \<lparr>e_size = newsize, e_free = True, e_next = 0, e_prev = 0\<rparr>) (\<lambda>h.
         rbind (st_end h (w64 (newentry + newsize + sizeof_entry)) newsize) (\<lambda>h.
         let h = (if h_final h = entr then h\<lparr>h_final := newentry\<rparr> else h)
         in Inr (if entr = h_head h then h\<lparr>h_head := newentry\<rparr> else h)))))"

definition malloc_split :: "heap \<Rightarrow> nat \<Rightarrow> entry \<Rightarrow> nat \<Rightarrow> (nat \<times> heap) res" where
  "malloc_split h entr e sz =
     (if brk h < w64 (entr + sizeof_entry + sizeof_end + e_size e) then Inl (Exited 11)
      else
        let previous = e_prev e; next = e_next e;
            newentry = w64 (entr + sz + sizeof_end + sizeof_entry)
        in rbind (split_headers h entr e sz newentry) (\<lambda>h.
           rbind (set_prev h newentry previous) (\<lambda>h.
           rbind (set_next h newentry next) (\<lambda>h.
           rbind (set_next_if h previous newentry) (\<lambda>h.
           rbind (set_prev_if h next newentry) (\<lambda>h.
           Inr (w64 (entr + sizeof_entry), h)))))))"

definition malloc_whole :: "heap \<Rightarrow> nat \<Rightarrow> entry \<Rightarrow> (nat \<times> heap) res" where
  "malloc_whole h entr e =
     (let previous = e_prev e; next = e_next e;
          h = (if entr = h_head h then h\<lparr>h_head := next\<rparr> else h)
      in rbind (set_next_if h previous next) (\<lambda>h.
         rbind (set_prev_if h next previous) (\<lambda>h.
         rbind (set_prev h entr 0) (\<lambda>h.
         rbind (set_next h entr 0) (\<lambda>h.
         Inr (w64 (entr + sizeof_entry), h))))))"

definition malloc :: "heap \<Rightarrow> nat \<Rightarrow> (nat \<times> heap) res" where
  "malloc h size0 =
     (if size0 = 0 then Inr (0, h)
      else let sz = round_size size0 in
        rbind (find_fit (walk_fuel h) h (h_head h) sz) (\<lambda>entr.
          if entr = 0 then malloc_sbrk h sz
          else rbind (ld h entr) (\<lambda>e.
            let e = e\<lparr>e_free := False\<rparr>; h = st h entr e in
            if sz < e_size e
               \<and> w64 (threshold + sz + sizeof_entry + sizeof_end) \<le> e_size e
            then malloc_split h entr e sz
            else malloc_whole h entr e)))"

section \<open>free\<close>

text \<open>\<open>p != NULL && p->free\<close>\<close>

definition is_free :: "heap \<Rightarrow> nat \<Rightarrow> bool res" where
  "is_free h p = (if p = 0 then Inr False else rbind (ld h p) (\<lambda>e. Inr (e_free e)))"

text \<open>The block before \<open>entr\<close> is merged with it.\<close>

definition free_prev :: "heap \<Rightarrow> nat \<Rightarrow> nat \<Rightarrow> heap res" where
  "free_prev h entr previous =
     rbind (ld h entr) (\<lambda>e.
     rbind (ld h previous) (\<lambda>p.
       let s = w64 (e_size p + sizeof_end + sizeof_entry + e_size e);
           h = st h previous (p\<lparr>e_size := s\<rparr>)
       in rbind (st_end h (w64 (previous + s + sizeof_entry)) s) (\<lambda>h.
          Inr (if h_final h = entr then h\<lparr>h_final := previous\<rparr> else h))))"

text \<open>\<open>entr\<close> is merged with the block after it and takes its place in the free list.\<close>

definition free_next :: "heap \<Rightarrow> nat \<Rightarrow> nat \<Rightarrow> heap res" where
  "free_next h entr next =
     (let h = (if h_head h = next then h\<lparr>h_head := entr\<rparr> else h);
          h = (if h_final h = next then h\<lparr>h_final := entr\<rparr> else h)
      in rbind (ld h entr) (\<lambda>e.
         rbind (ld h next) (\<lambda>n.
           let beforenext = e_prev n; afternext = e_next n;
               s = w64 (e_size e + sizeof_end + sizeof_entry + e_size n)
           in rbind (st_end h (w64 (entr + s + sizeof_entry)) s) (\<lambda>h.
              let h = st h entr (e\<lparr>e_size := s, e_prev := beforenext, e_next := afternext\<rparr>)
              in rbind (set_next_if h beforenext entr) (\<lambda>h.
                 set_prev_if h afternext entr)))))"

text \<open>\<open>entr\<close> and the block after it are merged into the block before.\<close>

definition free_both :: "heap \<Rightarrow> nat \<Rightarrow> nat \<Rightarrow> nat \<Rightarrow> heap res" where
  "free_both h entr previous next =
     (let h = (if h_final h = next then h\<lparr>h_final := previous\<rparr> else h)
      in rbind (ld h entr) (\<lambda>e.
         rbind (ld h previous) (\<lambda>p.
         rbind (ld h next) (\<lambda>n.
           let s = w64 (e_size p + 2 * sizeof_end + 2 * sizeof_entry + e_size e + e_size n)
           in rbind (st_end h (w64 (previous + s + sizeof_entry)) s) (\<lambda>h.
              let afternext = e_next n;
                  h = st h previous (p\<lparr>e_size := s, e_next := afternext\<rparr>)
              in set_prev_if h afternext previous)))))"

text \<open>The walk to the place of \<open>entr\<close> in the free list, which is kept in address order.\<close>

fun find_place :: "nat \<Rightarrow> heap \<Rightarrow> nat \<Rightarrow> nat \<Rightarrow> nat res" where
  "find_place 0 h p entr = Inl Out_of_fuel"
| "find_place (Suc fuel) h p entr =
     rbind (ld h p) (\<lambda>e.
       if e_next e = 0 then Inr p
       else rbind (guard (e_free e) Assert_failed) (\<lambda>_.
         if entr < p then Inr p else find_place fuel h (e_next e) entr))"

definition free_insert :: "heap \<Rightarrow> nat \<Rightarrow> heap res" where
  "free_insert h entr =
     (if h_head h = 0 then Inr (h\<lparr>h_head := entr\<rparr>)
      else rbind (find_place (walk_fuel h) h (h_head h) entr) (\<lambda>p.
        if p < entr then
          rbind (set_next h p entr) (\<lambda>h.
          rbind (set_prev h entr p) (\<lambda>h.
          rbind (ld h entr) (\<lambda>e.
          rbind (guard (e_next e = 0) Assert_failed) (\<lambda>_. Inr h))))
        else
          rbind (ld h p) (\<lambda>pe.
          let before = e_prev pe in
          rbind (guard (p = h_head h \<longrightarrow> before = 0) Assert_failed) (\<lambda>_.
          let h = (if p = h_head h then h\<lparr>h_head := entr\<rparr> else h) in
          rbind (set_prev h entr before) (\<lambda>h.
          rbind (set_next h entr p) (\<lambda>h.
          rbind (set_next_if h before entr) (\<lambda>h.
          set_prev h p entr)))))))"

text \<open>The blocks before and after \<open>entr\<close>, 0 at the ends of the heap.\<close>

definition block_before :: "heap \<Rightarrow> nat \<Rightarrow> nat res" where
  "block_before h entr =
     (if h_start h < entr
      then rbind (ld_end h (sub64 entr sizeof_end)) (\<lambda>s.
        Inr (sub64 (sub64 (sub64 entr sizeof_end) s) sizeof_entry))
      else Inr 0)"

definition block_after :: "heap \<Rightarrow> nat \<Rightarrow> entry \<Rightarrow> nat" where
  "block_after h entr e =
     (if entr < h_final h then w64 (entr + sizeof_entry + e_size e + sizeof_end) else 0)"

definition free_merge :: "heap \<Rightarrow> nat \<Rightarrow> nat \<Rightarrow> nat \<Rightarrow> heap res" where
  "free_merge h entr previous next =
     rbind (is_free h previous) (\<lambda>previous_free.
     rbind (is_free h next) (\<lambda>next_free.
       if previous_free \<and> \<not> next_free then free_prev h entr previous
       else if \<not> previous_free \<and> next_free then free_next h entr next
       else if previous_free \<and> next_free then free_both h entr previous next
       else free_insert h entr))"

definition free :: "heap \<Rightarrow> nat \<Rightarrow> heap res" where
  "free h ptr =
     (if ptr = 0 then Inr h
      else rbind (guard (ptr \<le> w64 (h_final h + sizeof_entry) \<and> w64 (h_start h + sizeof_entry) \<le> ptr)
                    Assert_failed) (\<lambda>_.
        let entr = sub64 ptr sizeof_entry in
        rbind (ld h entr) (\<lambda>e.
        rbind (guard (\<not> e_free e) Assert_failed) (\<lambda>_.
        let e = e\<lparr>e_free := True\<rparr>; h = st h entr e in
        rbind (block_before h entr) (\<lambda>previous.
        free_merge h entr previous (block_after h entr e))))))"

section \<open>calloc and realloc\<close>

text \<open>The bytes that are filled or copied lie in the memory that \<open>sbrk\<close> has given out.\<close>

definition memset :: "heap \<Rightarrow> nat \<Rightarrow> 8 word \<Rightarrow> nat \<Rightarrow> heap res" where
  "memset h p c n = rbind (guard (in_heap h p n) Bad_access) (\<lambda>_.
     Inr (h\<lparr>payload := (\<lambda>a. if p \<le> a \<and> a < p + n then c else payload h a)\<rparr>))"

definition memcpy :: "heap \<Rightarrow> nat \<Rightarrow> nat \<Rightarrow> nat \<Rightarrow> heap res" where
  "memcpy h dest src n = rbind (guard (in_heap h dest n \<and> in_heap h src n) Bad_access) (\<lambda>_.
     Inr (h\<lparr>payload := (\<lambda>a. if dest \<le> a \<and> a < dest + n then payload h (src + (a - dest))
                       else payload h a)\<rparr>))"

definition calloc :: "heap \<Rightarrow> nat \<Rightarrow> nat \<Rightarrow> (nat \<times> heap) res" where
  "calloc h num sz =
     rbind (malloc h (w64 (num * sz))) (\<lambda>(result, h).
       if result = 0 then Inr (0, h)
       else rbind (memset h result 0 (w64 (num * sz))) (\<lambda>h. Inr (result, h)))"

definition realloc :: "heap \<Rightarrow> nat \<Rightarrow> nat \<Rightarrow> (nat \<times> heap) res" where
  "realloc h ptr size0 =
     (if ptr = 0 then malloc h size0
      else if size0 = 0 then rbind (free h ptr) (\<lambda>h. Inr (0, h))
      else
        let sz = round_size size0; entr = sub64 ptr sizeof_entry in
        rbind (guard (h_start h \<le> entr \<and> entr \<le> h_final h) Assert_failed) (\<lambda>_.
        rbind (ld h entr) (\<lambda>e.
        rbind (guard (\<not> e_free e) Assert_failed) (\<lambda>_.
        rbind (malloc h sz) (\<lambda>(result, h).
        if result = 0 then Inr (0, h)
        else rbind (ld h entr) (\<lambda>e.
          rbind (memcpy h result ptr (if sz < e_size e then sz else e_size e)) (\<lambda>h.
          rbind (free h ptr) (\<lambda>h. Inr (result, h)))))))))"

end
