(* ===== verification/Alloc_Correct.thy ===== *)
theory Alloc_Correct
  imports Alloc
begin

text \<open>
  Correctness of \<^verbatim>\<open>src/malloc/alloc.c\<close>. The abstract heap is the list of the blocks
  between the first address the allocator got from \<open>sbrk\<close> and the break, in address order.
  \<open>heap_inv\<close> relates the concrete heap to such a list; \<open>malloc\<close> and \<open>free\<close> are shown to
  refine first fit with splitting and release with coalescing on lists of blocks.
\<close>

section \<open>Lists of blocks\<close>

datatype block = Block (b_addr: nat) (b_size: nat) (b_free: bool)

definition b_end :: "block \<Rightarrow> nat" where
  "b_end b = b_addr b + b_size b + 40"

lemma b_end_Block [simp]: "b_end (Block a s f) = a + s + 40"
  by (simp add: b_end_def)

text \<open>The blocks follow each other without a gap from \<open>a\<close> to \<open>b\<close>.\<close>

fun tiles :: "nat \<Rightarrow> block list \<Rightarrow> nat \<Rightarrow> bool" where
  "tiles a [] z \<longleftrightarrow> a = z"
| "tiles a (b # bs) z \<longleftrightarrow> b_addr b = a \<and> tiles (b_end b) bs z"

definition free_addrs :: "block list \<Rightarrow> nat list" where
  "free_addrs bs = map b_addr (filter b_free bs)"

definition no_adjacent_free :: "block list \<Rightarrow> bool" where
  "no_adjacent_free bs \<longleftrightarrow> successively (\<lambda>b c. \<not> (b_free b \<and> b_free c)) bs"

definition block_shape :: "block \<Rightarrow> bool" where
  "block_shape b \<longleftrightarrow> b_addr b mod 16 = 0 \<and> b_size b mod 16 = 8"

text \<open>The first fit in the block list: the block is split when the rest is worth keeping.\<close>

definition carve :: "nat \<Rightarrow> block \<Rightarrow> block list" where
  "carve n b =
     (if n < b_size b \<and> threshold + n + 40 \<le> b_size b
      then [Block (b_addr b) n False, Block (b_addr b + 40 + n) (b_size b - n - 40) True]
      else [Block (b_addr b) (b_size b) False])"

fun take_fit :: "nat \<Rightarrow> block list \<Rightarrow> (nat \<times> block list) option" where
  "take_fit n [] = None"
| "take_fit n (b # bs) =
     (if b_free b \<and> n \<le> b_size b then Some (b_addr b, carve n b @ bs)
      else map_option (\<lambda>(p, cs). (p, b # cs)) (take_fit n bs))"

text \<open>Release: mark the block free, then merge every run of adjacent free blocks.\<close>

definition mark_free :: "nat \<Rightarrow> block list \<Rightarrow> block list" where
  "mark_free a bs = map (\<lambda>b. if b_addr b = a then Block a (b_size b) True else b) bs"

fun join_block :: "block \<Rightarrow> block list \<Rightarrow> block list" where
  "join_block b [] = [b]"
| "join_block b (c # cs) =
     (if b_free b \<and> b_free c then Block (b_addr b) (b_size b + 40 + b_size c) True # cs
      else b # c # cs)"

fun coalesce :: "block list \<Rightarrow> block list" where
  "coalesce [] = []"
| "coalesce (b # bs) = join_block b (coalesce bs)"

lemma free_addrs_simps [simp]:
  "free_addrs [] = []"
  "free_addrs (b # bs) = (if b_free b then b_addr b # free_addrs bs else free_addrs bs)"
  "free_addrs (bs @ cs) = free_addrs bs @ free_addrs cs"
  by (simp_all add: free_addrs_def)

lemma set_free_addrs: "set (free_addrs bs) = {b_addr b |b. b \<in> set bs \<and> b_free b}"
  by (auto simp: free_addrs_def)

lemma tiles_append: "tiles a (bs @ cs) z \<longleftrightarrow> (\<exists>m. tiles a bs m \<and> tiles m cs z)"
  by (induction bs arbitrary: a) auto

lemma tiles_le: "tiles a bs z \<Longrightarrow> a + 40 * length bs \<le> z"
proof (induction bs arbitrary: a)
  case (Cons b bs)
  then have "b_end b + 40 * length bs \<le> z" and "b_addr b = a" by auto
  then show ?case by (simp add: b_end_def)
qed simp

lemma tiles_range: "tiles a bs z \<Longrightarrow> b \<in> set bs \<Longrightarrow> a \<le> b_addr b \<and> b_end b \<le> z"
proof (induction bs arbitrary: a)
  case (Cons c bs)
  show ?case
  proof (cases "b = c")
    case True
    with Cons.prems tiles_le [of "b_end c" bs z] show ?thesis by simp
  next
    case False
    with Cons have "b_end c \<le> b_addr b \<and> b_end b \<le> z" by auto
    with Cons.prems show ?thesis by (auto simp: b_end_def)
  qed
qed simp

lemma tiles_length: 
  assumes "tiles a bs z" and "\<And>b. b \<in> set bs \<Longrightarrow> 8 \<le> b_size b"
  shows "a + 48 * length bs \<le> z"
  using assms
proof (induction bs arbitrary: a)
  case (Cons b bs)
  then have "b_end b + 48 * length bs \<le> z" by auto
  moreover have "b_addr b = a" and "8 \<le> b_size b" using Cons.prems by auto
  ultimately show ?case by (simp add: b_end_def)
qed simp

lemma no_adjacent_free_simps [simp]:
  "no_adjacent_free []"
  "no_adjacent_free [b]"
  "no_adjacent_free (b # c # bs) \<longleftrightarrow> \<not> (b_free b \<and> b_free c) \<and> no_adjacent_free (c # bs)"
  by (simp_all add: no_adjacent_free_def)

lemma no_adjacent_free_append:
  "no_adjacent_free (bs @ cs) \<longleftrightarrow> no_adjacent_free bs \<and> no_adjacent_free cs
     \<and> (bs = [] \<or> cs = [] \<or> \<not> (b_free (last bs) \<and> b_free (hd cs)))"
  by (auto simp: no_adjacent_free_def successively_append_iff)

lemma no_adjacent_free_Cons:
  "no_adjacent_free (b # bs) \<longleftrightarrow> no_adjacent_free bs \<and> (bs = [] \<or> \<not> (b_free b \<and> b_free (hd bs)))"
  by (cases bs) auto

text \<open>The blocks before and after the block at one address.\<close>

lemma tiles_before: "tiles a (bs @ b # cs) z \<Longrightarrow> c \<in> set bs \<Longrightarrow> b_end c \<le> b_addr b"
  by (auto simp: tiles_append dest!: tiles_range)

lemma tiles_after: "tiles a (bs @ b # cs) z \<Longrightarrow> c \<in> set cs \<Longrightarrow> b_end b \<le> b_addr c"
  by (auto simp: tiles_append dest!: tiles_range)

lemma tiles_distinct:
  assumes "tiles a (bs @ b # cs) z"
  shows "b_addr b \<notin> b_addr ` set bs" "b_addr b \<notin> b_addr ` set cs"
    "b_addr b \<notin> set (free_addrs bs)" "b_addr b \<notin> set (free_addrs cs)"
proof -
  have bef: "b_addr c < b_addr b" if "c \<in> set bs" for c
    using tiles_before [OF assms that] by (simp add: b_end_def)
  have aft: "b_addr b < b_addr c" if "c \<in> set cs" for c
    using tiles_after [OF assms that] by (simp add: b_end_def)
  have bs: "b_addr c \<noteq> b_addr b" if "c \<in> set bs" for c
    using bef [OF that] by simp
  have cs: "b_addr c \<noteq> b_addr b" if "c \<in> set cs" for c
    using aft [OF that] by simp
  show "b_addr b \<notin> b_addr ` set bs" "b_addr b \<notin> set (free_addrs bs)"
    using bs by (auto simp: set_free_addrs) metis+
  show "b_addr b \<notin> b_addr ` set cs" "b_addr b \<notin> set (free_addrs cs)"
    using cs by (auto simp: set_free_addrs) metis+
qed

lemma tiles_free_sorted: "tiles a bs z \<Longrightarrow> sorted_wrt (<) (free_addrs bs) \<and> (\<forall>x \<in> set (free_addrs bs). a \<le> x)"
proof (induction bs arbitrary: a)
  case (Cons b bs)
  then have "sorted_wrt (<) (free_addrs bs)" and le: "\<And>x. x \<in> set (free_addrs bs) \<Longrightarrow> b_end b \<le> x"
    and "b_addr b = a" by auto
  moreover have "b_addr b < x" if "x \<in> set (free_addrs bs)" for x
    using le [OF that] by (simp add: b_end_def)
  ultimately show ?case by (auto intro: less_imp_le)
qed simp

lemma tiles_free_distinct: "tiles a bs z \<Longrightarrow> distinct (free_addrs bs)"
  using tiles_free_sorted strict_sorted_iff by blast

lemma tiles_unique:
  assumes "tiles a bs z" and "c \<in> set bs" and "d \<in> set bs" and "b_addr c = b_addr d"
  shows "c = d"
proof -
  from split_list [OF assms(2)] obtain xs ys where bs: "bs = xs @ c # ys" by blast
  with assms(1) have "b_addr c \<notin> b_addr ` set xs" "b_addr c \<notin> b_addr ` set ys"
    using tiles_distinct by blast+
  with assms(3,4) bs show ?thesis by auto
qed

lemma tiles_same_extent:
  "tiles a (bs @ b # cs) z \<Longrightarrow> b_addr b' = b_addr b \<Longrightarrow> b_end b' = b_end b \<Longrightarrow> tiles a (bs @ b' # cs) z"
  by (auto simp: tiles_append)

section \<open>The doubly linked free list\<close>

text \<open>
  \<open>dseg m p xs n\<close>: the entries at the addresses \<open>xs\<close> are linked in this order, the first
  one back to \<open>p\<close> and the last one on to \<open>n\<close>.
\<close>

fun dseg :: "(nat \<rightharpoonup> entry) \<Rightarrow> nat \<Rightarrow> nat list \<Rightarrow> nat \<Rightarrow> bool" where
  "dseg m p [] n \<longleftrightarrow> True"
| "dseg m p (x # xs) n \<longleftrightarrow>
     (\<exists>e. m x = Some e \<and> e_prev e = p \<and> e_next e = hd_or n xs) \<and> dseg m x xs n"

lemma dseg_append:
  "dseg m p (xs @ ys) n \<longleftrightarrow> dseg m p xs (hd_or n ys) \<and> dseg m (last_or p xs) ys n"
  by (induction xs arbitrary: p) auto

lemma dseg_cong:
  "\<lbrakk>dseg m p xs n; \<And>x. x \<in> set xs \<Longrightarrow> m' x = m x\<rbrakk> \<Longrightarrow> dseg m' p xs n"
  by (induction xs arbitrary: p) auto

lemma dseg_upd [simp]: "x \<notin> set xs \<Longrightarrow> dseg (m(x \<mapsto> e)) p xs n = dseg m p xs n"
  by (induction xs arbitrary: p) auto

text \<open>Two header maps that differ in the links of the entries at \<open>A\<close> only.\<close>

definition relinked :: "nat set \<Rightarrow> (nat \<rightharpoonup> entry) \<Rightarrow> (nat \<rightharpoonup> entry) \<Rightarrow> bool" where
  "relinked A m m' \<longleftrightarrow> (\<forall>x. (x \<notin> A \<longrightarrow> m' x = m x) \<and>
     (\<forall>e. m x = Some e \<longrightarrow> (\<exists>p n. m' x = Some (e\<lparr>e_prev := p, e_next := n\<rparr>))))"

lemma relinked_refl: "relinked A m m"
  unfolding relinked_def by (metis entry.surjective entry.update_convs(3,4))

lemma relinked_next:
  "m x = Some e \<Longrightarrow> x \<in> A \<Longrightarrow> relinked A m (m(x \<mapsto> e\<lparr>e_next := v\<rparr>))"
  unfolding relinked_def
  by (auto, (metis entry.surjective entry.update_convs(3,4))+)

lemma relinked_prev:
  "m x = Some e \<Longrightarrow> x \<in> A \<Longrightarrow> relinked A m (m(x \<mapsto> e\<lparr>e_prev := v\<rparr>))"
  unfolding relinked_def
  by (auto, (metis entry.surjective entry.update_convs(3,4))+)

lemma relinked_outside: "relinked A m m' \<Longrightarrow> x \<notin> A \<Longrightarrow> m' x = m x"
  by (simp add: relinked_def)

lemma relinked_trans:
  assumes "relinked A m m'" and "relinked B m' m''"
  shows "relinked (A \<union> B) m m''"
  unfolding relinked_def
proof (intro allI conjI impI)
  fix x
  show "m'' x = m x" if "x \<notin> A \<union> B"
    using that assms by (simp add: relinked_def)
  fix e
  assume "m x = Some e"
  with assms(1) obtain p n where "m' x = Some (e\<lparr>e_prev := p, e_next := n\<rparr>)"
    unfolding relinked_def by blast
  with assms(2) obtain p' n' where "m'' x = Some (e\<lparr>e_prev := p, e_next := n\<rparr>\<lparr>e_prev := p', e_next := n'\<rparr>)"
    unfolding relinked_def by blast
  then show "\<exists>p n. m'' x = Some (e\<lparr>e_prev := p, e_next := n\<rparr>)" by auto
qed

lemma dseg_relinked_outside:
  "relinked A m m' \<Longrightarrow> set xs \<inter> A = {} \<Longrightarrow> dseg m' p xs n = dseg m p xs n"
  by (induction xs arbitrary: p) (auto simp: relinked_def)


lemma ld_st [simp]: "ld (st h p e) q = (if q = p \<and> q \<noteq> 0 then Inr e else ld h q)"
  by (auto simp: ld_def st_def)

lemma ld_hdr: "x \<noteq> 0 \<Longrightarrow> hdr h x = Some e \<Longrightarrow> ld h x = Inr e"
  by (simp add: ld_def)

lemma set_next_if_seg:
  assumes "dseg (hdr h) p xs n" and "0 \<notin> set xs" and "distinct xs"
  shows "\<exists>m. set_next_if h (last_or 0 xs) v = Inr (h\<lparr>hdr := m\<rparr>)
    \<and> relinked (set xs) (hdr h) m \<and> dseg m p xs v"
proof (cases xs rule: rev_cases)
  case Nil
  then show ?thesis
    by (intro exI [of _ "hdr h"]) (simp add: set_next_if_def relinked_refl)
next
  case (snoc ys y)
  with assms obtain e where e: "hdr h y = Some e" "e_prev e = last_or p ys" "y \<noteq> 0"
    and ys: "dseg (hdr h) p ys y" "y \<notin> set ys"
    by (auto simp: dseg_append)
  let ?m = "(hdr h)(y \<mapsto> e\<lparr>e_next := v\<rparr>)"
  have "set_next_if h y v = Inr (h\<lparr>hdr := ?m\<rparr>)"
    using e by (simp add: set_next_if_def set_next_def ld_hdr st_def)
  moreover have "relinked (set xs) (hdr h) ?m"
    using e snoc by (intro relinked_next) auto
  moreover have "dseg ?m p xs v"
    using e ys snoc by (simp add: dseg_append)
  ultimately show ?thesis using snoc by auto
qed

lemma set_prev_if_seg:
  assumes "dseg (hdr h) p xs n" and "0 \<notin> set xs" and "distinct xs"
  shows "\<exists>m. set_prev_if h (hd_or 0 xs) v = Inr (h\<lparr>hdr := m\<rparr>)
    \<and> relinked (set xs) (hdr h) m \<and> dseg m v xs n"
proof (cases xs)
  case Nil
  then show ?thesis
    by (intro exI [of _ "hdr h"]) (simp add: set_prev_if_def relinked_refl)
next
  case (Cons y ys)
  with assms obtain e where e: "hdr h y = Some e" "e_next e = hd_or n ys" "y \<noteq> 0"
    and ys: "dseg (hdr h) y ys n" "y \<notin> set ys"
    by auto
  let ?m = "(hdr h)(y \<mapsto> e\<lparr>e_prev := v\<rparr>)"
  have "set_prev_if h y v = Inr (h\<lparr>hdr := ?m\<rparr>)"
    using e by (simp add: set_prev_if_def set_prev_def ld_hdr st_def)
  moreover have "relinked (set xs) (hdr h) ?m"
    using e Cons by (intro relinked_prev) auto
  moreover have "dseg ?m v xs n"
    using e ys Cons by simp
  ultimately show ?thesis using Cons by auto
qed

text \<open>
  Both neighbouring segments of the free list are linked to new ends: the last entry of \<open>X\<close>
  gets \<open>v\<close> as its successor, the first entry of \<open>Y\<close> gets \<open>w\<close> as its predecessor.
\<close>

lemma relink_around:
  assumes X: "dseg (hdr h) 0 X c" and Y: "dseg (hdr h) d Y 0"
    and nz: "0 \<notin> set X" "0 \<notin> set Y" and dist: "distinct X" "distinct Y"
    and XY: "set X \<inter> set Y = {}"
  obtains m2 m3
  where "set_next_if h (last_or 0 X) v = Inr (h\<lparr>hdr := m2\<rparr>)"
    and "set_prev_if (h\<lparr>hdr := m2\<rparr>) (hd_or 0 Y) w = Inr (h\<lparr>hdr := m3\<rparr>)"
    and "relinked (set X \<union> set Y) (hdr h) m3" and "dseg m3 0 X v" and "dseg m3 w Y 0"
proof -
  from set_next_if_seg [OF X nz(1) dist(1), of v] obtain m2
    where n: "set_next_if h (last_or 0 X) v = Inr (h\<lparr>hdr := m2\<rparr>)"
      and r2: "relinked (set X) (hdr h) m2" and X2: "dseg m2 0 X v" by blast
  have "dseg (hdr (h\<lparr>hdr := m2\<rparr>)) d Y 0"
    using Y XY dseg_relinked_outside [OF r2] by (simp add: Int_commute)
  from set_prev_if_seg [OF this nz(2) dist(2), of w] obtain m3
    where p: "set_prev_if (h\<lparr>hdr := m2\<rparr>) (hd_or 0 Y) w = Inr (h\<lparr>hdr := m3\<rparr>)"
      and r3: "relinked (set Y) m2 m3" and Y3: "dseg m3 w Y 0" by auto
  have "dseg m3 0 X v" using X2 XY dseg_relinked_outside [OF r3] by simp
  with n p relinked_trans [OF r2 r3] Y3 that show ?thesis by blast
qed

section \<open>The invariant\<close>

text \<open>The concrete memory holds the block \<open>b\<close>: its header, and its size again at its end.\<close>

definition blk :: "(nat \<rightharpoonup> entry) \<Rightarrow> (nat \<rightharpoonup> nat) \<Rightarrow> block \<Rightarrow> bool" where
  "blk m t b \<longleftrightarrow>
     (\<exists>e. m (b_addr b) = Some e \<and> e_size e = b_size b \<and> e_free e = b_free b
        \<and> (b_free b \<or> e_next e = 0 \<and> e_prev e = 0))
     \<and> t (b_addr b + b_size b + 32) = Some (b_size b)"

definition heap_inv :: "heap \<Rightarrow> block list \<Rightarrow> bool" where
  "heap_inv h bs \<longleftrightarrow>
     0 < brk_low h \<and> brk_low h \<le> hd_or (brk h) (map b_addr bs)
   \<and> brk h \<le> brk_limit h \<and> brk_limit h < 2 ^ 63 \<and> brk h mod 16 = 0
   \<and> tiles (hd_or (brk h) (map b_addr bs)) bs (brk h)
   \<and> list_all block_shape bs \<and> no_adjacent_free bs
   \<and> list_all (blk (hdr h) (endtag h)) bs
   \<and> h_start h = hd_or 0 (map b_addr bs) \<and> h_final h = last_or 0 (map b_addr bs)
   \<and> h_head h = hd_or 0 (free_addrs bs) \<and> dseg (hdr h) 0 (free_addrs bs) 0"

lemma heap_inv_init:
  "0 < low \<Longrightarrow> low \<le> limit \<Longrightarrow> limit < 2 ^ 63 \<Longrightarrow> low mod 16 = 0 \<Longrightarrow> heap_inv (heap_init low limit) []"
  by (simp add: heap_inv_def heap_init_def)

lemma blk_upd [simp]: "x \<noteq> b_addr b \<Longrightarrow> blk (m(x \<mapsto> e)) t b = blk m t b"
  by (simp add: blk_def)

lemma blk_tag [simp]: "x \<noteq> b_addr b + b_size b + 32 \<Longrightarrow> blk m (t(x \<mapsto> s)) b = blk m t b"
  by (simp add: blk_def)

lemma blk_relinked:
  assumes "blk m t b" and "relinked A m m'" and "b_addr b \<in> A \<Longrightarrow> b_free b"
  shows "blk m' t b"
proof -
  from assms(1) obtain e where e: "m (b_addr b) = Some e" "e_size e = b_size b" "e_free e = b_free b"
    "b_free b \<or> e_next e = 0 \<and> e_prev e = 0" by (auto simp: blk_def)
  show ?thesis
  proof (cases "b_addr b \<in> A")
    case True
    from e(1) assms(2) obtain p n where "m' (b_addr b) = Some (e\<lparr>e_prev := p, e_next := n\<rparr>)"
      unfolding relinked_def by blast
    with e assms(1) assms(3) [OF True] show ?thesis by (simp add: blk_def)
  next
    case False
    with assms(1,2) show ?thesis by (simp add: relinked_def blk_def)
  qed
qed

text \<open>A free list is untouched by what happens to the headers of blocks in use.\<close>

lemma heap_inv_range:
  assumes "heap_inv h bs" and "b \<in> set bs"
  shows "0 < b_addr b" "brk_low h \<le> b_addr b" "b_end b \<le> brk h" "brk h < 2 ^ 63" "block_shape b"
    "blk (hdr h) (endtag h) b"
proof -
  have "brk_low h \<le> hd_or (brk h) (map b_addr bs)" "tiles (hd_or (brk h) (map b_addr bs)) bs (brk h)"
    "0 < brk_low h"
    using assms(1) by (auto simp: heap_inv_def)
  with tiles_range [OF this(2) assms(2)]
  show "0 < b_addr b" "brk_low h \<le> b_addr b" "b_end b \<le> brk h" by auto
  show "brk h < 2 ^ 63" "block_shape b" "blk (hdr h) (endtag h) b"
    using assms by (auto simp: heap_inv_def list_all_iff)
qed

lemma block_shape_size: "block_shape b \<Longrightarrow> 8 \<le> b_size b"
  unfolding block_shape_def by (metis mod_less_eq_dividend)

lemma walk_fuel_enough:
  assumes "heap_inv h bs"
  shows "length (free_addrs bs) < walk_fuel h"
proof -
  let ?a = "hd_or (brk h) (map b_addr bs)"
  have t: "tiles ?a bs (brk h)" and low: "brk_low h \<le> ?a" and sh: "list_all block_shape bs"
    using assms by (auto simp: heap_inv_def)
  have "?a + 48 * length bs \<le> brk h"
    by (rule tiles_length [OF t]) (use sh block_shape_size in \<open>auto simp: list_all_iff\<close>)
  with low have "48 * length bs \<le> brk h - brk_low h" by linarith
  then have "length bs \<le> (brk h - brk_low h) div 48" by linarith
  moreover have "length (free_addrs bs) \<le> length bs"
    by (simp add: free_addrs_def)
  ultimately show ?thesis by (simp add: walk_fuel_def)
qed

section \<open>malloc\<close>

lemma find_fit_dseg:
  assumes "dseg (hdr h) p (free_addrs cs) 0" and "list_all (blk (hdr h) (endtag h)) cs"
    and "\<And>c. c \<in> set cs \<Longrightarrow> b_addr c \<noteq> 0" and "length (free_addrs cs) < fuel"
  shows "find_fit fuel h (hd_or 0 (free_addrs cs)) n =
    Inr (case find (\<lambda>b. b_free b \<and> n \<le> b_size b) cs of None \<Rightarrow> 0 | Some b \<Rightarrow> b_addr b)"
  using assms
proof (induction cs arbitrary: p fuel)
  case Nil
  then show ?case by (cases fuel) auto
next
  case (Cons c cs)
  show ?case
  proof (cases "b_free c")
    case False
    with Cons show ?thesis by auto
  next
    case True
    then obtain fuel' where fuel: "fuel = Suc fuel'" using Cons.prems(4) by (cases fuel) auto
    from True Cons.prems obtain e where e: "hdr h (b_addr c) = Some e" "e_size e = b_size c"
      "e_next e = hd_or 0 (free_addrs cs)" and nz: "b_addr c \<noteq> 0"
      and seg: "dseg (hdr h) (b_addr c) (free_addrs cs) 0"
      by (auto simp: blk_def)
    have IH: "find_fit fuel' h (hd_or 0 (free_addrs cs)) n =
      Inr (case find (\<lambda>b. b_free b \<and> n \<le> b_size b) cs of None \<Rightarrow> 0 | Some b \<Rightarrow> b_addr b)"
      using Cons.prems True fuel by (intro Cons.IH [OF seg]) auto
    show ?thesis using True fuel e nz IH by (simp add: ld_hdr)
  qed
qed


lemma take_fit_None: "take_fit n bs = None \<longleftrightarrow> find (\<lambda>b. b_free b \<and> n \<le> b_size b) bs = None"
  by (induction bs) auto

lemma take_fit_Some:
  "find (\<lambda>b. b_free b \<and> n \<le> b_size b) bs = Some b \<Longrightarrow>
   \<exists>xs ys. bs = xs @ b # ys \<and> b_free b \<and> n \<le> b_size b
     \<and> take_fit n bs = Some (b_addr b, xs @ carve n b @ ys)"
proof (induction bs)
  case (Cons c bs)
  show ?case
  proof (cases "b_free c \<and> n \<le> b_size c")
    case True
    with Cons.prems have "c = b" by simp
    with True show ?thesis by (intro exI [of _ "[]"] exI [of _ bs]) auto
  next
    case False
    with Cons obtain xs ys where "bs = xs @ b # ys" "b_free b" "n \<le> b_size b"
      "take_fit n bs = Some (b_addr b, xs @ carve n b @ ys)" by auto
    with False show ?thesis by (intro exI [of _ "c # xs"] exI [of _ ys]) auto
  qed
qed simp

text \<open>The effect of \<open>malloc\<close> on the abstract heap: the payload address (0 for failure) and the
  new blocks.\<close>

definition abs_malloc :: "nat \<Rightarrow> nat \<Rightarrow> nat \<Rightarrow> block list \<Rightarrow> nat \<times> block list" where
  "abs_malloc limit bk n bs =
     (case take_fit n bs of
        Some (a, cs) \<Rightarrow> (a + 32, cs)
      | None \<Rightarrow> if bk + n + 40 \<le> limit then (bk + 32, bs @ [Block bk n False]) else (0, bs))"

text \<open>Sizes whose rounding does not wrap around, and for which \<open>sbrk\<close> gets a positive increment.\<close>

definition sane_size :: "nat \<Rightarrow> bool" where
  "sane_size n \<longleftrightarrow> 0 < n \<and> n + 64 \<le> 2 ^ 63"

lemma round_size_eq: "sane_size n \<Longrightarrow> round_size n = (n + 55) div 16 * 16 - 40"
proof -
  assume "sane_size n"
  then have "0 < n" and lt: "n + 55 < 2 ^ 63" by (simp_all add: sane_size_def)
  from \<open>0 < n\<close> have "3 \<le> (n + 55) div 16" by (simp add: less_eq_div_iff_mult_less_eq)
  then have "48 \<le> (n + 55) div 16 * 16" by simp
  moreover have "(n + 55) div 16 * 16 < 2 ^ 63"
    using div_times_less_eq_dividend [of "n + 55" 16] lt by linarith
  ultimately show ?thesis
    using lt by (simp add: round_size_def w64_id sub64_id add.commute)
qed

lemma round_size_bounds:
  assumes "sane_size n"
  shows "n \<le> round_size n" "round_size n < n + 16" "round_size n mod 16 = 8" "round_size n + 40 < 2 ^ 63"
proof -
  let ?q = "(n + 55) div 16"
  have n: "0 < n" "n + 64 \<le> 2 ^ 63" using assms by (simp_all add: sane_size_def)
  have q: "?q * 16 \<le> n + 55" "n + 55 < ?q * 16 + 16" "3 \<le> ?q" using n by linarith+
  then obtain k where k: "?q = k + 3" by (metis add.commute le_add_diff_inverse)
  have eq: "round_size n = k * 16 + 8" using k by (simp add: round_size_eq [OF assms])
  show "n \<le> round_size n" "round_size n < n + 16" "round_size n mod 16 = 8" "round_size n + 40 < 2 ^ 63"
    using q k n unfolding eq by simp_all
qed

lemma carve_split_shape:
  assumes "block_shape b" and "n mod 16 = 8" and "threshold + n + 40 \<le> b_size b"
  shows "block_shape (Block (b_addr b) n False)"
    "block_shape (Block (b_addr b + 40 + n) (b_size b - n - 40) True)"
proof -
  from assms(1) have a: "b_addr b mod 16 = 0" and s: "b_size b mod 16 = 8"
    by (auto simp: block_shape_def)
  from assms(2) obtain k where k: "n = 16 * k + 8" by (metis mult_div_mod_eq)
  from s obtain l where l: "b_size b = 16 * l + 8" by (metis mult_div_mod_eq)
  from a obtain j where j: "b_addr b = 16 * j" by (metis mod_0_imp_dvd dvdE)
  have "b_size b - n - 40 = 16 * (l - k - 3) + 8" using k l assms(3) by simp
  moreover have "b_addr b + 40 + n = 16 * (j + k + 3)" using k j by simp
  ultimately show "block_shape (Block (b_addr b) n False)"
    "block_shape (Block (b_addr b + 40 + n) (b_size b - n - 40) True)"
    using a k unfolding block_shape_def by (simp_all only: block.sel mod_mult_self3 mod_mult_self1_is_0 mod_mult_self2_is_0) auto
qed


text \<open>What the steps of the allocator never touch.\<close>

definition frame :: "heap \<Rightarrow> heap \<Rightarrow> bool" where
  "frame h h' \<longleftrightarrow> payload h' = payload h \<and> brk_low h' = brk_low h \<and> brk_limit h' = brk_limit h"

lemma frame_refl [simp]: "frame h h"
  by (simp add: frame_def)

text \<open>The facts about one free block and its neighbours that the operations on it start from.\<close>

lemma heap_inv_at:
  assumes "heap_inv h (xs @ b # ys)"
  shows "tiles (hd_or (brk h) (map b_addr (xs @ b # ys))) (xs @ b # ys) (brk h)"
    and "list_all block_shape xs" "block_shape b" "list_all block_shape ys"
    and "list_all (blk (hdr h) (endtag h)) xs" "blk (hdr h) (endtag h) b"
        "list_all (blk (hdr h) (endtag h)) ys"
    and "b_addr b \<noteq> 0" "b_addr b \<notin> set (free_addrs xs)" "b_addr b \<notin> set (free_addrs ys)"
    and "0 \<notin> set (free_addrs xs)" "0 \<notin> set (free_addrs ys)"
    and "distinct (free_addrs xs)" "distinct (free_addrs ys)"
    and "set (free_addrs xs) \<inter> set (free_addrs ys) = {}"
proof -
  let ?bs = "xs @ b # ys"
  show t: "tiles (hd_or (brk h) (map b_addr ?bs)) ?bs (brk h)"
    using assms by (simp add: heap_inv_def)
  show "list_all block_shape xs" "block_shape b" "list_all block_shape ys"
    "list_all (blk (hdr h) (endtag h)) xs" "blk (hdr h) (endtag h) b"
    "list_all (blk (hdr h) (endtag h)) ys"
    using assms by (auto simp: heap_inv_def)
  have pos: "0 < b_addr c" if "c \<in> set ?bs" for c
    using heap_inv_range(1) [OF assms that] .
  then show "b_addr b \<noteq> 0" "0 \<notin> set (free_addrs xs)" "0 \<notin> set (free_addrs ys)"
    by (fastforce simp: set_free_addrs)+
  show "b_addr b \<notin> set (free_addrs xs)" "b_addr b \<notin> set (free_addrs ys)"
    using tiles_distinct [OF t] by auto
  have "distinct (free_addrs ?bs)" by (rule tiles_free_distinct [OF t])
  then show "distinct (free_addrs xs)" "distinct (free_addrs ys)"
    "set (free_addrs xs) \<inter> set (free_addrs ys) = {}"
    by (auto split: if_splits)
qed

lemma heap_inv_links:
  assumes "heap_inv h (xs @ b # ys)" and "b_free b"
  obtains e where "hdr h (b_addr b) = Some e" "e_size e = b_size b" "e_free e"
    "e_prev e = last_or 0 (free_addrs xs)" "e_next e = hd_or 0 (free_addrs ys)"
    "dseg (hdr h) 0 (free_addrs xs) (b_addr b)" "dseg (hdr h) (b_addr b) (free_addrs ys) 0"
proof -
  have "blk (hdr h) (endtag h) b" "dseg (hdr h) 0 (free_addrs (xs @ b # ys)) 0"
    using assms(1) by (auto simp: heap_inv_def)
  with assms(2) that show ?thesis by (auto simp: blk_def dseg_append)
qed

lemma heap_inv_others:
  assumes inv: "heap_inv h (xs @ b # ys)" and c: "c \<in> set xs \<union> set ys"
  shows "blk (hdr h) (endtag h) c" "b_addr c \<noteq> b_addr b"
    "b_addr c \<in> set (free_addrs xs) \<union> set (free_addrs ys) \<Longrightarrow> b_free c"
    "b_end c \<le> b_addr b \<or> b_end b \<le> b_addr c"
proof -
  note at = heap_inv_at [OF inv]
  show "blk (hdr h) (endtag h) c" using c at(5,7) by (auto simp: list_all_iff)
  show "b_end c \<le> b_addr b \<or> b_end b \<le> b_addr c"
    using c tiles_before [OF at(1)] tiles_after [OF at(1)] by auto
  then show "b_addr c \<noteq> b_addr b" by (auto simp: b_end_def)
  show "b_free c" if "b_addr c \<in> set (free_addrs xs) \<union> set (free_addrs ys)"
  proof -
    from that have "\<exists>d \<in> set (xs @ b # ys). b_free d \<and> b_addr d = b_addr c"
      by (auto simp: set_free_addrs)
    then obtain d where d: "d \<in> set (xs @ b # ys)" "b_free d" "b_addr d = b_addr c"
      by blast
    have "c = d"
      by (rule tiles_unique [OF at(1) _ d(1)]) (use c d(3) in auto)
    with d(2) show ?thesis by simp
  qed
qed

lemma heap_inv_ends:
  assumes inv: "heap_inv h (xs @ b # ys)"
  shows "h_start h < b_addr b \<longleftrightarrow> xs \<noteq> []" "b_addr b < h_final h \<longleftrightarrow> ys \<noteq> []"
    "h_final h = b_addr b \<longleftrightarrow> ys = []" "h_start h \<le> b_addr b" "b_addr b \<le> h_final h"
proof -
  note at = heap_inv_at [OF inv]
  have st: "h_start h = hd_or (b_addr b) (map b_addr xs)"
    and fi: "h_final h = last_or (b_addr b) (map b_addr ys)"
    using inv by (auto simp: heap_inv_def)
  have "b_addr c < b_addr b" if "c \<in> set xs" for c
    using tiles_before [OF at(1) that] by (simp add: b_end_def)
  then show "h_start h < b_addr b \<longleftrightarrow> xs \<noteq> []" "h_start h \<le> b_addr b"
    using st by (cases xs; force)+
  have "b_addr b < b_addr c" if "c \<in> set ys" for c
    using tiles_after [OF at(1) that] by (simp add: b_end_def)
  then have "ys \<noteq> [] \<Longrightarrow> b_addr b < h_final h"
    using last_or_in [of "b_addr (hd ys)" "map b_addr (tl ys)"] unfolding fi by (cases ys) auto
  then show "b_addr b < h_final h \<longleftrightarrow> ys \<noteq> []" "h_final h = b_addr b \<longleftrightarrow> ys = []"
    "b_addr b \<le> h_final h"
    using fi by (cases ys; auto)+
qed

text \<open>
  Blocks \<open>ms\<close> in the middle of the heap give way to blocks \<open>ns\<close> that cover the same
  addresses: the part of the invariant that follows from this alone, for \<open>malloc\<close> and \<open>free\<close>.
\<close>

lemma heap_inv_replace:
  assumes inv: "heap_inv h (xs @ ms @ ys)"
    and first: "ms \<noteq> []" "ns \<noteq> []" "b_addr (hd ns) = b_addr (hd ms)"
    and tiles: "\<And>a z. tiles a ms z \<Longrightarrow> tiles a ns z"
    and shape: "list_all block_shape ns" and adj: "no_adjacent_free (xs @ ns @ ys)"
    and frame: "frame h h'" "brk h' = brk h" "h_start h' = h_start h"
    and final: "h_final h' = (if ys = [] then b_addr (last ns) else h_final h)"
    and others: "\<And>c. c \<in> set xs \<union> set ys \<Longrightarrow> blk (hdr h') (endtag h') c"
    and news: "list_all (blk (hdr h') (endtag h')) ns"
    and head: "h_head h' = hd_or 0 (free_addrs (xs @ ns @ ys))"
    and seg: "dseg (hdr h') 0 (free_addrs (xs @ ns @ ys)) 0"
  shows "heap_inv h' (xs @ ns @ ys)"
proof -
  let ?bs = "xs @ ns @ ys"
  have hd: "hd_or d (map b_addr ?bs) = hd_or d (map b_addr (xs @ ms @ ys))" for d
    using first by (cases xs; cases ms; cases ns) auto
  have "tiles (hd_or (brk h') (map b_addr ?bs)) ?bs (brk h')"
    using inv tiles unfolding hd frame by (auto simp: heap_inv_def tiles_append)
  moreover have "list_all (blk (hdr h') (endtag h')) ?bs"
    using others news by (auto simp: list_all_iff)
  moreover have "h_final h' = last_or 0 (map b_addr ?bs)"
    using inv first final
    by (cases ys rule: rev_cases; cases ns rule: rev_cases) (auto simp: heap_inv_def)
  moreover have "brk_low h' \<le> hd_or (brk h') (map b_addr ?bs)" "h_start h' = hd_or 0 (map b_addr ?bs)"
    using inv frame unfolding hd by (simp_all add: heap_inv_def frame_def)
  ultimately show ?thesis
    using inv frame shape adj head seg by (simp add: heap_inv_def frame_def)
qed

lemma malloc_whole_inv:
  assumes inv: "heap_inv h (xs @ b # ys)" and free: "b_free b"
    and e: "hdr h (b_addr b) = Some e"
    and h1: "h1 = st h (b_addr b) (e\<lparr>e_free := False\<rparr>)"
  shows "\<exists>h'. malloc_whole h1 (b_addr b) (e\<lparr>e_free := False\<rparr>) = Inr (b_addr b + 32, h')
    \<and> heap_inv h' (xs @ Block (b_addr b) (b_size b) False # ys) \<and> frame h h'"
proof -
  let ?a = "b_addr b" and ?X = "free_addrs xs" and ?Y = "free_addrs ys"
  let ?e = "e\<lparr>e_free := False\<rparr>" and ?b = "Block (b_addr b) (b_size b) False"
  note at = heap_inv_at [OF inv]
  from heap_inv_links [OF inv free] e
  have es: "e_size e = b_size b" and ep: "e_prev e = last_or 0 ?X" and en: "e_next e = hd_or 0 ?Y"
    and X: "dseg (hdr h) 0 ?X ?a" and Y: "dseg (hdr h) ?a ?Y 0" by auto
  define h2 where "h2 = (if ?a = h_head h1 then h1\<lparr>h_head := e_next e\<rparr> else h1)"
  have hdr2: "hdr h2 = (hdr h)(?a \<mapsto> ?e)" by (simp add: h2_def h1 st_def)
  have "dseg (hdr h2) 0 ?X ?a" "dseg (hdr h2) ?a ?Y 0" using X Y at(9,10) by (simp_all add: hdr2)
  from relink_around [OF this at(11-15), of "e_next e" "e_prev e"] obtain m2 m3
    where n: "set_next_if h2 (e_prev e) (e_next e) = Inr (h2\<lparr>hdr := m2\<rparr>)"
      and p: "set_prev_if (h2\<lparr>hdr := m2\<rparr>) (e_next e) (e_prev e) = Inr (h2\<lparr>hdr := m3\<rparr>)"
      and r3: "relinked (set ?X \<union> set ?Y) (hdr h2) m3"
      and X3: "dseg m3 0 ?X (e_next e)" and Y3: "dseg m3 (e_prev e) ?Y 0"
    unfolding ep en by metis
  have m3a: "m3 ?a = Some ?e" using relinked_outside [OF r3, of ?a] at(9,10) by (simp add: hdr2)
  define m4 where "m4 = m3(?a \<mapsto> ?e\<lparr>e_prev := 0, e_next := 0\<rparr>)"
  let ?h' = "h2\<lparr>hdr := m4\<rparr>"
  have "?a + 32 < 2 ^ 64" using heap_inv_range(3,4) [OF inv, of b] by (simp add: b_end_def)
  then have run: "malloc_whole h1 ?a ?e = Inr (?a + 32, ?h')"
    using n p m3a at(8)
    by (simp add: malloc_whole_def Let_def h2_def [symmetric] set_prev_def set_next_def ld_hdr
        st_def m4_def w64_id)
  have fr: "frame h ?h'" by (simp add: frame_def h2_def h1 st_def)
  have "heap_inv ?h' (xs @ [?b] @ ys)"
  proof (rule heap_inv_replace [of h xs "[b]" ys])
    show "no_adjacent_free (xs @ [?b] @ ys)" using inv
      by (auto simp: heap_inv_def no_adjacent_free_append no_adjacent_free_Cons)
    show "blk (hdr ?h') (endtag ?h') c" if c: "c \<in> set xs \<union> set ys" for c
      using blk_relinked [OF _ r3, of "endtag h" c] heap_inv_others [OF inv c]
      by (auto simp: hdr2 m4_def h2_def h1 st_def)
    show "list_all (blk (hdr ?h') (endtag ?h')) [?b]"
      using at(6) es by (auto simp: m4_def blk_def h2_def h1 st_def)
    show "h_head ?h' = hd_or 0 (free_addrs (xs @ [?b] @ ys))"
      using inv free at(9) by (cases ?X) (auto simp: heap_inv_def h2_def h1 st_def en)
    show "dseg (hdr ?h') 0 (free_addrs (xs @ [?b] @ ys)) 0"
      using X3 Y3 at(9,10) by (simp add: dseg_append m4_def en ep)
  qed (use inv at(3) fr heap_inv_ends(3) [OF inv] in
      \<open>auto simp: b_end_def block_shape_def h2_def h1 st_def\<close>)
  then show ?thesis using run fr by auto
qed


text \<open>A conditional store to a static pointer is an unconditional store of a conditional value.\<close>

lemma if_store:
  "(if c then h\<lparr>h_final := x\<rparr> else h) = h\<lparr>h_final := (if c then x else h_final h)\<rparr>"
  "(if c then h\<lparr>h_head := x\<rparr> else h) = h\<lparr>h_head := (if c then x else h_head h)\<rparr>"
  "(if c then h\<lparr>h_start := x\<rparr> else h) = h\<lparr>h_start := (if c then x else h_start h)\<rparr>"
  by simp_all

text \<open>The headers and tags that splitting a block leaves, before its neighbours are linked.\<close>

lemma split_headers_fields:
  assumes b: "brk_low h \<le> a" "a + b_size b + 40 \<le> brk h" "brk h < 2 ^ 63" "n + 1064 \<le> b_size b"
    and e: "e_size e = b_size b"
  obtains h3 where "split_headers (st h a e) a e n (a + 40 + n) = Inr h3"
    "hdr h3 = (hdr h)(a \<mapsto> e\<lparr>e_size := n, e_prev := 0, e_next := 0\<rparr>,
       a + 40 + n \<mapsto> \<lparr>e_size = b_size b - n - 40, e_free = True, e_next = 0, e_prev = 0\<rparr>)"
    "endtag h3 = (endtag h)(a + n + 32 \<mapsto> n, a + b_size b + 32 \<mapsto> b_size b - n - 40)"
    "h_final h3 = (if h_final h = a then a + 40 + n else h_final h)"
    "h_head h3 = (if a = h_head h then a + 40 + n else h_head h)"
    "h_start h3 = h_start h" "brk h3 = brk h" "frame h h3"
proof -
  let ?h3 = "h\<lparr>hdr := (hdr h)(a \<mapsto> e\<lparr>e_size := n, e_prev := 0, e_next := 0\<rparr>,
       a + 40 + n \<mapsto> \<lparr>e_size = b_size b - n - 40, e_free = True, e_next = 0, e_prev = 0\<rparr>),
    endtag := (endtag h)(a + n + 32 \<mapsto> n, a + b_size b + 32 \<mapsto> b_size b - n - 40),
    h_final := (if h_final h = a then a + 40 + n else h_final h),
    h_head := (if a = h_head h then a + 40 + n else h_head h)\<rparr>"
  have "split_headers (st h a e) a e n (a + 40 + n) = Inr ?h3"
    using b by (simp add: split_headers_def Let_def st_def st_new_def st_end_def in_heap_def e w64_id
        sub64_id if_store ac_simps)
  then show thesis by (rule that) (simp_all add: frame_def)
qed

lemma malloc_split_inv:
  assumes inv: "heap_inv h (xs @ b # ys)" and free: "b_free b"
    and e: "hdr h (b_addr b) = Some e"
    and h1: "h1 = st h (b_addr b) (e\<lparr>e_free := False\<rparr>)"
    and n: "n mod 16 = 8" "threshold + n + 40 \<le> b_size b"
  shows "\<exists>h'. malloc_split h1 (b_addr b) (e\<lparr>e_free := False\<rparr>) n = Inr (b_addr b + 32, h')
    \<and> heap_inv h' (xs @ Block (b_addr b) n False # Block (b_addr b + 40 + n) (b_size b - n - 40) True # ys)
    \<and> frame h h'"
proof -
  let ?a = "b_addr b" and ?X = "free_addrs xs" and ?Y = "free_addrs ys"
  let ?na = "b_addr b + 40 + n" and ?ns = "b_size b - n - 40"
  let ?ea = "e\<lparr>e_free := False, e_size := n, e_prev := 0, e_next := 0\<rparr>"
  note at = heap_inv_at [OF inv]
  from heap_inv_links [OF inv free] e
  have es: "e_size e = b_size b" and ep: "e_prev e = last_or 0 ?X" and en: "e_next e = hd_or 0 ?Y"
    and X: "dseg (hdr h) 0 ?X ?a" and Y: "dseg (hdr h) ?a ?Y 0" by auto
  let ?en = "\<lparr>e_size = ?ns, e_free = True, e_next = e_next e, e_prev = e_prev e\<rparr>"
  have b: "brk_low h \<le> ?a" "?a + b_size b + 40 \<le> brk h" "brk h < 2 ^ 63" "n + 1064 \<le> b_size b"
    using heap_inv_range(2-4) [OF inv, of b] n by (simp_all add: b_end_def)
  have naC: "b_addr c \<noteq> ?na" if "c \<in> set xs \<union> set ys" for c
    using heap_inv_others(4) [OF inv that] b(4) by (auto simp: b_end_def)
  then have naX: "?na \<notin> set ?X" "?na \<notin> set ?Y" by (fastforce simp: set_free_addrs)+
  have "e_size (e\<lparr>e_free := False\<rparr>) = b_size b" using es by simp
  from split_headers_fields [OF b this] obtain h3
    where sh: "split_headers h1 ?a (e\<lparr>e_free := False\<rparr>) n ?na = Inr h3"
      and h3: "hdr h3 = (hdr h)(?a \<mapsto> ?ea, ?na \<mapsto> \<lparr>e_size = ?ns, e_free = True, e_next = 0, e_prev = 0\<rparr>)"
        "endtag h3 = (endtag h)(?a + n + 32 \<mapsto> n, ?a + b_size b + 32 \<mapsto> ?ns)"
        "h_final h3 = (if h_final h = ?a then ?na else h_final h)"
        "h_head h3 = (if ?a = h_head h then ?na else h_head h)"
        "h_start h3 = h_start h" "brk h3 = brk h" "frame h h3"
    unfolding h1 [symmetric] by blast
  define h4 where "h4 = st h3 ?na ?en"
  have hdr4: "hdr h4 = (hdr h)(?a \<mapsto> ?ea, ?na \<mapsto> ?en)"
    by (simp add: h4_def st_def h3)
  have "dseg (hdr h4) 0 ?X ?a" "dseg (hdr h4) ?a ?Y 0"
    using X Y at(9,10) naX by (simp_all add: hdr4)
  from relink_around [OF this at(11-15), of ?na ?na] obtain m2 m3
    where sn: "set_next_if h4 (e_prev e) ?na = Inr (h4\<lparr>hdr := m2\<rparr>)"
      and sp: "set_prev_if (h4\<lparr>hdr := m2\<rparr>) (e_next e) ?na = Inr (h4\<lparr>hdr := m3\<rparr>)"
      and r3: "relinked (set ?X \<union> set ?Y) (hdr h4) m3"
      and X3: "dseg m3 0 ?X ?na" and Y3: "dseg m3 ?na ?Y 0"
    unfolding ep en by metis
  have m3: "m3 ?a = Some ?ea" "m3 ?na = Some ?en"
    using relinked_outside [OF r3] at(9,10) naX by (simp_all add: hdr4)
  let ?h' = "h4\<lparr>hdr := m3\<rparr>" and ?b1 = "Block ?a n False" and ?b2 = "Block ?na ?ns True"
  have "w64 (?a + n + 8 + 32) = ?na" "w64 (?a + 32 + 8 + b_size b) = b_end b" "w64 (?a + 32) = ?a + 32"
    using b by (simp_all add: w64_id b_end_def)
  then have run: "malloc_split h1 ?a (e\<lparr>e_free := False\<rparr>) n = Inr (?a + 32, ?h')"
    using sn sp b
    by (simp add: malloc_split_def sh es set_prev_def set_next_def ld_hdr h3(1) b_end_def)
      (simp add: h1 st_def h4_def)
  have fields: "endtag h4 = (endtag h)(?a + n + 32 \<mapsto> n, ?a + b_size b + 32 \<mapsto> ?ns)"
      "brk h4 = brk h" "h_start h4 = h_start h"
      "h_final h4 = (if h_final h = ?a then ?na else h_final h)"
      "h_head h4 = (if ?a = h_head h then ?na else h_head h)" "frame h ?h'"
    using h3(7) by (auto simp: h3 h4_def st_def frame_def)
  have "heap_inv ?h' (xs @ [?b1, ?b2] @ ys)"
  proof (rule heap_inv_replace [of h xs "[b]" ys])
    show "list_all block_shape [?b1, ?b2]" using carve_split_shape [OF at(3) n] by simp
    show "no_adjacent_free (xs @ [?b1, ?b2] @ ys)" using inv free
      by (auto simp: heap_inv_def no_adjacent_free_append no_adjacent_free_Cons)
    show "blk (hdr ?h') (endtag ?h') c" if c: "c \<in> set xs \<union> set ys" for c
    proof -
      note oth = heap_inv_others [OF inv c]
      have "blk (hdr h4) (endtag h4) c"
        using oth(1,2,4) naC [OF c] b(4) by (auto simp: hdr4 fields b_end_def)
      then show ?thesis using blk_relinked [OF _ r3] oth(3) by auto
    qed
    show "list_all (blk (hdr ?h') (endtag ?h')) [?b1, ?b2]"
      using b(4) m3 by (auto simp: blk_def fields)
    show "h_head ?h' = hd_or 0 (free_addrs (xs @ [?b1, ?b2] @ ys))"
      using inv free at(9) by (cases ?X) (auto simp: heap_inv_def fields)
    show "dseg (hdr ?h') 0 (free_addrs (xs @ [?b1, ?b2] @ ys)) 0"
      using X3 Y3 m3 by (simp add: dseg_append en ep)
  qed (use inv b(4) heap_inv_ends(3) [OF inv] in \<open>simp_all add: fields b_end_def\<close>)
  then show ?thesis using run fields(6) by auto
qed


lemma malloc_sbrk_inv:
  assumes inv: "heap_inv h bs" and n: "n mod 16 = 8" "n + 40 < 2 ^ 63"
  shows "if brk h + n + 40 \<le> brk_limit h
    then \<exists>h'. malloc_sbrk h n = Inr (brk h + 32, h') \<and> heap_inv h' (bs @ [Block (brk h) n False])
           \<and> frame h h'
    else malloc_sbrk h n = Inr (0, h)"
proof -
  have lim: "0 < brk_low h" "brk_low h \<le> hd_or (brk h) (map b_addr bs)" "brk h \<le> brk_limit h"
    "brk_limit h < 9223372036854775808" "brk h mod 16 = 0"
    and t: "tiles (hd_or (brk h) (map b_addr bs)) bs (brk h)"
    using inv by (auto simp: heap_inv_def)
  have below: "b_end b \<le> brk h" if "b \<in> set bs" for b
    using heap_inv_range(3) [OF inv that] .
  have "hd_or (brk h) (map b_addr bs) \<le> brk h"
    using below hd_or_in [of "brk h" "map b_addr bs"] by (fastforce simp: b_end_def)
  with lim have low: "0 < brk h" "brk_low h \<le> brk h" by linarith+
  have inc: "w64 (sizeof_entry + n + sizeof_end) = n + 40" "signed64 (n + 40) = int (n + 40)"
    using n by (simp_all add: w64_id signed64_def)
  show ?thesis
  proof (cases "brk h + n + 40 \<le> brk_limit h")
    case False
    then have "sbrk h (n + 40) = None" using low inc(2) by (simp add: sbrk_def Let_def)
    then have "malloc_sbrk h n = Inr (0, h)" using inc(1) by (simp add: malloc_sbrk_def)
    then show ?thesis using False by simp
  next
    case True
    let ?b = "Block (brk h) n False"
    have "sbrk h (n + 40) = Some (brk h, h\<lparr>brk := brk h + n + 40\<rparr>)"
      using True low inc(2) by (simp add: sbrk_def Let_def nat_add_distrib)
    moreover define h' where "h' = h\<lparr>brk := brk h + n + 40,
      h_start := (if h_start h = 0 then brk h else h_start h), h_final := brk h,
      hdr := (hdr h)(brk h \<mapsto> \<lparr>e_size = n, e_free = False, e_next = 0, e_prev = 0\<rparr>),
      endtag := (endtag h)(brk h + n + 32 \<mapsto> n)\<rparr>"
    ultimately have run: "malloc_sbrk h n = Inr (brk h + 32, h')"
      using True lim low inc(1)
      by (simp add: malloc_sbrk_def Let_def if_store st_def st_new_def st_end_def in_heap_def w64_id ac_simps)
    have h': "hdr h' = (hdr h)(brk h \<mapsto> \<lparr>e_size = n, e_free = False, e_next = 0, e_prev = 0\<rparr>)"
      "endtag h' = (endtag h)(brk h + n + 32 \<mapsto> n)" "h_head h' = h_head h"
      "h_start h' = (if h_start h = 0 then brk h else h_start h)" "h_final h' = brk h"
      "brk h' = brk h + n + 40" "frame h h'"
      by (simp_all add: h'_def frame_def)
    have others: "blk (hdr h') (endtag h') b" if "b \<in> set bs" for b
      using heap_inv_range(6) [OF inv that] below [OF that] by (simp add: h' b_end_def)
    have nF: "brk h \<notin> set (free_addrs bs)"
      using below by (fastforce simp: set_free_addrs b_end_def)
    have "heap_inv h' (bs @ [?b])"
      unfolding heap_inv_def
    proof (intro conjI)
      have hd: "hd_or (brk h') (map b_addr (bs @ [?b])) = hd_or (brk h) (map b_addr bs)" by simp
      show "tiles (hd_or (brk h') (map b_addr (bs @ [?b]))) (bs @ [?b]) (brk h')"
        unfolding hd using t by (auto simp: tiles_append h')
      show "brk_low h' \<le> hd_or (brk h') (map b_addr (bs @ [?b]))"
        unfolding hd using lim h' by (simp add: frame_def)
      show "brk h' mod 16 = 0" using lim n unfolding h' by presburger
      show "list_all block_shape (bs @ [?b])"
        using inv lim n by (simp add: heap_inv_def block_shape_def)
      show "no_adjacent_free (bs @ [?b])"
        using inv by (auto simp: heap_inv_def no_adjacent_free_append)
      show "list_all (blk (hdr h') (endtag h')) (bs @ [?b])"
        using others by (auto simp: list_all_iff) (simp add: blk_def h')
      show "h_start h' = hd_or 0 (map b_addr (bs @ [?b]))"
        using inv heap_inv_range(1) [OF inv] by (cases bs) (auto simp: heap_inv_def h')
      show "dseg (hdr h') 0 (free_addrs (bs @ [?b])) 0"
        using inv nF by (simp add: heap_inv_def h')
      show "0 < brk_low h'" "brk h' \<le> brk_limit h'" "brk_limit h' < 2 ^ 63"
        using lim True h' by (simp_all add: frame_def)
    qed (use inv in \<open>simp_all add: heap_inv_def h'\<close>)
    then show ?thesis using True run h'(7) by auto
  qed
qed

lemma find_fit_blocks:
  assumes inv: "heap_inv h bs"
  shows "find_fit (walk_fuel h) h (h_head h) n =
    Inr (case find (\<lambda>b. b_free b \<and> n \<le> b_size b) bs of None \<Rightarrow> 0 | Some b \<Rightarrow> b_addr b)"
proof -
  have "b_addr c \<noteq> 0" if "c \<in> set bs" for c using heap_inv_range(1) [OF inv that] by simp
  then show ?thesis
    using find_fit_dseg [of h 0 bs "walk_fuel h" n] inv walk_fuel_enough [OF inv]
    by (simp add: heap_inv_def)
qed

theorem malloc_refines_blocks:
  assumes inv: "heap_inv h bs" and n: "sane_size n"
  shows "\<exists>h'. malloc h n = Inr (fst (abs_malloc (brk_limit h) (brk h) (round_size n) bs), h')
    \<and> heap_inv h' (snd (abs_malloc (brk_limit h) (brk h) (round_size n) bs)) \<and> frame h h'"
proof -
  let ?n = "round_size n"
  note rs = round_size_bounds [OF n]
  note fit = find_fit_blocks [OF inv, of ?n]
  have nz: "n \<noteq> 0" using n by (simp add: sane_size_def)
  show ?thesis
  proof (cases "find (\<lambda>b. b_free b \<and> ?n \<le> b_size b) bs")
    case None
    then have run: "malloc h n = malloc_sbrk h ?n"
      using fit nz by (simp add: malloc_def)
    moreover have "take_fit ?n bs = None" using None by (simp add: take_fit_None)
    ultimately show ?thesis
      using malloc_sbrk_inv [OF inv rs(3,4)] inv by (auto simp: abs_malloc_def split: if_splits)
  next
    case (Some b)
    then obtain xs ys where bs: "bs = xs @ b # ys" and b: "b_free b" "?n \<le> b_size b"
      and tf: "take_fit ?n bs = Some (b_addr b, xs @ carve ?n b @ ys)"
      using take_fit_Some by blast
    have inv': "heap_inv h (xs @ b # ys)" using inv bs by simp
    from heap_inv_links [OF inv' b(1)] obtain e where e: "hdr h (b_addr b) = Some e" "e_size e = b_size b"
      by blast
    have a: "b_addr b \<noteq> 0" using heap_inv_at(8) [OF inv'] .
    have size: "b_size b < 2 ^ 63" using heap_inv_range(3,4) [OF inv', of b] by (simp add: b_end_def)
    have w: "w64 (threshold + ?n + sizeof_entry + sizeof_end) = threshold + ?n + 40"
      using size b rs(4) by (simp add: w64_id)
    define h1 where "h1 = st h (b_addr b) (e\<lparr>e_free := False\<rparr>)"
    have run: "malloc h n =
      (if ?n < b_size b \<and> threshold + ?n + 40 \<le> b_size b
       then malloc_split h1 (b_addr b) (e\<lparr>e_free := False\<rparr>) ?n
       else malloc_whole h1 (b_addr b) (e\<lparr>e_free := False\<rparr>))"
      using fit nz Some a e w by (simp add: malloc_def Let_def ld_hdr h1_def)
    show ?thesis
      using malloc_split_inv [OF inv' b(1) e(1) h1_def rs(3)] malloc_whole_inv [OF inv' b(1) e(1) h1_def]
      unfolding run by (auto simp: abs_malloc_def tf carve_def)
  qed
qed

section \<open>free\<close>

definition abs_free :: "nat \<Rightarrow> block list \<Rightarrow> block list" where
  "abs_free a bs = coalesce (mark_free a bs)"

lemma coalesce_id: "no_adjacent_free bs \<Longrightarrow> coalesce bs = bs"
proof (induction bs)
  case (Cons b bs)
  then show ?case by (cases bs) (auto simp: no_adjacent_free_Cons)
qed simp

lemma coalesce_append:
  "\<lbrakk>no_adjacent_free xs; xs = [] \<or> zs = [] \<or> \<not> b_free (last xs) \<or> \<not> b_free (hd (coalesce zs))\<rbrakk>
   \<Longrightarrow> coalesce (xs @ zs) = xs @ coalesce zs"
proof (induction xs)
  case (Cons x xs)
  show ?case
  proof (cases xs)
    case Nil
    then show ?thesis using Cons.prems by (cases zs; cases "coalesce zs") auto
  next
    case (Cons y ys)
    then show ?thesis using Cons.IH Cons.prems by (auto simp: no_adjacent_free_Cons)
  qed
qed simp

lemma mark_free_other: "a \<notin> b_addr ` set bs \<Longrightarrow> mark_free a bs = bs"
  unfolding mark_free_def by (rule map_idI) auto

lemma mark_free_append: "mark_free a (bs @ cs) = mark_free a bs @ mark_free a cs"
  by (simp add: mark_free_def)

lemma mark_free_at:
  assumes "tiles a (xs @ b # ys) z"
  shows "mark_free (b_addr b) (xs @ b # ys) = xs @ Block (b_addr b) (b_size b) True # ys"
proof -
  have "mark_free (b_addr b) (b # ys) = Block (b_addr b) (b_size b) True # mark_free (b_addr b) ys"
    by (simp add: mark_free_def)
  then show ?thesis
    using tiles_distinct(1,2) [OF assms] by (simp add: mark_free_append mark_free_other)
qed

text \<open>What \<open>abs_free\<close> makes of the four arrangements of the neighbours.\<close>

lemma abs_free_cases:
  assumes inv: "heap_inv h (xs @ b # ys)" and used: "\<not> b_free b"
  shows "(ys = [] \<or> \<not> b_free (hd ys)) \<Longrightarrow> xs = zs @ [p] \<Longrightarrow> b_free p \<Longrightarrow>
      abs_free (b_addr b) (xs @ b # ys) = zs @ Block (b_addr p) (b_size p + 40 + b_size b) True # ys"
    "(xs = [] \<or> \<not> b_free (last xs)) \<Longrightarrow> ys = c # us \<Longrightarrow> b_free c \<Longrightarrow>
      abs_free (b_addr b) (xs @ b # ys) = xs @ Block (b_addr b) (b_size b + 40 + b_size c) True # us"
    "xs = zs @ [p] \<Longrightarrow> b_free p \<Longrightarrow> ys = c # us \<Longrightarrow> b_free c \<Longrightarrow>
      abs_free (b_addr b) (xs @ b # ys) =
        zs @ Block (b_addr p) (b_size p + 40 + (b_size b + 40 + b_size c)) True # us"
    "(xs = [] \<or> \<not> b_free (last xs)) \<Longrightarrow> (ys = [] \<or> \<not> b_free (hd ys)) \<Longrightarrow>
      abs_free (b_addr b) (xs @ b # ys) = xs @ Block (b_addr b) (b_size b) True # ys"
proof -
  let ?b = "Block (b_addr b) (b_size b) True"
  have nax: "no_adjacent_free xs" and nay: "no_adjacent_free ys"
    using inv by (auto simp: heap_inv_def no_adjacent_free_append no_adjacent_free_Cons)
  have fr: "abs_free (b_addr b) (xs @ b # ys) = coalesce (xs @ ?b # ys)"
    using mark_free_at [OF heap_inv_at(1) [OF inv]] by (simp add: abs_free_def)
  have cy: "coalesce ys = ys" by (rule coalesce_id [OF nay])
  show "abs_free (b_addr b) (xs @ b # ys) = zs @ Block (b_addr p) (b_size p + 40 + b_size b) True # ys"
    if "ys = [] \<or> \<not> b_free (hd ys)" "xs = zs @ [p]" "b_free p"
  proof -
    have "coalesce (p # ?b # ys) = Block (b_addr p) (b_size p + 40 + b_size b) True # ys"
      using that cy by (cases ys) auto
    then show ?thesis using that nax fr coalesce_append [of zs "p # ?b # ys"]
      by (auto simp: no_adjacent_free_append)
  qed
  show "abs_free (b_addr b) (xs @ b # ys) = xs @ Block (b_addr b) (b_size b + 40 + b_size c) True # us"
    if "xs = [] \<or> \<not> b_free (last xs)" "ys = c # us" "b_free c"
    using that nax fr cy coalesce_append [of xs "?b # ys"] by auto
  show "abs_free (b_addr b) (xs @ b # ys) =
      zs @ Block (b_addr p) (b_size p + 40 + (b_size b + 40 + b_size c)) True # us"
    if "xs = zs @ [p]" "b_free p" "ys = c # us" "b_free c"
  proof -
    have "coalesce (p # ?b # ys) = Block (b_addr p) (b_size p + 40 + (b_size b + 40 + b_size c)) True # us"
      using that cy by auto
    then show ?thesis using that nax fr coalesce_append [of zs "p # ?b # ys"]
      by (auto simp: no_adjacent_free_append)
  qed
  show "abs_free (b_addr b) (xs @ b # ys) = xs @ ?b # ys"
    if "xs = [] \<or> \<not> b_free (last xs)" "ys = [] \<or> \<not> b_free (hd ys)"
  proof -
    have "coalesce (?b # ys) = ?b # ys" using that cy by (cases ys) auto
    then show ?thesis using that nax fr coalesce_append [of xs "?b # ys"] by auto
  qed
qed

lemma dseg_same_links:
  "m x = Some e \<Longrightarrow> e_next e' = e_next e \<Longrightarrow> e_prev e' = e_prev e \<Longrightarrow>
   dseg (m(x \<mapsto> e')) p xs n = dseg m p xs n"
  by (induction xs arbitrary: p) auto

lemma joined_size:
  fixes i j :: nat
  assumes "i mod 16 = 8" and "j mod 16 = 8"
  shows "(i + 40 + j) mod 16 = 8"
proof -
  from assms obtain k l where "i = 16 * k + 8" "j = 16 * l + 8" by (metis mult_div_mod_eq)
  then have "i + 40 + j = 16 * (k + l + 3) + 8" by simp
  then show ?thesis by (simp only: mod_mult_self4) simp
qed

lemma joined_shape:
  assumes "block_shape b" and "block_shape c"
  shows "block_shape (Block (b_addr b) (b_size b + 40 + b_size c) f)"
  using assms joined_size by (simp add: block_shape_def)

lemma free_prev_inv:
  assumes inv: "heap_inv h (xs @ p # b # ys)" and used: "\<not> b_free b" and pf: "b_free p"
    and yf: "ys = [] \<or> \<not> b_free (hd ys)"
    and e: "hdr h (b_addr b) = Some e"
    and h1: "h1 = st h (b_addr b) (e\<lparr>e_free := True\<rparr>)"
  shows "\<exists>h'. free_prev h1 (b_addr b) (b_addr p) = Inr h'
    \<and> heap_inv h' (xs @ Block (b_addr p) (b_size p + 40 + b_size b) True # ys) \<and> frame h h'"
proof -
  let ?a = "b_addr b" and ?p = "b_addr p" and ?s = "b_size p + 40 + b_size b"
  let ?m = "Block ?p ?s True"
  let ?bs = "xs @ [?m] @ ys"
  note at = heap_inv_at [OF inv]
  have inv': "heap_inv h ((xs @ [p]) @ b # ys)" using inv by simp
  note at' = heap_inv_at [OF inv']
  have end_p: "b_end p = ?a" using at(1) by (auto simp: tiles_append)
  have top: "b_end b \<le> brk h" "brk h < 9223372036854775808"
    using heap_inv_range(3,4) [OF inv, of b] by auto
  from heap_inv_links [OF inv pf] obtain pe where pe: "hdr h ?p = Some pe" "e_size pe = b_size p"
    "e_free pe" by blast
  have es: "e_size e = b_size b" using at'(6) e by (auto simp: blk_def)
  define h2 where "h2 = h\<lparr>hdr := (hdr h)(?a \<mapsto> e\<lparr>e_free := True\<rparr>, ?p \<mapsto> pe\<lparr>e_size := ?s\<rparr>),
    endtag := (endtag h)(?p + ?s + 32 \<mapsto> ?s), h_final := (if h_final h = ?a then ?p else h_final h)\<rparr>"
  have pa: "?p < ?a" using end_p by (simp add: b_end_def)
  have "w64 (b_size p + 8 + 32 + b_size b) = ?s" "w64 (?p + ?s + 32) = ?p + ?s + 32"
    "brk_low h \<le> ?p + ?s + 32" "?p + ?s + 40 \<le> brk h"
    using top end_p heap_inv_range(2) [OF inv, of p] by (simp_all add: w64_id b_end_def)
  then have run: "free_prev h1 ?a ?p = Inr h2"
    using pe e es at(8) at'(8) pa
    by (simp add: free_prev_def h1 ld_hdr Let_def if_store h2_def st_def st_end_def in_heap_def)
  have fr: "free_addrs ?bs = free_addrs (xs @ p # b # ys)" using pf used by simp
  have "heap_inv h2 ?bs"
  proof (rule heap_inv_replace [of h xs "[p, b]" ys])
    show "list_all block_shape [?m]" using joined_shape [OF at(3) at'(3)] by simp
    show "no_adjacent_free ?bs" using inv yf pf
      by (auto simp: heap_inv_def no_adjacent_free_append no_adjacent_free_Cons)
    show "blk (hdr h2) (endtag h2) c" if c: "c \<in> set xs \<union> set ys" for c
    proof -
      have "b_end c \<le> ?p \<or> b_end b \<le> b_addr c"
        using c by (auto dest: tiles_before [OF at(1)] tiles_after [OF at'(1)])
      moreover have "blk (hdr h) (endtag h) c" using c at(5) at'(7) by (auto simp: list_all_iff)
      ultimately show ?thesis using end_p by (auto simp: h2_def b_end_def)
    qed
    show "list_all (blk (hdr h2) (endtag h2)) [?m]" using pe by (simp add: blk_def h2_def)
    have "?a \<notin> set (free_addrs ?bs)" using at'(9,10) pf used unfolding fr by auto
    then have "dseg (hdr h2) 0 (free_addrs ?bs) 0 = dseg (hdr h) 0 (free_addrs ?bs) 0"
      using pe pa by (simp add: h2_def dseg_same_links [where e = pe] del: free_addrs_simps)
    then show "dseg (hdr h2) 0 (free_addrs ?bs) 0" "h_head h2 = hd_or 0 (free_addrs ?bs)"
      using inv unfolding fr by (simp_all add: heap_inv_def h2_def)
  qed (use inv heap_inv_ends(3) [OF inv'] end_p in
      \<open>auto simp: h2_def frame_def b_end_def ac_simps\<close>)
  then show ?thesis using run by (auto simp: frame_def h2_def)
qed

lemma free_next_inv:
  assumes inv: "heap_inv h (xs @ b # c # ys)" and used: "\<not> b_free b" and cf: "b_free c"
    and xf: "xs = [] \<or> \<not> b_free (last xs)"
    and e: "hdr h (b_addr b) = Some e"
    and h1: "h1 = st h (b_addr b) (e\<lparr>e_free := True\<rparr>)"
  shows "\<exists>h'. free_next h1 (b_addr b) (b_addr c) = Inr h'
    \<and> heap_inv h' (xs @ Block (b_addr b) (b_size b + 40 + b_size c) True # ys) \<and> frame h h'"
proof -
  let ?a = "b_addr b" and ?c = "b_addr c" and ?s = "b_size b + 40 + b_size c"
  let ?m = "Block ?a ?s True" and ?X = "free_addrs xs" and ?Y = "free_addrs ys"
  note at = heap_inv_at [OF inv]
  have inv': "heap_inv h ((xs @ [b]) @ c # ys)" using inv by simp
  note at' = heap_inv_at [OF inv']
  have end_b: "b_end b = ?c" using at(1) by (auto simp: tiles_append)
  have top: "b_end c \<le> brk h" "brk h < 9223372036854775808"
    using heap_inv_range(3,4) [OF inv, of c] by auto
  have ac: "?a < ?c" using end_b by (simp add: b_end_def)
  have X1: "free_addrs (xs @ [b]) = ?X" using used by simp
  have aX: "?a \<notin> set ?X" "?a \<notin> set ?Y" using at(9,10) cf by auto
  from heap_inv_links [OF inv' cf] obtain ce where ce: "hdr h ?c = Some ce" "e_size ce = b_size c"
    and cl: "e_prev ce = last_or 0 ?X" "e_next ce = hd_or 0 ?Y"
    and X: "dseg (hdr h) 0 ?X ?c" and Y: "dseg (hdr h) ?c ?Y 0"
    unfolding X1 by blast
  have es: "e_size e = b_size b" using at(6) e by (auto simp: blk_def)
  let ?e = "e\<lparr>e_free := True, e_size := ?s, e_prev := e_prev ce, e_next := e_next ce\<rparr>"
  define h2 where "h2 = h\<lparr>h_head := (if h_head h = ?c then ?a else h_head h),
    h_final := (if h_final h = ?c then ?a else h_final h),
    endtag := (endtag h)(?a + ?s + 32 \<mapsto> ?s), hdr := (hdr h)(?a \<mapsto> ?e)\<rparr>"
  have "dseg (hdr h2) 0 ?X ?c" "dseg (hdr h2) ?c ?Y 0" using X Y aX by (simp_all add: h2_def)
  from relink_around [OF this at'(11-15) [unfolded X1], of ?a ?a] obtain m2 m3
    where sn: "set_next_if h2 (e_prev ce) ?a = Inr (h2\<lparr>hdr := m2\<rparr>)"
      and sp: "set_prev_if (h2\<lparr>hdr := m2\<rparr>) (e_next ce) ?a = Inr (h2\<lparr>hdr := m3\<rparr>)"
      and r3: "relinked (set ?X \<union> set ?Y) (hdr h2) m3"
      and X3: "dseg m3 0 ?X ?a" and Y3: "dseg m3 ?a ?Y 0"
    unfolding cl by metis
  have m3: "m3 ?a = Some ?e" using relinked_outside [OF r3] aX by (simp add: h2_def)
  have "w64 (b_size b + 8 + 32 + b_size c) = ?s" "w64 (?a + ?s + 32) = ?a + ?s + 32"
    "brk_low h \<le> ?a + ?s + 32" "?a + ?s + 40 \<le> brk h"
    using top end_b heap_inv_range(2) [OF inv, of b] by (simp_all add: w64_id b_end_def)
  then have run: "free_next h1 ?a ?c = Inr (h2\<lparr>hdr := m3\<rparr>)"
    using sn sp ce es at(8) at'(8) ac
    by (simp add: free_next_def h1 ld_hdr Let_def if_store st_def st_end_def in_heap_def h2_def
        split del: if_split cong: if_cong)
  let ?h' = "h2\<lparr>hdr := m3\<rparr>" and ?bs = "xs @ [?m] @ ys"
  have "heap_inv ?h' ?bs"
  proof (rule heap_inv_replace [of h xs "[b, c]" ys])
    show "list_all block_shape [?m]" using joined_shape [OF at(3) at'(3)] by simp
    show "no_adjacent_free ?bs" using inv xf cf
      by (auto simp: heap_inv_def no_adjacent_free_append no_adjacent_free_Cons)
    show "blk (hdr ?h') (endtag ?h') d" if d: "d \<in> set xs \<union> set ys" for d
    proof -
      have "b_end d \<le> ?a \<or> b_end c \<le> b_addr d"
        using d by (auto dest: tiles_before [OF at(1)] tiles_after [OF at'(1)])
      moreover have "blk (hdr h) (endtag h) d" using d at(5) at'(7) by (auto simp: list_all_iff)
      ultimately have "blk (hdr h2) (endtag h2) d" using end_b by (auto simp: h2_def b_end_def)
      then show ?thesis using blk_relinked [OF _ r3] heap_inv_others(3) [OF inv', of d] d used by auto
    qed
    show "list_all (blk (hdr ?h') (endtag ?h')) [?m]" using m3 by (simp add: blk_def h2_def)
    show "dseg (hdr ?h') 0 (free_addrs ?bs) 0" using X3 Y3 m3 by (simp add: dseg_append cl)
    show "h_head ?h' = hd_or 0 (free_addrs ?bs)"
      using inv used cf at'(9) by (cases ?X) (auto simp: heap_inv_def h2_def)
  qed (use inv heap_inv_ends(3) [OF inv'] end_b in
      \<open>auto simp: h2_def frame_def b_end_def ac_simps\<close>)
  then show ?thesis using run by (auto simp: frame_def h2_def)
qed

lemma free_both_inv:
  assumes inv: "heap_inv h (xs @ p # b # c # ys)" and used: "\<not> b_free b"
    and pf: "b_free p" and cf: "b_free c"
    and e: "hdr h (b_addr b) = Some e"
    and h1: "h1 = st h (b_addr b) (e\<lparr>e_free := True\<rparr>)"
  shows "\<exists>h'. free_both h1 (b_addr b) (b_addr p) (b_addr c) = Inr h'
    \<and> heap_inv h' (xs @ Block (b_addr p) (b_size p + 40 + (b_size b + 40 + b_size c)) True # ys)
    \<and> frame h h'"
proof -
  let ?a = "b_addr b" and ?p = "b_addr p" and ?c = "b_addr c"
  let ?s = "b_size p + 40 + (b_size b + 40 + b_size c)"
  let ?m = "Block ?p ?s True" and ?X = "free_addrs xs" and ?Y = "free_addrs ys"
  note at = heap_inv_at [OF inv]
  have invb: "heap_inv h ((xs @ [p]) @ b # c # ys)" and invc: "heap_inv h ((xs @ [p, b]) @ c # ys)"
    using inv by simp_all
  note atb = heap_inv_at [OF invb] and atc = heap_inv_at [OF invc]
  have ends: "b_end p = ?a" "b_end b = ?c" using at(1) by (auto simp: tiles_append)
  have top: "b_end c \<le> brk h" "brk h < 9223372036854775808"
    using heap_inv_range(3,4) [OF inv, of c] by auto
  have lt: "?p < ?a" "?a < ?c" using ends by (simp_all add: b_end_def)
  have XY: "?p \<notin> set ?X" "?p \<notin> set ?Y" "?a \<notin> set ?X" "?a \<notin> set ?Y" "set ?X \<inter> set ?Y = {}"
    using at(9,10) atb(9,10) atc(15) pf cf by (auto split: if_splits)
  from heap_inv_links [OF inv pf] obtain pe where pe: "hdr h ?p = Some pe" "e_size pe = b_size p"
    "e_free pe" "e_prev pe = last_or 0 ?X" and X: "dseg (hdr h) 0 ?X ?p" by metis
  from heap_inv_links [OF invc cf] obtain ce where ce: "hdr h ?c = Some ce" "e_size ce = b_size c"
    "e_next ce = hd_or 0 ?Y" and Y: "dseg (hdr h) ?c ?Y 0" by metis
  have es: "e_size e = b_size b" using atb(6) e by (auto simp: blk_def)
  let ?e = "pe\<lparr>e_size := ?s, e_next := e_next ce\<rparr>"
  define h2 where "h2 = h\<lparr>h_final := (if h_final h = ?c then ?p else h_final h),
    endtag := (endtag h)(?p + ?s + 32 \<mapsto> ?s),
    hdr := (hdr h)(?a \<mapsto> e\<lparr>e_free := True\<rparr>, ?p \<mapsto> ?e)\<rparr>"
  have "dseg (hdr h2) ?c ?Y 0" using Y XY by (simp add: h2_def)
  from set_prev_if_seg [OF this atc(12,14), of ?p] obtain m3
    where sp: "set_prev_if h2 (e_next ce) ?p = Inr (h2\<lparr>hdr := m3\<rparr>)"
      and r3: "relinked (set ?Y) (hdr h2) m3" and Y3: "dseg m3 ?p ?Y 0"
    by (auto simp: ce)
  have X3: "dseg m3 0 ?X ?p" using X XY dseg_relinked_outside [OF r3] by (simp add: h2_def)
  have m3: "m3 ?p = Some ?e" using relinked_outside [OF r3 XY(2)] by (simp add: h2_def)
  have "w64 (b_size p + 16 + 64 + b_size b + b_size c) = ?s" "w64 (?p + ?s + 32) = ?p + ?s + 32"
    "brk_low h \<le> ?p + ?s + 32" "?p + ?s + 40 \<le> brk h"
    using top ends heap_inv_range(2) [OF inv, of p] by (simp_all add: w64_id b_end_def)
  then have run: "free_both h1 ?a ?p ?c = Inr (h2\<lparr>hdr := m3\<rparr>)"
    using sp ce pe es at(8) atb(8) atc(8) lt
    by (simp add: free_both_def h1 ld_hdr Let_def if_store st_def st_end_def in_heap_def h2_def
        split del: if_split cong: if_cong)
  let ?h' = "h2\<lparr>hdr := m3\<rparr>" and ?bs = "xs @ [?m] @ ys"
  have "heap_inv ?h' ?bs"
  proof (rule heap_inv_replace [of h xs "[p, b, c]" ys])
    show "list_all block_shape [?m]"
      using joined_shape [OF at(3), of "Block ?a (b_size b + 40 + b_size c) True"]
        joined_shape [OF atb(3) atc(3)] by simp
    show "no_adjacent_free ?bs" using inv pf cf
      by (auto simp: heap_inv_def no_adjacent_free_append no_adjacent_free_Cons)
    show "blk (hdr ?h') (endtag ?h') d" if d: "d \<in> set xs \<union> set ys" for d
    proof -
      have "b_end d \<le> ?p \<or> b_end c \<le> b_addr d"
        using d by (auto dest: tiles_before [OF at(1)] tiles_after [OF atc(1)])
      moreover have "blk (hdr h) (endtag h) d" using d at(5) atc(7) by (auto simp: list_all_iff)
      ultimately have "blk (hdr h2) (endtag h2) d" using ends by (auto simp: h2_def b_end_def)
      then show ?thesis using blk_relinked [OF _ r3] heap_inv_others(3) [OF invc, of d] d by auto
    qed
    show "list_all (blk (hdr ?h') (endtag ?h')) [?m]" using m3 pe by (simp add: blk_def h2_def)
    show "dseg (hdr ?h') 0 (free_addrs ?bs) 0" using X3 Y3 m3 pe by (simp add: dseg_append ce)
    show "h_head ?h' = hd_or 0 (free_addrs ?bs)"
      using inv pf by (cases ?X) (auto simp: heap_inv_def h2_def)
  qed (use inv heap_inv_ends(3) [OF invc] ends in
      \<open>auto simp: h2_def frame_def b_end_def ac_simps\<close>)
  then show ?thesis using run by (auto simp: frame_def h2_def)
qed

lemma find_place_dseg:
  assumes "dseg (hdr h) p (X @ Y) 0"
    and "\<And>x. x \<in> set X \<union> set Y \<Longrightarrow> x \<noteq> 0 \<and> (\<exists>e. hdr h x = Some e \<and> e_free e)"
    and "\<And>x. x \<in> set X \<Longrightarrow> x < a" and "\<And>y. y \<in> set Y \<Longrightarrow> a < y"
    and "X @ Y \<noteq> []" and "length (X @ Y) \<le> fuel"
  shows "find_place fuel h (hd_or 0 (X @ Y)) a = Inr (hd_or (last_or 0 X) Y)"
  using assms
proof (induction X arbitrary: p fuel)
  case Nil
  then obtain y Y' f where Y: "Y = y # Y'" and f: "fuel = Suc f" by (cases Y; cases fuel) auto
  with Nil.prems obtain e where e: "hdr h y = Some e" "y \<noteq> 0" "a < y" "e_free e" by auto
  then show ?case using Y f by (simp add: ld_hdr)
next
  case (Cons x X)
  then obtain f where f: "fuel = Suc f" by (cases fuel) auto
  from Cons.prems obtain e where e: "hdr h x = Some e" "x \<noteq> 0" "x < a" "e_free e"
    "e_next e = hd_or 0 (X @ Y)" and seg: "dseg (hdr h) x (X @ Y) 0"
    by fastforce
  show ?case
  proof (cases "X @ Y = []")
    case True
    then show ?thesis using e f by (simp add: ld_hdr)
  next
    case False
    then have "hd_or 0 (X @ Y) \<in> set X \<union> set Y" by (cases X; cases Y) auto
    then have "hd_or 0 (X @ Y) \<noteq> 0" using Cons.prems(2) by auto
    moreover have "find_place f h (hd_or 0 (X @ Y)) a = Inr (hd_or (last_or 0 X) Y)"
      by (rule Cons.IH [OF seg]) (use Cons.prems False f in auto)
    moreover have "hd_or (last_or x X) Y = hd_or (last_or 0 X) Y" using False by (cases X; cases Y) auto
    ultimately show ?thesis using e f by (simp add: ld_hdr)
  qed
qed

text \<open>
  The three ways the insertion may go, each described by the links it leaves: \<open>X\<close> and \<open>Y\<close> are
  the free blocks below and above the one at \<open>a\<close>.
\<close>

definition inserted :: "heap \<Rightarrow> nat list \<Rightarrow> nat \<Rightarrow> nat list \<Rightarrow> bool" where
  "inserted h X a Y \<longleftrightarrow> (\<exists>m hd. free_insert h a = Inr (h\<lparr>h_head := hd, hdr := m\<rparr>)
     \<and> hd = hd_or 0 (X @ a # Y) \<and> dseg m 0 (X @ a # Y) 0
     \<and> relinked (insert a (set X \<union> set Y)) (hdr h) m)"

lemma free_insert_append:
  assumes X: "dseg (hdr h) 0 X 0" "X \<noteq> []" "h_head h = hd_or 0 X" and nz: "0 \<notin> set X" "distinct X"
    and place: "find_place (walk_fuel h) h (h_head h) a = Inr (last_or 0 X)"
    and a: "a \<noteq> 0" "a \<notin> set X" "last_or 0 X < a"
    and e: "hdr h a = Some e" "e_next e = 0"
  shows "inserted h X a []"
proof -
  let ?p = "last_or 0 X"
  have p: "?p \<noteq> 0" using X(2) nz(1) by (cases X rule: rev_cases) auto
  from set_next_if_seg [OF X(1) nz, of a] obtain m2
    where sn: "set_next h ?p a = Inr (h\<lparr>hdr := m2\<rparr>)"
      and r2: "relinked (set X) (hdr h) m2" and X2: "dseg m2 0 X a"
    using p by (auto simp: set_next_if_def)
  have m2: "m2 a = Some e" using relinked_outside [OF r2 a(2)] e by simp
  let ?m = "m2(a \<mapsto> e\<lparr>e_prev := ?p\<rparr>)"
  have hne: "h_head h \<noteq> 0" using X(2,3) nz(1) by (cases X) auto
  have "free_insert h a = Inr (h\<lparr>hdr := ?m\<rparr>)"
    using place hne p a(1,3) sn m2 e by (simp add: free_insert_def set_prev_def ld_hdr st_def)
  moreover have "dseg ?m 0 (X @ [a]) 0"
    using X2 X(2) a(2) e by (simp add: dseg_append)
  moreover have "relinked {a} m2 ?m" by (rule relinked_prev) (simp_all add: m2)
  from relinked_trans [OF r2 this] have "relinked (insert a (set X)) (hdr h) ?m" by simp
  moreover have "h_head h = hd_or 0 (X @ [a])" using X(2,3) by (cases X) auto
  ultimately show ?thesis
    unfolding inserted_def by (intro exI [of _ ?m] exI [of _ "h_head h"]) simp
qed

lemma free_insert_before:
  assumes X: "dseg (hdr h) 0 X (hd_or 0 Y)" and Y: "dseg (hdr h) (last_or 0 X) Y 0" "Y \<noteq> []"
    and head: "h_head h = hd_or 0 (X @ Y)"
    and nz: "0 \<notin> set X" "0 \<notin> set Y" and dist: "distinct X" "distinct Y" "set X \<inter> set Y = {}"
    and place: "find_place (walk_fuel h) h (h_head h) a = Inr (hd_or 0 Y)"
    and a: "a \<noteq> 0" "a \<notin> set X" "a \<notin> set Y" "a < hd_or 0 Y"
    and e: "hdr h a = Some e"
  shows "inserted h X a Y"
proof -
  let ?p = "hd_or 0 Y" and ?q = "last_or 0 X"
  from Y obtain pe where pe: "hdr h ?p = Some pe" "e_prev pe = ?q" by (cases Y) auto
  have p: "?p \<noteq> 0" "?p \<noteq> a" and hne: "h_head h \<noteq> 0"
    and phead: "?p = h_head h \<longleftrightarrow> X = []"
    using Y(2) nz a(4) dist(3) unfolding head by (cases X; cases Y; auto)+
  let ?hd = "if X = [] then a else h_head h" and ?ea = "e\<lparr>e_prev := ?q, e_next := ?p\<rparr>"
  define h2 where "h2 = h\<lparr>h_head := ?hd, hdr := (hdr h)(a \<mapsto> ?ea)\<rparr>"
  have "dseg (hdr h2) 0 X ?p" "dseg (hdr h2) ?q Y 0" using X Y a(2,3) by (simp_all add: h2_def)
  from relink_around [OF this nz dist, of a a] obtain m2 m3
    where sn: "set_next_if h2 ?q a = Inr (h2\<lparr>hdr := m2\<rparr>)"
      and sp: "set_prev (h2\<lparr>hdr := m2\<rparr>) ?p a = Inr (h2\<lparr>hdr := m3\<rparr>)"
      and r3: "relinked (set X \<union> set Y) (hdr h2) m3" and X3: "dseg m3 0 X a" and Y3: "dseg m3 a Y 0"
    using p(1) by (auto simp: set_prev_if_def)
  have m3: "m3 a = Some ?ea" using relinked_outside [OF r3] a by (simp add: h2_def)
  have "(if ?p = h_head h then h\<lparr>h_head := a\<rparr> else h) = h\<lparr>h_head := ?hd\<rparr>" "?p = h_head h \<longrightarrow> ?q = 0"
    using phead by simp_all
  then have "free_insert h a = rbind (set_prev (h\<lparr>h_head := ?hd\<rparr>) a ?q) (\<lambda>h.
      rbind (set_next h a ?p) (\<lambda>h. rbind (set_next_if h ?q a) (\<lambda>h. set_prev h ?p a)))"
    using place hne p pe a(4) by (simp add: free_insert_def ld_hdr Let_def)
  also have "\<dots> = Inr (h2\<lparr>hdr := m3\<rparr>)"
    using e a(1) sn sp by (simp add: set_prev_def [of "h\<lparr>h_head := x\<rparr>" for x]
        set_next_def ld_hdr st_def h2_def)
  finally have run: "free_insert h a = Inr (h\<lparr>h_head := ?hd, hdr := m3\<rparr>)" by (simp add: h2_def)
  let ?m1 = "(hdr h)(a \<mapsto> e\<lparr>e_prev := ?q\<rparr>)"
  have "relinked {a} (hdr h) ?m1" by (rule relinked_prev) (simp_all add: e)
  moreover have "relinked {a} ?m1 (?m1(a \<mapsto> ?ea))" by (rule relinked_next) simp_all
  ultimately have "relinked {a} (hdr h) (hdr h2)" using relinked_trans by (fastforce simp: h2_def)
  from relinked_trans [OF this r3] have "relinked (insert a (set X \<union> set Y)) (hdr h) m3" by simp
  moreover have "dseg m3 0 (X @ a # Y) 0" using X3 Y3 m3 by (simp add: dseg_append)
  moreover have "?hd = hd_or 0 (X @ a # Y)" using head by (cases X) auto
  ultimately show ?thesis unfolding inserted_def using run by blast
qed

lemma free_insert_links:
  assumes inv: "heap_inv h (xs @ b # ys)" and used: "\<not> b_free b"
    and e: "hdr h (b_addr b) = Some e" "e_next e = 0" "e_prev e = 0"
    and h1: "h1 = st h (b_addr b) (e\<lparr>e_free := True\<rparr>)"
  shows "inserted h1 (free_addrs xs) (b_addr b) (free_addrs ys)"
proof -
  let ?a = "b_addr b" and ?X = "free_addrs xs" and ?Y = "free_addrs ys"
  let ?e = "e\<lparr>e_free := True\<rparr>"
  note at = heap_inv_at [OF inv]
  have m1: "hdr h1 ?a = Some ?e" by (simp add: h1 st_def)
  have seg0: "dseg (hdr h) 0 (?X @ ?Y) 0" and head: "h_head h1 = hd_or 0 (?X @ ?Y)"
    using inv used by (auto simp: heap_inv_def h1 st_def)
  have X: "dseg (hdr h1) 0 ?X (hd_or 0 ?Y)" and Y: "dseg (hdr h1) (last_or 0 ?X) ?Y 0"
    using seg0 at(9,10) by (auto simp: dseg_append h1 st_def)
  have below: "x < ?a" if "x \<in> set ?X" for x
    using that tiles_before [OF at(1)] by (fastforce simp: set_free_addrs b_end_def)
  have above: "?a < x" if "x \<in> set ?Y" for x
    using that tiles_after [OF at(1)] by (fastforce simp: set_free_addrs b_end_def)
  have place: "find_place (walk_fuel h1) h1 (h_head h1) ?a = Inr (hd_or (last_or 0 ?X) ?Y)"
    if ne: "?X @ ?Y \<noteq> []"
    unfolding head
  proof (rule find_place_dseg [OF _ _ below above ne])
    show "dseg (hdr h1) 0 (?X @ ?Y) 0" using X Y by (simp add: dseg_append)
    show "length (?X @ ?Y) \<le> walk_fuel h1"
      using walk_fuel_enough [OF inv] used by (simp add: walk_fuel_def h1 st_def)
    show "x \<noteq> 0 \<and> (\<exists>e. hdr h1 x = Some e \<and> e_free e)" if "x \<in> set ?X \<union> set ?Y" for x
      using that at(5,7,9-12) by (fastforce simp: h1 st_def set_free_addrs list_all_iff blk_def)
  qed
  consider (empty) "?X = []" "?Y = []" | (append) "?X \<noteq> []" "?Y = []" | (before) "?Y \<noteq> []"
    by blast
  then show ?thesis
  proof cases
    case empty
    then show ?thesis
      using head e m1 at(8) unfolding inserted_def
      by (intro exI [of _ "hdr h1"] exI [of _ ?a]) (simp add: free_insert_def relinked_refl)
  next
    case append
    then have "last_or 0 ?X \<in> set ?X" by (cases ?X rule: rev_cases) auto
    then show ?thesis
      using free_insert_append [of h1 ?X ?a ?e] append X head at(8,9,11,13) place below m1 e(2)
      by simp
  next
    case before
    then have p: "hd_or d ?Y = hd_or 0 ?Y" "hd_or 0 ?Y \<in> set ?Y" for d by (cases ?Y; auto)+
    show ?thesis
      by (rule free_insert_before [OF X Y before head at(11-15) _ at(8-10) above m1])
        (use place before p in auto)
  qed
qed

lemma free_insert_inv:
  assumes inv: "heap_inv h (xs @ b # ys)" and used: "\<not> b_free b"
    and xf: "xs = [] \<or> \<not> b_free (last xs)" and yf: "ys = [] \<or> \<not> b_free (hd ys)"
    and e: "hdr h (b_addr b) = Some e"
    and h1: "h1 = st h (b_addr b) (e\<lparr>e_free := True\<rparr>)"
  shows "\<exists>h'. free_insert h1 (b_addr b) = Inr h'
    \<and> heap_inv h' (xs @ Block (b_addr b) (b_size b) True # ys) \<and> frame h h'"
proof -
  let ?a = "b_addr b" and ?X = "free_addrs xs" and ?Y = "free_addrs ys"
  let ?b = "Block (b_addr b) (b_size b) True"
  note at = heap_inv_at [OF inv]
  have el: "e_next e = 0" "e_prev e = 0" "e_size e = b_size b"
    and tag: "endtag h (?a + b_size b + 32) = Some (b_size b)"
    using at(6) used e by (auto simp: blk_def)
  obtain m hd where run: "free_insert h1 ?a = Inr (h1\<lparr>h_head := hd, hdr := m\<rparr>)"
    and hd: "hd = hd_or 0 (?X @ ?a # ?Y)" and seg: "dseg m 0 (?X @ ?a # ?Y) 0"
    and rel: "relinked (insert ?a (set ?X \<union> set ?Y)) (hdr h1) m"
    using free_insert_links [OF inv used e el(1,2) h1] unfolding inserted_def by blast
  let ?h' = "h1\<lparr>h_head := hd, hdr := m\<rparr>"
  have blks: "blk m (endtag h1) d" if d: "d \<in> set xs \<union> set ys" for d
  proof -
    have "blk (hdr h1) (endtag h1) d"
      using heap_inv_others(1,2) [OF inv d] by (simp add: h1 st_def)
    then show ?thesis
      by (rule blk_relinked [OF _ rel]) (use heap_inv_others(2,3) [OF inv d] in auto)
  qed
  have "blk (hdr h1) (endtag h1) ?b" using el tag by (simp add: blk_def h1 st_def)
  then have blkb: "blk m (endtag h1) ?b" by (rule blk_relinked [OF _ rel]) simp
  have "heap_inv ?h' (xs @ ?b # ys)"
    unfolding heap_inv_def
  proof (intro conjI)
    let ?bs = "xs @ ?b # ys"
    have addrs: "map b_addr ?bs = map b_addr (xs @ b # ys)" by simp
    show "tiles (hd_or (brk ?h') (map b_addr ?bs)) ?bs (brk ?h')"
      using tiles_same_extent [OF at(1), of ?b] unfolding addrs by (simp add: h1 st_def b_end_def)
    show "list_all block_shape ?bs" using at(2-4) by (simp add: block_shape_def)
    show "no_adjacent_free ?bs" using inv xf yf
      by (auto simp: heap_inv_def no_adjacent_free_append no_adjacent_free_Cons)
    show "list_all (blk (hdr ?h') (endtag ?h')) ?bs" using blks blkb by (auto simp: list_all_iff)
    show "h_head ?h' = hd_or 0 (free_addrs ?bs)" "dseg (hdr ?h') 0 (free_addrs ?bs) 0"
      using hd seg by simp_all
  qed (use inv in \<open>simp_all add: heap_inv_def h1 st_def\<close>)
  then show ?thesis using run by (auto simp: frame_def h1 st_def)
qed

lemma is_free_block:
  assumes "heap_inv h bs" and "c \<in> set bs" and "b_addr c \<noteq> b_addr b"
  shows "is_free (st h (b_addr b) e) (b_addr c) = Inr (b_free c)"
  using heap_inv_range(1,6) [OF assms(1,2)] assms(3)
  by (auto simp: is_free_def ld_def st_def blk_def)

text \<open>
  What \<open>free\<close> reads off the boundary tags: the block before, the block after, whether they
  are free, and that the pointer lies between the first and the last payload.
\<close>

lemma block_before_run:
  assumes inv: "heap_inv h (xs @ b # ys)"
  shows "block_before (st h (b_addr b) e) (b_addr b) = Inr (if xs = [] then 0 else b_addr (last xs))"
proof (cases xs rule: rev_cases)
  case Nil
  then show ?thesis using heap_inv_ends(1) [OF inv] by (simp add: block_before_def st_def)
next
  case (snoc zs p)
  note at = heap_inv_at [OF inv]
  have top: "b_end b \<le> brk h" "brk h < 9223372036854775808"
    using heap_inv_range(3,4) [OF inv, of b] by auto
  from snoc have p: "b_end p = b_addr b" "endtag h (b_addr p + b_size p + 32) = Some (b_size p)"
    using at(1,5) by (auto simp: tiles_append blk_def)
  then have "sub64 (b_addr b) 8 = b_addr p + b_size p + 32"
    using top by (simp add: sub64_id b_end_def)
  moreover have "sub64 (sub64 (b_addr p + b_size p + 32) (b_size p)) 32 = b_addr p"
    using top p by (simp add: sub64_id b_end_def)
  ultimately show ?thesis
    using snoc heap_inv_ends(1) [OF inv] p by (simp add: block_before_def ld_end_def st_def)
qed

lemma block_after_run:
  assumes inv: "heap_inv h (xs @ b # ys)" and e: "e_size e = b_size b"
  shows "block_after (st h (b_addr b) e) (b_addr b) e = (if ys = [] then 0 else b_addr (hd ys))"
proof (cases ys)
  case Nil
  then show ?thesis using heap_inv_ends(2) [OF inv] by (simp add: block_after_def st_def)
next
  case (Cons c us)
  then have "b_end b = b_addr c" using heap_inv_at(1) [OF inv] by (auto simp: tiles_append)
  then show ?thesis
    using Cons heap_inv_ends(2) [OF inv] e heap_inv_range(3,4) [OF inv, of b]
    by (simp add: block_after_def st_def w64_id b_end_def)
qed

lemma payload_in_heap:
  assumes inv: "heap_inv h (xs @ b # ys)"
  shows "b_addr b + 32 \<le> w64 (h_final h + sizeof_entry)" "w64 (h_start h + sizeof_entry) \<le> b_addr b + 32"
proof -
  have "h_final h \<in> b_addr ` set (xs @ b # ys)"
    using inv last_or_in [of "b_addr b" "map b_addr ys"] by (auto simp: heap_inv_def)
  then obtain f where "f \<in> set (xs @ b # ys)" "h_final h = b_addr f" by blast
  then have "h_final h + 40 \<le> brk h" using heap_inv_range(3) [OF inv] by (fastforce simp: b_end_def)
  then show "b_addr b + 32 \<le> w64 (h_final h + sizeof_entry)"
    "w64 (h_start h + sizeof_entry) \<le> b_addr b + 32"
    using heap_inv_ends(4,5) [OF inv] heap_inv_range(3,4) [OF inv, of b]
    by (simp_all add: w64_id b_end_def)
qed

lemma free_dispatch:
  assumes inv: "heap_inv h (xs @ b # ys)"
    and e: "hdr h (b_addr b) = Some e" "e_size e = b_size b" "\<not> e_free e"
    and h1: "h1 = st h (b_addr b) (e\<lparr>e_free := True\<rparr>)"
    and P: "P \<longleftrightarrow> xs \<noteq> [] \<and> b_free (last xs)" and Q: "Q \<longleftrightarrow> ys \<noteq> [] \<and> b_free (hd ys)"
  shows "free h (b_addr b + 32) =
    (if P \<and> \<not> Q then free_prev h1 (b_addr b) (b_addr (last xs))
     else if \<not> P \<and> Q then free_next h1 (b_addr b) (b_addr (hd ys))
     else if P \<and> Q then free_both h1 (b_addr b) (b_addr (last xs)) (b_addr (hd ys))
     else free_insert h1 (b_addr b))"
proof -
  note at = heap_inv_at [OF inv]
  let ?prev = "if xs = [] then 0 else b_addr (last xs)"
  let ?next = "if ys = [] then 0 else b_addr (hd ys)"
  have "is_free h1 ?prev = Inr P"
    using is_free_block [OF inv, of "last xs" b] tiles_distinct(1) [OF at(1)]
    by (cases xs rule: rev_cases) (auto simp: h1 P is_free_def)
  moreover have "is_free h1 ?next = Inr Q"
    using is_free_block [OF inv, of "hd ys" b] tiles_distinct(2) [OF at(1)]
    by (cases ys) (auto simp: h1 Q is_free_def)
  moreover have "sub64 (b_addr b + 32) 32 = b_addr b"
    using heap_inv_range(3,4) [OF inv, of b] by (simp add: sub64_id b_end_def)
  moreover have "block_after h1 (b_addr b) (e\<lparr>e_free := True\<rparr>) = ?next"
    using block_after_run [OF inv] e by (simp add: h1)
  ultimately have "free h (b_addr b + 32) =
    (if P \<and> \<not> Q then free_prev h1 (b_addr b) ?prev
     else if \<not> P \<and> Q then free_next h1 (b_addr b) ?next
     else if P \<and> Q then free_both h1 (b_addr b) ?prev ?next
     else free_insert h1 (b_addr b))"
    using payload_in_heap [OF inv] e at(8) block_before_run [OF inv, of "e\<lparr>e_free := True\<rparr>"]
    by (simp add: free_def free_merge_def Let_def ld_hdr h1 [symmetric])
  then show ?thesis using P Q by auto
qed

theorem free_refines_blocks:
  assumes inv: "heap_inv h bs" and b: "b \<in> set bs" and used: "\<not> b_free b"
  shows "\<exists>h'. free h (b_addr b + 32) = Inr h' \<and> heap_inv h' (abs_free (b_addr b) bs) \<and> frame h h'"
proof -
  from split_list [OF b] obtain xs ys where bs: "bs = xs @ b # ys" by blast
  have inv': "heap_inv h (xs @ b # ys)" using inv bs by simp
  note acases = abs_free_cases [OF inv' used]
  obtain e where e: "hdr h (b_addr b) = Some e" "e_size e = b_size b" "\<not> e_free e"
    using heap_inv_at(6) [OF inv'] used by (auto simp: blk_def)
  define h1 where "h1 = st h (b_addr b) (e\<lparr>e_free := True\<rparr>)"
  note run = free_dispatch [OF inv' e h1_def refl refl]
  consider (prev) zs p where "xs = zs @ [p]" "b_free p" "ys = [] \<or> \<not> b_free (hd ys)"
    | (after) c us where "ys = c # us" "b_free c" "xs = [] \<or> \<not> b_free (last xs)"
    | (both) zs p c us where "xs = zs @ [p]" "b_free p" "ys = c # us" "b_free c"
    | (none) "xs = [] \<or> \<not> b_free (last xs)" "ys = [] \<or> \<not> b_free (hd ys)"
    by (cases xs rule: rev_cases; cases ys) auto
  then show ?thesis
  proof cases
    case prev
    then show ?thesis
      using free_prev_inv [of h zs p b ys e h1] inv' used e(1) run acases(1) [of zs p] bs
      by (auto simp: h1_def)
  next
    case after
    then show ?thesis
      using free_next_inv [of h xs b c us e h1] inv' used e(1) run acases(2) [of c us] bs
      by (auto simp: h1_def)
  next
    case both
    then show ?thesis
      using free_both_inv [of h zs p b c us e h1] inv' used e(1) run acases(3) [of zs p c us] bs
      by (auto simp: h1_def)
  next
    case none
    then show ?thesis
      using free_insert_inv [OF inv' used none e(1) h1_def] run acases(4) bs by auto
  qed
qed

end
