(* ===== verification/Alloc_Client.thy ===== *)
theory Alloc_Client
  imports Alloc_Correct
begin

text \<open>
  What the allocator of \<^verbatim>\<open>src/malloc/alloc.c\<close> promises to the program that calls it: the
  blocks in use are kept apart and keep their contents, no call faults as long as the program
  frees only what it holds, and the behaviour at the sizes whose rounding overflows.
\<close>

section \<open>The blocks in use\<close>

definition used :: "block list \<Rightarrow> block set" where
  "used bs = {b \<in> set bs. \<not> b_free b}"

lemma used_simps [simp]:
  "used [] = {}"
  "used (b # bs) = (if b_free b then used bs else insert b (used bs))"
  "used (bs @ cs) = used bs \<union> used cs"
  by (auto simp: used_def)

lemma finite_used [simp]: "finite (used bs)"
  by (simp add: used_def)

lemma used_coalesce [simp]: "used (coalesce bs) = used bs"
proof (induction bs)
  case (Cons b bs)
  then show ?case by (cases "coalesce bs") (auto split: if_splits)
qed simp

lemma used_abs_free:
  assumes "tiles a bs z" and "b \<in> used bs"
  shows "used (abs_free (b_addr b) bs) = used bs - {b}"
proof -
  from assms(2) have "b \<in> set bs" "\<not> b_free b" by (auto simp: used_def)
  then obtain xs ys where bs: "bs = xs @ b # ys" by (meson split_list)
  with assms(1) have t: "tiles a (xs @ b # ys) z" by simp
  then have "b \<notin> set xs" "b \<notin> set ys" using tiles_distinct(1,2) [OF t] by auto
  then have "b \<notin> used xs" "b \<notin> used ys" by (auto simp: used_def)
  then show ?thesis
    using mark_free_at [OF t] \<open>\<not> b_free b\<close> by (simp add: abs_free_def bs)
qed

lemma used_take_fit:
  assumes "tiles a bs z" and "take_fit n bs = Some (p, cs)"
  obtains s where "used cs = insert (Block p s False) (used bs)" "n \<le> s" "p \<notin> b_addr ` used bs"
proof -
  from assms(2) have "find (\<lambda>b. b_free b \<and> n \<le> b_size b) bs \<noteq> None"
    by (metis option.discI take_fit_None)
  then obtain b where "find (\<lambda>b. b_free b \<and> n \<le> b_size b) bs = Some b" by blast
  from take_fit_Some [OF this] obtain xs ys where bs: "bs = xs @ b # ys" "b_free b" "n \<le> b_size b"
    and cs: "p = b_addr b" "cs = xs @ carve n b @ ys" using assms(2) by auto
  have "p \<notin> b_addr ` used bs"
    using tiles_distinct(1,2) [of a xs b ys z] assms(1) bs cs by (auto simp: used_def)
  moreover have "used cs = insert (Block p (if n < b_size b \<and> threshold + n + 40 \<le> b_size b
      then n else b_size b) False) (used bs)"
    using bs cs by (auto simp: carve_def)
  ultimately show ?thesis
    by (intro that [of "if n < b_size b \<and> threshold + n + 40 \<le> b_size b then n else b_size b"])
      (use bs in auto)
qed

text \<open>The payload of a block.\<close>

definition payload_range :: "block \<Rightarrow> nat set" where
  "payload_range b = {b_addr b + 32 ..< b_addr b + 32 + b_size b}"

lemma payloads_disjoint:
  assumes "heap_inv h bs" and "b \<in> set bs" and "c \<in> set bs" and "b \<noteq> c"
  shows "payload_range b \<inter> payload_range c = {}"
proof -
  have t: "tiles (hd_or (brk h) (map b_addr bs)) bs (brk h)" using assms(1) by (simp add: heap_inv_def)
  from split_list [OF assms(2)] obtain xs ys where bs: "bs = xs @ b # ys" by blast
  with assms(3,4) have "c \<in> set xs \<or> c \<in> set ys" by auto
  then have "b_end c \<le> b_addr b \<or> b_end b \<le> b_addr c"
    using tiles_before tiles_after t bs by blast
  then show ?thesis by (auto simp: payload_range_def b_end_def)
qed

text \<open>\<open>malloc\<close> in terms of the blocks in use.\<close>

lemma malloc_used:
  assumes inv: "heap_inv h bs" and n: "sane_size n"
  obtains (null) h' bs' where "malloc h n = Inr (0, h')" "heap_inv h' bs'" "used bs' = used bs" "frame h h'"
  | (block) a s h' bs' where "malloc h n = Inr (a + 32, h')" "heap_inv h' bs'"
      "used bs' = insert (Block a s False) (used bs)" "a \<notin> b_addr ` used bs" "n \<le> s"
      "round_size n \<le> s" "frame h h'"
proof -
  let ?n = "round_size n"
  have t: "tiles (hd_or (brk h) (map b_addr bs)) bs (brk h)" using inv by (simp add: heap_inv_def)
  from malloc_refines_blocks [OF inv n] obtain h' where
    run: "malloc h n = Inr (fst (abs_malloc (brk_limit h) (brk h) ?n bs), h')"
    and inv': "heap_inv h' (snd (abs_malloc (brk_limit h) (brk h) ?n bs))" and fr: "frame h h'"
    by blast
  show thesis
  proof (cases "take_fit ?n bs")
    case (Some pc)
    then obtain p cs where pc: "take_fit ?n bs = Some (p, cs)" by (cases pc) auto
    from used_take_fit [OF t pc] obtain s where "used cs = insert (Block p s False) (used bs)"
      "?n \<le> s" "p \<notin> b_addr ` used bs" by blast
    then show thesis
      using run inv' fr pc round_size_bounds(1) [OF n]
      by (intro block [of p h' cs s]) (auto simp: abs_malloc_def)
  next
    case None
    show thesis
    proof (cases "brk h + ?n + 40 \<le> brk_limit h")
      case True
      have "brk h \<notin> b_addr ` used bs"
        using heap_inv_range(3) [OF inv] by (fastforce simp: used_def b_end_def)
      then show thesis
        using run inv' fr None True round_size_bounds(1) [OF n]
        by (intro block [of "brk h" h' "bs @ [Block (brk h) ?n False]" ?n]) (auto simp: abs_malloc_def)
    next
      case False
      then show thesis using run inv' fr None by (intro null [of h' bs]) (auto simp: abs_malloc_def)
    qed
  qed
qed

lemma free_used:
  assumes inv: "heap_inv h bs" and b: "b \<in> used bs"
  obtains h' bs' where "free h (b_addr b + 32) = Inr h'" "heap_inv h' bs'" "used bs' = used bs - {b}"
    "frame h h'"
proof -
  have "tiles (hd_or (brk h) (map b_addr bs)) bs (brk h)" using inv by (simp add: heap_inv_def)
  then have "used (abs_free (b_addr b) bs) = used bs - {b}" using b by (rule used_abs_free)
  with free_refines_blocks [OF inv, of b] b that show thesis by (auto simp: used_def)
qed

section \<open>realloc and calloc\<close>

lemma round_size_idem:
  assumes "sane_size n" and "sane_size (round_size n)"
  shows "round_size (round_size n) = round_size n"
proof -
  obtain k where k: "round_size n = 16 * k + 8"
    using round_size_bounds(3) [OF assms(1)] by (metis mult_div_mod_eq)
  have "(16 * k + 8 + 55) div 16 = k + 3" by simp
  then show ?thesis using round_size_eq [OF assms(2)] k by simp
qed

text \<open>Requests up to \<open>2 ^ 62\<close> bytes are sane, and so are their roundings.\<close>

definition request_ok :: "nat \<Rightarrow> bool" where
  "request_ok n \<longleftrightarrow> 0 < n \<and> n \<le> 2 ^ 62"

lemma request_ok_sane:
  assumes "request_ok n"
  shows "sane_size n" "sane_size (round_size n)" "round_size (round_size n) = round_size n"
    "n \<le> round_size n"
proof -
  show s: "sane_size n" using assms by (simp add: request_ok_def sane_size_def)
  show "n \<le> round_size n" by (rule round_size_bounds [OF s])
  then show r: "sane_size (round_size n)"
    using assms round_size_bounds(2) [OF s] by (simp add: request_ok_def sane_size_def)
  show "round_size (round_size n) = round_size n" by (rule round_size_idem [OF s r])
qed

lemma used_header:
  assumes "heap_inv h bs" and "b \<in> used bs"
  obtains e where "ld h (b_addr b) = Inr e" "e_size e = b_size b" "\<not> e_free e"
    "sub64 (b_addr b + 32) 32 = b_addr b" "b_addr b \<noteq> 0" "h_start h \<le> b_addr b" "b_addr b \<le> h_final h"
proof -
  from assms(2) have b: "b \<in> set bs" "\<not> b_free b" by (auto simp: used_def)
  from split_list [OF b(1)] obtain xs ys where bs: "bs = xs @ b # ys" by blast
  have "h_start h \<le> b_addr b" "b_addr b \<le> h_final h"
    using heap_inv_ends(4,5) [of h xs b ys] assms(1) bs by auto
  with heap_inv_range [OF assms(1) b(1)] b(2) that show thesis
    by (auto simp: blk_def ld_hdr sub64_id b_end_def)
qed

lemma used_in_heap:
  assumes "heap_inv h bs" and "b \<in> used bs"
  shows "brk_low h \<le> b_addr b" "b_addr b + b_size b + 40 \<le> brk h"
  using heap_inv_range(2,3) [OF assms(1), of b] assms(2) by (simp_all add: used_def b_end_def)

lemma realloc_used:
  assumes inv: "heap_inv h bs" and b: "b \<in> used bs" and n: "request_ok n"
  obtains (null) h' bs' where "realloc h (b_addr b + 32) n = Inr (0, h')" "heap_inv h' bs'"
      "used bs' = used bs" "frame h h'"
  | (moved) a s h' bs' where "realloc h (b_addr b + 32) n = Inr (a + 32, h')" "heap_inv h' bs'"
      "used bs' = insert (Block a s False) (used bs - {b})" "a \<notin> b_addr ` used bs" "n \<le> s"
      "\<forall>i < min n (b_size b). payload h' (a + 32 + i) = payload h (b_addr b + 32 + i)"
      "\<forall>c \<in> used bs - {b}. \<forall>x \<in> payload_range c. payload h' x = payload h x"
proof -
  let ?a = "b_addr b" and ?n = "round_size n"
  note ok = request_ok_sane [OF n]
  from used_header [OF inv b] obtain e where e: "ld h ?a = Inr e" "e_size e = b_size b" "\<not> e_free e"
    "sub64 (?a + 32) 32 = ?a" "?a \<noteq> 0" "h_start h \<le> ?a" "?a \<le> h_final h" by blast
  have nz: "n \<noteq> 0" using n by (simp add: request_ok_def)
  show thesis
    using inv ok(2)
  proof (cases rule: malloc_used)
    case (null h' bs')
    then have "realloc h (?a + 32) n = Inr (0, h')" using e nz by (simp add: realloc_def Let_def)
    then show thesis using null by (intro that(1))
  next
    case (block q s h1 bs1)
    have b1: "b \<in> used bs1" using b block by simp
    have qb: "Block q s False \<noteq> b" using block(4) b by (metis block.sel(1) image_eqI)
    have new: "Block q s False \<in> used bs1" using block by simp
    from used_header [OF block(2) b1] obtain e1 where e1: "ld h1 ?a = Inr e1" "e_size e1 = b_size b"
      by blast
    let ?k = "if ?n < b_size b then ?n else b_size b"
    let ?h2 = "h1\<lparr>payload := (\<lambda>x. if q + 32 \<le> x \<and> x < q + 32 + ?k
      then payload h1 (?a + 32 + (x - (q + 32))) else payload h1 x)\<rparr>"
    have "?n \<le> s" using block(6) ok(3) by simp
    then have cp: "memcpy h1 (q + 32) (?a + 32) ?k = Inr ?h2"
      using used_in_heap [OF block(2) new] used_in_heap [OF block(2) b1] by (simp add: memcpy_def in_heap_def)
    have inv2: "heap_inv ?h2 bs1" using block(2) by (simp add: heap_inv_def)
    from free_used [OF inv2 b1] obtain h' bs' where fr: "free ?h2 (?a + 32) = Inr h'"
      "heap_inv h' bs'" "used bs' = used bs1 - {b}" "frame ?h2 h'" by blast
    have run: "realloc h (?a + 32) n = Inr (q + 32, h')"
      using e nz e1 block(1) cp fr(1)
      by (simp add: realloc_def Let_def split del: if_split cong: if_cong)
    have pay: "payload h' = payload ?h2" "payload h1 = payload h"
      using fr(4) block(7) by (auto simp: frame_def)
    have u: "used bs' = insert (Block q s False) (used bs - {b})"
      using fr(3) block(3) qb by auto
    have copied: "\<forall>i < min n (b_size b). payload h' (q + 32 + i) = payload h (?a + 32 + i)"
      using ok(4) by (simp add: pay)
    have others: "payload h' x = payload h x" if c: "c \<in> used bs - {b}" "x \<in> payload_range c" for c x
    proof -
      have "c \<in> set bs1" "Block q s False \<in> set bs1" using c new block(3) by (auto simp: used_def)
      moreover have "c \<noteq> Block q s False" using c block(4) by (metis DiffD1 block.sel(1) image_eqI)
      ultimately have "x \<notin> payload_range (Block q s False)"
        using payloads_disjoint [OF block(2)] c(2) by blast
      moreover have "?k \<le> s" using block(6) ok(3) by auto
      ultimately have "\<not> (q + 32 \<le> x \<and> x < q + 32 + ?k)" by (auto simp: payload_range_def)
      then show ?thesis by (auto simp: pay split: if_splits)
    qed
    show thesis
      using that(2) [OF run fr(2) u block(4) _ copied] block(5) ok(4) others by auto
  qed
qed

lemma calloc_used:
  assumes inv: "heap_inv h bs" and n: "request_ok (num * sz)"
  obtains (null) h' bs' where "calloc h num sz = Inr (0, h')" "heap_inv h' bs'" "used bs' = used bs"
      "frame h h'"
  | (block) a s h' bs' where "calloc h num sz = Inr (a + 32, h')" "heap_inv h' bs'"
      "used bs' = insert (Block a s False) (used bs)" "a \<notin> b_addr ` used bs" "num * sz \<le> s"
      "\<forall>i < num * sz. payload h' (a + 32 + i) = 0"
      "\<forall>c \<in> used bs. \<forall>x \<in> payload_range c. payload h' x = payload h x"
proof -
  let ?n = "num * sz"
  have w: "w64 ?n = ?n" using n by (simp add: request_ok_def w64_id)
  show thesis
    using inv request_ok_sane(1) [OF n]
  proof (cases rule: malloc_used)
    case (null h' bs')
    then show thesis using that(1) by (simp add: calloc_def w)
  next
    case (block q s h1 bs1)
    let ?h = "h1\<lparr>payload := (\<lambda>x. if q + 32 \<le> x \<and> x < q + 32 + ?n then 0 else payload h1 x)\<rparr>"
    have new: "Block q s False \<in> set bs1" using block(3) by (auto simp: used_def)
    have "memset h1 (q + 32) 0 ?n = Inr ?h"
      using used_in_heap [OF block(2), of "Block q s False"] block(3,5) by (simp add: memset_def in_heap_def)
    then have run: "calloc h num sz = Inr (q + 32, ?h)" using block(1) by (simp add: calloc_def w)
    have inv2: "heap_inv ?h bs1" using block(2) by (simp add: heap_inv_def)
    have others: "payload ?h x = payload h x" if c: "c \<in> used bs" "x \<in> payload_range c" for c x
    proof -
      have "c \<in> set bs1" using c block(3) by (auto simp: used_def)
      moreover have "c \<noteq> Block q s False" using c block(4) by (metis block.sel(1) image_eqI)
      ultimately have "x \<notin> payload_range (Block q s False)"
        using payloads_disjoint [OF block(2) _ new] c(2) by blast
      then show ?thesis using block(5,7) by (auto simp: payload_range_def frame_def)
    qed
    show thesis
      by (rule that(2) [OF run inv2 block(3,4,5)]) (simp, intro ballI others)
  qed
qed

section \<open>The program's view of its objects\<close>

text \<open>
  The program that calls the allocator sees a set of objects, each with a pointer and contents.
  \<open>objs_on\<close> says that the memory holds these objects in the payloads of the blocks in use.
\<close>

type_synonym objs = "nat \<rightharpoonup> 8 word list"

definition holds :: "(nat \<Rightarrow> 8 word) \<Rightarrow> block \<Rightarrow> 8 word list \<Rightarrow> bool" where
  "holds m b xs \<longleftrightarrow> length xs \<le> b_size b \<and> (\<forall>i < length xs. m (b_addr b + 32 + i) = xs ! i)"

definition objs_on :: "(nat \<Rightarrow> 8 word) \<Rightarrow> block set \<Rightarrow> objs \<Rightarrow> bool" where
  "objs_on m U live \<longleftrightarrow> dom live = (\<lambda>b. b_addr b + 32) ` U \<and>
     (\<forall>b \<in> U. \<forall>xs. live (b_addr b + 32) = Some xs \<longrightarrow> holds m b xs)"

definition alloc_rel :: "heap \<Rightarrow> objs \<Rightarrow> bool" where
  "alloc_rel h live \<longleftrightarrow> (\<exists>bs. heap_inv h bs \<and> objs_on (payload h) (used bs) live)"

lemma holds_frame: "holds m b xs \<Longrightarrow> \<forall>x \<in> payload_range b. m' x = m x \<Longrightarrow> holds m' b xs"
  by (auto simp: holds_def payload_range_def)

lemma objs_on_frame:
  "objs_on m U live \<Longrightarrow> \<forall>c \<in> U. \<forall>x \<in> payload_range c. m' x = m x \<Longrightarrow> objs_on m' U live"
  unfolding objs_on_def by (blast intro: holds_frame)

lemma objs_on_insert:
  assumes "objs_on m U live" and "a \<notin> b_addr ` U" and "holds m (Block a s False) xs"
  shows "objs_on m (insert (Block a s False) U) (live(a + 32 \<mapsto> xs))"
  using assms by (force simp: objs_on_def)

lemma objs_on_remove:
  assumes "objs_on m U live" and "inj_on b_addr U" and "b \<in> U"
  shows "objs_on m (U - {b}) (live(b_addr b + 32 := None))"
proof -
  have "(\<lambda>c. c + 32) ` b_addr ` U - {b_addr b + 32} = (\<lambda>c. c + 32) ` b_addr ` (U - {b})"
    using assms(2,3) by (auto simp: inj_on_def)
  then show ?thesis
    using assms(1) by (auto simp: objs_on_def image_image split: if_splits)
qed

lemma used_addr_inj:
  assumes inv: "heap_inv h bs"
  shows "inj_on b_addr (used bs)"
proof (rule inj_onI, rule ccontr)
  fix b c assume b: "b \<in> used bs" "c \<in> used bs" "b_addr b = b_addr c" "b \<noteq> c"
  then have "0 < b_size b" "0 < b_size c"
    using inv by (auto simp: heap_inv_def list_all_iff block_shape_def used_def)
  then have "b_addr b + 32 \<in> payload_range b \<inter> payload_range c"
    using b(3) by (auto simp: payload_range_def)
  then show False using payloads_disjoint [OF inv] b by (auto simp: used_def)
qed

end
