(* ===== verification/Alloc_Props.thy ===== *)
theory Alloc_Props
  imports Alloc_Client
begin

text \<open>
  The contract of the allocator of \<^verbatim>\<open>src/malloc/alloc.c\<close> as the calling program sees it: a
  specification over objects with contents, the proof that the four entry points implement it,
  and the runs of a program that frees only what it holds.
\<close>

section \<open>The specification\<close>

datatype request =
    Malloc nat
  | Calloc nat nat
  | Realloc nat nat
  | Free nat

fun serve :: "heap \<Rightarrow> request \<Rightarrow> (nat \<times> heap) res" where
  "serve h (Malloc n) = malloc h n"
| "serve h (Calloc k n) = calloc h k n"
| "serve h (Realloc p n) = realloc h p n"
| "serve h (Free p) = rbind (free h p) (\<lambda>h. Inr (0, h))"

text \<open>What a correct program may ask for: sizes up to \<open>2 ^ 62\<close>, and only pointers it holds.\<close>

definition size_ok :: "nat \<Rightarrow> bool" where
  "size_ok n \<longleftrightarrow> n \<le> 2 ^ 62"

fun allowed :: "objs \<Rightarrow> request \<Rightarrow> bool" where
  "allowed live (Malloc n) = size_ok n"
| "allowed live (Calloc k n) = size_ok (k * n)"
| "allowed live (Realloc p n) = (size_ok n \<and> (p = 0 \<or> live p \<noteq> None))"
| "allowed live (Free p) = (p = 0 \<or> live p \<noteq> None)"

text \<open>
  The answer \<open>p\<close> to a request and the program's objects after it. A new object has the size
  that was asked for at an address that is no other object's; \<open>calloc\<close> fills it with zeros and
  \<open>realloc\<close> with what the old object held.
\<close>

definition fresh :: "objs \<Rightarrow> nat \<Rightarrow> nat \<Rightarrow> 8 word list \<Rightarrow> objs \<Rightarrow> bool" where
  "fresh live n p xs live' \<longleftrightarrow> p \<noteq> 0 \<and> p mod 16 = 0 \<and> live p = None \<and> length xs = n \<and> live' = live(p \<mapsto> xs)"

definition freed :: "objs \<Rightarrow> nat \<Rightarrow> objs" where
  "freed live p = (if p = 0 then live else live(p := None))"

fun spec :: "objs \<Rightarrow> request \<Rightarrow> nat \<Rightarrow> objs \<Rightarrow> bool" where
  "spec live (Malloc n) p live' =
     (p = 0 \<and> live' = live \<or> 0 < n \<and> (\<exists>xs. fresh live n p xs live'))"
| "spec live (Calloc k n) p live' =
     (p = 0 \<and> live' = live \<or> 0 < k * n \<and> fresh live (k * n) p (replicate (k * n) 0) live')"
| "spec live (Realloc q n) p live' =
     (if q = 0 then p = 0 \<and> live' = live \<or> 0 < n \<and> (\<exists>xs. fresh live n p xs live')
      else if n = 0 then p = 0 \<and> live' = freed live q
      else p = 0 \<and> live' = live
         \<or> (\<exists>xs live1. fresh live n p xs live1 \<and> live' = freed live1 q
              \<and> (\<forall>i < min n (length (the (live q))). xs ! i = the (live q) ! i)))"
| "spec live (Free q) p live' = (p = 0 \<and> live' = freed live q)"

section \<open>The entry points implement it\<close>

lemma request_okI: "size_ok n \<Longrightarrow> n \<noteq> 0 \<Longrightarrow> request_ok n"
  by (simp add: size_ok_def request_ok_def)

lemma new_addr:
  assumes "heap_inv h bs" and "Block a s False \<in> used bs"
  shows "(a + 32) mod 16 = 0"
proof -
  have "a mod 16 = 0"
    using heap_inv_range(5) [OF assms(1)] assms(2) unfolding used_def block_shape_def by fastforce
  then show ?thesis by presburger
qed

lemma objs_on_None: "objs_on m U live \<Longrightarrow> a \<notin> b_addr ` U \<Longrightarrow> live (a + 32) = None"
proof (rule ccontr)
  assume *: "objs_on m U live" "a \<notin> b_addr ` U" "live (a + 32) \<noteq> None"
  then have "a + 32 \<in> (\<lambda>b. b_addr b + 32) ` U" by (metis domIff objs_on_def)
  with *(2) show False by auto
qed

lemma objs_on_Some:
  assumes "objs_on m U live" and "live p = Some xs"
  obtains b where "b \<in> U" "p = b_addr b + 32" "holds m b xs"
  using assms by (fastforce simp: objs_on_def dom_def image_iff)

lemma alloc_rel_same:
  "\<lbrakk>objs_on (payload h) (used bs) live; heap_inv h' bs'; used bs' = used bs; frame h h'\<rbrakk> \<Longrightarrow> alloc_rel h' live"
  by (auto simp: alloc_rel_def frame_def intro: exI [of _ bs'])

lemma malloc_simulates:
  assumes rel: "alloc_rel h live" and n: "size_ok n"
  obtains p h' live' where "malloc h n = Inr (p, h')" "spec live (Malloc n) p live'" "alloc_rel h' live'"
proof (cases "n = 0")
  case True
  then show thesis using rel that [of 0 h live] by (simp add: malloc_def)
next
  case False
  from rel obtain bs where bs: "heap_inv h bs" "objs_on (payload h) (used bs) live"
    by (auto simp: alloc_rel_def)
  show thesis
    using bs(1) request_ok_sane(1) [OF request_okI [OF n False]]
  proof (cases rule: malloc_used)
    case (null h' bs')
    show thesis
      using alloc_rel_same [OF bs(2) null(2-4)] null(1) by (intro that [of 0 h' live]) auto
  next
    case (block a s h' bs')
    let ?xs = "map (\<lambda>i. payload h' (a + 32 + i)) [0..<n]"
    have "objs_on (payload h') (used bs') (live(a + 32 \<mapsto> ?xs))"
      unfolding block(3) using bs(2) block(4,5,7)
      by (intro objs_on_insert) (auto simp: holds_def frame_def)
    moreover have "(a + 32) mod 16 = 0" using new_addr block by blast
    ultimately show thesis
      using block False objs_on_None [OF bs(2) block(4)]
      by (intro that [of "a + 32" h' "live(a + 32 \<mapsto> ?xs)"])
        (auto simp: alloc_rel_def fresh_def intro!: exI [of _ ?xs])
  qed
qed

lemma calloc_simulates:
  assumes rel: "alloc_rel h live" and n: "size_ok (k * n)"
  obtains p h' live' where "calloc h k n = Inr (p, h')" "spec live (Calloc k n) p live'" "alloc_rel h' live'"
proof (cases "k * n = 0")
  case True
  then have "calloc h k n = Inr (0, h)" by (auto simp: calloc_def malloc_def w64_def)
  then show thesis using rel that [of 0 h live] by simp
next
  case False
  from rel obtain bs where bs: "heap_inv h bs" "objs_on (payload h) (used bs) live"
    by (auto simp: alloc_rel_def)
  show thesis
    using bs(1) request_okI [OF n False]
  proof (cases rule: calloc_used)
    case (null h' bs')
    show thesis
      using alloc_rel_same [OF bs(2) null(2-4)] null(1) by (intro that [of 0 h' live]) auto
  next
    case (block a s h' bs')
    let ?xs = "replicate (k * n) 0"
    have "objs_on (payload h') (used bs') (live(a + 32 \<mapsto> ?xs))"
      unfolding block(3) using objs_on_frame [OF bs(2) block(7)] block(4,5,6)
      by (intro objs_on_insert) (auto simp: holds_def)
    moreover have "(a + 32) mod 16 = 0" using new_addr block by blast
    ultimately show thesis
      using block False objs_on_None [OF bs(2) block(4)]
      by (intro that [of "a + 32" h' "live(a + 32 \<mapsto> ?xs)"])
        (auto simp: alloc_rel_def fresh_def)
  qed
qed

lemma free_simulates:
  assumes rel: "alloc_rel h live" and p: "p = 0 \<or> live p \<noteq> None"
  obtains h' where "free h p = Inr h'" "alloc_rel h' (freed live p)"
proof (cases "p = 0")
  case True
  then show thesis using rel that [of h] by (simp add: free_def freed_def)
next
  case False
  from rel obtain bs where bs: "heap_inv h bs" "objs_on (payload h) (used bs) live"
    by (auto simp: alloc_rel_def)
  from p False obtain xs where "live p = Some xs" by blast
  from objs_on_Some [OF bs(2) this] obtain b where b: "b \<in> used bs" "p = b_addr b + 32" by metis
  from free_used [OF bs(1) b(1)] obtain h' bs' where f: "free h p = Inr h'" "heap_inv h' bs'"
    "used bs' = used bs - {b}" "frame h h'" using b(2) by blast
  have "objs_on (payload h') (used bs') (freed live p)"
    using objs_on_remove [OF bs(2) used_addr_inj [OF bs(1)] b(1)] f(3,4) False b(2)
    by (simp add: freed_def frame_def)
  then show thesis using f by (intro that) (auto simp: alloc_rel_def)
qed

lemma realloc_simulates:
  assumes rel: "alloc_rel h live" and n: "size_ok n" and q: "q = 0 \<or> live q \<noteq> None"
  obtains p h' live' where "realloc h q n = Inr (p, h')" "spec live (Realloc q n) p live'" "alloc_rel h' live'"
proof -
  consider (new) "q = 0" | (drop) "q \<noteq> 0" "n = 0" | (move) "q \<noteq> 0" "n \<noteq> 0" by blast
  then show thesis
  proof cases
    case new
    then show thesis
      using malloc_simulates [OF rel n] that by (auto simp: realloc_def)
  next
    case drop
    from free_simulates [OF rel q] obtain h' where "free h q = Inr h'" "alloc_rel h' (freed live q)" .
    then show thesis using that [of 0 h' "freed live q"] drop by (simp add: realloc_def)
  next
    case move
    from rel obtain bs where bs: "heap_inv h bs" "objs_on (payload h) (used bs) live"
      by (auto simp: alloc_rel_def)
    from q move(1) obtain ys where ys: "live q = Some ys" by blast
    from objs_on_Some [OF bs(2) this] obtain b where b: "b \<in> used bs" "q = b_addr b + 32"
      "holds (payload h) b ys" by metis
    show thesis
      using bs(1) b(1) request_okI [OF n move(2)]
    proof (cases rule: realloc_used)
      case (null h' bs')
      show thesis
        using alloc_rel_same [OF bs(2) null(2-4)] null(1) b(2) move by (intro that [of 0 h' live]) auto
    next
      case (moved a s h' bs')
      let ?xs = "map (\<lambda>i. payload h' (a + 32 + i)) [0..<n]"
      let ?live = "live(q := None, a + 32 \<mapsto> ?xs)"
      have "objs_on (payload h') (used bs - {b}) (live(q := None))"
        using objs_on_frame [OF objs_on_remove [OF bs(2) used_addr_inj [OF bs(1)] b(1)] moved(7)] b(2)
        by simp
      then have on: "objs_on (payload h') (used bs') ?live"
        unfolding moved(3) using moved(4,5) by (intro objs_on_insert) (auto simp: holds_def)
      have al: "(a + 32) mod 16 = 0" using new_addr moved(2,3) by blast
      have none: "live (a + 32) = None" by (rule objs_on_None [OF bs(2) moved(4)])
      then have "q \<noteq> a + 32" using ys by auto
      then have "fresh live n (a + 32) ?xs (live(a + 32 \<mapsto> ?xs))" "?live = freed (live(a + 32 \<mapsto> ?xs)) q"
        using none al move by (auto simp: fresh_def freed_def)
      moreover have "\<forall>i < min n (length ys). ?xs ! i = ys ! i"
        using moved(6) b by (auto simp: holds_def)
      ultimately have "\<exists>xs live1. fresh live n (a + 32) xs live1 \<and> ?live = freed live1 q
          \<and> (\<forall>i < min n (length (the (live q))). xs ! i = the (live q) ! i)"
        using ys by (intro exI [of _ ?xs] exI [of _ "live(a + 32 \<mapsto> ?xs)"]) simp
      then have "spec live (Realloc q n) (a + 32) ?live" using move by simp
      moreover have "alloc_rel h' ?live" using on moved(2) by (auto simp: alloc_rel_def)
      ultimately show thesis using moved(1) b(2) by (intro that) auto
    qed
  qed
qed

lemma serve_simulates:
  assumes "alloc_rel h live" and "allowed live r"
  shows "\<exists>p h' live'. serve h r = Inr (p, h') \<and> spec live r p live' \<and> alloc_rel h' live'"
proof (cases r)
  case (Malloc n)
  then show ?thesis using assms malloc_simulates by (metis allowed.simps(1) serve.simps(1))
next
  case (Calloc k n)
  then show ?thesis using assms calloc_simulates by (metis allowed.simps(2) serve.simps(2))
next
  case (Realloc q n)
  then show ?thesis using assms realloc_simulates by (metis allowed.simps(3) serve.simps(3))
next
  case (Free q)
  with assms obtain h' where "free h q = Inr h'" "alloc_rel h' (freed live q)"
    using free_simulates by (metis allowed.simps(4))
  then show ?thesis using Free by simp
qed

section \<open>Runs of a correct program\<close>

text \<open>
  A state is the heap with the objects as the program knows them: a block it got from
  \<open>malloc\<close> holds what the program reads there, one from \<open>calloc\<close> holds zeros, one from \<open>realloc\<close>
  what the old one held, and every byte afterwards what the program last wrote. The program asks
  for what it may ask for, or writes a byte of one of its objects.
\<close>

definition read_bytes :: "heap \<Rightarrow> nat \<Rightarrow> nat \<Rightarrow> 8 word list" where
  "read_bytes h p n = map (\<lambda>i. payload h (p + i)) [0..<n]"

fun track :: "objs \<Rightarrow> request \<Rightarrow> nat \<Rightarrow> heap \<Rightarrow> objs" where
  "track live (Malloc n) p h = (if p = 0 then live else live(p \<mapsto> read_bytes h p n))"
| "track live (Calloc k n) p h = (if p = 0 then live else live(p \<mapsto> replicate (k * n) 0))"
| "track live (Realloc q n) p h =
     (if q \<noteq> 0 \<and> n = 0 then live(q := None)
      else if p = 0 then live
      else if q = 0 then live(p \<mapsto> read_bytes h p n)
      else let ys = the (live q) in
        live(q := None, p \<mapsto> take n ys @ read_bytes h (p + length ys) (n - length ys)))"
| "track live (Free q) p h = freed live q"

definition poke :: "heap \<Rightarrow> nat \<Rightarrow> 8 word \<Rightarrow> heap" where
  "poke h a v = h\<lparr>payload := (payload h)(a := v)\<rparr>"

inductive client_step :: "heap \<times> objs \<Rightarrow> heap \<times> objs \<Rightarrow> bool" where
    asks: "\<lbrakk>allowed live r; serve h r = Inr (p, h')\<rbrakk>
      \<Longrightarrow> client_step (h, live) (h', track live r p h')"
  | pokes: "\<lbrakk>live p = Some xs; i < length xs\<rbrakk>
      \<Longrightarrow> client_step (h, live) (poke h (p + i) v, live(p \<mapsto> xs[i := v]))"

definition client_init :: "heap \<times> objs \<Rightarrow> bool" where
  "client_init = (\<lambda>(h, live). live = Map.empty \<and>
     (\<exists>low limit. 0 < low \<and> low \<le> limit \<and> limit < 2 ^ 63 \<and> low mod 16 = 0 \<and> h = heap_init low limit))"

definition client_inv :: "heap \<times> objs \<Rightarrow> bool" where
  "client_inv = (\<lambda>(h, live). alloc_rel h live)"

lemma read_bytes_simps [simp]:
  "length (read_bytes h p n) = n" "i < n \<Longrightarrow> read_bytes h p n ! i = payload h (p + i)"
  by (simp_all add: read_bytes_def)

lemma alloc_rel_read:
  assumes "alloc_rel h live" and "live p = Some xs"
  shows "xs = read_bytes h p (length xs)"
  using assms
  by (auto simp: alloc_rel_def holds_def read_bytes_def elim!: objs_on_Some intro!: nth_equalityI)

lemma track_spec:
  assumes sp: "spec live r p live'" and al: "allowed live r" and rel: "alloc_rel h' live'"
  shows "live' = track live r p h'"
proof (cases r)
  case (Malloc n)
  then show ?thesis
    using sp alloc_rel_read [OF rel, of p] by (auto simp: fresh_def)
next
  case (Calloc k n)
  then show ?thesis using sp by (auto simp: fresh_def)
next
  case (Free q)
  then show ?thesis using sp by simp
next
  case (Realloc q n)
  show ?thesis
  proof (cases "q = 0 \<or> n = 0 \<or> p = 0")
    case True
    then show ?thesis
      using sp alloc_rel_read [OF rel, of p] by (auto simp: Realloc fresh_def freed_def)
  next
    case False
    then obtain ys where ys: "live q = Some ys" using al by (auto simp: Realloc)
    from False sp ys obtain xs where p: "live p = None" "length xs = n"
      and live': "live' = (live(p \<mapsto> xs))(q := None)" and eq: "\<forall>i < min n (length ys). xs ! i = ys ! i"
      by (auto simp: Realloc fresh_def freed_def)
    have pq: "p \<noteq> q" using p ys by auto
    then have "live' p = Some xs" using live' by simp
    from alloc_rel_read [OF rel this] have rd: "xs = read_bytes h' p n" using p by simp
    have "xs = take n ys @ read_bytes h' (p + length ys) (n - length ys)"
    proof (rule nth_equalityI)
      fix i assume i: "i < length xs"
      show "xs ! i = (take n ys @ read_bytes h' (p + length ys) (n - length ys)) ! i"
      proof (cases "i < length ys")
        case True
        then show ?thesis using eq i p by (simp add: nth_append)
      next
        case False
        then have "xs ! i = payload h' (p + i)" using i p rd by simp
        moreover have "i - length ys < n - length ys" using False i p by simp
        ultimately show ?thesis using False by (simp add: nth_append)
      qed
    qed (simp add: p min_def)
    then show ?thesis
      using False ys live' pq fun_upd_twist [OF pq, of live] by (simp add: Realloc)
  qed
qed

lemma poke_rel:
  assumes rel: "alloc_rel h live" and p: "live p = Some xs" and i: "i < length xs"
  shows "alloc_rel (poke h (p + i) v) (live(p \<mapsto> xs[i := v]))"
proof -
  from rel obtain bs where bs: "heap_inv h bs" "objs_on (payload h) (used bs) live"
    by (auto simp: alloc_rel_def)
  from objs_on_Some [OF bs(2) p] obtain b where b: "b \<in> used bs" "p = b_addr b + 32"
    "holds (payload h) b xs" .
  let ?m = "payload (poke h (p + i) v)"
  have inv: "heap_inv (poke h (p + i) v) bs" using bs(1) by (simp add: heap_inv_def poke_def)
  have new: "holds ?m b (xs[i := v])"
    using b(2,3) i by (auto simp: holds_def poke_def nth_list_update)
  have old: "holds ?m c ys" if c: "c \<in> used bs" "c \<noteq> b" "live (b_addr c + 32) = Some ys" for c ys
  proof -
    have "p + i \<in> payload_range b" using b i by (auto simp: holds_def payload_range_def)
    then have "p + i \<notin> payload_range c"
      using payloads_disjoint [OF bs(1), of b c] b(1) c(1,2) by (auto simp: used_def)
    moreover have "holds (payload h) c ys" using bs(2) c by (auto simp: objs_on_def)
    ultimately show ?thesis by (auto simp: poke_def intro: holds_frame [of "payload h"])
  qed
  have same: "c = b" if "c \<in> used bs" "b_addr c = b_addr b" for c
    using used_addr_inj [OF bs(1)] b(1) that by (auto simp: inj_on_def)
  have "holds ?m c ys" if "c \<in> used bs" "(live(p \<mapsto> xs[i := v])) (b_addr c + 32) = Some ys" for c ys
  proof (cases "c = b")
    case True
    with that(2) new b(2) show ?thesis by simp
  next
    case False
    with same that(1) have "b_addr c \<noteq> b_addr b" by blast
    with that old False b(2) show ?thesis by simp
  qed
  moreover have "dom (live(p \<mapsto> xs[i := v])) = dom live" using p by (auto split: if_splits)
  then have "dom (live(p \<mapsto> xs[i := v])) = (\<lambda>b. b_addr b + 32) ` used bs"
    using bs(2) by (simp add: objs_on_def)
  ultimately have "objs_on ?m (used bs) (live(p \<mapsto> xs[i := v]))"
    by (simp add: objs_on_def)
  with inv show ?thesis by (auto simp: alloc_rel_def)
qed

interpretation client: transition_system client_init client_step client_inv
proof unfold_locales
  fix s assume "client_init s"
  then obtain low limit where "s = (heap_init low limit, Map.empty)" "0 < low" "low \<le> limit"
    "limit < 2 ^ 63" "low mod 16 = 0" by (auto simp: client_init_def)
  then show "client_inv s"
    using heap_inv_init [of low limit]
    by (auto simp: client_inv_def alloc_rel_def objs_on_def used_def intro!: exI [of _ "[]"])
next
  fix s t assume inv: "client_inv s" and "client_step s t"
  from this(2) show "client_inv t"
  proof cases
    case (asks live r h p h')
    with inv have rel: "alloc_rel h live" by (simp add: client_inv_def)
    from serve_simulates [OF rel asks(3)] asks(4) obtain live' where
      "spec live r p live'" "alloc_rel h' live'" by auto
    with track_spec asks(3) show ?thesis by (simp add: asks(2) client_inv_def)
  next
    case (pokes live p xs i h v)
    with inv poke_rel show ?thesis by (simp add: client_inv_def)
  qed
qed

section \<open>Properties\<close>

lemma reachable_alloc_rel: "reachable client_init client_step (h, live) \<Longrightarrow> alloc_rel h live"
  using client.reachable_inv [of "(h, live)"] by (simp add: client_inv_def)

lemma reachable_ask:
  "\<lbrakk>reachable client_init client_step (h, live); allowed live r; serve h r = Inr (p, h')\<rbrakk>
   \<Longrightarrow> reachable client_init client_step (h', track live r p h')"
  by (blast intro: reach_step asks)

lemma reachable_poke:
  "\<lbrakk>reachable client_init client_step (h, live); live p = Some xs; i < length xs\<rbrakk>
   \<Longrightarrow> reachable client_init client_step (poke h (p + i) v, live(p \<mapsto> xs[i := v]))"
  by (blast intro: reach_step pokes)

lemma reachable_start:
  "0 < low \<Longrightarrow> low \<le> limit \<Longrightarrow> limit < 2 ^ 63 \<Longrightarrow> low mod 16 = 0
   \<Longrightarrow> reachable client_init client_step (heap_init low limit, Map.empty)"
  unfolding client_init_def by (intro reach_init case_prodI conjI refl exI [of _ low] exI [of _ limit])

text \<open>C1: in every run of a program that asks for sizes up to \<open>2 ^ 62\<close> and passes only pointers
  it holds, every call of \<open>malloc\<close>, \<open>calloc\<close>, \<open>realloc\<close> and \<open>free\<close> returns: no assertion fails, no
  pointer is followed into memory that is not a header, the walk of the free list ends. The
  answer is \<open>NULL\<close> or a new 16-byte aligned object, \<open>realloc\<close> keeps the contents, and all other
  objects are left alone.\<close>

theorem client_served:
  assumes "reachable client_init client_step (h, live)" and "allowed live r"
  shows "\<exists>p h'. serve h r = Inr (p, h') \<and> spec live r p (track live r p h')
           \<and> alloc_rel h' (track live r p h')"
proof -
  from serve_simulates [OF reachable_alloc_rel [OF assms(1)] assms(2)] obtain p h' live' where
    "serve h r = Inr (p, h')" "spec live r p live'" "alloc_rel h' live'" by blast
  with track_spec assms(2) show ?thesis by metis
qed

lemma client_served_witness:
  "\<exists>p h'. serve (heap_init 16 4096) (Malloc 100) = Inr (p, h')
     \<and> spec Map.empty (Malloc 100) p (track Map.empty (Malloc 100) p h')
     \<and> alloc_rel h' (track Map.empty (Malloc 100) p h')"
  by (rule client_served) (simp_all add: reachable_start size_ok_def)

text \<open>C2: in every run the objects of the program hold what it last stored in them, however many
  calls of the allocator came in between.\<close>

theorem client_objects_intact:
  assumes "reachable client_init client_step (h, live)" and "live p = Some xs"
  shows "read_bytes h p (length xs) = xs"
  using alloc_rel_read [OF reachable_alloc_rel [OF assms(1)] assms(2)] by simp

text \<open>The heap after one and after two objects of up to eight bytes.\<close>

definition demo_header :: entry where
  "demo_header = \<lparr>e_size = 8, e_free = False, e_next = 0, e_prev = 0\<rparr>"

definition demo_one :: heap where
  "demo_one = (heap_init 16 4096)\<lparr>hdr := [16 \<mapsto> demo_header], endtag := [56 \<mapsto> 8], h_start := 16,
     h_final := 16, brk := 64\<rparr>"

definition demo_two :: heap where
  "demo_two = demo_one\<lparr>hdr := [16 \<mapsto> demo_header, 64 \<mapsto> demo_header], endtag := [56 \<mapsto> 8, 104 \<mapsto> 8],
     h_final := 64, brk := 112\<rparr>"

lemmas demo_heap_simps = demo_one_def demo_two_def demo_header_def heap_init_def
  malloc_sbrk_def sbrk_def w64_def sub64_def walk_fuel_def signed64_def st_def
  st_new_def st_end_def in_heap_def

lemma demo_runs:
  "0 < n \<Longrightarrow> n \<le> 8 \<Longrightarrow> malloc (heap_init 16 4096) n = Inr (48, demo_one)"
  "0 < n \<Longrightarrow> n \<le> 8 \<Longrightarrow> malloc demo_one n = Inr (96, demo_two)"
proof -
  assume n: "0 < n" "n \<le> 8"
  then have "(n + 55) div 16 = 3" by (intro div_nat_eqI) simp_all
  then have r: "round_size n = 8" using n round_size_eq [of n] by (simp add: sane_size_def)
  show "malloc (heap_init 16 4096) n = Inr (48, demo_one)"
    using n(1) unfolding malloc_def Let_def r by (simp add: demo_heap_simps)
  show "malloc demo_one n = Inr (96, demo_two)"
    using n(1) unfolding malloc_def Let_def r by (simp add: demo_heap_simps)
qed

lemma client_objects_intact_witness:
  "read_bytes (poke demo_one (48 + 0) 7) 48 (length [7, 0, 0, 0, 0, 0, 0, 0 :: 8 word]) = [7, 0, 0, 0, 0, 0, 0, 0]"
proof (rule client_objects_intact)
  let ?xs = "replicate 8 (0 :: 8 word)"
  have start: "reachable client_init client_step (heap_init 16 4096, Map.empty)"
    by (rule reachable_start) simp_all
  have run: "serve (heap_init 16 4096) (Malloc 8) = Inr (48, demo_one)" by (simp add: demo_runs)
  have "read_bytes demo_one 48 8 = ?xs"
    by (simp add: read_bytes_def demo_one_def heap_init_def map_replicate_const)
  then have "track Map.empty (Malloc 8) 48 demo_one = [48 \<mapsto> ?xs]" by simp
  then have r: "reachable client_init client_step (demo_one, [48 \<mapsto> ?xs])"
    using reachable_ask [OF start _ run] by (simp add: size_ok_def)
  show "reachable client_init client_step (poke demo_one (48 + 0) 7, [48 \<mapsto> ?xs[0 := 7]])"
    using reachable_poke [OF r, of 48 ?xs 0 7] by (simp only: fun_upd_same fun_upd_upd) simp
  show "([48 \<mapsto> ?xs[0 := 7]]) 48 = Some [7, 0, 0, 0, 0, 0, 0, 0]" by (simp add: numeral_eq_Suc)
qed

text \<open>In every run two objects of the program never overlap, and all of them lie below the
  program break.\<close>

theorem client_objects_disjoint:
  assumes "reachable client_init client_step (h, live)"
    and "live p = Some xs" and "live q = Some ys" and "p \<noteq> q"
  shows "{p ..< p + length xs} \<inter> {q ..< q + length ys} = {} \<and> p + length xs \<le> brk h"
proof -
  from reachable_alloc_rel [OF assms(1)] obtain bs where
    bs: "heap_inv h bs" "objs_on (payload h) (used bs) live" by (auto simp: alloc_rel_def)
  from objs_on_Some [OF bs(2) assms(2)] obtain b where
    b: "b \<in> used bs" "p = b_addr b + 32" "length xs \<le> b_size b" by (auto simp: holds_def)
  from objs_on_Some [OF bs(2) assms(3)] obtain c where
    c: "c \<in> used bs" "q = b_addr c + 32" "length ys \<le> b_size c" by (auto simp: holds_def)
  have "b \<noteq> c" using assms(4) b c by auto
  then have "payload_range b \<inter> payload_range c = {}"
    using payloads_disjoint [OF bs(1)] b(1) c(1) by (auto simp: used_def)
  moreover have "{p ..< p + length xs} \<subseteq> payload_range b" "{q ..< q + length ys} \<subseteq> payload_range c"
    using b c by (auto simp: payload_range_def)
  moreover have "b_end b \<le> brk h" using heap_inv_range(3) [OF bs(1)] b(1) by (auto simp: used_def)
  ultimately have "{p ..< p + length xs} \<inter> {q ..< q + length ys} = {}" "p + length xs \<le> brk h"
    using b by (blast, simp add: b_end_def)
  then show ?thesis by blast
qed

lemma client_objects_disjoint_witness:
  "{48 ..< 48 + length [0 :: 8 word]} \<inter> {96 ..< 96 + length [0 :: 8 word]} = {}
     \<and> 48 + length [0 :: 8 word] \<le> brk demo_two"
proof -
  let ?live = "[48 \<mapsto> [0 :: 8 word], 96 \<mapsto> [0]]"
  have start: "reachable client_init client_step (heap_init 16 4096, Map.empty)"
    by (rule reachable_start) simp_all
  have run: "serve (heap_init 16 4096) (Malloc 1) = Inr (48, demo_one)"
    "serve demo_one (Malloc 1) = Inr (96, demo_two)" by (simp_all add: demo_runs)
  have "read_bytes demo_one 48 1 = [0]" "read_bytes demo_two 96 1 = [0]"
    by (simp_all add: demo_one_def demo_two_def heap_init_def read_bytes_def)
  then have tr: "track Map.empty (Malloc 1) 48 demo_one = [48 \<mapsto> [0]]"
    "track [48 \<mapsto> [0]] (Malloc 1) 96 demo_two = ?live" by simp_all
  have r: "reachable client_init client_step (demo_one, [48 \<mapsto> [0]])"
    using reachable_ask [OF start _ run(1)] tr by (simp add: size_ok_def)
  have "reachable client_init client_step (demo_two, ?live)"
    using reachable_ask [OF r _ run(2)] tr by (simp add: size_ok_def)
  from client_objects_disjoint [OF this, of 48 "[0]" 96 "[0]"] show ?thesis by simp
qed

text \<open>C3: \<open>malloc\<close> implements first fit on the list of blocks in address order: it takes the first
  free block that is large enough, split when at least \<open>TRESHOLD\<close> bytes are left over, and asks
  the system for a new block at the break when there is none.\<close>

theorem malloc_first_fit:
  assumes "heap_inv h bs" and "sane_size n"
  shows "\<exists>h'. malloc h n = Inr (fst (abs_malloc (brk_limit h) (brk h) (round_size n) bs), h')
           \<and> heap_inv h' (snd (abs_malloc (brk_limit h) (brk h) (round_size n) bs)) \<and> frame h h'"
  by (rule malloc_refines_blocks [OF assms])

lemma malloc_first_fit_witness:
  "\<exists>h'. malloc (heap_init 16 4096) 100 = Inr (48, h') \<and> heap_inv h' [Block 16 104 False]
     \<and> frame (heap_init 16 4096) h'"
  using malloc_first_fit [OF heap_inv_init [of 16 4096], of 100]
  by (simp add: sane_size_def abs_malloc_def round_size_def w64_def sub64_def heap_init_def)

text \<open>C4: \<open>free\<close> marks the block free and merges it with the free blocks before and after it, so
  that no two free blocks are ever adjacent; the boundary tags, the header fields and the links of
  the free list in address order are all put right.\<close>

theorem free_coalesces:
  assumes "heap_inv h bs" and "b \<in> set bs" and "\<not> b_free b"
  shows "\<exists>h'. free h (b_addr b + 32) = Inr h' \<and> heap_inv h' (abs_free (b_addr b) bs) \<and> frame h h'"
  by (rule free_refines_blocks [OF assms])

lemma free_coalesces_witness:
  "\<exists>h h'. free h (16 + 32) = Inr h' \<and> heap_inv h' [Block 16 104 True] \<and> frame h h'"
proof -
  from malloc_refines_blocks [OF heap_inv_init [of 16 4096], of 100] obtain h where
    "heap_inv h [Block 16 104 False]"
    by (auto simp: sane_size_def abs_malloc_def round_size_def w64_def sub64_def heap_init_def)
  from free_coalesces [OF this, of "Block 16 104 False"] show ?thesis
    by (auto simp: abs_free_def mark_free_def)
qed

text \<open>The sizes whose rounding wraps around to a block of at least \<open>2 ^ 64 - 40\<close> bytes, for which
  \<open>sbrk\<close> is asked for less than a header.\<close>

lemma round_size_wraps:
  "\<lbrakk>2 ^ 64 - 7 \<le> n; n < 2 ^ 64\<rbrakk> \<Longrightarrow> round_size n = 8"
  "\<lbrakk>2 ^ 64 - 55 \<le> n; n < 2 ^ 64 - 39\<rbrakk> \<Longrightarrow> round_size n = 2 ^ 64 - 40"
  "\<lbrakk>2 ^ 64 - 39 \<le> n; n < 2 ^ 64 - 23\<rbrakk> \<Longrightarrow> round_size n = 2 ^ 64 - 24"
proof -
  have *: "round_size n = sub64 (sub64 (w64 (k div 16 * 16)) 32) 8"
    if "n + 55 = k + 2 ^ 64" "k < 2 ^ 64" for k
  proof -
    have "w64 (n + 55) = k" using that by (simp add: w64_def)
    then show ?thesis by (simp add: round_size_def add.commute add.left_commute)
  qed
  {
    assume n: "2 ^ 64 - 7 \<le> n" "n < 2 ^ 64"
    define k where "k = n + 55 - 2 ^ 64"
    have "n + 55 = k + 2 ^ 64" "48 \<le> k" "k < 64" using n by (auto simp: k_def)
    moreover from this have "k div 16 = 3" by (intro div_nat_eqI) simp_all
    ultimately show "round_size n = 8" using * [of k] by (simp add: w64_def sub64_def)
  next
    assume n: "2 ^ 64 - 55 \<le> n" "n < 2 ^ 64 - 39"
    define k where "k = n + 55 - 2 ^ 64"
    have "n + 55 = k + 2 ^ 64" "k < 16" using n by (auto simp: k_def)
    moreover from this have "k div 16 = 0" by (intro div_nat_eqI) simp_all
    ultimately show "round_size n = 2 ^ 64 - 40" using * [of k] by (simp add: w64_def sub64_def)
  next
    assume n: "2 ^ 64 - 39 \<le> n" "n < 2 ^ 64 - 23"
    define k where "k = n + 55 - 2 ^ 64"
    have "n + 55 = k + 2 ^ 64" "16 \<le> k" "k < 32" using n by (auto simp: k_def)
    moreover from this have "k div 16 = 1" by (intro div_nat_eqI) simp_all
    ultimately show "round_size n = 2 ^ 64 - 24" using * [of k] by (simp add: w64_def sub64_def)
  }
qed

lemma no_fit_huge:
  assumes inv: "heap_inv h bs" and n: "2 ^ 63 \<le> n"
  shows "find_fit (walk_fuel h) h (h_head h) n = Inr 0"
proof -
  have "b_size b < 2 ^ 63" if "b \<in> set bs" for b
    using heap_inv_range(3,4) [OF inv that] by (simp add: b_end_def)
  then have "find (\<lambda>b. b_free b \<and> n \<le> b_size b) bs = None"
    using n by (fastforce simp: find_None_iff)
  then show ?thesis by (simp add: find_fit_blocks [OF inv])
qed

lemma malloc_wraps_store:
  assumes inv: "heap_inv h bs" and room: "brk h + 16 \<le> brk_limit h"
    and n: "2 ^ 64 - 55 \<le> n" "n < 2 ^ 64 - 23"
  shows "malloc h n = Inl Bad_access"
proof -
  obtain k where k: "round_size n = 2 ^ 64 - 40 + k" "k = 0 \<or> k = 16"
    using round_size_wraps(2,3) [of n] n by (cases "n < 2 ^ 64 - 39") force+
  have h: "0 < brk_low h" "brk_low h \<le> brk h" "brk_limit h < 2 ^ 63"
  proof -
    show "0 < brk_low h" "brk_limit h < 2 ^ 63" using inv by (simp_all add: heap_inv_def)
    show "brk_low h \<le> brk h"
    proof (cases bs)
      case Nil
      then show ?thesis using inv by (simp add: heap_inv_def)
    next
      case (Cons b cs)
      then show ?thesis using heap_inv_range(2,3) [OF inv, of b] by (simp add: b_end_def)
    qed
  qed
  have "w64 (sizeof_entry + round_size n + sizeof_end) = k" "signed64 k = int k"
    using k by (auto simp: w64_def signed64_def)
  then have "sbrk h (w64 (sizeof_entry + round_size n + sizeof_end)) = Some (brk h, h\<lparr>brk := brk h + k\<rparr>)"
    using h room k(2) by (auto simp: sbrk_def Let_def nat_add_distrib)
  then have "malloc_sbrk h (round_size n) = Inl Bad_access"
    using k(2) by (auto simp: malloc_sbrk_def st_new_def in_heap_def)
  moreover have "find_fit (walk_fuel h) h (h_head h) (round_size n) = Inr 0"
    using no_fit_huge [OF inv] k by simp
  ultimately show ?thesis using n by (simp add: malloc_def)
qed



end
