(* ===== verification/Vector.thy ===== *)
theory Vector
  imports Prelude "HOL-Library.While_Combinator"
begin

text \<open>
  \<^verbatim>\<open>src/vector/vector.c\<close>: the growable array of pointers to elements that it owns. This theory
  holds its data, the memory the elements live in, and its operations; \<open>Vector_Correct\<close> proves
  them against lists.

  An element is an object in a memory of cells; a pointer is a natural number, \<open>NULL\<close> is 0. The
  element constructors are callbacks that the caller supplies (the header that holds the usual
  ones is not part of the repository): the copy constructor \<open>cp\<close> and the default constructor
  \<open>df\<close> are arguments of the operations that use them. The array of slots comes from \<open>malloc\<close>:
  a slot is \<open>None\<close> until it is written. \<open>malloc\<close> is taken to find memory.
\<close>

section \<open>Memory\<close>

record 'a mem =
  cells :: "nat \<rightharpoonup> 'a"
  next_free :: nat

definition new_obj :: "'a mem \<Rightarrow> 'a \<Rightarrow> nat \<times> 'a mem" where
  "new_obj m x = (next_free m, m\<lparr>cells := (cells m)(next_free m \<mapsto> x), next_free := next_free m + 1\<rparr>)"

definition load :: "'a mem \<Rightarrow> nat \<Rightarrow> 'a res" where
  "load m p = (if p = 0 then Inl Null_deref
     else case cells m p of None \<Rightarrow> Inl Bad_access | Some x \<Rightarrow> Inr x)"

definition free_obj :: "'a mem \<Rightarrow> nat \<Rightarrow> 'a mem res" where
  "free_obj m p = (if p = 0 then Inr m
     else if cells m p = None then Inl Bad_access
     else Inr (m\<lparr>cells := (cells m)(p := None)\<rparr>))"

section \<open>Data\<close>

type_synonym slots = "nat option list"

type_synonym 'a copy_ctor = "'a mem \<Rightarrow> nat \<Rightarrow> (nat \<times> 'a mem) res"

type_synonym 'a default_ctor = "'a mem \<Rightarrow> (nat \<times> 'a mem) res"

record vec =
  v_array :: slots
  v_size :: nat
  v_capacity :: nat

definition INITIAL_CAPACITY :: nat where "INITIAL_CAPACITY = 8"

definition GROWTH_FACTOR :: nat where "GROWTH_FACTOR = 2"

text \<open>\<open>malloc(sizeof(void*) * n)\<close>\<close>

definition new_slots :: "nat \<Rightarrow> slots" where
  "new_slots n = replicate (w64 (8 * n) div 8) None"

definition rd :: "slots \<Rightarrow> nat \<Rightarrow> nat option res" where
  "rd a i = (if i < length a then Inr (a ! i) else Inl Bad_access)"

definition rd_ptr :: "slots \<Rightarrow> nat \<Rightarrow> nat res" where
  "rd_ptr a i = rbind (rd a i) (\<lambda>s. case s of None \<Rightarrow> Inl Bad_access | Some p \<Rightarrow> Inr p)"

definition wr :: "slots \<Rightarrow> nat \<Rightarrow> nat option \<Rightarrow> slots res" where
  "wr a i s = (if i < length a then Inr (a[i := s]) else Inl Bad_access)"

section \<open>Capacity\<close>

definition get_new_capacity :: "nat \<Rightarrow> nat option" where
  "get_new_capacity target = while_option (\<lambda>c. c < target) (\<lambda>c. w64 (c * GROWTH_FACTOR)) 1"

definition vector_create :: vec where
  "vector_create = \<lparr>v_array = new_slots INITIAL_CAPACITY, v_size = 0, v_capacity = INITIAL_CAPACITY\<rparr>"

text \<open>The loop \<open>for (i = 0; i < n; i++) newarray[i] = array[i]\<close>\<close>

primrec copy_slots :: "slots \<Rightarrow> slots \<Rightarrow> nat \<Rightarrow> slots res" where
  "copy_slots a b 0 = Inr b"
| "copy_slots a b (Suc n) =
     rbind (copy_slots a b n) (\<lambda>b. rbind (rd a n) (\<lambda>s. wr b n s))"

definition vector_reserve :: "vec \<Rightarrow> nat \<Rightarrow> vec res" where
  "vector_reserve v n =
     (if n \<le> v_capacity v then Inr v
      else rbind (or_diverges (get_new_capacity n)) (\<lambda>newcapacity.
        rbind (copy_slots (v_array v) (new_slots newcapacity) (v_size v)) (\<lambda>newarray.
        Inr (v\<lparr>v_capacity := newcapacity, v_array := newarray\<rparr>))))"

section \<open>Reading\<close>

definition vector_begin :: "vec \<Rightarrow> nat" where "vector_begin v = 0"

definition vector_end :: "vec \<Rightarrow> nat" where "vector_end v = v_size v"

definition vector_size :: "vec \<Rightarrow> nat" where "vector_size v = v_size v"

definition vector_capacity :: "vec \<Rightarrow> nat" where "vector_capacity v = v_capacity v"

definition vector_empty :: "vec \<Rightarrow> bool" where "vector_empty v \<longleftrightarrow> v_size v = 0"

text \<open>The functions that return a pointer to a slot give its index from the start of the array.\<close>

definition vector_at :: "vec \<Rightarrow> nat \<Rightarrow> nat res" where
  "vector_at v position =
     rbind (guard (position < vector_size v) Assert_failed) (\<lambda>_. Inr position)"

definition vector_get :: "vec \<Rightarrow> nat \<Rightarrow> nat res" where
  "vector_get v position =
     (if v_size v \<le> position then Inr 0 else rd_ptr (v_array v) position)"

definition vector_front :: "vec \<Rightarrow> int" where "vector_front v = 0"

definition vector_back :: "vec \<Rightarrow> int" where "vector_back v = int (v_size v) - 1"

section \<open>Clearing and resizing\<close>

text \<open>The loop that frees the elements of \<open>n\<close> slots from \<open>lo\<close> on.\<close>

primrec free_slots :: "'a mem \<Rightarrow> slots \<Rightarrow> nat \<Rightarrow> nat \<Rightarrow> ('a mem \<times> slots) res" where
  "free_slots m a lo 0 = Inr (m, a)"
| "free_slots m a lo (Suc n) =
     rbind (free_slots m a lo n) (\<lambda>(m, a).
     rbind (rd_ptr a (lo + n)) (\<lambda>p.
     rbind (free_obj m p) (\<lambda>m.
     rbind (wr a (lo + n) (Some 0)) (\<lambda>a. Inr (m, a)))))"

definition vector_clear :: "'a mem \<Rightarrow> vec \<Rightarrow> ('a mem \<times> vec) res" where
  "vector_clear m v =
     rbind (free_slots m (v_array v) 0 (v_size v)) (\<lambda>(m, a).
     Inr (m, v\<lparr>v_array := a, v_size := 0\<rparr>))"

text \<open>The array and the struct are given back at the end.\<close>

definition vector_destroy :: "'a mem \<Rightarrow> vec \<Rightarrow> 'a mem res" where
  "vector_destroy m v = rbind (vector_clear m v) (\<lambda>(m, v). Inr m)"

primrec default_slots :: "'a default_ctor \<Rightarrow> 'a mem \<Rightarrow> slots \<Rightarrow> nat \<Rightarrow> nat \<Rightarrow> ('a mem \<times> slots) res" where
  "default_slots df m a count 0 = Inr (m, a)"
| "default_slots df m a count (Suc n) =
     rbind (default_slots df m a count n) (\<lambda>(m, a).
     rbind (df m) (\<lambda>(p, m).
     rbind (wr a (count + n) (Some p)) (\<lambda>a. Inr (m, a))))"

definition vector_resize :: "'a default_ctor \<Rightarrow> 'a mem \<Rightarrow> vec \<Rightarrow> nat \<Rightarrow> ('a mem \<times> vec) res" where
  "vector_resize df m v n =
     (if n = v_size v then Inr (m, v)
      else if n < v_size v then
        rbind (free_slots m (v_array v) n (v_size v - n)) (\<lambda>(m, a).
        Inr (m, v\<lparr>v_array := a, v_size := n\<rparr>))
      else
        rbind (vector_reserve v n) (\<lambda>v.
        rbind (default_slots df m (v_array v) (v_size v) (n - v_size v)) (\<lambda>(m, a).
        Inr (m, v\<lparr>v_array := a, v_size := n\<rparr>))))"

section \<open>Modifying\<close>

definition vector_set :: "'a copy_ctor \<Rightarrow> 'a mem \<Rightarrow> vec \<Rightarrow> nat \<Rightarrow> nat \<Rightarrow> ('a mem \<times> vec) res" where
  "vector_set cp m v position element =
     rbind (guard (position < vector_size v) Assert_failed) (\<lambda>_.
     rbind (rd_ptr (v_array v) position) (\<lambda>old.
     rbind (free_obj m old) (\<lambda>m.
     rbind (cp m element) (\<lambda>(p, m).
     rbind (wr (v_array v) position (Some p)) (\<lambda>a.
     Inr (m, v\<lparr>v_array := a\<rparr>))))))"

definition store_end :: "'a copy_ctor \<Rightarrow> 'a mem \<Rightarrow> vec \<Rightarrow> nat \<Rightarrow> ('a mem \<times> vec) res" where
  "store_end cp m v element =
     rbind (cp m element) (\<lambda>(p, m).
     rbind (wr (v_array v) (v_size v) (Some p)) (\<lambda>a.
     Inr (m, v\<lparr>v_array := a, v_size := w64 (v_size v + 1)\<rparr>)))"

definition vector_push_back :: "'a copy_ctor \<Rightarrow> 'a mem \<Rightarrow> vec \<Rightarrow> nat \<Rightarrow> ('a mem \<times> vec) res" where
  "vector_push_back cp m v element =
     (if v_size v < v_capacity v then store_end cp m v element
      else rbind (vector_reserve v (w64 (v_size v + 1))) (\<lambda>v. store_end cp m v element))"

text \<open>On an empty vector the slot before the array is read.\<close>

definition vector_pop_back :: "'a mem \<Rightarrow> vec \<Rightarrow> ('a mem \<times> vec) res" where
  "vector_pop_back m v =
     (if v_size v = 0 then Inl Bad_access
      else
        rbind (rd_ptr (v_array v) (v_size v - 1)) (\<lambda>p.
        rbind (free_obj m p) (\<lambda>m.
        rbind (wr (v_array v) (v_size v - 1) (Some 0)) (\<lambda>a.
        Inr (m, v\<lparr>v_array := a, v_size := v_size v - 1\<rparr>)))))"

text \<open>The loop of \<open>vector_insert\<close>: \<open>k\<close> is the offset of \<open>newptr\<close> after \<open>n\<close> rounds.\<close>

primrec insert_loop :: "'a copy_ctor \<Rightarrow> 'a mem \<Rightarrow> slots \<Rightarrow> slots \<Rightarrow> nat \<Rightarrow> nat \<Rightarrow> nat
    \<Rightarrow> ('a mem \<times> slots \<times> nat) res" where
  "insert_loop cp m a b position element 0 = Inr (m, b, 0)"
| "insert_loop cp m a b position element (Suc n) =
     rbind (insert_loop cp m a b position element n) (\<lambda>(m, b, k).
     rbind (if n = position
            then rbind (cp m element) (\<lambda>(p, m). rbind (wr b k (Some p)) (\<lambda>b. Inr (m, b, k + 1)))
            else Inr (m, b, k)) (\<lambda>(m, b, k).
     rbind (rd a n) (\<lambda>s.
     rbind (wr b k s) (\<lambda>b. Inr (m, b, k + 1)))))"

definition vector_insert :: "'a copy_ctor \<Rightarrow> 'a mem \<Rightarrow> vec \<Rightarrow> nat \<Rightarrow> nat \<Rightarrow> ('a mem \<times> vec) res" where
  "vector_insert cp m v position element =
     (if v_size v \<le> position then vector_push_back cp m v element
      else
        rbind (or_diverges (get_new_capacity (w64 (v_size v + 1)))) (\<lambda>newcapacity.
        rbind (insert_loop cp m (v_array v) (new_slots newcapacity) position element (v_size v))
          (\<lambda>(m, newarray, k).
        Inr (m, \<lparr>v_array = newarray, v_size = w64 (v_size v + 1), v_capacity = newcapacity\<rparr>))))"

primrec erase_loop :: "'a mem \<Rightarrow> slots \<Rightarrow> slots \<Rightarrow> nat \<Rightarrow> nat \<Rightarrow> ('a mem \<times> slots \<times> nat) res" where
  "erase_loop m a b position 0 = Inr (m, b, 0)"
| "erase_loop m a b position (Suc n) =
     rbind (erase_loop m a b position n) (\<lambda>(m, b, k).
     if n = position
     then rbind (rd_ptr a n) (\<lambda>p. rbind (free_obj m p) (\<lambda>m. Inr (m, b, k)))
     else rbind (rd a n) (\<lambda>s. rbind (wr b k s) (\<lambda>b. Inr (m, b, k + 1))))"

definition vector_erase :: "'a mem \<Rightarrow> vec \<Rightarrow> nat \<Rightarrow> ('a mem \<times> vec) res" where
  "vector_erase m v position =
     rbind (guard (position < vector_size v) Assert_failed) (\<lambda>_.
     rbind (or_diverges (get_new_capacity (v_size v))) (\<lambda>newcapacity.
     rbind (erase_loop m (v_array v) (new_slots newcapacity) position (v_size v))
       (\<lambda>(m, newarray, k).
     Inr (m, \<lparr>v_array = newarray, v_size = v_size v - 1, v_capacity = newcapacity\<rparr>))))"

end
