(* ===== verification/Vector_Correct.thy ===== *)
theory Vector_Correct
  imports Vector
begin

text \<open>
  The operations of \<^verbatim>\<open>src/vector/vector.c\<close> against lists. \<open>vrep m v ps xs\<close> says that the
  slots of \<open>v\<close> hold the pointers \<open>ps\<close> to distinct objects of the memory whose values are \<open>xs\<close>;
  each operation takes a represented vector to a represented vector, and does to \<open>xs\<close> what its
  name says.
\<close>

section \<open>The new capacity\<close>

lemma get_new_capacity_from:
  assumes "\<forall>i < j. 2 ^ i < target" and "target \<le> 2 ^ j" and "j \<le> 63" and "k \<le> j"
  shows "while_option (\<lambda>c. c < target) (\<lambda>c. w64 (c * GROWTH_FACTOR)) (2 ^ k) = Some (2 ^ j)"
  using \<open>k \<le> j\<close>
proof (induction "j - k" arbitrary: k)
  case 0
  then have "k = j" by simp
  then show ?case using assms(2) by (subst while_option_unfold) simp
next
  case (Suc d)
  then have k: "k < j" "d = j - Suc k" "Suc k \<le> j" by simp_all
  have "(2::nat) ^ Suc k < 2 ^ 64" using k assms(3) by (intro power_strict_increasing) auto
  then have "w64 (2 ^ k * GROWTH_FACTOR) = 2 ^ Suc k" by (simp add: GROWTH_FACTOR_def w64_id mult.commute)
  then show ?case
    using Suc.hyps(1) [OF k(2,3)] assms(1) k(1) by (subst while_option_unfold) simp
qed

lemma get_new_capacity_Some:
  assumes "target \<le> 2 ^ 63"
  obtains j where "get_new_capacity target = Some (2 ^ j)" "j \<le> 63" "target \<le> 2 ^ j"
    "\<forall>i < j. 2 ^ i < target"
proof -
  let ?j = "LEAST j. target \<le> 2 ^ j"
  have 1: "target \<le> 2 ^ ?j" "?j \<le> 63"
    by (rule LeastI [of "\<lambda>j. target \<le> 2 ^ j", OF assms],
        rule Least_le [of "\<lambda>j. target \<le> 2 ^ j", OF assms])
  have 2: "\<forall>i < ?j. 2 ^ i < target" 
    using not_less_Least [of _ "\<lambda>j. target \<le> 2 ^ j"] by (meson not_le)
  show thesis
    using get_new_capacity_from [OF 2 1 le0] that [OF _ 1(2,1) 2] by (simp add: get_new_capacity_def)
qed

lemma get_new_capacity_None:
  assumes "2 ^ 63 < target"
  shows "get_new_capacity target = None"
proof (rule ccontr)
  assume "get_new_capacity target \<noteq> None"
  then obtain t where t: "while_option (\<lambda>c. c < target) (\<lambda>c. w64 (c * GROWTH_FACTOR)) 1 = Some t"
    by (auto simp: get_new_capacity_def)
  let ?P = "\<lambda>c. c = 0 \<or> (\<exists>k \<le> 63. c = (2::nat) ^ k)"
  have step: "?P (w64 (c * GROWTH_FACTOR))" if c: "?P c" for c
  proof (cases "c = 0 \<or> c = 2 ^ 63")
    case True
    then show ?thesis by (auto simp: w64_def GROWTH_FACTOR_def)
  next
    case False
    with c obtain k where "k \<le> 63" "c = 2 ^ k" by auto
    with False have k: "k \<le> 63" "c = 2 ^ k" "k \<noteq> 63" by (simp, simp, metis)
    then have "(2::nat) ^ Suc k < 2 ^ 64" by (intro power_strict_increasing) auto
    then have "w64 (c * GROWTH_FACTOR) = 2 ^ Suc k"
      using k by (simp add: GROWTH_FACTOR_def w64_id mult.commute)
    then show ?thesis using k by (metis Suc_leI le_neq_implies_less)
  qed
  have "?P 1" by (auto intro: exI [of _ 0])
  with step have "?P t" by (rule while_option_rule [where P = ?P, OF _ t])
  moreover have "(2::nat) ^ k \<le> 2 ^ 63" if "k \<le> 63" for k
    using that by (rule power_increasing) simp
  ultimately have "t \<le> 2 ^ 63" by blast
  moreover have "\<not> t < target" using while_option_stop [OF t] .
  ultimately show False using assms by simp
qed

lemma get_new_capacity_small:
  assumes "target \<le> 2 ^ 60"
  obtains c where "get_new_capacity target = Some c" "target \<le> c" "0 < c" "c \<le> 2 ^ 60"
proof -
  have "(2::nat) ^ 60 \<le> 2 ^ 63" by simp
  with assms have "target \<le> 2 ^ 63" by (rule le_trans)
  then obtain j where j: "get_new_capacity target = Some (2 ^ j)" "j \<le> 63" "target \<le> 2 ^ j"
    "\<forall>i < j. 2 ^ i < target" by (rule get_new_capacity_Some)
  have "j \<le> 60"
  proof (rule ccontr)
    assume "\<not> j \<le> 60"
    then have "(2::nat) ^ 60 < target" using j(4) [rule_format, of 60] by simp
    with assms show False by linarith
  qed
  then have "(2::nat) ^ j \<le> 2 ^ 60" by (rule power_increasing) simp
  with j(1,3) show thesis by (intro that) auto
qed

section \<open>Represented vectors\<close>

definition mem_ok :: "'a mem \<Rightarrow> bool" where
  "mem_ok m \<longleftrightarrow> 0 < next_free m \<and> (\<forall>p. cells m p \<noteq> None \<longrightarrow> 0 < p \<and> p < next_free m)"

definition slots_ok :: "vec \<Rightarrow> nat list \<Rightarrow> bool" where
  "slots_ok v ps \<longleftrightarrow> length (v_array v) = v_capacity v \<and> 0 < v_capacity v \<and> v_capacity v \<le> 2 ^ 60
     \<and> v_size v = length ps \<and> length ps \<le> v_capacity v \<and> take (length ps) (v_array v) = map Some ps"

definition vrep :: "'a mem \<Rightarrow> vec \<Rightarrow> nat list \<Rightarrow> 'a list \<Rightarrow> bool" where
  "vrep m v ps xs \<longleftrightarrow> mem_ok m \<and> slots_ok v ps \<and> distinct ps \<and> map (cells m) ps = map Some xs"

text \<open>What the callers of the constructors rely on: each makes a new object.\<close>

definition copies :: "'a copy_ctor \<Rightarrow> bool" where
  "copies cp \<longleftrightarrow> (\<forall>m p. cp m p = rbind (load m p) (\<lambda>x. Inr (new_obj m x)))"

definition makes :: "'a default_ctor \<Rightarrow> 'a \<Rightarrow> bool" where
  "makes df x \<longleftrightarrow> (\<forall>m. df m = Inr (new_obj m x))"

lemma new_slots_length: "n \<le> 2 ^ 60 \<Longrightarrow> length (new_slots n) = n"
  by (simp add: new_slots_def w64_id)

lemma load_Some [simp]: "mem_ok m \<Longrightarrow> cells m p = Some x \<Longrightarrow> load m p = Inr x"
  by (auto simp: load_def mem_ok_def)

lemma copies_eq: "copies cp \<Longrightarrow> mem_ok m \<Longrightarrow> cells m p = Some x \<Longrightarrow> cp m p = Inr (new_obj m x)"
  by (simp add: copies_def)

lemma free_obj_Some: "mem_ok m \<Longrightarrow> cells m p = Some x \<Longrightarrow> free_obj m p = Inr (m\<lparr>cells := (cells m)(p := None)\<rparr>)"
  by (auto simp: free_obj_def mem_ok_def)

lemma mem_ok_free [simp]: "mem_ok m \<Longrightarrow> mem_ok (m\<lparr>cells := (cells m)(p := None)\<rparr>)"
  by (auto simp: mem_ok_def)

lemma mem_ok_new [simp]: "mem_ok m \<Longrightarrow> mem_ok (m\<lparr>cells := (cells m)(next_free m \<mapsto> x), next_free := Suc (next_free m)\<rparr>)"
  by (auto simp: mem_ok_def less_Suc_eq)

lemma fresh_None: "mem_ok m \<Longrightarrow> cells m (next_free m) = None"
  by (metis less_irrefl mem_ok_def)

lemma vrep_ptr:
  assumes "vrep m v ps xs" and "i < length xs"
  shows "length ps = length xs" "cells m (ps ! i) = Some (xs ! i)" "v_array v ! i = Some (ps ! i)"
    "rd_ptr (v_array v) i = Inr (ps ! i)"
proof -
  have eq: "map (cells m) ps = map Some xs" "take (length ps) (v_array v) = map Some ps"
    "length ps \<le> length (v_array v)" using assms(1) by (auto simp: vrep_def slots_ok_def)
  show l: "length ps = length xs" using eq(1) by (metis length_map)
  show "cells m (ps ! i) = Some (xs ! i)" using eq(1) l assms(2) by (metis nth_map)
  show s: "v_array v ! i = Some (ps ! i)" using eq(2) l assms(2) by (metis nth_map nth_take)
  show "rd_ptr (v_array v) i = Inr (ps ! i)" using s eq(3) l assms(2) by (simp add: rd_ptr_def rd_def)
qed

lemma vrep_length: "vrep m v ps xs \<Longrightarrow> length ps = length xs \<and> v_size v = length xs"
  by (metis length_map slots_ok_def vrep_def)

lemma fresh_notin: "vrep m v ps xs \<Longrightarrow> next_free m \<notin> set ps"
  by (metis fresh_None in_set_conv_nth nth_map option.distinct(1) vrep_def vrep_length)

section \<open>The loops\<close>

lemma copy_slots_eq:
  "\<lbrakk>n \<le> length a; n \<le> length b\<rbrakk> \<Longrightarrow> copy_slots a b n = Inr (take n a @ drop n b)"
proof (induction n)
  case (Suc n)
  then show ?case
    by (simp add: rd_def wr_def list_update_append take_Suc_conv_app_nth Cons_nth_drop_Suc [symmetric])
qed simp

lemma insert_loop_before:
  "\<lbrakk>n \<le> position; n \<le> length a; n \<le> length b\<rbrakk>
   \<Longrightarrow> insert_loop cp m a b position e n = Inr (m, take n a @ drop n b, n)"
proof (induction n)
  case (Suc n)
  then show ?case
    by (simp add: rd_def wr_def list_update_append take_Suc_conv_app_nth Cons_nth_drop_Suc [symmetric])
qed simp

lemma insert_loop_after:
  assumes cp: "cp m e = Inr (new_obj m x)"
  shows "\<lbrakk>position < n; n \<le> length a; n < length b\<rbrakk> \<Longrightarrow> insert_loop cp m a b position e n =
     Inr (snd (new_obj m x), take position a @ Some (next_free m) # drop position (take n a) @ drop (Suc n) b, Suc n)"
proof (induction n)
  case (Suc n)
  have d: "drop (Suc n) b = b ! Suc n # drop (Suc (Suc n)) b" using Suc.prems by (simp add: Cons_nth_drop_Suc)
  show ?case
  proof (cases "n = position")
    case True
    have "drop n b = b ! n # b ! Suc n # drop (Suc (Suc n)) b"
      using Suc.prems d by (simp add: Cons_nth_drop_Suc [symmetric])
    then show ?thesis
      using Suc.prems True cp insert_loop_before [of n position a b cp m e]
      by (simp add: rd_def wr_def new_obj_def list_update_append take_Suc_conv_app_nth)
  next
    case False
    then have "drop position (take (Suc n) a) = drop position (take n a) @ [a ! n]"
      using Suc.prems by (simp add: take_Suc_conv_app_nth)
    then show ?thesis
      using Suc False d by (simp add: rd_def wr_def list_update_append Suc_diff_le)
  qed
qed simp

lemma erase_loop_before:
  "\<lbrakk>n \<le> position; n \<le> length a; n \<le> length b\<rbrakk>
   \<Longrightarrow> erase_loop m a b position n = Inr (m, take n a @ drop n b, n)"
proof (induction n)
  case (Suc n)
  then show ?case
    by (simp add: rd_def wr_def list_update_append take_Suc_conv_app_nth Cons_nth_drop_Suc [symmetric])
qed simp

lemma erase_loop_after:
  assumes "rd_ptr a position = Inr p" and "free_obj m p = Inr m'"
  shows "\<lbrakk>position < n; n \<le> length a; n \<le> Suc (length b)\<rbrakk> \<Longrightarrow> erase_loop m a b position n =
     Inr (m', take position a @ drop (Suc position) (take n a) @ drop (n - 1) b, n - 1)"
proof (induction n)
  case (Suc n)
  show ?case
  proof (cases "n = position")
    case True
    then show ?thesis
      using Suc.prems assms erase_loop_before [of n position a b m] by simp
  next
    case False
    then obtain k where k: "n = Suc k" using Suc.prems by (cases n) auto
    have "drop (Suc position) (take (Suc n) a) = drop (Suc position) (take n a) @ [a ! n]"
      using Suc.prems False by (simp add: take_Suc_conv_app_nth)
    moreover have "drop k b = b ! k # drop n b" using Suc.prems k by (simp add: Cons_nth_drop_Suc)
    ultimately show ?thesis
      using Suc False k by (simp add: rd_def wr_def list_update_append)
  qed
qed simp

lemma free_slots_eq:
  assumes "mem_ok m" and "distinct ps" and "set ps \<subseteq> dom (cells m)"
    and "lo + n \<le> length a" and "\<forall>i < n. a ! (lo + i) = Some (ps ! i)" and "length ps = n"
  shows "free_slots m a lo n =
     Inr (m\<lparr>cells := cells m |` (- set ps)\<rparr>, take lo a @ replicate n (Some 0) @ drop (lo + n) a)"
  using assms
proof (induction n arbitrary: ps)
  case 0
  then show ?case by (simp add: restrict_map_def)
next
  case (Suc n)
  from Suc.prems(6) obtain qs p where ps: "ps = qs @ [p]" "length qs = n"
    by (metis length_Suc_conv_rev)
  have a: "\<forall>i < n. a ! (lo + i) = Some (qs ! i)"
    using Suc.prems(5) ps by (metis less_Suc_eq nth_append)
  have p: "a ! (lo + n) = Some p" using Suc.prems(5) ps by (metis lessI nth_append_length)
  have sub: "mem_ok m" "distinct qs" "set qs \<subseteq> dom (cells m)" "lo + n \<le> length a"
    using Suc.prems ps by auto
  have IH: "free_slots m a lo n =
     Inr (m\<lparr>cells := cells m |` (- set qs)\<rparr>, take lo a @ replicate n (Some 0) @ drop (lo + n) a)"
    by (rule Suc.IH [OF sub a ps(2)])
  have d: "drop (lo + n) a = Some p # drop (lo + Suc n) a"
    using Suc.prems(4) p by (simp add: Cons_nth_drop_Suc [symmetric])
  have live: "p \<notin> set qs" "p \<in> dom (cells m)" "p \<noteq> 0" using Suc.prems ps by (auto simp: mem_ok_def)
  have "(cells m |` (- set qs))(p := None) = cells m |` (- set ps)"
    by (rule ext) (auto simp: restrict_map_def ps)
  then show ?case
    using live Suc.prems(4)
    by (auto simp: IH d rd_ptr_def rd_def wr_def free_obj_def list_update_append nth_append
        replicate_append_same [symmetric])
qed

lemma default_slots_eq:
  assumes "makes df x" and "lo + n \<le> length a"
  shows "default_slots df m a lo n =
     Inr (m\<lparr>cells := (\<lambda>p. if next_free m \<le> p \<and> p < next_free m + n then Some x else cells m p), next_free := next_free m + n\<rparr>,
          take lo a @ map Some [next_free m ..< next_free m + n] @ drop (lo + n) a)"
  using assms(2)
proof (induction n)
  case 0
  have "(\<lambda>p. if next_free m \<le> p \<and> p < next_free m then Some x else cells m p) = cells m"
    by (rule ext) auto
  then show ?case using 0 by simp
next
  case (Suc n)
  have d: "drop (lo + n) a = a ! (lo + n) # drop (lo + Suc n) a"
    using Suc.prems by (simp add: Cons_nth_drop_Suc [symmetric])
  have "(\<lambda>p. if next_free m \<le> p \<and> p < next_free m + n then Some x else cells m p)(next_free m + n \<mapsto> x)
      = (\<lambda>p. if next_free m \<le> p \<and> p < next_free m + Suc n then Some x else cells m p)"
    by (rule ext) auto
  moreover have "df (m\<lparr>cells := (\<lambda>p. if next_free m \<le> p \<and> p < next_free m + n then Some x else cells m p),
      next_free := next_free m + n\<rparr>) = Inr (new_obj (m\<lparr>cells := (\<lambda>p. if next_free m \<le> p \<and> p < next_free m + n
      then Some x else cells m p), next_free := next_free m + n\<rparr>) x)"
    using assms(1) unfolding makes_def by blast
  ultimately show ?case
    using Suc d by (simp add: new_obj_def wr_def list_update_append)
qed

section \<open>The operations\<close>

lemma vrep_vector_create: "mem_ok m \<Longrightarrow> vrep m vector_create [] []"
  by (simp add: vrep_def slots_ok_def vector_create_def new_slots_def INITIAL_CAPACITY_def w64_def)

lemma reserve_slots_ok:
  assumes v: "slots_ok v ps" and n: "n \<le> 2 ^ 60"
  obtains v' where "vector_reserve v n = Inr v'" "slots_ok v' ps" "n \<le> v_capacity v'"
    "v_capacity v \<le> v_capacity v'"
proof (cases "n \<le> v_capacity v")
  case True
  then show thesis using v that by (simp add: vector_reserve_def)
next
  case False
  from get_new_capacity_small [OF n] obtain c where
    c: "get_new_capacity n = Some c" "n \<le> c" "0 < c" "c \<le> 2 ^ 60" .
  then have "vector_reserve v n =
      Inr (v\<lparr>v_capacity := c, v_array := take (length ps) (v_array v) @ drop (length ps) (new_slots c)\<rparr>)"
    using False v by (simp add: vector_reserve_def copy_slots_eq new_slots_length slots_ok_def)
  then show thesis
    using c False v by (intro that) (auto simp: slots_ok_def new_slots_length)
qed

lemma vector_reserve_vrep:
  assumes "vrep m v ps xs" and "n \<le> 2 ^ 60"
  obtains v' where "vector_reserve v n = Inr v'" "vrep m v' ps xs" "n \<le> v_capacity v'"
    "v_capacity v \<le> v_capacity v'"
  using reserve_slots_ok [of v ps n] assms by (auto simp: vrep_def)

lemma store_end_vrep:
  assumes v: "vrep m v ps xs" and cp: "copies cp" and e: "cells m e = Some x"
    and room: "length xs < v_capacity v"
  obtains v' where "store_end cp m v e = Inr (snd (new_obj m x), v')"
    "vrep (snd (new_obj m x)) v' (ps @ [next_free m]) (xs @ [x])" "v_capacity v' = v_capacity v"
proof -
  have s: "slots_ok v ps" "mem_ok m" "distinct ps" "map (cells m) ps = map Some xs"
    using v by (auto simp: vrep_def)
  have l: "length ps = length xs" using v vrep_length by blast
  have w: "w64 (length ps + 1) = length ps + 1" using room s l by (simp add: slots_ok_def w64_id)
  let ?v = "v\<lparr>v_array := (v_array v)[length ps := Some (next_free m)], v_size := length ps + 1\<rparr>"
  have "store_end cp m v e = Inr (snd (new_obj m x), ?v)"
    using copies_eq [OF cp s(2) e] s(1) room l w
    by (simp add: store_end_def new_obj_def wr_def slots_ok_def)
  moreover have "map ((cells m)(next_free m \<mapsto> x)) ps = map Some xs"
    using s(4) map_fun_upd [OF fresh_notin [OF v]] by metis
  then have "vrep (snd (new_obj m x)) ?v (ps @ [next_free m]) (xs @ [x])"
    using s(1-3) room l fresh_notin [OF v]
    by (auto simp: vrep_def slots_ok_def new_obj_def take_Suc_conv_app_nth)
  ultimately show thesis by (intro that [of ?v]) auto
qed

lemma push_back_vrep:
  assumes v: "vrep m v ps xs" and cp: "copies cp" and e: "cells m e = Some x"
    and len: "length xs < 2 ^ 60"
  obtains v' where "vector_push_back cp m v e = Inr (snd (new_obj m x), v')"
    "vrep (snd (new_obj m x)) v' (ps @ [next_free m]) (xs @ [x])"
proof (cases "v_size v < v_capacity v")
  case True
  then have "length xs < v_capacity v" using vrep_length [OF v] by simp
  from store_end_vrep [OF v cp e this] True that show thesis
    by (auto simp: vector_push_back_def)
next
  case False
  have "v_size v = length xs" using vrep_length [OF v] by simp
  moreover have "length xs + 1 \<le> 2 ^ 60" "w64 (length xs + 1) = length xs + 1"
    using len by (simp_all add: w64_id)
  moreover from vector_reserve_vrep [OF v this(1)] obtain v1 where
    "vector_reserve v (length xs + 1) = Inr v1" "vrep m v1 ps xs" "length xs + 1 \<le> v_capacity v1" .
  moreover from store_end_vrep [OF this(2) cp e] this(3) obtain v2 where
    "store_end cp m v1 e = Inr (snd (new_obj m x), v2)"
    "vrep (snd (new_obj m x)) v2 (ps @ [next_free m]) (xs @ [x])" by auto
  ultimately show thesis using False that by (simp add: vector_push_back_def)
qed

lemma drop_ptrs:
  assumes "vrep m v ps xs"
  shows "set (take i ps) \<inter> set (drop i ps) = {}" "set ps \<subseteq> dom (cells m)" "distinct (take i ps @ drop i ps)"
  using assms set_take_disj_set_drop_if_distinct [of ps i i]
  by (auto simp: vrep_def) (metis domI in_set_conv_nth length_map nth_map)

lemma take_ptrs:
  assumes "slots_ok v ps" and "n \<le> length ps"
  shows "take n (v_array v) = map Some (take n ps)"
proof -
  have "take n (take (length ps) (v_array v)) = take n (map Some ps)"
    using assms(1) by (simp add: slots_ok_def)
  then show ?thesis using assms(2) by (simp add: take_map min_def)
qed

text \<open>Taking elements out: the memory loses the objects \<open>Q\<close>, the vector keeps the others.\<close>

lemma vrep_without:
  assumes v: "vrep m v ps xs" and s: "slots_ok v' qs" and q: "distinct qs" "set qs \<subseteq> set ps - Q"
    and eq: "map (cells m) qs = map Some ys"
  shows "vrep (m\<lparr>cells := cells m |` (- Q)\<rparr>) v' qs ys"
proof -
  have "map (cells m |` (- Q)) qs = map (cells m) qs" using q(2) by (auto intro!: map_cong)
  moreover have "mem_ok (m\<lparr>cells := cells m |` (- Q)\<rparr>)"
    using v by (auto simp: vrep_def mem_ok_def restrict_map_def)
  ultimately show ?thesis using s q(1) eq by (simp add: vrep_def)
qed

lemma vector_clear_vrep:
  assumes v: "vrep m v ps xs"
  obtains v' where "vector_clear m v = Inr (m\<lparr>cells := cells m |` (- set ps)\<rparr>, v')"
    "vrep (m\<lparr>cells := cells m |` (- set ps)\<rparr>) v' [] []" "v_capacity v' = v_capacity v"
proof -
  have s: "slots_ok v ps" "mem_ok m" "distinct ps" using v by (auto simp: vrep_def)
  have "\<forall>i < length ps. v_array v ! (0 + i) = Some (ps ! i)"
    using vrep_ptr(3) [OF v] vrep_length [OF v] by simp
  from free_slots_eq [OF s(2,3) drop_ptrs(2) [OF v] _ this refl] s(1)
  have "vector_clear m v = Inr (m\<lparr>cells := cells m |` (- set ps)\<rparr>,
      v\<lparr>v_array := replicate (length ps) (Some 0) @ drop (length ps) (v_array v), v_size := 0\<rparr>)"
    by (simp add: vector_clear_def slots_ok_def)
  moreover have "slots_ok (v\<lparr>v_array := replicate (length ps) (Some 0) @ drop (length ps) (v_array v),
      v_size := 0\<rparr>) []" using s(1) by (simp add: slots_ok_def)
  then have "vrep (m\<lparr>cells := cells m |` (- set ps)\<rparr>) (v\<lparr>v_array := replicate (length ps) (Some 0)
      @ drop (length ps) (v_array v), v_size := 0\<rparr>) [] []"
    by (rule vrep_without [OF v]) simp_all
  ultimately show thesis by (rule that) simp
qed

lemma vector_shrink_vrep:
  assumes v: "vrep m v ps xs" and n: "n < length xs"
  obtains v' where "vector_resize df m v n = Inr (m\<lparr>cells := cells m |` (- set (drop n ps))\<rparr>, v')"
    "vrep (m\<lparr>cells := cells m |` (- set (drop n ps))\<rparr>) v' (take n ps) (take n xs)"
proof -
  have s: "slots_ok v ps" "mem_ok m" "distinct ps" "map (cells m) ps = map Some xs"
    using v by (auto simp: vrep_def)
  have l: "length ps = length xs" "v_size v = length xs" using vrep_length [OF v] by auto
  have "\<forall>i < length xs - n. v_array v ! (n + i) = Some (drop n ps ! i)"
    using vrep_ptr(3) [OF v] l n by auto
  from free_slots_eq [OF s(2) distinct_drop [OF s(3)] _ _ this] s(1) l n drop_ptrs(2) [OF v]
  have "free_slots m (v_array v) n (length xs - n) = Inr (m\<lparr>cells := cells m |` (- set (drop n ps))\<rparr>,
      take n (v_array v) @ replicate (length xs - n) (Some 0) @ drop (length xs) (v_array v))"
    using set_drop_subset [of n ps] by (auto simp: slots_ok_def)
  then have run: "vector_resize df m v n = Inr (m\<lparr>cells := cells m |` (- set (drop n ps))\<rparr>,
      v\<lparr>v_array := take n (v_array v) @ replicate (length xs - n) (Some 0) @ drop (length xs) (v_array v),
        v_size := n\<rparr>)"
    using n l by (simp add: vector_resize_def)
  have tk: "take n (v_array v) = map Some (take n ps)"
    using take_ptrs [OF s(1)] n l by simp
  have sub: "set (take n ps) \<subseteq> set ps - set (drop n ps)"
    using drop_ptrs(1) [OF v, of n] set_take_subset [of n ps] by blast
  have eq: "map (cells m) (take n ps) = map Some (take n xs)"
    using s(4) by (metis take_map)
  show thesis
  proof (rule that [OF run], rule vrep_without [OF v _ distinct_take [OF s(3)] sub eq])
    show "slots_ok (v\<lparr>v_array := take n (v_array v) @ replicate (length xs - n) (Some 0) @ drop (length xs) (v_array v),
        v_size := n\<rparr>) (take n ps)"
      using s(1) n l tk by (auto simp: slots_ok_def)
  qed
qed

lemma vector_pop_back_vrep:
  assumes v: "vrep m v ps xs" and n: "xs \<noteq> []"
  obtains v' where "vector_pop_back m v = Inr (m\<lparr>cells := (cells m)(last ps := None)\<rparr>, v')"
    "vrep (m\<lparr>cells := (cells m)(last ps := None)\<rparr>) v' (butlast ps) (butlast xs)"
proof -
  let ?n = "length xs - 1"
  have s: "slots_ok v ps" "mem_ok m" "distinct ps" "map (cells m) ps = map Some xs"
    using v by (auto simp: vrep_def)
  have l: "length ps = length xs" "v_size v = length xs" using vrep_length [OF v] by auto
  have i: "?n < length xs" using n by (cases xs) auto
  have lp: "ps ! ?n = last ps" using l n by (metis last_conv_nth length_0_conv)
  have run: "vector_pop_back m v = Inr (m\<lparr>cells := (cells m)(last ps := None)\<rparr>,
      v\<lparr>v_array := (v_array v)[?n := Some 0], v_size := ?n\<rparr>)"
    using i l s(1) vrep_ptr(4) [OF v i] free_obj_Some [OF s(2) vrep_ptr(2) [OF v i]] lp
    by (auto simp: vector_pop_back_def wr_def slots_ok_def)
  have dp: "set (drop ?n ps) = {last ps}"
    using l n lp i by (metis Cons_nth_drop_Suc One_nat_def Suc_pred drop_all empty_set le_refl length_greater_0_conv list.simps(15))
  have "cells m |` (- {last ps}) = (cells m)(last ps := None)" by (rule ext) (simp add: restrict_map_def)
  moreover have "vrep (m\<lparr>cells := cells m |` (- set (drop ?n ps))\<rparr>)
      (v\<lparr>v_array := (v_array v)[?n := Some 0], v_size := ?n\<rparr>) (take ?n ps) (take ?n xs)"
  proof (rule vrep_without [OF v _ distinct_take [OF s(3)]])
    show "set (take ?n ps) \<subseteq> set ps - set (drop ?n ps)"
      using drop_ptrs(1) [OF v, of ?n] set_take_subset [of ?n ps] by blast
    show "map (cells m) (take ?n ps) = map Some (take ?n xs)" using s(4) by (metis take_map)
    have "take ?n (v_array v) = map Some (take ?n ps)"
      using take_ptrs [OF s(1)] i l by simp
    then show "slots_ok (v\<lparr>v_array := (v_array v)[?n := Some 0], v_size := ?n\<rparr>) (take ?n ps)"
      using s(1) i l by (auto simp: slots_ok_def)
  qed
  ultimately show thesis using run l dp by (intro that) (auto simp: butlast_conv_take)
qed

lemma vector_erase_vrep:
  assumes v: "vrep m v ps xs" and i: "i < length xs"
  obtains v' where "vector_erase m v i = Inr (m\<lparr>cells := (cells m)(ps ! i := None)\<rparr>, v')"
    "vrep (m\<lparr>cells := (cells m)(ps ! i := None)\<rparr>) v' (take i ps @ drop (Suc i) ps)
       (take i xs @ drop (Suc i) xs)"
proof -
  have s: "slots_ok v ps" "mem_ok m" "distinct ps" "map (cells m) ps = map Some xs"
    using v by (auto simp: vrep_def)
  have l: "length ps = length xs" "v_size v = length xs" using vrep_length [OF v] by auto
  have le: "length xs \<le> v_capacity v" "v_capacity v \<le> 2 ^ 60" using s(1) l by (auto simp: slots_ok_def)
  from get_new_capacity_small [OF le_trans [OF le]] obtain c where
    c: "get_new_capacity (length xs) = Some c" "length xs \<le> c" "0 < c" "c \<le> 2 ^ 60" .
  have fr: "free_obj m (ps ! i) = Inr (m\<lparr>cells := (cells m)(ps ! i := None)\<rparr>)"
    by (rule free_obj_Some [OF s(2) vrep_ptr(2) [OF v i]])
  let ?a = "take i (v_array v) @ drop (Suc i) (take (length xs) (v_array v)) @ drop (length xs - 1) (new_slots c)"
  have "erase_loop m (v_array v) (new_slots c) i (length xs)
      = Inr (m\<lparr>cells := (cells m)(ps ! i := None)\<rparr>, ?a, length xs - 1)"
    using s(1) le(1) c(2) by (intro erase_loop_after [OF vrep_ptr(4) [OF v i] fr i])
      (simp_all add: slots_ok_def new_slots_length [OF c(4)])
  then have run: "vector_erase m v i = Inr (m\<lparr>cells := (cells m)(ps ! i := None)\<rparr>,
      \<lparr>v_array = ?a, v_size = length xs - 1, v_capacity = c\<rparr>)"
    using i l c(1) by (simp add: vector_erase_def vector_size_def)
  have a: "take (length xs) (v_array v) = map Some ps" "take i (v_array v) = map Some (take i ps)"
    using take_ptrs [OF s(1)] l i by auto
  have "slots_ok \<lparr>v_array = ?a, v_size = length xs - 1, v_capacity = c\<rparr> (take i ps @ drop (Suc i) ps)"
    using i l c by (simp add: slots_ok_def a new_slots_length drop_map)
  moreover have d: "distinct (take i ps @ ps ! i # drop (Suc i) ps)"
    using s(3) i l by (simp add: take_drop_split)
  then have "set (take i ps @ drop (Suc i) ps) \<subseteq> set ps - {ps ! i}" "distinct (take i ps @ drop (Suc i) ps)"
    using set_take_subset [of i ps] set_drop_subset [of "Suc i" ps] by auto
  moreover have "map (cells m) (take i ps @ drop (Suc i) ps) = map Some (take i xs @ drop (Suc i) xs)"
    using s(4) by (metis drop_map map_append take_map)
  ultimately have "vrep (m\<lparr>cells := cells m |` (- {ps ! i})\<rparr>)
      \<lparr>v_array = ?a, v_size = length xs - 1, v_capacity = c\<rparr> (take i ps @ drop (Suc i) ps)
      (take i xs @ drop (Suc i) xs)" by (intro vrep_without [OF v])
  moreover have "cells m |` (- {ps ! i}) = (cells m)(ps ! i := None)"
    by (rule ext) (simp add: restrict_map_def)
  ultimately show thesis using run that by simp
qed

text \<open>Putting a new object in.\<close>

lemma vrep_with:
  assumes v: "vrep m v ps xs" and s: "slots_ok v' (take i ps @ next_free m # drop j ps)"
    and ij: "i \<le> j" and l: "i \<le> length xs" "j \<le> length xs"
  shows "vrep (snd (new_obj m x)) v' (take i ps @ next_free m # drop j ps) (take i xs @ x # drop j xs)"
proof -
  have m: "mem_ok m" "distinct ps" "map (cells m) ps = map Some xs"
    using v by (auto simp: vrep_def)
  have nf: "next_free m \<notin> set (take i ps)" "next_free m \<notin> set (drop j ps)"
    using fresh_notin [OF v] set_take_subset set_drop_subset by (metis subsetD)+
  have "map ((cells m)(next_free m \<mapsto> x)) (take i ps) = map Some (take i xs)"
    "map ((cells m)(next_free m \<mapsto> x)) (drop j ps) = map Some (drop j xs)"
    using m(3) nf by (simp_all add: map_fun_upd) (metis take_map drop_map)+
  moreover have "distinct (take i ps @ drop j ps)"
    using m(2) set_take_disj_set_drop_if_distinct [OF m(2) ij] by simp
  ultimately show ?thesis
    using m(1) s nf by (simp add: vrep_def new_obj_def)
qed

lemma vector_insert_vrep:
  assumes v: "vrep m v ps xs" and cp: "copies cp" and e: "cells m e = Some x"
    and i: "i < length xs" and len: "length xs < 2 ^ 60"
  obtains v' where "vector_insert cp m v i e = Inr (snd (new_obj m x), v')"
    "vrep (snd (new_obj m x)) v' (take i ps @ next_free m # drop i ps) (take i xs @ x # drop i xs)"
proof -
  have s: "slots_ok v ps" "mem_ok m" using v by (auto simp: vrep_def)
  have l: "length ps = length xs" "v_size v = length xs" using vrep_length [OF v] by auto
  have w: "w64 (length xs + 1) = length xs + 1" "length xs + 1 \<le> 2 ^ 60" using len by (simp_all add: w64_id)
  from get_new_capacity_small [OF w(2)] obtain c where
    c: "get_new_capacity (length xs + 1) = Some c" "length xs + 1 \<le> c" "0 < c" "c \<le> 2 ^ 60" .
  let ?a = "take i (v_array v) @ Some (next_free m) # drop i (take (length xs) (v_array v))
      @ drop (Suc (length xs)) (new_slots c)"
  have "insert_loop cp m (v_array v) (new_slots c) i e (length xs)
      = Inr (snd (new_obj m x), ?a, Suc (length xs))"
    using s(1) l(1) c(2) i copies_eq [OF cp s(2) e] by (intro insert_loop_after [where cp = cp and m = m and e = e and x = x])
      (simp_all add: slots_ok_def new_slots_length [OF c(4)])
  then have run: "vector_insert cp m v i e = Inr (snd (new_obj m x),
      \<lparr>v_array = ?a, v_size = length xs + 1, v_capacity = c\<rparr>)"
    using i l c(1) w(1) by (simp add: vector_insert_def)
  have a: "take (length xs) (v_array v) = map Some ps" "take i (v_array v) = map Some (take i ps)"
    using take_ptrs [OF s(1)] l i by auto
  have "slots_ok \<lparr>v_array = ?a, v_size = length xs + 1, v_capacity = c\<rparr>
      (take i ps @ next_free m # drop i ps)"
    using i l c by (simp add: slots_ok_def a new_slots_length drop_map Suc_diff_le)
  from vrep_with [OF v this] i run show thesis by (intro that) auto
qed

lemma vector_set_vrep:
  assumes v: "vrep m v ps xs" and cp: "copies cp" and e: "cells m e = Some x" "e \<noteq> ps ! i"
    and i: "i < length xs"
  obtains m' v' where "vector_set cp m v i e = Inr (m', v')" "vrep m' v' (ps[i := next_free m]) (xs[i := x])"
    "cells m' = (cells m)(ps ! i := None, next_free m \<mapsto> x)"
proof -
  let ?m = "m\<lparr>cells := (cells m)(ps ! i := None)\<rparr>"
  let ?v = "v\<lparr>v_array := (v_array v)[i := Some (next_free m)]\<rparr>"
  have s: "slots_ok v ps" "mem_ok m" "distinct ps" "map (cells m) ps = map Some xs"
    using v by (auto simp: vrep_def)
  have l: "length ps = length xs" "v_size v = length xs" using vrep_length [OF v] by auto
  have fr: "free_obj m (ps ! i) = Inr ?m" by (rule free_obj_Some [OF s(2) vrep_ptr(2) [OF v i]])
  have cp': "cp ?m e = Inr (new_obj ?m x)"
    using copies_eq [OF cp mem_ok_free [OF s(2)]] e by simp
  have run: "vector_set cp m v i e = Inr (snd (new_obj ?m x), ?v)"
    using i l s(1) cp' by (simp add: vector_set_def vector_size_def vrep_ptr(4) [OF v i] fr new_obj_def
        wr_def slots_ok_def)
  have nf: "next_free m \<notin> set ps" by (rule fresh_notin [OF v])
  have "map (cells (snd (new_obj ?m x))) (ps[i := next_free m]) = map Some (xs[i := x])"
  proof (rule nth_equalityI)
    fix k assume "k < length (map (cells (snd (new_obj ?m x))) (ps[i := next_free m]))"
    then have k: "k < length xs" using l by simp
    then have "ps ! k \<noteq> next_free m" "k \<noteq> i \<Longrightarrow> ps ! k \<noteq> ps ! i"
      using nf l i s(3) nth_mem [of k ps] by (metis, simp add: nth_eq_iff_index_eq)
    then show "map (cells (snd (new_obj ?m x))) (ps[i := next_free m]) ! k = map Some (xs[i := x]) ! k"
      using k l vrep_ptr(2) [OF v k] i by (cases "k = i") (auto simp: new_obj_def)
  qed (simp add: l)
  moreover have "distinct (ps[i := next_free m])" using s(3) nf by (simp add: distinct_list_update)
  moreover have "slots_ok ?v (ps[i := next_free m])"
    using s(1) i l by (simp add: slots_ok_def map_update [symmetric] take_update_swap)
  moreover have "mem_ok (snd (new_obj ?m x))"
    using mem_ok_new [OF mem_ok_free [OF s(2)]] by (simp add: new_obj_def)
  ultimately have "vrep (snd (new_obj ?m x)) ?v (ps[i := next_free m]) (xs[i := x])" by (simp add: vrep_def)
  with run show thesis by (rule that) (simp add: new_obj_def)
qed

lemma vector_grow_vrep:
  assumes v: "vrep m v ps xs" and df: "makes df d" and n: "length xs < n" "n \<le> 2 ^ 60"
  obtains m' v' where "vector_resize df m v n = Inr (m', v')"
    "vrep m' v' (ps @ [next_free m ..< next_free m + (n - length xs)]) (xs @ replicate (n - length xs) d)"
    "cells m' = (\<lambda>p. if next_free m \<le> p \<and> p < next_free m + (n - length xs) then Some d else cells m p)"
proof -
  let ?k = "n - length xs" and ?f = "next_free m"
  let ?m = "m\<lparr>cells := (\<lambda>p. if ?f \<le> p \<and> p < ?f + ?k then Some d else cells m p), next_free := ?f + ?k\<rparr>"
  have l: "length ps = length xs" "v_size v = length xs" using vrep_length [OF v] by auto
  from vector_reserve_vrep [OF v n(2)] obtain v1 where
    v1: "vector_reserve v n = Inr v1" "vrep m v1 ps xs" "n \<le> v_capacity v1" by blast
  have s: "slots_ok v1 ps" "mem_ok m" "distinct ps" "map (cells m) ps = map Some xs"
    using v1(2) by (auto simp: vrep_def)
  let ?v = "v1\<lparr>v_array := take (length xs) (v_array v1) @ map Some [?f ..< ?f + ?k] @ drop n (v_array v1),
    v_size := n\<rparr>"
  have lv: "length xs + ?k \<le> length (v_array v1)" using s(1) v1(3) n by (simp add: slots_ok_def)
  have run: "vector_resize df m v n = Inr (?m, ?v)"
    using default_slots_eq [OF df lv] n l v1(1) vrep_length [OF v1(2)] by (simp add: vector_resize_def)
  have old: "p < ?f" if "p \<in> set ps" for p
    using that s(2) drop_ptrs(2) [OF v] by (auto simp: mem_ok_def)
  have "map (cells ?m) ps = map (cells m) ps" using old by fastforce
  moreover have "map (cells ?m) [?f ..< ?f + ?k] = map Some (replicate ?k d)"
    by (rule nth_equalityI) auto
  ultimately have "map (cells ?m) (ps @ [?f ..< ?f + ?k]) = map Some (xs @ replicate ?k d)"
    using s(4) by simp
  moreover have "distinct (ps @ [?f ..< ?f + ?k])" using s(3) by (auto dest: old)
  moreover have "slots_ok ?v (ps @ [?f ..< ?f + ?k])"
    using s(1) l n lv v1(3) take_ptrs [OF s(1), of "length xs"] by (simp add: slots_ok_def)
  moreover have "mem_ok ?m" using s(2) by (auto simp: mem_ok_def)
  ultimately have "vrep ?m ?v (ps @ [?f ..< ?f + ?k]) (xs @ replicate ?k d)" by (simp add: vrep_def)
  with run show thesis by (rule that) simp
qed

end
