(* ===== verification/Vector_Props.thy ===== *)
theory Vector_Props
  imports Vector_Correct
begin

text \<open>
  The contract of \<^verbatim>\<open>src/vector/vector.c\<close> as its callers see it: any sequence of operations on
  a vector does to its elements what the same sequence does to a list, neither loses nor touches
  an object outside the vector, and destroying the vector gives all its elements back.
\<close>

section \<open>The memory outside a vector\<close>

definition outside :: "'a mem \<Rightarrow> nat list \<Rightarrow> nat \<rightharpoonup> 'a" where
  "outside m ps = cells m |` (- set ps)"

lemma outside_apply: "outside m ps p = (if p \<in> set ps then None else cells m p)"
  by (simp add: outside_def)

lemma outside_new:
  "\<lbrakk>mem_ok m; set qs = insert (next_free m) (set ps)\<rbrakk> \<Longrightarrow> outside (snd (new_obj m x)) qs = outside m ps"
  using fresh_None [of m] by (intro ext) (simp add: outside_apply new_obj_def)

lemma outside_restrict:
  "\<lbrakk>set qs = set ps - Q; Q \<subseteq> set ps\<rbrakk> \<Longrightarrow> outside (m\<lparr>cells := cells m |` (- Q)\<rparr>) qs = outside m ps"
  by (intro ext) (auto simp: outside_apply)

lemma outside_free:
  "\<lbrakk>set qs = set ps - {p}; p \<in> set ps\<rbrakk> \<Longrightarrow> outside (m\<lparr>cells := (cells m)(p := None)\<rparr>) qs = outside m ps"
  by (intro ext) (auto simp: outside_apply)

lemma outsideD: "outside m ps e = Some x \<Longrightarrow> cells m e = Some x \<and> e \<notin> set ps"
  by (simp add: outside_apply split: if_splits)

section \<open>Sequences of operations\<close>

text \<open>Elements are given by pointers to objects outside the vector.\<close>

datatype vop =
    Push nat
  | Insert nat nat
  | Set_at nat nat
  | Erase nat
  | Pop
  | Resize nat
  | Reserve nat
  | Clear

fun vstep :: "'a copy_ctor \<Rightarrow> 'a default_ctor \<Rightarrow> 'a mem \<times> vec \<Rightarrow> vop \<Rightarrow> ('a mem \<times> vec) res" where
  "vstep cp df (m, v) (Push e) = vector_push_back cp m v e"
| "vstep cp df (m, v) (Insert i e) = vector_insert cp m v i e"
| "vstep cp df (m, v) (Set_at i e) = vector_set cp m v i e"
| "vstep cp df (m, v) (Erase i) = vector_erase m v i"
| "vstep cp df (m, v) Pop = vector_pop_back m v"
| "vstep cp df (m, v) (Resize n) = vector_resize df m v n"
| "vstep cp df (m, v) (Reserve n) = rbind (vector_reserve v n) (\<lambda>v. Inr (m, v))"
| "vstep cp df (m, v) Clear = vector_clear m v"

fun vrun :: "'a copy_ctor \<Rightarrow> 'a default_ctor \<Rightarrow> 'a mem \<times> vec \<Rightarrow> vop list \<Rightarrow> ('a mem \<times> vec) res" where
  "vrun cp df s [] = Inr s"
| "vrun cp df s (p # ps) = rbind (vstep cp df s p) (\<lambda>s. vrun cp df s ps)"

text \<open>The same on lists; \<open>None\<close> where the contract of the operation is not met.\<close>

definition room :: "nat \<Rightarrow> bool" where
  "room n \<longleftrightarrow> n \<le> 2 ^ 60"

fun lstep :: "(nat \<rightharpoonup> 'a) \<Rightarrow> 'a \<Rightarrow> 'a list \<Rightarrow> vop \<Rightarrow> 'a list option" where
  "lstep env d xs (Push e) =
     (case env e of None \<Rightarrow> None | Some x \<Rightarrow> if room (length xs + 1) then Some (xs @ [x]) else None)"
| "lstep env d xs (Insert i e) =
     (case env e of None \<Rightarrow> None | Some x \<Rightarrow>
        if room (length xs + 1) then Some (take i xs @ x # drop i xs) else None)"
| "lstep env d xs (Set_at i e) =
     (case env e of None \<Rightarrow> None | Some x \<Rightarrow> if i < length xs then Some (xs[i := x]) else None)"
| "lstep env d xs (Erase i) = (if i < length xs then Some (take i xs @ drop (Suc i) xs) else None)"
| "lstep env d xs Pop = (if xs = [] then None else Some (butlast xs))"
| "lstep env d xs (Resize n) =
     (if room n then Some (take n xs @ replicate (n - length xs) d) else None)"
| "lstep env d xs (Reserve n) = (if room n then Some xs else None)"
| "lstep env d xs Clear = Some []"

fun lrun :: "(nat \<rightharpoonup> 'a) \<Rightarrow> 'a \<Rightarrow> 'a list \<Rightarrow> vop list \<Rightarrow> 'a list option" where
  "lrun env d xs [] = Some xs"
| "lrun env d xs (p # ps) = Option.bind (lstep env d xs p) (\<lambda>xs. lrun env d xs ps)"

lemma take_drop_set:
  "\<lbrakk>distinct ps; i < length ps\<rbrakk> \<Longrightarrow> set (take i ps @ drop (Suc i) ps) = set ps - {ps ! i}"
proof -
  assume d: "distinct ps" and i: "i < length ps"
  then have "distinct (take i ps @ ps ! i # drop (Suc i) ps)" by (simp add: take_drop_split)
  moreover have "set ps = set (take i ps @ ps ! i # drop (Suc i) ps)" using i by (simp add: take_drop_split)
  ultimately show ?thesis by auto
qed

lemma push_simulates:
  assumes v: "vrep m v ps xs" and cp: "copies cp" and e: "outside m ps e = Some x"
    and n: "room (length xs + 1)"
  obtains m' v' ps' where "vector_push_back cp m v e = Inr (m', v')" "vrep m' v' ps' (xs @ [x])"
    "outside m' ps' = outside m ps"
proof -
  have "length xs < 2 ^ 60" using n by (simp add: room_def)
  from push_back_vrep [OF v cp _ this] outsideD [OF e] obtain v' where
    "vector_push_back cp m v e = Inr (snd (new_obj m x), v')"
    "vrep (snd (new_obj m x)) v' (ps @ [next_free m]) (xs @ [x])" by blast
  moreover have "outside (snd (new_obj m x)) (ps @ [next_free m]) = outside m ps"
    using v by (intro outside_new) (simp_all add: vrep_def)
  ultimately show thesis by (rule that)
qed

lemma insert_simulates:
  assumes v: "vrep m v ps xs" and cp: "copies cp" and e: "outside m ps e = Some x"
    and n: "room (length xs + 1)"
  obtains m' v' ps' where "vector_insert cp m v i e = Inr (m', v')"
    "vrep m' v' ps' (take i xs @ x # drop i xs)" "outside m' ps' = outside m ps"
proof (cases "i < length xs")
  case True
  have "length xs < 2 ^ 60" using n by (simp add: room_def)
  from vector_insert_vrep [OF v cp _ True this] outsideD [OF e] obtain v' where
    "vector_insert cp m v i e = Inr (snd (new_obj m x), v')"
    "vrep (snd (new_obj m x)) v' (take i ps @ next_free m # drop i ps) (take i xs @ x # drop i xs)" by blast
  moreover have "set (take i ps @ next_free m # drop i ps) = insert (next_free m) (set ps)"
    by (metis append_take_drop_id set_append Un_insert_right list.set(2))
  then have "outside (snd (new_obj m x)) (take i ps @ next_free m # drop i ps) = outside m ps"
    using v by (intro outside_new) (simp_all add: vrep_def)
  ultimately show thesis by (rule that)
next
  case False
  then have "vector_insert cp m v i e = vector_push_back cp m v e"
    using vrep_length [OF v] by (simp add: vector_insert_def)
  then show thesis using push_simulates [OF v cp e n] that False by auto
qed

lemma set_simulates:
  assumes v: "vrep m v ps xs" and cp: "copies cp" and e: "outside m ps e = Some x" and i: "i < length xs"
  obtains m' v' ps' where "vector_set cp m v i e = Inr (m', v')" "vrep m' v' ps' (xs[i := x])"
    "outside m' ps' = outside m ps"
proof -
  have l: "length ps = length xs" using vrep_length [OF v] by simp
  have d: "distinct ps" "mem_ok m" using v by (auto simp: vrep_def)
  from outsideD [OF e] have e': "cells m e = Some x" "e \<noteq> ps ! i" using l i by auto
  from vector_set_vrep [OF v cp e' i] obtain m' v' where
    r: "vector_set cp m v i e = Inr (m', v')" "vrep m' v' (ps[i := next_free m]) (xs[i := x])"
    "cells m' = (cells m)(ps ! i := None, next_free m \<mapsto> x)" .
  have "set (ps[i := next_free m]) = insert (next_free m) (set ps - {ps ! i})"
    using set_update_distinct [OF d(1)] l i by simp
  moreover have "ps ! i \<in> set ps" using l i by simp
  ultimately have "outside m' (ps[i := next_free m]) = outside m ps"
    using r(3) fresh_None [OF d(2)] by (intro ext) (auto simp: outside_apply)
  with r show thesis by (intro that)
qed

lemma erase_simulates:
  assumes v: "vrep m v ps xs" and i: "i < length xs"
  obtains m' v' ps' where "vector_erase m v i = Inr (m', v')" "vrep m' v' ps' (take i xs @ drop (Suc i) xs)"
    "outside m' ps' = outside m ps"
proof -
  have "distinct ps" "i < length ps" using v i vrep_length [OF v] by (auto simp: vrep_def)
  then have "outside (m\<lparr>cells := (cells m)(ps ! i := None)\<rparr>) (take i ps @ drop (Suc i) ps) = outside m ps"
    by (intro outside_free take_drop_set) simp_all
  with vector_erase_vrep [OF v i] that show thesis by metis
qed

lemma pop_simulates:
  assumes v: "vrep m v ps xs" and n: "xs \<noteq> []"
  obtains m' v' ps' where "vector_pop_back m v = Inr (m', v')" "vrep m' v' ps' (butlast xs)"
    "outside m' ps' = outside m ps"
proof -
  have "distinct ps" "ps \<noteq> []" using v n vrep_length [OF v] by (auto simp: vrep_def)
  then have "set (butlast ps) = set ps - {last ps}" by (cases ps rule: rev_cases) auto
  then have "outside (m\<lparr>cells := (cells m)(last ps := None)\<rparr>) (butlast ps) = outside m ps"
    using \<open>ps \<noteq> []\<close> by (intro outside_free) simp_all
  with vector_pop_back_vrep [OF v n] that show thesis by metis
qed

lemma resize_simulates:
  assumes v: "vrep m v ps xs" and df: "makes df d" and n: "room n"
  obtains m' v' ps' where "vector_resize df m v n = Inr (m', v')"
    "vrep m' v' ps' (take n xs @ replicate (n - length xs) d)" "outside m' ps' = outside m ps"
proof -
  have l: "length ps = length xs" "v_size v = length xs" and d: "distinct ps" "mem_ok m"
    using v vrep_length [OF v] by (auto simp: vrep_def)
  consider (same) "n = length xs" | (less) "n < length xs" | (more) "length xs < n" by linarith
  then show thesis
  proof cases
    case same
    then show thesis using v l that [of m v ps] by (simp add: vector_resize_def)
  next
    case less
    have "set (take n ps) = set ps - set (drop n ps)"
      using drop_ptrs(1) [OF v, of n] append_take_drop_id [of n ps] by (metis Diff_disjoint Un_Diff
        Diff_cancel Diff_triv set_append sup_bot.right_neutral)
    then have "outside (m\<lparr>cells := cells m |` (- set (drop n ps))\<rparr>) (take n ps) = outside m ps"
      by (intro outside_restrict set_drop_subset)
    with vector_shrink_vrep [OF v less, of df] that less show thesis
      by (metis append_Nil2 diff_is_0_eq less_imp_le replicate_0)
  next
    case more
    from vector_grow_vrep [OF v df more] n obtain m' v' where r: "vector_resize df m v n = Inr (m', v')"
      "vrep m' v' (ps @ [next_free m ..< next_free m + (n - length xs)]) (xs @ replicate (n - length xs) d)"
      "cells m' = (\<lambda>p. if next_free m \<le> p \<and> p < next_free m + (n - length xs) then Some d else cells m p)"
      by (auto simp: room_def)
    have "cells m p = None" if "next_free m \<le> p" for p using d(2) that by (force simp: mem_ok_def)
    then have "outside m' (ps @ [next_free m ..< next_free m + (n - length xs)]) = outside m ps"
      using r(3) by (intro ext) (auto simp: outside_apply)
    with r that more show thesis by simp
  qed
qed

lemma clear_simulates:
  assumes v: "vrep m v ps xs"
  obtains m' v' where "vector_clear m v = Inr (m', v')" "vrep m' v' [] []" "outside m' [] = outside m ps"
    "cells m' = outside m ps"
proof -
  let ?m = "m\<lparr>cells := cells m |` (- set ps)\<rparr>"
  have o: "outside ?m [] = outside m ps" by (rule outside_restrict) simp_all
  have "cells ?m = outside m ps" by (simp add: outside_def)
  from vector_clear_vrep [OF v] obtain v' where "vector_clear m v = Inr (?m, v')" "vrep ?m v' [] []" .
  then show thesis by (rule that) fact+
qed

lemma vstep_simulates:
  assumes v: "vrep m v ps xs" and cp: "copies cp" and df: "makes df d"
    and step: "lstep (outside m ps) d xs p = Some ys"
  obtains m' v' ps' where "vstep cp df (m, v) p = Inr (m', v')" "vrep m' v' ps' ys"
    "outside m' ps' = outside m ps"
proof (cases p)
  case (Push e)
  then show thesis
    using step push_simulates [OF v cp] that by (auto split: option.splits if_splits)
next
  case (Insert i e)
  then show thesis
    using step insert_simulates [OF v cp, of e _ i] that by (auto split: option.splits if_splits)
next
  case (Set_at i e)
  then show thesis
    using step set_simulates [OF v cp] that by (auto split: option.splits if_splits)
next
  case (Erase i)
  then show thesis using step erase_simulates [OF v] that by (auto split: if_splits)
next
  case Pop
  then show thesis using step pop_simulates [OF v] that by (auto split: if_splits)
next
  case (Resize n)
  then show thesis using step resize_simulates [OF v df] that by (auto split: if_splits)
next
  case (Reserve n)
  then have "n \<le> 2 ^ 60" "ys = xs" using step by (auto simp: room_def split: if_splits)
  with vector_reserve_vrep [OF v] obtain v' where "vector_reserve v n = Inr v'" "vrep m v' ps xs" by blast
  then show thesis using that Reserve \<open>ys = xs\<close> by simp
next
  case Clear
  then show thesis using step clear_simulates [OF v] that by auto
qed

lemma vrun_simulates:
  assumes "vrep m v ps xs" and "copies cp" and "makes df d"
    and "lrun (outside m ps) d xs prog = Some ys"
  shows "\<exists>m' v' ps'. vrun cp df (m, v) prog = Inr (m', v') \<and> vrep m' v' ps' ys
           \<and> outside m' ps' = outside m ps"
  using assms
proof (induction prog arbitrary: m v ps xs)
  case Nil
  then show ?case by auto
next
  case (Cons p prog)
  from Cons.prems(4) obtain zs where zs: "lstep (outside m ps) d xs p = Some zs"
    "lrun (outside m ps) d zs prog = Some ys" by (auto simp: bind_eq_Some_conv)
  from vstep_simulates [OF Cons.prems(1-3) zs(1)] obtain m' v' ps' where
    s: "vstep cp df (m, v) p = Inr (m', v')" "vrep m' v' ps' zs" "outside m' ps' = outside m ps" .
  from Cons.IH [OF s(2) Cons.prems(2,3)] zs(2) s show ?case by simp
qed

section \<open>Properties\<close>

text \<open>Constructors for the witnesses, and a memory with the object 5 at the address 1.\<close>

definition copy_nat :: "nat copy_ctor" where
  "copy_nat m p = rbind (load m p) (\<lambda>x. Inr (new_obj m x))"

definition default_nat :: "nat default_ctor" where
  "default_nat m = Inr (new_obj m 0)"

definition mem5 :: "nat mem" where
  "mem5 = \<lparr>cells = [1 \<mapsto> 5], next_free = 2\<rparr>"

lemma constructors_ok: "copies copy_nat" "makes default_nat 0" "mem_ok mem5"
  by (auto simp: copies_def copy_nat_def makes_def default_nat_def mem_ok_def mem5_def)



text \<open>Destroying a vector gives all its elements back, each exactly once.\<close>

theorem vector_destroy_no_leak:
  assumes "vrep m v ps xs"
  shows "\<exists>m'. vector_destroy m v = Inr m' \<and> cells m' = outside m ps"
  using clear_simulates [OF assms] by (fastforce simp: vector_destroy_def)

lemma vector_destroy_no_leak_witness:
  "\<exists>m'. vector_destroy mem5 (vector_create\<lparr>v_array := Some 1 # replicate 7 None, v_size := 1\<rparr>) = Inr m'
     \<and> cells m' = outside mem5 [1]"
proof (rule vector_destroy_no_leak)
  show "vrep mem5 (vector_create\<lparr>v_array := Some 1 # replicate 7 None, v_size := 1\<rparr>) [1] [5]"
    by (simp add: vrep_def slots_ok_def vector_create_def INITIAL_CAPACITY_def constructors_ok mem5_def [THEN arg_cong [of _ _ cells]])
qed

lemma get_new_capacity_least:
  assumes "target \<le> 2 ^ 63"
  shows "get_new_capacity target = Some (2 ^ (LEAST j. target \<le> 2 ^ j))"
proof -
  from assms obtain j where j: "get_new_capacity target = Some (2 ^ j)" "target \<le> 2 ^ j"
    "\<forall>i < j. 2 ^ i < target" by (rule get_new_capacity_Some)
  have "(LEAST j. target \<le> 2 ^ j) = j"
    using j(2,3) by (intro Least_equality) (auto simp: not_le [symmetric])
  with j(1) show ?thesis by simp
qed

text \<open>The new capacity is the least power of two that meets the target, for every target up
  to \<open>2 ^ 63\<close>; for a larger one the doubling wraps around to 0 and the loop never ends.\<close>

theorem get_new_capacity_spec:
  "get_new_capacity target =
     (if target \<le> 2 ^ 63 then Some (2 ^ (LEAST j. target \<le> 2 ^ j)) else None)"
  using get_new_capacity_least get_new_capacity_None by (simp add: not_le)

text \<open>\<open>vector_erase\<close> and \<open>vector_insert\<close> put the elements into a new array of the least power
  of two that holds them: capacity that was reserved before is lost.\<close>

theorem vector_erase_shrinks:
  assumes "vrep m v ps xs" and "i < length xs"
  shows "\<exists>m' v'. vector_erase m v i = Inr (m', v') \<and> get_new_capacity (length xs) = Some (v_capacity v')"
proof -
  from vector_erase_vrep [OF assms] obtain v' where
    "vector_erase m v i = Inr (m\<lparr>cells := (cells m)(ps ! i := None)\<rparr>, v')" .
  with vrep_length [OF assms(1)] show ?thesis
    by (auto simp: vector_erase_def vector_size_def or_diverges_def res_conv split: option.splits)
qed

lemma vector_erase_shrinks_witness:
  "\<exists>m' v'. vector_erase mem5 \<lparr>v_array = Some 1 # replicate 63 None, v_size = 1, v_capacity = 64\<rparr> 0 = Inr (m', v')
     \<and> get_new_capacity (length [5 :: nat]) = Some (v_capacity v')"
proof (rule vector_erase_shrinks)
  show "vrep mem5 \<lparr>v_array = Some 1 # replicate 63 None, v_size = 1, v_capacity = 64\<rparr> [1] [5]"
    by (simp add: vrep_def slots_ok_def constructors_ok mem5_def [THEN arg_cong [of _ _ cells]])
qed simp

text \<open>\<open>vector_set\<close> destroys the old element before it copies the new one, so storing an element
  of the vector over itself reads freed memory.\<close>

theorem vector_set_self_faults:
  assumes "vrep m v ps xs" and "copies cp" and "i < length xs"
  shows "rbind (vector_get v i) (\<lambda>e. vector_set cp m v i e) = Inl Bad_access"
proof -
  have l: "v_size v = length xs" "length ps = length xs" using vrep_length [OF assms(1)] by auto
  have p: "rd_ptr (v_array v) i = Inr (ps ! i)" "cells m (ps ! i) = Some (xs ! i)" "mem_ok m"
    using vrep_ptr [OF assms(1,3)] assms(1) by (auto simp: vrep_def)
  then have "ps ! i \<noteq> 0" by (auto simp: mem_ok_def)
  then show ?thesis
    using l p assms(2,3)
    by (simp add: vector_get_def vector_set_def vector_size_def free_obj_Some copies_def load_def)
qed

lemma vector_set_self_faults_witness:
  "rbind (vector_get (vector_create\<lparr>v_array := Some 1 # replicate 7 None, v_size := 1\<rparr>) 0)
     (\<lambda>e. vector_set copy_nat mem5 (vector_create\<lparr>v_array := Some 1 # replicate 7 None, v_size := 1\<rparr>) 0 e)
   = Inl Bad_access"
proof (rule vector_set_self_faults [OF _ constructors_ok(1)])
  show "vrep mem5 (vector_create\<lparr>v_array := Some 1 # replicate 7 None, v_size := 1\<rparr>) [1] [5]"
    by (simp add: vrep_def slots_ok_def vector_create_def INITIAL_CAPACITY_def constructors_ok mem5_def [THEN arg_cong [of _ _ cells]])
qed simp

end
