(* ===== verification/SString.thy ===== *)
theory SString
  imports Vector_Props "HOL-Library.Word"
begin

text \<open>
  \<^verbatim>\<open>src/vector/sstring.c\<close>: strings kept as vectors of characters. A character is a byte;
  the C strings that the functions take are runs of cells of the same memory, ended by a 0 byte;
  the C strings that they return are lists of the bytes before the 0. \<open>cp\<close> is the copy
  constructor of \<open>char_vector_create\<close>.
\<close>

section \<open>The operations\<close>

type_synonym char8 = "8 word"

text \<open>
  The loop \<open>while (*input)\<close> with the index that has been reached. A C string of the memory is
  shorter than the memory, so its size is enough fuel.
\<close>

fun push_chars :: "nat \<Rightarrow> char8 copy_ctor \<Rightarrow> char8 mem \<Rightarrow> vec \<Rightarrow> nat \<Rightarrow> (char8 mem \<times> vec) res" where
  "push_chars 0 cp m v input = Inl Out_of_fuel"
| "push_chars (Suc fuel) cp m v input =
     rbind (load m input) (\<lambda>c.
       if c = 0 then Inr (m, v)
       else rbind (vector_push_back cp m v input) (\<lambda>(m, v). push_chars fuel cp m v (input + 1)))"

definition cstr_to_sstring :: "char8 copy_ctor \<Rightarrow> char8 mem \<Rightarrow> nat \<Rightarrow> (char8 mem \<times> vec) res" where
  "cstr_to_sstring cp m input = push_chars (next_free m) cp m vector_create input"

text \<open>\<open>n\<close> characters from \<open>lo\<close> on, read through \<open>vector_get\<close>\<close>

definition get_char :: "char8 mem \<Rightarrow> vec \<Rightarrow> nat \<Rightarrow> char8 res" where
  "get_char m v i = rbind (vector_get v i) (\<lambda>p. load m p)"

primrec read_chars :: "char8 mem \<Rightarrow> vec \<Rightarrow> nat \<Rightarrow> nat \<Rightarrow> char8 list res" where
  "read_chars m v lo 0 = Inr []"
| "read_chars m v lo (Suc n) =
     rbind (read_chars m v lo n) (\<lambda>cs. rbind (get_char m v (lo + n)) (\<lambda>c. Inr (cs @ [c])))"

definition c_string :: "char8 list \<Rightarrow> char8 list" where
  "c_string cs = takeWhile (\<lambda>c. c \<noteq> 0) cs"

definition sstring_to_cstr :: "char8 mem \<Rightarrow> vec \<Rightarrow> char8 list res" where
  "sstring_to_cstr m v = rbind (read_chars m v 0 (vector_size v)) (\<lambda>cs. Inr (c_string cs))"

text \<open>
  \<open>sstring_append\<close> takes two strings by pointer, which may be the same: \<open>V\<close> maps the pointers
  to the vectors. The loop runs while \<open>i\<close> is below the current size of \<open>addition\<close>.
\<close>

fun append_loop :: "nat \<Rightarrow> char8 copy_ctor \<Rightarrow> char8 mem \<Rightarrow> (nat \<Rightarrow> vec) \<Rightarrow> nat \<Rightarrow> nat \<Rightarrow> nat
    \<Rightarrow> (char8 mem \<times> (nat \<Rightarrow> vec)) res" where
  "append_loop 0 cp m V this addition i = Inl Out_of_fuel"
| "append_loop (Suc fuel) cp m V this addition i =
     (if i < vector_size (V addition) then
        rbind (vector_get (V addition) i) (\<lambda>p.
        rbind (vector_push_back cp m (V this) p) (\<lambda>(m, v).
        append_loop fuel cp m (V(this := v)) this addition (i + 1)))
      else Inr (m, V))"

definition sstring_append :: "nat \<Rightarrow> char8 copy_ctor \<Rightarrow> char8 mem \<Rightarrow> (nat \<Rightarrow> vec) \<Rightarrow> nat \<Rightarrow> nat
    \<Rightarrow> (int \<times> char8 mem \<times> (nat \<Rightarrow> vec)) res" where
  "sstring_append fuel cp m V this addition =
     rbind (vector_reserve (V this) (w64 (vector_size (V this) + vector_size (V addition)))) (\<lambda>v.
     rbind (append_loop fuel cp m (V(this := v)) this addition 0) (\<lambda>(m, V).
     Inr (int32 (int (vector_size (V this))), m, V)))"

definition sstring_slice :: "char8 mem \<Rightarrow> vec \<Rightarrow> int \<Rightarrow> int \<Rightarrow> char8 list res" where
  "sstring_slice m v start end =
     rbind (guard (start \<le> end) Assert_failed) (\<lambda>_.
     rbind (guard (end mod 2 ^ 64 \<le> int (vector_size v)) Assert_failed) (\<lambda>_.
     rbind (guard (0 \<le> start) Assert_failed) (\<lambda>_.
     rbind (read_chars m v (nat start) (nat (end - start))) (\<lambda>cs. Inr (c_string cs)))))"

text \<open>
  \<open>sstring_split\<close> puts the pieces into a vector of strings, in a memory of strings of its own;
  \<open>vector_push_back\<close> stores a copy of each piece. The pieces are kept here by value: \<open>str\<close> is a
  new object that the call passes by address.
\<close>

definition push_string :: "char8 list copy_ctor \<Rightarrow> char8 list mem \<times> vec \<Rightarrow> char8 list
    \<Rightarrow> (char8 list mem \<times> vec) res" where
  "push_string scp s str = (case s of (sm, sv) \<Rightarrow>
     case new_obj sm str of (p, sm) \<Rightarrow> vector_push_back scp sm sv p)"

primrec split_loop :: "char8 list copy_ctor \<Rightarrow> char8 list mem \<Rightarrow> char8 mem \<Rightarrow> vec \<Rightarrow> char8 \<Rightarrow> nat
    \<Rightarrow> ((char8 list mem \<times> vec) \<times> nat) res" where
  "split_loop scp sm m v delimiter 0 = Inr ((sm, vector_create), 0)"
| "split_loop scp sm m v delimiter (Suc i) =
     rbind (split_loop scp sm m v delimiter i) (\<lambda>(s, start).
     rbind (get_char m v i) (\<lambda>c.
       if c = delimiter then
         rbind (sstring_slice m v (int32 (int start)) (int32 (int i))) (\<lambda>str.
         rbind (push_string scp s str) (\<lambda>s. Inr (s, i + 1)))
       else Inr (s, start)))"

definition sstring_split :: "char8 list copy_ctor \<Rightarrow> char8 list mem \<Rightarrow> char8 mem \<Rightarrow> vec \<Rightarrow> char8
    \<Rightarrow> (char8 list mem \<times> vec) res" where
  "sstring_split scp sm m v delimiter =
     rbind (split_loop scp sm m v delimiter (vector_size v)) (\<lambda>(s, start).
     rbind (sstring_slice m v (int32 (int start)) (int32 (int (vector_size v)))) (\<lambda>str.
     push_string scp s str))"

section \<open>sstring_substitute\<close>

fun c_strlen :: "nat \<Rightarrow> char8 mem \<Rightarrow> nat \<Rightarrow> nat res" where
  "c_strlen 0 m p = Inl Out_of_fuel"
| "c_strlen (Suc fuel) m p = rbind (load m p) (\<lambda>c.
     if c = 0 then Inr 0 else rbind (c_strlen fuel m (p + 1)) (\<lambda>n. Inr (n + 1)))"

text \<open>The inner loop: does the text from \<open>i\<close> on agree with the \<open>n\<close> characters of \<open>target\<close> from
  the \<open>j\<close>-th on?\<close>

primrec matches_at :: "char8 mem \<Rightarrow> vec \<Rightarrow> nat \<Rightarrow> nat \<Rightarrow> nat \<Rightarrow> nat \<Rightarrow> bool res" where
  "matches_at m v i target j 0 = Inr True"
| "matches_at m v i target j (Suc n) =
     rbind (get_char m v (i + j)) (\<lambda>c.
     rbind (load m (target + j)) (\<lambda>t.
     if c \<noteq> t then Inr False else matches_at m v i target (j + 1) n))"

text \<open>The outer loop over the \<open>n\<close> positions from \<open>i\<close> on.\<close>

primrec find_target :: "char8 mem \<Rightarrow> vec \<Rightarrow> nat \<Rightarrow> nat \<Rightarrow> nat \<Rightarrow> nat option res" where
  "find_target m v target i 0 = Inr None"
| "find_target m v target i (Suc n) =
     rbind (get_char m v i) (\<lambda>c.
     rbind (load m target) (\<lambda>t.
     if c = t then
       rbind (c_strlen (next_free m) m target) (\<lambda>len.
       rbind (matches_at m v i target 0 len) (\<lambda>found.
       if found then Inr (Some i) else find_target m v target (i + 1) n))
     else find_target m v target (i + 1) n))"

primrec erase_times :: "char8 mem \<Rightarrow> vec \<Rightarrow> nat \<Rightarrow> nat \<Rightarrow> (char8 mem \<times> vec) res" where
  "erase_times m v start 0 = Inr (m, v)"
| "erase_times m v start (Suc n) =
     rbind (vector_erase m v start) (\<lambda>(m, v). erase_times m v start n)"

text \<open>The characters of \<open>substitution\<close> are inserted from the last one to the first.\<close>

primrec insert_back :: "char8 copy_ctor \<Rightarrow> char8 mem \<Rightarrow> vec \<Rightarrow> nat \<Rightarrow> nat \<Rightarrow> nat \<Rightarrow> (char8 mem \<times> vec) res" where
  "insert_back cp m v start substitution 0 = Inr (m, v)"
| "insert_back cp m v start substitution (Suc n) =
     rbind (vector_insert cp m v start (substitution + n)) (\<lambda>(m, v).
     insert_back cp m v start substitution n)"

definition sstring_substitute :: "char8 copy_ctor \<Rightarrow> char8 mem \<Rightarrow> vec \<Rightarrow> nat \<Rightarrow> nat \<Rightarrow> nat
    \<Rightarrow> (int \<times> char8 mem \<times> vec) res" where
  "sstring_substitute cp m v offset target substitution =
     rbind (find_target m v target offset (vector_size v - offset)) (\<lambda>found.
     case found of None \<Rightarrow> Inr (-1, m, v)
     | Some start \<Rightarrow>
         rbind (c_strlen (next_free m) m target) (\<lambda>len.
         rbind (erase_times m v start len) (\<lambda>(m, v).
         rbind (c_strlen (next_free m) m substitution) (\<lambda>slen.
         rbind (insert_back cp m v start substitution slen) (\<lambda>(m, v).
         Inr (0, m, v))))))"

definition sstring_destroy :: "char8 mem \<Rightarrow> vec \<Rightarrow> char8 mem res" where
  "sstring_destroy m v = vector_destroy m v"

end
