(* ===== verification/SString_Correct.thy ===== *)
theory SString_Correct
  imports SString "HOL-Library.Sublist"
begin

text \<open>
  The operations of \<^verbatim>\<open>src/vector/sstring.c\<close> against lists of characters, on top of the
  refinement of the vector. \<open>cstr_at\<close> places a C string in the memory outside the vector.
\<close>

section \<open>C strings and characters\<close>

primrec cstr_at :: "(nat \<rightharpoonup> char8) \<Rightarrow> nat \<Rightarrow> char8 list \<Rightarrow> bool" where
  "cstr_at env p [] = (env p = Some 0)"
| "cstr_at env p (c # s) = (env p = Some c \<and> c \<noteq> 0 \<and> cstr_at env (p + 1) s)"

lemma cstr_at_outside: "cstr_at (outside m ps) p s \<Longrightarrow> cstr_at (cells m) p s"
  by (induction s arbitrary: p) (auto dest: outsideD)

lemma cstr_at_nth: "cstr_at env p s \<Longrightarrow> i < length s \<Longrightarrow> env (p + i) = Some (s ! i)"
proof (induction s arbitrary: p i)
  case (Cons c s)
  then show ?case using Cons.IH [of "p + 1" "i - 1"] by (cases i) auto
qed simp

lemma cstr_at_end: "cstr_at env p s \<Longrightarrow> env (p + length s) = Some 0"
  by (induction s arbitrary: p) fastforce+

lemma cstr_at_nonzero: "cstr_at env p s \<Longrightarrow> 0 \<notin> set s"
  by (induction s arbitrary: p) auto

lemma cstr_at_short:
  assumes "mem_ok m" and "cstr_at (cells m) p s"
  shows "length s < next_free m"
  using cstr_at_end [OF assms(2)] assms(1) unfolding mem_ok_def by fastforce

lemma c_strlen_eq:
  "\<lbrakk>mem_ok m; cstr_at (cells m) p s; length s < fuel\<rbrakk> \<Longrightarrow> c_strlen fuel m p = Inr (length s)"
proof (induction s arbitrary: p fuel)
  case Nil
  then show ?case by (cases fuel) auto
next
  case (Cons c s)
  then show ?case by (cases fuel) auto
qed

lemma c_strlen_cstr: "\<lbrakk>mem_ok m; cstr_at (cells m) p s\<rbrakk> \<Longrightarrow> c_strlen (next_free m) m p = Inr (length s)"
  by (intro c_strlen_eq cstr_at_short)

lemma get_char_eq:
  assumes "vrep m v ps xs"
  shows "get_char m v i = (if i < length xs then Inr (xs ! i) else Inl Null_deref)"
proof -
  have "mem_ok m" using assms by (simp add: vrep_def)
  then show ?thesis
    using vrep_ptr [OF assms, of i] vrep_length [OF assms]
    by (simp add: get_char_def vector_get_def load_def [of m 0])
qed

lemma read_chars_eq:
  "\<lbrakk>vrep m v ps xs; lo + n \<le> length xs\<rbrakk> \<Longrightarrow> read_chars m v lo n = Inr (take n (drop lo xs))"
  by (induction n) (auto simp: get_char_eq take_Suc_conv_app_nth)

lemma c_string_id: "0 \<notin> set cs \<Longrightarrow> c_string cs = cs"
  by (auto simp: c_string_def takeWhile_eq_all_conv)

section \<open>Conversions\<close>

lemma push_chars_vrep:
  assumes "vrep m v ps xs" and "copies cp" and "cstr_at (outside m ps) p s"
    and "length xs + length s \<le> 2 ^ 60" and "length s < fuel"
  shows "\<exists>m' v' ps'. push_chars fuel cp m v p = Inr (m', v') \<and> vrep m' v' ps' (xs @ s)
           \<and> outside m' ps' = outside m ps"
  using assms
proof (induction s arbitrary: m v ps xs p fuel)
  case Nil
  then show ?case using outsideD [of m ps p 0] by (cases fuel) (auto simp: vrep_def)
next
  case (Cons c s)
  then obtain f where f: "fuel = Suc f" by (cases fuel) auto
  have e: "outside m ps p = Some c" "c \<noteq> 0" "cstr_at (outside m ps) (p + 1) s" using Cons.prems(3) by auto
  have "mem_ok m" using Cons.prems(1) by (simp add: vrep_def)
  with e outsideD [OF e(1)] have l: "load m p = Inr c" by simp
  have "room (length xs + 1)" using Cons.prems(4) by (simp add: room_def)
  from push_simulates [OF Cons.prems(1,2) e(1) this] obtain m1 v1 ps1 where
    r: "vector_push_back cp m v p = Inr (m1, v1)" "vrep m1 v1 ps1 (xs @ [c])"
    "outside m1 ps1 = outside m ps" .
  from Cons.IH [OF r(2) Cons.prems(2), of "p + 1" f] r(3) e(3) Cons.prems(4,5) f
  show ?case using l e(2) r(1) by (simp add: f)
qed

lemma cstr_to_sstring_vrep:
  assumes "mem_ok m" and "copies cp" and "cstr_at (cells m) p s" and "length s \<le> 2 ^ 60"
  obtains m' v ps where "cstr_to_sstring cp m p = Inr (m', v)" "vrep m' v ps s" "outside m' ps = cells m"
proof -
  have "outside m [] = cells m" by (intro ext) (simp add: outside_apply)
  with push_chars_vrep [OF vrep_vector_create [OF assms(1)] assms(2), of p s "next_free m"] that
    assms(3,4) cstr_at_short [OF assms(1,3)]
  show thesis by (fastforce simp: cstr_to_sstring_def)
qed

lemma sstring_to_cstr_eq:
  "\<lbrakk>vrep m v ps xs; 0 \<notin> set xs\<rbrakk> \<Longrightarrow> sstring_to_cstr m v = Inr xs"
  using vrep_length [of m v ps xs]
  by (simp add: sstring_to_cstr_def read_chars_eq vector_size_def c_string_id)

lemma sstring_slice_eq:
  assumes "vrep m v ps xs" and "0 \<notin> set xs" and "a \<le> b" and "b \<le> length xs" and "length xs < 2 ^ 31"
  shows "sstring_slice m v (int a) (int b) = Inr (take (b - a) (drop a xs))"
proof -
  have "int b mod 18446744073709551616 = int b" using assms(4,5) by simp
  moreover have "0 \<notin> set (take (b - a) (drop a xs))"
    using assms(2) by (meson in_set_dropD in_set_takeD)
  moreover have "nat (int b - int a) = b - a" by simp
  ultimately show ?thesis
    using assms vrep_length [OF assms(1)]
    by (simp add: sstring_slice_def read_chars_eq vector_size_def c_string_id)
qed

section \<open>Appending\<close>

lemma vrep_other:
  assumes "vrep m w qs ys" and "set ps \<inter> set qs = {}" and "outside m' ps' = outside m ps" and "mem_ok m'"
  shows "vrep m' w qs ys" "set ps' \<inter> set qs = {}"
proof -
  have "cells m' q = cells m q \<and> q \<notin> set ps'" if q: "q \<in> set qs" for q
  proof -
    obtain y where "cells m q = Some y" using assms(1) q by (auto simp: vrep_def dest!: map_eq_conv [THEN iffD1])
      (metis in_set_conv_nth length_map nth_map)
    then have "outside m ps q = Some y" using q assms(2) by (auto simp: outside_apply)
    then have "outside m' ps' q = Some y" using assms(3) by simp
    from outsideD [OF this] \<open>cells m q = Some y\<close> show ?thesis by simp
  qed
  then show "vrep m' w qs ys" "set ps' \<inter> set qs = {}"
    using assms(1,4) by (auto simp: vrep_def cong: map_cong)
qed

lemma append_loop_vrep:
  assumes "vrep m (V a) ps xs" and "vrep m (V b) qs ys" and "a \<noteq> b" and "set ps \<inter> set qs = {}"
    and "copies cp" and "length xs + (length ys - i) \<le> 2 ^ 60" and "i \<le> length ys"
    and "length ys - i < fuel"
  shows "\<exists>m' V' ps'. append_loop fuel cp m V a b i = Inr (m', V')
     \<and> vrep m' (V' a) ps' (xs @ drop i ys) \<and> vrep m' (V' b) qs ys \<and> set ps' \<inter> set qs = {}
     \<and> outside m' ps' = outside m ps \<and> (\<forall>c. c \<noteq> a \<longrightarrow> V' c = V c)"
  using assms
proof (induction fuel arbitrary: m V ps xs i)
  case 0
  then show ?case by simp
next
  case (Suc fuel)
  have sz: "vector_size (V b) = length ys" using vrep_length [OF Suc.prems(2)] by (simp add: vector_size_def)
  show ?case
  proof (cases "i < length ys")
    case False
    then show ?thesis using Suc.prems sz by auto
  next
    case True
    note q = vrep_ptr [OF Suc.prems(2) True]
    have "qs ! i \<in> set qs" using True q(1) by simp
    then have "outside m ps (qs ! i) = Some (ys ! i)" using q(2) Suc.prems(4) by (auto simp: outside_apply)
    moreover have "room (length xs + 1)" using Suc.prems(6) True by (simp add: room_def)
    ultimately obtain m1 v1 ps1 where r: "vector_push_back cp m (V a) (qs ! i) = Inr (m1, v1)"
      "vrep m1 v1 ps1 (xs @ [ys ! i])" "outside m1 ps1 = outside m ps"
      using push_simulates [OF Suc.prems(1,5)] by metis
    have g: "vector_get (V b) i = Inr (qs ! i)"
      using q(4) True vrep_length [OF Suc.prems(2)] by (simp add: vector_get_def)
    have m1: "mem_ok m1" using r(2) by (simp add: vrep_def)
    note o = vrep_other [OF Suc.prems(2,4) r(3) m1]
    have d: "drop i ys = ys ! i # drop (Suc i) ys" using True by (simp add: Cons_nth_drop_Suc)
    have "\<exists>m' V' ps'. append_loop fuel cp m1 (V(a := v1)) a b (i + 1) = Inr (m', V')
       \<and> vrep m' (V' a) ps' ((xs @ [ys ! i]) @ drop (i + 1) ys) \<and> vrep m' (V' b) qs ys \<and> set ps' \<inter> set qs = {}
       \<and> outside m' ps' = outside m1 ps1 \<and> (\<forall>c. c \<noteq> a \<longrightarrow> V' c = (V(a := v1)) c)"
      using Suc.prems(3,5,6,8) True o r(2) by (intro Suc.IH [where xs = "xs @ [ys ! i]"]) auto
    then show ?thesis using True sz g r(1,3) d by simp
  qed
qed

lemma append_loop_self:
  assumes "vrep m (V a) ps xs" and "copies cp" and "i < length xs" and "length xs + fuel \<le> 2 ^ 60"
  shows "append_loop fuel cp m V a a i = Inl Out_of_fuel"
  using assms
proof (induction fuel arbitrary: m V ps xs i)
  case 0
  then show ?case by simp
next
  case (Suc fuel)
  note q = vrep_ptr [OF Suc.prems(1,3)]
  have l: "v_size (V a) = length xs" using vrep_length [OF Suc.prems(1)] by simp
  have "length xs < 2 ^ 60" using Suc.prems(4) by simp
  from push_back_vrep [OF Suc.prems(1,2) q(2) this] obtain v' where
    r: "vector_push_back cp m (V a) (ps ! i) = Inr (snd (new_obj m (xs ! i)), v')"
    "vrep (snd (new_obj m (xs ! i))) v' (ps @ [next_free m]) (xs @ [xs ! i])" .
  have "append_loop fuel cp (snd (new_obj m (xs ! i))) (V(a := v')) a a (i + 1) = Inl Out_of_fuel"
    using r(2) Suc.prems(2-4) by (intro Suc.IH [where xs = "xs @ [xs ! i]"]) auto
  then show ?case using q(4) l r(1) Suc.prems(3) by (simp add: vector_size_def vector_get_def)
qed

section \<open>Splitting\<close>

fun pieces :: "'a \<Rightarrow> 'a list \<Rightarrow> 'a list list" where
  "pieces d [] = [[]]"
| "pieces d (x # xs) =
     (if x = d then [] # pieces d xs else (x # hd (pieces d xs)) # tl (pieces d xs))"

lemma pieces_not_Nil [simp]: "pieces d xs \<noteq> []"
  by (cases xs) auto

lemma pieces_snoc:
  "pieces d (xs @ [x]) = (if x = d then pieces d xs @ [[]]
     else butlast (pieces d xs) @ [last (pieces d xs) @ [x]])"
proof (induction xs)
  case (Cons y ys)
  then show ?case by (cases "pieces d ys") auto
qed simp

lemma vrep_new:
  assumes v: "vrep m v ps xs"
  shows "vrep (snd (new_obj m x)) v ps xs"
    "outside (snd (new_obj m x)) ps = (outside m ps)(next_free m \<mapsto> x)" "outside m ps (next_free m) = None"
proof -
  have m: "mem_ok m" "next_free m \<notin> set ps" using v fresh_notin [OF v] by (auto simp: vrep_def)
  have "map ((cells m)(next_free m \<mapsto> x)) ps = map (cells m) ps" by (rule map_fun_upd [OF m(2)])
  then have "map ((cells m)(next_free m \<mapsto> x)) ps = map Some xs" using v by (simp only: vrep_def)
  then show "vrep (snd (new_obj m x)) v ps xs"
    using v m(1) by (simp add: vrep_def new_obj_def del: map_eq_conv)
  show "outside (snd (new_obj m x)) ps = (outside m ps)(next_free m \<mapsto> x)"
    using m(2) by (intro ext) (auto simp: outside_apply new_obj_def)
  show "outside m ps (next_free m) = None" using fresh_None [OF m(1)] by (simp add: outside_apply)
qed

text \<open>Each piece is copied into the vector; the buffer of the piece itself stays behind.\<close>

lemma push_string_vrep:
  assumes v: "vrep sm sv ps ss" and cp: "copies scp" and n: "room (length ss + 1)"
  obtains sm' sv' ps' q where "push_string scp (sm, sv) str = Inr (sm', sv')" "vrep sm' sv' ps' (ss @ [str])"
    "outside sm' ps' = (outside sm ps)(q \<mapsto> str)" "outside sm ps q = None"
proof -
  let ?sm = "snd (new_obj sm str)"
  note w = vrep_new(1,2) [OF v, of str] vrep_new(3) [OF v]
  have "outside ?sm ps (next_free sm) = Some str" by (simp add: w(2))
  from push_simulates [OF w(1) cp this n] obtain sm' sv' ps' where
    "vector_push_back scp ?sm sv (next_free sm) = Inr (sm', sv')" "vrep sm' sv' ps' (ss @ [str])"
    "outside sm' ps' = outside ?sm ps" .
  moreover from this(1) have "push_string scp (sm, sv) str = Inr (sm', sv')"
    by (simp add: push_string_def new_obj_def)
  ultimately show thesis using w(2,3) by (intro that) auto
qed

lemma finite_outside: "vrep m v ps xs \<Longrightarrow> finite (dom (outside m ps))"
proof -
  assume "vrep m v ps xs"
  then have "dom (outside m ps) \<subseteq> {..< next_free m}"
    by (auto simp: vrep_def mem_ok_def outside_apply split: if_splits)
  then show ?thesis by (rule finite_subset) simp
qed

lemma split_loop_vrep:
  assumes v: "vrep m v ps xs" and nz: "0 \<notin> set xs" and len: "length xs < 2 ^ 31"
    and sm: "mem_ok sm" and scp: "copies scp" and i: "i \<le> length xs"
  shows "\<exists>sm' sv' ps' start. split_loop scp sm m v d i = Inr ((sm', sv'), start)
     \<and> vrep sm' sv' ps' (butlast (pieces d (take i xs))) \<and> start \<le> i
     \<and> drop start (take i xs) = last (pieces d (take i xs))
     \<and> length (butlast (pieces d (take i xs))) \<le> i
     \<and> card (dom (outside sm' ps')) = card (dom (cells sm)) + length (butlast (pieces d (take i xs)))"
  using i
proof (induction i)
  case 0
  have "outside sm [] = cells sm" by (intro ext) (simp add: outside_apply)
  then show ?case using vrep_vector_create [OF sm] by force
next
  case (Suc i)
  then have il: "i < length xs" by simp
  let ?p = "pieces d (take i xs)"
  from Suc obtain sm1 sv1 ps1 start where
    r: "split_loop scp sm m v d i = Inr ((sm1, sv1), start)" "vrep sm1 sv1 ps1 (butlast ?p)" "start \<le> i"
      "drop start (take i xs) = last ?p" "length (butlast ?p) \<le> i"
      "card (dom (outside sm1 ps1)) = card (dom (cells sm)) + length (butlast ?p)" by auto
  have g: "get_char m v i = Inr (xs ! i)" using il get_char_eq [OF v] by simp
  have t: "take (Suc i) xs = take i xs @ [xs ! i]" using il by (rule take_Suc_conv_app_nth)
  show ?case
  proof (cases "xs ! i = d")
    case True
    have c: "int32 (int start) = int start" "int32 (int i) = int i"
      using r(3) il len by (simp_all add: int32_id)
    have "sstring_slice m v (int start) (int i) = Inr (take (i - start) (drop start xs))"
      by (rule sstring_slice_eq [OF v nz]) (use r(3) il len in auto)
    then have sl: "sstring_slice m v (int start) (int i) = Inr (last ?p)"
      using r(4) by (simp add: drop_take)
    have "room (length (butlast ?p) + 1)" using r(5) il len by (simp add: room_def)
    from push_string_vrep [OF r(2) scp this, of "last ?p"] obtain sm2 sv2 ps2 q where
      p: "push_string scp (sm1, sv1) (last ?p) = Inr (sm2, sv2)" "vrep sm2 sv2 ps2 (butlast ?p @ [last ?p])"
        "outside sm2 ps2 = (outside sm1 ps1)(q \<mapsto> last ?p)" "outside sm1 ps1 q = None" .
    have "card (dom (outside sm2 ps2)) = Suc (card (dom (outside sm1 ps1)))"
      using finite_outside [OF r(2)] p(3,4) by (simp add: domIff)
    then show ?thesis
      using True r g c sl p(1,2) by (auto simp: t pieces_snoc)
  next
    case False
    have "drop start (take i xs @ [xs ! i]) = last ?p @ [xs ! i]" using r(3,4) il by simp
    then show ?thesis using False r g by (auto simp: t pieces_snoc)
  qed
qed

section \<open>Substituting\<close>

text \<open>The comparison of the text at a position with the target, and the search for the target.\<close>

fun cmp :: "'a list \<Rightarrow> 'a list \<Rightarrow> bool res" where
  "cmp ys [] = Inr True"
| "cmp [] (t # ts) = Inl Null_deref"
| "cmp (y # ys) (t # ts) = (if y \<noteq> t then Inr False else cmp ys ts)"

fun search :: "nat \<Rightarrow> 'a list \<Rightarrow> 'a list \<Rightarrow> nat option res" where
  "search i t [] = Inr None"
| "search i t (x # xs) = rbind (cmp (x # xs) t) (\<lambda>found. if found then Inr (Some i) else search (i + 1) t xs)"

lemma cmp_True: "cmp ys t = Inr True \<longleftrightarrow> prefix t ys"
  by (induction ys t rule: cmp.induct) auto

lemma cmp_fault: "cmp ys t = (if strict_prefix ys t then Inl Null_deref else Inr (prefix t ys))"
  by (induction ys t rule: cmp.induct) auto

lemma search_Some:
  "\<lbrakk>prefix t (drop k xs); \<forall>j < k. \<not> prefix t (drop j xs); k < length xs\<rbrakk> \<Longrightarrow> search i t xs = Inr (Some (i + k))"
proof (induction k arbitrary: xs i)
  case 0
  then show ?case by (cases xs) (auto simp: cmp_True [symmetric])
next
  case (Suc k)
  then obtain x ys where xs: "xs = x # ys" by (cases xs) auto
  have "length t \<le> length (drop k ys)" using prefix_length_le [OF Suc.prems(1)] xs by simp
  then have "\<not> strict_prefix xs t" using xs by (auto dest!: prefix_length_less)
  moreover have "\<not> prefix t xs" using Suc.prems(2) by fastforce
  moreover have "search (i + 1) t ys = Inr (Some (i + 1 + k))"
    using Suc.prems xs by (intro Suc.IH) fastforce+
  ultimately show ?case by (simp add: xs cmp_fault)
qed

lemma search_None:
  "\<lbrakk>\<forall>j < length xs. \<not> prefix t (drop j xs) \<and> \<not> strict_prefix (drop j xs) t\<rbrakk> \<Longrightarrow> search i t xs = Inr None"
proof (induction xs arbitrary: i)
  case (Cons x xs)
  have "\<not> prefix t (x # xs)" "\<not> strict_prefix (x # xs) t" using Cons.prems by fastforce+
  moreover have "search (i + 1) t xs = Inr None" using Cons.prems by (intro Cons.IH) fastforce
  ultimately show ?case by (simp add: cmp_fault)
qed simp

lemma search_fault:
  "\<lbrakk>strict_prefix (drop k xs) t; k < length xs; \<forall>j < k. \<not> prefix t (drop j xs)\<rbrakk> \<Longrightarrow> search i t xs = Inl Null_deref"
proof (induction k arbitrary: xs i)
  case 0
  then show ?case by (cases xs) (auto simp: cmp_fault)
next
  case (Suc k)
  then obtain x ys where xs: "xs = x # ys" by (cases xs) auto
  have "\<not> prefix t xs" using Suc.prems(3) by fastforce
  moreover have "search (i + 1) t ys = Inl Null_deref"
    using Suc.prems xs by (intro Suc.IH) fastforce+
  ultimately show ?case by (simp add: xs cmp_fault)
qed

lemma matches_at_cmp:
  assumes v: "vrep m v ps xs" and t: "cstr_at (cells m) tp t"
  shows "j + n = length t \<Longrightarrow> matches_at m v i tp j n = cmp (drop (i + j) xs) (drop j t)"
proof (induction n arbitrary: j)
  case 0
  then show ?case by simp
next
  case (Suc n)
  then have j: "j < length t" by simp
  have dt: "drop j t = t ! j # drop (j + 1) t" using j by (simp add: Cons_nth_drop_Suc)
  have m: "mem_ok m" using v by (simp add: vrep_def)
  have l: "load m (tp + j) = Inr (t ! j)" using load_Some [OF m] cstr_at_nth [OF t j] by blast
  show ?case
  proof (cases "i + j < length xs")
    case True
    then have "drop (i + j) xs = xs ! (i + j) # drop (i + (j + 1)) xs" by (simp add: Cons_nth_drop_Suc)
    then show ?thesis using Suc.IH [of "j + 1"] Suc.prems dt l True by (simp add: get_char_eq [OF v])
  next
    case False
    then show ?thesis using dt by (simp add: get_char_eq [OF v])
  qed
qed

lemma find_target_search:
  assumes v: "vrep m v ps xs" and t: "cstr_at (cells m) tp t" "t \<noteq> []"
  shows "i + n = length xs \<Longrightarrow> find_target m v tp i n = search i t (drop i xs)"
proof (induction n arbitrary: i)
  case 0
  then show ?case by simp
next
  case (Suc n)
  then have i: "i < length xs" by simp
  have m: "mem_ok m" using v by (simp add: vrep_def)
  obtain c ts where ts: "t = c # ts" using t(2) by (cases t) auto
  have d: "drop i xs = xs ! i # drop (i + 1) xs" using i by (simp add: Cons_nth_drop_Suc)
  have "load m tp = Inr c" using load_Some [OF m] t(1) ts by simp
  moreover have "matches_at m v i tp 0 (length t) = cmp (drop i xs) t"
    using matches_at_cmp [OF v t(1), of 0 "length t" i] by simp
  ultimately show ?case
    using Suc.IH [of "i + 1"] Suc.prems i d c_strlen_cstr [OF m t(1)]
    by (cases "xs ! i = c") (simp_all add: get_char_eq [OF v] ts cong: if_cong)
qed

lemma erase_times_vrep:
  assumes "vrep m v ps xs" and "start + n \<le> length xs"
  shows "\<exists>m' v' ps'. erase_times m v start n = Inr (m', v')
     \<and> vrep m' v' ps' (take start xs @ drop (start + n) xs) \<and> outside m' ps' = outside m ps"
  using assms
proof (induction n arbitrary: m v ps xs)
  case 0
  then show ?case by auto
next
  case (Suc n)
  have "start < length xs" using Suc.prems(2) by simp
  from erase_simulates [OF Suc.prems(1) this] obtain m1 v1 ps1 where
    r: "vector_erase m v start = Inr (m1, v1)" "vrep m1 v1 ps1 (take start xs @ drop (Suc start) xs)"
      "outside m1 ps1 = outside m ps" .
  from Suc.IH [OF r(2)] Suc.prems(2) r(1,3) show ?case by (simp add: add.commute)
qed

lemma insert_back_vrep:
  assumes "vrep m v ps xs" and "copies cp" and "start \<le> length xs"
    and "cstr_at (outside m ps) sp s" and "n \<le> length s" and "length xs + n \<le> 2 ^ 60"
  shows "\<exists>m' v' ps'. insert_back cp m v start sp n = Inr (m', v')
     \<and> vrep m' v' ps' (take start xs @ take n s @ drop start xs) \<and> outside m' ps' = outside m ps"
  using assms
proof (induction n arbitrary: m v ps xs)
  case 0
  then show ?case by auto
next
  case (Suc n)
  have e: "outside m ps (sp + n) = Some (s ! n)" using Suc.prems(4,5) by (intro cstr_at_nth) simp_all
  have "room (length xs + 1)" using Suc.prems(6) by (simp add: room_def)
  from insert_simulates [OF Suc.prems(1,2) e this, of start] obtain m1 v1 ps1 where
    r: "vector_insert cp m v start (sp + n) = Inr (m1, v1)"
      "vrep m1 v1 ps1 (take start xs @ s ! n # drop start xs)" "outside m1 ps1 = outside m ps" .
  have "take (Suc n) s = take n s @ [s ! n]" using Suc.prems(5) by (simp add: take_Suc_conv_app_nth)
  with Suc.IH [OF r(2) Suc.prems(2)] Suc.prems(3-6) r(1,3) show ?case by simp
qed

section \<open>Properties\<close>

text \<open>A memory with the C strings "aab" at 1 and "x" at 5, and the character constructor.\<close>

definition copy_char :: "char8 copy_ctor" where
  "copy_char m p = rbind (load m p) (\<lambda>x. Inr (new_obj m x))"

definition smem :: "char8 mem" where
  "smem = \<lparr>cells = [1 \<mapsto> 97, 2 \<mapsto> 97, 3 \<mapsto> 98, 4 \<mapsto> 0, 5 \<mapsto> 120, 6 \<mapsto> 0], next_free = 7\<rparr>"

lemma smem_ok: "copies copy_char" "mem_ok smem" "cstr_at (cells smem) 1 [97, 97, 98]"
    "cstr_at (cells smem) 5 [120]"
  by (auto simp: copies_def copy_char_def mem_ok_def smem_def)

text \<open>Converting a C string to an \<open>sstring\<close> and back gives the same C string.\<close>

theorem sstring_roundtrip:
  assumes "mem_ok m" and "copies cp" and "cstr_at (cells m) p s" and "length s \<le> 2 ^ 60"
  shows "rbind (cstr_to_sstring cp m p) (\<lambda>(m, v). sstring_to_cstr m v) = Inr s"
proof -
  from cstr_to_sstring_vrep [OF assms] obtain m' v ps where
    "cstr_to_sstring cp m p = Inr (m', v)" "vrep m' v ps s" .
  with sstring_to_cstr_eq [OF _ cstr_at_nonzero [OF assms(3)]] show ?thesis by simp
qed

lemma sstring_roundtrip_witness:
  "rbind (cstr_to_sstring copy_char smem 1) (\<lambda>(m, v). sstring_to_cstr m v) = Inr [97, 97, 98]"
  by (rule sstring_roundtrip [OF smem_ok(2,1,3)]) simp

lemma sstring_append_parts:
  assumes "vrep m (V a) ps xs" and "vrep m (V b) qs ys" and "set ps \<inter> set qs = {}" and "copies cp"
    and "length xs + length ys < 2 ^ 31"
  shows "a \<noteq> b \<Longrightarrow> length ys < fuel \<Longrightarrow> \<exists>m' V' ps'.
      sstring_append fuel cp m V a b = Inr (int (length xs + length ys), m', V')
      \<and> vrep m' (V' a) ps' (xs @ ys) \<and> vrep m' (V' b) qs ys"
    and "xs \<noteq> [] \<Longrightarrow> length xs + fuel \<le> 2 ^ 60 \<Longrightarrow> sstring_append fuel cp m V a a = Inl Out_of_fuel"
proof -
  have l: "v_size (V a) = length xs" "v_size (V b) = length ys"
    using vrep_length [OF assms(1)] vrep_length [OF assms(2)] by auto
  have r: "\<exists>v. vector_reserve (V a) (w64 (v_size (V a) + n)) = Inr v \<and> vrep m v ps xs"
    if "n < 2 ^ 31" for n
  proof -
    have "w64 (length xs + n) = length xs + n" "length xs + n \<le> 2 ^ 60"
      using assms(5) that by (simp_all add: w64_id)
    then show ?thesis using vector_reserve_vrep [OF assms(1)] l by metis
  qed
  show "\<exists>m' V' ps'. sstring_append fuel cp m V a b = Inr (int (length xs + length ys), m', V')
      \<and> vrep m' (V' a) ps' (xs @ ys) \<and> vrep m' (V' b) qs ys" if ab: "a \<noteq> b" "length ys < fuel"
  proof -
    obtain v where v: "vector_reserve (V a) (w64 (v_size (V a) + length ys)) = Inr v" "vrep m v ps xs"
      using r [of "length ys"] assms(5) by auto
    let ?V = "V(a := v)"
    have "vrep m (?V a) ps xs" "vrep m (?V b) qs ys" using v(2) assms(2) ab(1) by simp_all
    from append_loop_vrep [OF this ab(1) assms(3,4), of 0 fuel] assms(5) ab(2) obtain m' V' ps' where
      a: "append_loop fuel cp m ?V a b 0 = Inr (m', V')" "vrep m' (V' a) ps' (xs @ ys)" "vrep m' (V' b) qs ys"
      by (auto simp del: fun_upd_apply)
    have "v_size (V' a) = length xs + length ys" using vrep_length [OF a(2)] by simp
    moreover have "int32 (int (length xs + length ys)) = int (length xs + length ys)"
      using assms(5) by (intro int32_id) simp_all
    ultimately show ?thesis using a v(1) l by (auto simp: sstring_append_def vector_size_def)
  qed
  show "sstring_append fuel cp m V a a = Inl Out_of_fuel" if n: "xs \<noteq> []" "length xs + fuel \<le> 2 ^ 60"
  proof -
    obtain v where v: "vector_reserve (V a) (w64 (v_size (V a) + length xs)) = Inr v" "vrep m v ps xs"
      using r [of "length xs"] assms(5) by auto
    have "append_loop fuel cp m (V(a := v)) a a 0 = Inl Out_of_fuel"
      using v(2) n by (intro append_loop_self [OF _ assms(4)]) auto
    then show ?thesis using v(1) l by (simp add: sstring_append_def vector_size_def)
  qed
qed

definition two_strings :: "nat \<Rightarrow> vec" where
  "two_strings p = (if p = 1 then \<lparr>v_array = Some 1 # replicate 7 None, v_size = 1, v_capacity = 8\<rparr>
     else vector_create)"

lemma two_strings_vrep: "vrep smem (two_strings 1) [1] [97]" "vrep smem (two_strings 2) [] []"
  by (simp_all add: two_strings_def vrep_vector_create smem_ok vrep_def slots_ok_def)
    (simp add: smem_def vector_create_def new_slots_def INITIAL_CAPACITY_def w64_def)+

text \<open>\<open>sstring_append\<close> of two different strings returns the length of the result, leaves
  \<open>addition\<close> alone and appends its characters; appending a non-empty string to itself never ends:
  no amount of fuel for which the string still fits is enough.\<close>

theorem sstring_append_spec:
  assumes "vrep m (V a) ps xs" and "vrep m (V b) qs ys" and "set ps \<inter> set qs = {}" and "copies cp"
    and "length xs + length ys < 2 ^ 31"
  shows "(a \<noteq> b \<and> length ys < fuel \<longrightarrow> (\<exists>m' V' ps'.
      sstring_append fuel cp m V a b = Inr (int (length xs + length ys), m', V')
      \<and> vrep m' (V' a) ps' (xs @ ys) \<and> vrep m' (V' b) qs ys))
    \<and> (xs \<noteq> [] \<and> length xs + fuel \<le> 2 ^ 60 \<longrightarrow> sstring_append fuel cp m V a a = Inl Out_of_fuel)"
  using sstring_append_parts [OF assms] by blast

lemma sstring_append_spec_witness:
  "(\<exists>m' V' ps'. sstring_append 5 copy_char smem two_strings 1 2
        = Inr (int (length [97 :: char8] + length ([] :: char8 list)), m', V')
      \<and> vrep m' (V' 1) ps' ([97] @ []) \<and> vrep m' (V' 2) [] [])
   \<and> sstring_append 5 copy_char smem two_strings 1 1 = Inl Out_of_fuel"
  using sstring_append_spec [OF two_strings_vrep _ smem_ok(1), of 5] by simp

text \<open>C7: \<open>sstring_split\<close> gives the pieces between the delimiters, one more than there are
  delimiters; for every piece one more object is left in memory than the vector owns: the buffer
  of the piece is never freed.\<close>

theorem sstring_split_spec:
  assumes "vrep m v ps xs" and "0 \<notin> set xs" and "length xs < 2 ^ 31" and "mem_ok sm" and "copies scp"
  shows "\<exists>sm' sv' ps'. sstring_split scp sm m v d = Inr (sm', sv') \<and> vrep sm' sv' ps' (pieces d xs)
     \<and> card (dom (outside sm' ps')) = card (dom (cells sm)) + length (pieces d xs)"
proof -
  have l: "vector_size v = length xs" using vrep_length [OF assms(1)] by (simp add: vector_size_def)
  let ?p = "pieces d xs"
  from split_loop_vrep [OF assms le_refl, of d] obtain sm1 sv1 ps1 start where
    r: "split_loop scp sm m v d (length xs) = Inr ((sm1, sv1), start)" "vrep sm1 sv1 ps1 (butlast ?p)"
      "start \<le> length xs" "drop start xs = last ?p" "length (butlast ?p) \<le> length xs"
      "card (dom (outside sm1 ps1)) = card (dom (cells sm)) + length (butlast ?p)" by auto
  have c: "int32 (int start) = int start" "int32 (int (length xs)) = int (length xs)"
    using r(3) assms(3) by (simp_all add: int32_id)
  have sl: "sstring_slice m v (int start) (int (length xs)) = Inr (last ?p)"
    using sstring_slice_eq [OF assms(1,2) r(3) le_refl assms(3)] by (simp flip: r(4))
  have "room (length (butlast ?p) + 1)" using r(5) assms(3) by (simp add: room_def)
  from push_string_vrep [OF r(2) assms(5) this, of "last ?p"] obtain sm2 sv2 ps2 q where
    p: "push_string scp (sm1, sv1) (last ?p) = Inr (sm2, sv2)" "vrep sm2 sv2 ps2 (butlast ?p @ [last ?p])"
      "outside sm2 ps2 = (outside sm1 ps1)(q \<mapsto> last ?p)" "outside sm1 ps1 q = None" .
  have "card (dom (outside sm2 ps2)) = Suc (card (dom (outside sm1 ps1)))"
    using finite_outside [OF r(2)] p(3,4) by (simp add: domIff)
  then have "card (dom (outside sm2 ps2)) = card (dom (cells sm)) + length ?p" using r(6) by simp
  moreover have "sstring_split scp sm m v d = Inr (sm2, sv2)"
    using r(1) p(1) c sl by (simp add: sstring_split_def l)
  ultimately show ?thesis using p(2) by auto
qed

lemma sstring_split_spec_witness:
  "\<exists>sm' sv' ps'. sstring_split (\<lambda>m p. rbind (load m p) (\<lambda>x. Inr (new_obj m x))) \<lparr>cells = Map.empty, next_free = 1\<rparr>
      smem vector_create 32 = Inr (sm', sv') \<and> vrep sm' sv' ps' (pieces 32 [])
     \<and> card (dom (outside sm' ps')) = card (dom (cells (\<lparr>cells = Map.empty, next_free = 1\<rparr> :: char8 list mem))) + length (pieces 32 ([] :: char8 list))"
  by (rule sstring_split_spec [where ps = "[]"])
    (simp_all add: vrep_vector_create [OF smem_ok(2)], simp_all add: mem_ok_def copies_def)

lemma sstring_substitute_parts:
  assumes "vrep m v ps xs" and "copies cp" and "cstr_at (outside m ps) tp t" and "t \<noteq> []"
    and "cstr_at (outside m ps) sp s" and "length xs + length s \<le> 2 ^ 60" and "offset \<le> length xs"
  shows "prefix t (drop k xs) \<Longrightarrow> offset \<le> k \<Longrightarrow> \<forall>j. offset \<le> j \<and> j < k \<longrightarrow> \<not> prefix t (drop j xs)
      \<Longrightarrow> \<exists>m' v' ps'. sstring_substitute cp m v offset tp sp = Inr (0, m', v')
        \<and> vrep m' v' ps' (take k xs @ s @ drop (k + length t) xs) \<and> outside m' ps' = outside m ps"
    and "\<forall>j. offset \<le> j \<and> j < length xs \<longrightarrow> \<not> prefix t (drop j xs) \<and> \<not> strict_prefix (drop j xs) t
      \<Longrightarrow> sstring_substitute cp m v offset tp sp = Inr (-1, m, v)"
    and "strict_prefix (drop k xs) t \<Longrightarrow> offset \<le> k \<Longrightarrow> k < length xs \<Longrightarrow> \<forall>j < length xs. \<not> prefix t (drop j xs)
      \<Longrightarrow> sstring_substitute cp m v offset tp sp = Inl Null_deref"
proof -
  have l: "vector_size v = length xs" using vrep_length [OF assms(1)] by (simp add: vector_size_def)
  have m: "mem_ok m" using assms(1) by (simp add: vrep_def)
  note t = cstr_at_outside [OF assms(3)]
  have f: "find_target m v tp offset (length xs - offset) = search offset t (drop offset xs)"
    using find_target_search [OF assms(1) t assms(4)] assms(7) by simp
  show "\<exists>m' v' ps'. sstring_substitute cp m v offset tp sp = Inr (0, m', v')
        \<and> vrep m' v' ps' (take k xs @ s @ drop (k + length t) xs) \<and> outside m' ps' = outside m ps"
    if k: "prefix t (drop k xs)" "offset \<le> k" "\<forall>j. offset \<le> j \<and> j < k \<longrightarrow> \<not> prefix t (drop j xs)"
  proof -
    have kl: "k + length t \<le> length xs" "k < length xs"
      using prefix_length_le [OF k(1)] assms(4) by (cases t; auto)+
    have "search offset t (drop offset xs) = Inr (Some (offset + (k - offset)))"
      using k kl by (intro search_Some) auto
    then have fs: "search offset t (drop offset xs) = Inr (Some k)" using k(2) by simp
    from erase_times_vrep [OF assms(1) kl(1)] obtain m1 v1 ps1 where
      e: "erase_times m v k (length t) = Inr (m1, v1)" "vrep m1 v1 ps1 (take k xs @ drop (k + length t) xs)"
        "outside m1 ps1 = outside m ps" by auto
    have m1: "mem_ok m1" using e(2) by (simp add: vrep_def)
    have s: "cstr_at (outside m1 ps1) sp s" using assms(5) e(3) by simp
    have len: "k \<le> length (take k xs @ drop (k + length t) xs)"
        "length (take k xs @ drop (k + length t) xs) + length s \<le> 2 ^ 60"
      using kl assms(6) by auto
    from insert_back_vrep [OF e(2) assms(2) len(1) s le_refl len(2)] kl obtain m2 v2 ps2 where
      "insert_back cp m1 v1 k sp (length s) = Inr (m2, v2)"
        "vrep m2 v2 ps2 (take k xs @ s @ drop (k + length t) xs)" "outside m2 ps2 = outside m1 ps1"
      by (auto simp: min_def)
    then show ?thesis
      using e f fs l c_strlen_cstr [OF m t] c_strlen_cstr [OF m1 cstr_at_outside [OF s]]
      by (auto simp: sstring_substitute_def)
  qed
  show "sstring_substitute cp m v offset tp sp = Inr (-1, m, v)"
    if "\<forall>j. offset \<le> j \<and> j < length xs \<longrightarrow> \<not> prefix t (drop j xs) \<and> \<not> strict_prefix (drop j xs) t"
  proof -
    have "search offset t (drop offset xs) = Inr None"
      using that by (intro search_None) (auto simp: add.commute)
    then show ?thesis using f l by (simp add: sstring_substitute_def)
  qed
  show "sstring_substitute cp m v offset tp sp = Inl Null_deref"
    if k: "strict_prefix (drop k xs) t" "offset \<le> k" "k < length xs" "\<forall>j < length xs. \<not> prefix t (drop j xs)"
  proof -
    have "search offset t (drop offset xs) = Inl Null_deref"
      using k by (intro search_fault [where k = "k - offset"]) auto
    then show ?thesis using f l by (simp add: sstring_substitute_def)
  qed
qed

definition wmem :: "char8 mem" where
  "wmem = \<lparr>cells = (cells smem)(7 \<mapsto> 120, 8 \<mapsto> 97), next_free = 9\<rparr>"

definition wvec :: vec where
  "wvec = \<lparr>v_array = Some 7 # Some 8 # replicate 6 None, v_size = 2, v_capacity = 8\<rparr>"

lemma wvec_vrep: "vrep wmem wvec [7, 8] [120, 97]"
  by (auto simp: vrep_def slots_ok_def mem_ok_def wmem_def wvec_def smem_def split: if_splits)

lemma wmem_strings:
  "cstr_at (outside wmem [7, 8]) 5 [120]" "cstr_at (outside wmem [7, 8]) 3 [98]"
  "cstr_at (outside wmem [7, 8]) 2 [97, 98]"
  by (simp_all add: outside_apply wmem_def smem_def)

text \<open>\<open>sstring_substitute\<close> replaces the first occurrence of a non-empty \<open>target\<close> at or after
  \<open>offset\<close> and returns 0; without an occurrence it returns -1 and changes nothing, unless the text
  ends in a proper part of \<open>target\<close>: then it reads through a null pointer.\<close>

theorem sstring_substitute_spec:
  assumes "vrep m v ps xs" and "copies cp" and "cstr_at (outside m ps) tp t" and "t \<noteq> []"
    and "cstr_at (outside m ps) sp s" and "length xs + length s \<le> 2 ^ 60" and "offset \<le> length xs"
  shows "(prefix t (drop k xs) \<and> offset \<le> k \<and> (\<forall>j. offset \<le> j \<and> j < k \<longrightarrow> \<not> prefix t (drop j xs))
      \<longrightarrow> (\<exists>m' v' ps'. sstring_substitute cp m v offset tp sp = Inr (0, m', v')
        \<and> vrep m' v' ps' (take k xs @ s @ drop (k + length t) xs) \<and> outside m' ps' = outside m ps))
    \<and> ((\<forall>j. offset \<le> j \<and> j < length xs \<longrightarrow> \<not> prefix t (drop j xs) \<and> \<not> strict_prefix (drop j xs) t)
      \<longrightarrow> sstring_substitute cp m v offset tp sp = Inr (-1, m, v))
    \<and> (strict_prefix (drop k xs) t \<and> offset \<le> k \<and> k < length xs \<and> (\<forall>j < length xs. \<not> prefix t (drop j xs))
      \<longrightarrow> sstring_substitute cp m v offset tp sp = Inl Null_deref)"
  using sstring_substitute_parts [OF assms] by blast

lemma sstring_substitute_spec_witness:
  "(\<exists>m' v' ps'. sstring_substitute copy_char wmem wvec 0 5 3 = Inr (0, m', v')
       \<and> vrep m' v' ps' (take 0 [120, 97] @ [98] @ drop (0 + length [120 :: char8]) [120, 97])
       \<and> outside m' ps' = outside wmem [7, 8])
   \<and> sstring_substitute copy_char wmem wvec 0 3 5 = Inr (-1, wmem, wvec)
   \<and> sstring_substitute copy_char wmem wvec 0 2 5 = Inl Null_deref"
proof (intro conjI)
  show "\<exists>m' v' ps'. sstring_substitute copy_char wmem wvec 0 5 3 = Inr (0, m', v')
       \<and> vrep m' v' ps' (take 0 [120, 97] @ [98] @ drop (0 + length [120 :: char8]) [120, 97])
       \<and> outside m' ps' = outside wmem [7, 8]"
    using sstring_substitute_spec [OF wvec_vrep smem_ok(1) wmem_strings(1) _ wmem_strings(2), of 0 0] by simp
  have "\<forall>j. 0 \<le> j \<and> j < length [120 :: char8, 97] \<longrightarrow>
      \<not> prefix [98] (drop j [120 :: char8, 97]) \<and> \<not> strict_prefix (drop j [120 :: char8, 97]) [98]"
    by (auto simp: less_Suc_eq strict_prefix_def)
  then show "sstring_substitute copy_char wmem wvec 0 3 5 = Inr (-1, wmem, wvec)"
    using sstring_substitute_spec [OF wvec_vrep smem_ok(1) wmem_strings(2) _ wmem_strings(1), of 0] by simp
  have "strict_prefix (drop 1 [120 :: char8, 97]) [97, 98]"
    "\<forall>j < length [120 :: char8, 97]. \<not> prefix [97, 98] (drop j [120 :: char8, 97])"
    by (auto simp: less_Suc_eq strict_prefix_def)
  then show "sstring_substitute copy_char wmem wvec 0 2 5 = Inl Null_deref"
    using sstring_substitute_spec [OF wvec_vrep smem_ok(1) wmem_strings(3) _ wmem_strings(1), of 0 1] by simp
qed

end
