(* ===== verification/Memcheck.thy ===== *)
theory Memcheck
  imports Alloc_Props
begin

text \<open>
  \<^verbatim>\<open>src/mini_memcheck/mini_memcheck.c\<close>: wrappers of the allocator that keep a list of the
  blocks in use and the totals of the bytes that were requested and freed.

  The wrappers call \<open>malloc\<close> and \<open>free\<close> of the C library: \<open>mal\<close> and \<open>fre\<close> are arguments of the
  model, and the locale \<open>allocator\<close> says what is relied on. It is interpreted on the allocator of
  \<^verbatim>\<open>src/malloc/alloc.c\<close>, for which the properties are stated. \<open>smeta\<close> is
  \<open>sizeof(meta_data)\<close>; the struct is declared in a header outside the repository and has the
  four fields the code uses.
\<close>

section \<open>State\<close>

record meta =
  request_size :: nat
  filename :: string
  instruction :: nat
  m_next :: nat

record 'h memcheck =
  mc_heap :: 'h
  mc_meta :: "nat \<rightharpoonup> meta"
  mc_bytes :: "nat \<Rightarrow> 8 word"
  mc_head :: nat
  mc_requested :: nat
  mc_freed :: nat
  mc_invalid :: nat

definition memcheck_init :: "'h \<Rightarrow> 'h memcheck" where
  "memcheck_init h = \<lparr>mc_heap = h, mc_meta = Map.empty, mc_bytes = (\<lambda>_. 0), mc_head = 0,
     mc_requested = 0, mc_freed = 0, mc_invalid = 0\<rparr>"

definition ld_meta :: "(nat \<rightharpoonup> meta) \<Rightarrow> nat \<Rightarrow> meta res" where
  "ld_meta m p = (if p = 0 then Inl Null_deref
     else case m p of None \<Rightarrow> Inl Bad_access | Some d \<Rightarrow> Inr d)"

section \<open>The wrappers\<close>

text \<open>The new block \<open>ptr\<close> gets its \<open>meta_data\<close> and becomes the head of the list.\<close>

definition push_meta :: "'h memcheck \<Rightarrow> nat \<Rightarrow> nat \<Rightarrow> string \<Rightarrow> nat \<Rightarrow> 'h memcheck" where
  "push_meta s ptr sz file instr =
     s\<lparr>mc_meta := (mc_meta s)(ptr \<mapsto> \<lparr>request_size = sz, filename = file, instruction = instr,
          m_next = (if mc_head s = 0 then 0 else mc_head s)\<rparr>),
       mc_head := ptr\<rparr>"

definition mini_malloc :: "('h \<Rightarrow> nat \<Rightarrow> (nat \<times> 'h) res) \<Rightarrow> nat \<Rightarrow> 'h memcheck \<Rightarrow> nat \<Rightarrow> string \<Rightarrow> nat
    \<Rightarrow> (nat \<times> 'h memcheck) res" where
  "mini_malloc mal smeta s sz file instr =
     (if sz = 0 then Inr (0, s)
      else rbind (mal (mc_heap s) (w64 (smeta + sz))) (\<lambda>(ptr, h).
        let s = s\<lparr>mc_heap := h\<rparr> in
        if ptr = 0 then Inr (0, s)
        else let s = s\<lparr>mc_requested := w64 (mc_requested s + sz)\<rparr> in
          Inr (ptr + smeta, push_meta s ptr sz file instr)))"

definition mini_calloc :: "('h \<Rightarrow> nat \<Rightarrow> (nat \<times> 'h) res) \<Rightarrow> nat \<Rightarrow> 'h memcheck \<Rightarrow> nat \<Rightarrow> nat \<Rightarrow> string \<Rightarrow> nat
    \<Rightarrow> (nat \<times> 'h memcheck) res" where
  "mini_calloc mal smeta s num esz file instr =
     (if num = 0 \<or> esz = 0 then Inr (0, s)
      else let sz = w64 (num * esz) in
        rbind (mal (mc_heap s) (w64 (smeta + sz))) (\<lambda>(ptr, h).
        let s = s\<lparr>mc_heap := h\<rparr> in
        if ptr = 0 then Inr (0, s)
        else let s = s\<lparr>mc_requested := w64 (mc_requested s + sz)\<rparr>;
                 memory = ptr + smeta;
                 s = s\<lparr>mc_bytes := (\<lambda>a. if memory \<le> a \<and> a < memory + sz then 0 else mc_bytes s a)\<rparr>
          in Inr (memory, push_meta s ptr sz file instr)))"

text \<open>
  The walk of the list in \<open>mini_realloc\<close> and \<open>mini_free\<close>: the block whose payload is asked for,
  with the one before it. The fuel bounds the length of the list.
\<close>

fun find_meta :: "nat \<Rightarrow> nat \<Rightarrow> (nat \<rightharpoonup> meta) \<Rightarrow> nat \<Rightarrow> nat \<Rightarrow> nat \<Rightarrow> nat \<Rightarrow> (nat \<times> nat) option res" where
  "find_meta 0 smeta m h0 ptr preptr pay = Inl Out_of_fuel"
| "find_meta (Suc fuel) smeta m h0 ptr preptr pay =
     (if ptr = 0 then Inr None
      else if ptr + smeta = pay then Inr (Some (ptr, preptr))
      else rbind (ld_meta m ptr) (\<lambda>d.
        if preptr = 0 then find_meta fuel smeta m h0 (m_next d) h0 pay
        else rbind (ld_meta m preptr) (\<lambda>e.
          find_meta fuel smeta m h0 (m_next d) (m_next e) pay)))"

text \<open>The block is taken off the list and given back.\<close>

definition unlink_free :: "('h \<Rightarrow> nat \<Rightarrow> 'h res) \<Rightarrow> 'h memcheck \<Rightarrow> nat \<Rightarrow> nat \<Rightarrow> 'h memcheck res" where
  "unlink_free fre s ptr preptr =
     rbind (ld_meta (mc_meta s) ptr) (\<lambda>d.
     rbind (if ptr = mc_head s then Inr (s\<lparr>mc_head := m_next d\<rparr>)
            else rbind (ld_meta (mc_meta s) preptr) (\<lambda>e.
              Inr (s\<lparr>mc_meta := (mc_meta s)(preptr \<mapsto> e\<lparr>m_next := m_next d\<rparr>)\<rparr>))) (\<lambda>s.
     rbind (fre (mc_heap s) ptr) (\<lambda>h.
     Inr (s\<lparr>mc_heap := h, mc_meta := (mc_meta s)(ptr := None)\<rparr>))))"

definition mini_free :: "('h \<Rightarrow> nat \<Rightarrow> 'h res) \<Rightarrow> nat \<Rightarrow> nat \<Rightarrow> 'h memcheck \<Rightarrow> nat \<Rightarrow> 'h memcheck res" where
  "mini_free fre smeta fuel s pay =
     (if pay = 0 then Inr s
      else rbind (find_meta fuel smeta (mc_meta s) (mc_head s) (mc_head s) 0 pay) (\<lambda>found.
        case found of
          None \<Rightarrow> Inr (s\<lparr>mc_invalid := w64 (mc_invalid s + 1)\<rparr>)
        | Some (ptr, preptr) \<Rightarrow>
            rbind (ld_meta (mc_meta s) ptr) (\<lambda>d.
            unlink_free fre (s\<lparr>mc_freed := w64 (mc_freed s + request_size d)\<rparr>) ptr preptr)))"

text \<open>The test after the second \<open>malloc\<close> is of \<open>ptr\<close>, which is not \<open>NULL\<close> there, and not of
  \<open>newptr\<close>: a failed \<open>malloc\<close> is followed by a write through a null pointer.\<close>

definition mini_realloc :: "('h \<Rightarrow> nat \<Rightarrow> (nat \<times> 'h) res) \<Rightarrow> ('h \<Rightarrow> nat \<Rightarrow> 'h res) \<Rightarrow> nat \<Rightarrow> nat
    \<Rightarrow> 'h memcheck \<Rightarrow> nat \<Rightarrow> nat \<Rightarrow> string \<Rightarrow> nat \<Rightarrow> (nat \<times> 'h memcheck) res" where
  "mini_realloc mal fre smeta fuel s pay sz file instr =
     (if pay = 0 \<and> sz = 0 then Inr (0, s)
      else if pay = 0 then mini_malloc mal smeta s sz file instr
      else if sz = 0 then rbind (mini_free fre smeta fuel s pay) (\<lambda>s. Inr (0, s))
      else rbind (find_meta fuel smeta (mc_meta s) (mc_head s) (mc_head s) 0 pay) (\<lambda>found.
        case found of
          None \<Rightarrow> Inr (0, s\<lparr>mc_invalid := w64 (mc_invalid s + 1)\<rparr>)
        | Some (ptr, preptr) \<Rightarrow>
            rbind (ld_meta (mc_meta s) ptr) (\<lambda>d.
            if request_size d = sz then Inr (pay, s)
            else
              let s = (if request_size d < sz
                       then s\<lparr>mc_requested := w64 (mc_requested s + (sz - request_size d))\<rparr>
                       else s\<lparr>mc_freed := w64 (mc_freed s + (request_size d - sz))\<rparr>)
              in rbind (unlink_free fre s ptr preptr) (\<lambda>s.
                 rbind (mal (mc_heap s) (w64 (smeta + sz))) (\<lambda>(newptr, h).
                 let s = s\<lparr>mc_heap := h\<rparr> in
                 if newptr = 0 then Inl Null_deref
                 else Inr (newptr + smeta, push_meta s newptr sz file instr))))))"

section \<open>The contract of the allocator\<close>

text \<open>\<open>owns h L\<close>: the heap \<open>h\<close> has handed out the blocks \<open>L\<close> and not taken them back.\<close>

locale allocator =
  fixes mal :: "'h \<Rightarrow> nat \<Rightarrow> (nat \<times> 'h) res"
    and fre :: "'h \<Rightarrow> nat \<Rightarrow> 'h res"
    and fits :: "nat \<Rightarrow> bool"
    and owns :: "'h \<Rightarrow> nat set \<Rightarrow> bool"
  assumes mal: "\<lbrakk>owns h L; fits n\<rbrakk> \<Longrightarrow> \<exists>p h'. mal h n = Inr (p, h')
      \<and> (p = 0 \<and> owns h' L \<or> p \<noteq> 0 \<and> p \<notin> L \<and> owns h' (insert p L))"
    and fre: "\<lbrakk>owns h L; p \<in> L\<rbrakk> \<Longrightarrow> \<exists>h'. fre h p = Inr h' \<and> owns h' (L - {p})"
    and fits_small: "\<lbrakk>0 < n; n \<le> 2 ^ 62\<rbrakk> \<Longrightarrow> fits n"

section \<open>The list of blocks\<close>

fun seg :: "(nat \<rightharpoonup> meta) \<Rightarrow> nat \<Rightarrow> (nat \<times> nat) list \<Rightarrow> nat \<Rightarrow> bool" where
  "seg m p [] q = (p = q)"
| "seg m p ((a, n) # bs) q =
     (p = a \<and> a \<noteq> 0 \<and> (case m a of None \<Rightarrow> False | Some d \<Rightarrow> request_size d = n \<and> seg m (m_next d) bs q))"

lemma seg_append: "seg m p (xs @ ys) r \<longleftrightarrow> (\<exists>q. seg m p xs q \<and> seg m q ys r)"
  by (induction xs arbitrary: p) (auto split: option.splits)

lemma seg_upd: "a \<notin> fst ` set bs \<Longrightarrow> seg (m(a := v)) p bs q = seg m p bs q"
  by (induction bs arbitrary: p) (auto split: option.splits)

lemma seg_start: "seg m p (xs @ (a, n) # ys) 0 \<Longrightarrow> p = hd_or a (map fst xs)"
  by (cases xs) auto

lemma seg_snoc:
  assumes "seg m p (xs @ [(b, k)]) q"
  obtains e where "m b = Some e" "request_size e = k" "m_next e = q" "seg m p xs b" "b \<noteq> 0"
  using assms by (auto simp: seg_append split: option.splits)

lemma find_meta_walk:
  assumes "seg m h0 xs ptr" and "seg m ptr (us @ vs) 0" and "length us < fuel"
    and "\<forall>a \<in> fst ` set us. a + smeta \<noteq> pay" and "vs = [] \<or> fst (hd vs) + smeta = pay"
  shows "find_meta fuel smeta m h0 ptr (last_or 0 (map fst xs)) pay =
    Inr (if vs = [] then None else Some (fst (hd vs), last_or 0 (map fst (xs @ us))))"
  using assms
proof (induction us arbitrary: fuel xs ptr)
  case Nil
  then obtain f where f: "fuel = Suc f" by (cases fuel) auto
  show ?case
  proof (cases vs)
    case Nil
    then show ?thesis using Nil.prems f by simp
  next
    case (Cons v ws)
    then show ?thesis using Nil.prems f by (cases v) (auto split: option.splits)
  qed
next
  case (Cons b us)
  obtain a n where b: "b = (a, n)" by (cases b)
  obtain f where f: "fuel = Suc f" using Cons.prems(3) by (cases fuel) auto
  from Cons.prems(2) b obtain d where d: "ptr = a" "a \<noteq> 0" "m a = Some d" "request_size d = n"
    "seg m (m_next d) (us @ vs) 0" by (auto split: option.splits)
  have ne: "a + smeta \<noteq> pay" using Cons.prems(4) b by simp
  have IH: "find_meta f smeta m h0 (m_next d) (last_or 0 (map fst (xs @ [b]))) pay =
      Inr (if vs = [] then None else Some (fst (hd vs), last_or 0 (map fst ((xs @ [b]) @ us))))"
    using Cons.prems b d f by (intro Cons.IH) (auto simp: seg_append)
  show ?case
  proof (cases xs rule: rev_cases)
    case Nil
    then have "h0 = a" using Cons.prems(1) d(1) by simp
    then show ?thesis using IH b d f ne Nil by (simp add: ld_meta_def)
  next
    case (snoc zs c)
    obtain c1 c2 where c: "c = (c1, c2)" by (cases c)
    with Cons.prems(1) snoc d(1) obtain e where "m c1 = Some e" "m_next e = a" "c1 \<noteq> 0"
      by (auto elim: seg_snoc)
    then show ?thesis using IH b c d f ne snoc by (simp add: ld_meta_def)
  qed
qed

lemma find_meta_None:
  "\<lbrakk>seg m h0 bs 0; length bs < fuel; \<forall>a \<in> fst ` set bs. a + smeta \<noteq> pay\<rbrakk>
   \<Longrightarrow> find_meta fuel smeta m h0 h0 0 pay = Inr None"
  using find_meta_walk [of m h0 "[]" h0 bs "[]" fuel smeta pay] by simp

lemma find_meta_Some:
  "\<lbrakk>seg m h0 (us @ (a, n) # vs) 0; length us < fuel; a \<notin> fst ` set us\<rbrakk>
   \<Longrightarrow> find_meta fuel smeta m h0 h0 0 (a + smeta) = Inr (Some (a, last_or 0 (map fst us)))"
  using find_meta_walk [of m h0 "[]" h0 us "(a, n) # vs" fuel smeta "a + smeta"] by force

section \<open>The invariant\<close>

text \<open>
  The list holds exactly the blocks in use, with their sizes, and the bytes requested are the
  bytes freed together with the bytes in use, in the arithmetic of \<open>size_t\<close>.
\<close>

definition listed :: "('h \<Rightarrow> nat set \<Rightarrow> bool) \<Rightarrow> 'h memcheck \<Rightarrow> (nat \<times> nat) list \<Rightarrow> bool" where
  "listed owns s bs \<longleftrightarrow> seg (mc_meta s) (mc_head s) bs 0 \<and> distinct (map fst bs)
     \<and> owns (mc_heap s) (fst ` set bs)"

definition balanced :: "'h memcheck \<Rightarrow> nat \<Rightarrow> bool" where
  "balanced s t \<longleftrightarrow> w64 (mc_requested s) = w64 (mc_freed s + t)"

definition in_use :: "(nat \<times> nat) list \<Rightarrow> nat" where
  "in_use bs = sum_list (map snd bs)"

lemma balanced_request:
  assumes "balanced s t"
  shows "balanced (s\<lparr>mc_requested := w64 (mc_requested s + n)\<rparr>) (t + n)"
proof -
  have "w64 (mc_requested s + n) = w64 (w64 (mc_requested s) + n)" by (simp only: w64_add_left)
  also have "\<dots> = w64 (mc_freed s + t + n)" using assms by (simp only: balanced_def w64_add_left)
  finally show ?thesis by (simp add: balanced_def add.assoc)
qed

lemma balanced_free:
  assumes "balanced s (t + n)"
  shows "balanced (s\<lparr>mc_freed := w64 (mc_freed s + n)\<rparr>) t"
  using assms by (simp add: balanced_def w64_add_left add.assoc add.commute [of t n])

lemma in_use_simps [simp]:
  "in_use [] = 0" "in_use ((a, n) # bs) = in_use bs + n" "in_use (bs @ cs) = in_use bs + in_use cs"
  by (simp_all add: in_use_def)

lemma push_meta_simps [simp]:
  "mc_invalid (push_meta s p n f i) = mc_invalid s" "mc_bytes (push_meta s p n f i) = mc_bytes s"
  by (simp_all add: push_meta_def)

text \<open>
  The one call that \<open>mini_realloc\<close> does not survive: a change of the size of a listed block, given
  back before the new one is asked for, for which the allocator then has no memory.
\<close>

definition realloc_oom :: "('h \<Rightarrow> nat \<Rightarrow> (nat \<times> 'h) res) \<Rightarrow> ('h \<Rightarrow> nat \<Rightarrow> 'h res) \<Rightarrow> nat
    \<Rightarrow> 'h memcheck \<Rightarrow> (nat \<times> nat) list \<Rightarrow> nat \<Rightarrow> nat \<Rightarrow> bool" where
  "realloc_oom mal fre smeta s bs p n \<longleftrightarrow> n \<noteq> 0 \<and>
     (\<exists>a k h h'. (a, k) \<in> set bs \<and> p = a + smeta \<and> k \<noteq> n \<and> fre (mc_heap s) a = Inr h
        \<and> mal h (smeta + n) = Inr (0, h'))"

context allocator
begin

lemma push_meta_listed:
  assumes "seg (mc_meta s) (mc_head s) bs 0" and "distinct (map fst bs)" and "p \<noteq> 0"
    and "p \<notin> fst ` set bs" and "owns (mc_heap s) (insert p (fst ` set bs))"
  shows "listed owns (push_meta s p n f i) ((p, n) # bs)"
  using assms by (auto simp: listed_def push_meta_def seg_upd)

lemma unlink_listed:
  assumes l: "listed owns s (us @ (a, n) # vs)"
  obtains s' where "unlink_free fre s a (last_or 0 (map fst us)) = Inr s'" "listed owns s' (us @ vs)"
    "mc_requested s' = mc_requested s" "mc_freed s' = mc_freed s" "mc_invalid s' = mc_invalid s"
    "mc_bytes s' = mc_bytes s" "fre (mc_heap s) a = Inr (mc_heap s')"
proof -
  from l have sg: "seg (mc_meta s) (mc_head s) (us @ (a, n) # vs) 0"
    and d: "distinct (map fst us)" "distinct (map fst vs)" "a \<notin> fst ` set us" "a \<notin> fst ` set vs"
      "fst ` set us \<inter> fst ` set vs = {}"
    and o: "owns (mc_heap s) (fst ` set (us @ (a, n) # vs))" by (auto simp: listed_def)
  have "fst ` set (us @ (a, n) # vs) - {a} = fst ` set (us @ vs)" using d by auto
  with fre [OF o, of a] obtain h where h: "fre (mc_heap s) a = Inr h" "owns h (fst ` set (us @ vs))"
    by auto
  from sg obtain e where e: "mc_meta s a = Some e" "a \<noteq> 0" "seg (mc_meta s) (m_next e) vs 0"
    "seg (mc_meta s) (mc_head s) us a" by (auto simp: seg_append split: option.splits)
  show thesis
  proof (cases us rule: rev_cases)
    case Nil
    then have "mc_head s = a" using e(4) by simp
    let ?s = "s\<lparr>mc_head := m_next e, mc_heap := h, mc_meta := (mc_meta s)(a := None)\<rparr>"
    have "unlink_free fre s a (last_or 0 (map fst us)) = Inr ?s"
      using Nil e h \<open>mc_head s = a\<close> by (simp add: unlink_free_def ld_meta_def)
    moreover have "listed owns ?s (us @ vs)"
      using Nil e h d by (simp add: listed_def seg_upd)
    ultimately show thesis by (rule that) (simp_all add: h)
  next
    case (snoc ws b)
    obtain c k where b: "b = (c, k)" by (cases b)
    from e(4) snoc b obtain f where f: "mc_meta s c = Some f" "request_size f = k" "m_next f = a"
      "seg (mc_meta s) (mc_head s) ws c" "c \<noteq> 0" by (auto elim: seg_snoc)
    have "us \<noteq> []" using snoc by simp
    then obtain u us' where "us = u # us'" by (cases us) simp_all
    then have "mc_head s \<noteq> a" using e(4) d(3) by (cases u) auto
    let ?s = "s\<lparr>mc_meta := ((mc_meta s)(c \<mapsto> f\<lparr>m_next := m_next e\<rparr>))(a := None), mc_heap := h\<rparr>"
    have "unlink_free fre s a (last_or 0 (map fst us)) = Inr ?s"
      using snoc b e f h \<open>mc_head s \<noteq> a\<close> by (simp add: unlink_free_def ld_meta_def)
    moreover have "c \<noteq> a" "c \<notin> fst ` set ws" "c \<notin> fst ` set vs" "a \<notin> fst ` set ws"
      using d snoc b by auto
    then have "listed owns ?s (us @ vs)"
      using snoc b e f h d by (auto simp: listed_def seg_append seg_upd)
    ultimately show thesis by (rule that) (simp_all add: h)
  qed
qed

text \<open>The operations keep the list and the balance.\<close>

lemma mini_malloc_ok:
  assumes l: "listed owns s bs" "balanced s (in_use bs)" and sz: "smeta + n \<le> 2 ^ 62"
  shows "\<exists>p s' bs'. mini_malloc mal smeta s n file i = Inr (p, s')
     \<and> (p = 0 \<and> bs' = bs \<or> (\<exists>a. p = a + smeta \<and> a \<notin> fst ` set bs \<and> bs' = (a, n) # bs))
     \<and> listed owns s' bs' \<and> balanced s' (in_use bs') \<and> mc_invalid s' = mc_invalid s"
proof (cases "n = 0")
  case True
  then show ?thesis using l by (auto simp: mini_malloc_def)
next
  case False
  have w: "w64 (smeta + n) = smeta + n" using sz by (simp add: w64_id)
  have o: "owns (mc_heap s) (fst ` set bs)" using l(1) by (simp add: listed_def)
  from mal [OF o fits_small [OF _ sz]] False obtain p h where m: "mal (mc_heap s) (smeta + n) = Inr (p, h)"
    "p = 0 \<and> owns h (fst ` set bs) \<or> p \<noteq> 0 \<and> p \<notin> fst ` set bs \<and> owns h (insert p (fst ` set bs))" by auto
  show ?thesis
  proof (cases "p = 0")
    case True
    then show ?thesis using False w m l by (auto simp: mini_malloc_def listed_def balanced_def)
  next
    case nz: False
    let ?s = "s\<lparr>mc_heap := h, mc_requested := w64 (mc_requested s + n)\<rparr>"
    have "listed owns (push_meta ?s p n file i) ((p, n) # bs)"
      using l(1) m(2) nz by (intro push_meta_listed) (auto simp: listed_def)
    moreover have "balanced (push_meta ?s p n file i) (in_use ((p, n) # bs))"
      using balanced_request [OF l(2), of n] by (simp add: balanced_def push_meta_def)
    moreover have "mini_malloc mal smeta s n file i = Inr (p + smeta, push_meta ?s p n file i)"
      using False w m(1) nz by (simp add: mini_malloc_def)
    ultimately show ?thesis using m(2) nz
      by (intro exI [of _ "p + smeta"] exI [of _ "push_meta ?s p n file i"] exI [of _ "(p, n) # bs"]) auto
  qed
qed

lemma mini_calloc_ok:
  assumes l: "listed owns s bs" "balanced s (in_use bs)" and sz: "smeta + k * n \<le> 2 ^ 62"
  shows "\<exists>p s' bs'. mini_calloc mal smeta s k n file i = Inr (p, s')
     \<and> (p = 0 \<and> bs' = bs \<or> (\<exists>a. p = a + smeta \<and> a \<notin> fst ` set bs \<and> bs' = (a, k * n) # bs
          \<and> (\<forall>x. p \<le> x \<and> x < p + k * n \<longrightarrow> mc_bytes s' x = 0)))
     \<and> listed owns s' bs' \<and> balanced s' (in_use bs') \<and> mc_invalid s' = mc_invalid s"
proof (cases "k = 0 \<or> n = 0")
  case True
  then show ?thesis using l by (auto simp: mini_calloc_def)
next
  case False
  have w: "w64 (smeta + k * n) = smeta + k * n" "w64 (k * n) = k * n" using sz by (simp_all add: w64_id)
  have o: "owns (mc_heap s) (fst ` set bs)" using l(1) by (simp add: listed_def)
  from mal [OF o fits_small [OF _ sz]] False obtain p h where m: "mal (mc_heap s) (smeta + k * n) = Inr (p, h)"
    "p = 0 \<and> owns h (fst ` set bs) \<or> p \<noteq> 0 \<and> p \<notin> fst ` set bs \<and> owns h (insert p (fst ` set bs))" by auto
  show ?thesis
  proof (cases "p = 0")
    case True
    then show ?thesis using False w m l by (auto simp: mini_calloc_def listed_def balanced_def)
  next
    case nz: False
    let ?s = "s\<lparr>mc_heap := h, mc_requested := w64 (mc_requested s + k * n), mc_bytes :=
      (\<lambda>a. if p + smeta \<le> a \<and> a < p + smeta + k * n then 0 else mc_bytes s a)\<rparr>"
    have "listed owns (push_meta ?s p (k * n) file i) ((p, k * n) # bs)"
      using l(1) m(2) nz by (intro push_meta_listed) (auto simp: listed_def)
    moreover have "balanced (push_meta ?s p (k * n) file i) (in_use ((p, k * n) # bs))"
      using balanced_request [OF l(2), of "k * n"] by (simp add: balanced_def push_meta_def)
    moreover have "mini_calloc mal smeta s k n file i = Inr (p + smeta, push_meta ?s p (k * n) file i)"
      using False w m(1) nz by (simp add: mini_calloc_def Let_def cong: if_cong)
    ultimately show ?thesis using m(2) nz
      by (intro exI [of _ "p + smeta"] exI [of _ "push_meta ?s p (k * n) file i"] exI [of _ "(p, (k * n)) # bs"]) auto
  qed
qed

lemma mini_free_ok:
  assumes l: "listed owns s bs" "balanced s (in_use bs)" and fuel: "length bs < fuel"
  shows "\<exists>s' bs'. mini_free fre smeta fuel s p = Inr s' \<and> listed owns s' bs' \<and> balanced s' (in_use bs')
     \<and> length bs' \<le> length bs
     \<and> (if p = 0 then s' = s \<and> bs' = bs
        else if \<exists>a \<in> fst ` set bs. a + smeta = p
        then fst ` set bs' = fst ` set bs - {p - smeta} \<and> mc_invalid s' = mc_invalid s
        else bs' = bs \<and> mc_invalid s' = w64 (mc_invalid s + 1))"
proof -
  have sg: "seg (mc_meta s) (mc_head s) bs 0" using l(1) by (simp add: listed_def)
  consider (zero) "p = 0" | (known) "p \<noteq> 0" "\<exists>a \<in> fst ` set bs. a + smeta = p"
    | (unknown) "p \<noteq> 0" "\<forall>a \<in> fst ` set bs. a + smeta \<noteq> p" by blast
  then show ?thesis
  proof cases
    case zero
    then show ?thesis using l by (auto simp: mini_free_def)
  next
    case unknown
    then show ?thesis
      using find_meta_None [OF sg fuel unknown(2)] l
      by (auto simp: mini_free_def listed_def balanced_def intro!: exI [of _ bs])
  next
    case known
    then obtain a n where "(a, n) \<in> set bs" "p = a + smeta" by auto
    then obtain us vs where bs: "bs = us @ (a, n) # vs" "p = a + smeta" by (meson split_list)
    have d: "a \<notin> fst ` set us" "a \<notin> fst ` set vs" using l(1) bs(1) by (auto simp: listed_def)
    have f: "find_meta fuel smeta (mc_meta s) (mc_head s) (mc_head s) 0 p = Inr (Some (a, last_or 0 (map fst us)))"
      using find_meta_Some [OF _ _ d(1)] sg fuel bs by simp
    from sg bs(1) obtain e where e: "ld_meta (mc_meta s) a = Inr e" "request_size e = n"
      by (auto simp: seg_append ld_meta_def split: option.splits)
    let ?s = "s\<lparr>mc_freed := w64 (mc_freed s + n)\<rparr>"
    have "listed owns ?s (us @ (a, n) # vs)" using l(1) bs(1) by (simp add: listed_def)
    from unlink_listed [OF this] obtain s' where
      u: "unlink_free fre ?s a (last_or 0 (map fst us)) = Inr s'" "listed owns s' (us @ vs)"
        "mc_requested s' = mc_requested s" "mc_freed s' = mc_freed ?s" "mc_invalid s' = mc_invalid s" by auto
    have "balanced ?s (in_use (us @ vs))"
      using l(2) bs(1) by (intro balanced_free) (simp add: ac_simps)
    then have "balanced s' (in_use (us @ vs))" using u by (simp add: balanced_def)
    moreover have "mini_free fre smeta fuel s p = Inr s'" using known(1) f e u(1) by (simp add: mini_free_def)
    moreover have "fst ` set (us @ vs) = fst ` set bs - {p - smeta}" using d bs by auto
    ultimately show ?thesis using u(2,5) known bs(1)
      by (intro exI [of _ s'] exI [of _ "us @ vs"]) simp
  qed
qed

lemma mini_realloc_moved:
  assumes l: "listed owns s bs" "balanced s (in_use bs)" and fuel: "length bs < fuel"
    and sz: "smeta + n \<le> 2 ^ 62" and known: "p \<noteq> 0" "n \<noteq> 0"
    and bs: "bs = us @ (a, k) # vs" "p = a + smeta" and kn: "k \<noteq> n"
  shows "mini_realloc mal fre smeta fuel s p n file i = Inl Null_deref \<and> realloc_oom mal fre smeta s bs p n
     \<or> (\<exists>q s' bs'. mini_realloc mal fre smeta fuel s p n file i = Inr (q, s')
          \<and> listed owns s' bs' \<and> balanced s' (in_use bs') \<and> length bs' \<le> Suc (length bs))"
proof -
  have sg: "seg (mc_meta s) (mc_head s) bs 0" and d: "a \<notin> fst ` set us"
    using l(1) bs(1) by (auto simp: listed_def)
  have f: "find_meta fuel smeta (mc_meta s) (mc_head s) (mc_head s) 0 p = Inr (Some (a, last_or 0 (map fst us)))"
    using find_meta_Some [OF _ _ d] sg fuel bs by simp
  from sg bs(1) obtain e where e: "ld_meta (mc_meta s) a = Inr e" "request_size e = k"
    by (auto simp: seg_append ld_meta_def split: option.splits)
  define t where "t = (if k < n then s\<lparr>mc_requested := w64 (mc_requested s + (n - k))\<rparr>
    else s\<lparr>mc_freed := w64 (mc_freed s + (k - n))\<rparr>)"
  have lt: "listed owns t (us @ (a, k) # vs)" using l(1) bs(1) by (simp add: t_def listed_def)
  have bt: "balanced t (in_use (us @ vs) + n)"
    using balanced_request [OF l(2), of "n - k"] balanced_free [of s "in_use (us @ vs) + n" "k - n"] l(2) bs(1)
    by (cases "k < n") (simp_all add: t_def ac_simps)
  from unlink_listed [OF lt] obtain s1 where
    u: "unlink_free fre t a (last_or 0 (map fst us)) = Inr s1" "listed owns s1 (us @ vs)"
      "mc_requested s1 = mc_requested t" "mc_freed s1 = mc_freed t"
      "fre (mc_heap t) a = Inr (mc_heap s1)" by auto
  have o: "owns (mc_heap s1) (fst ` set (us @ vs))" using u(2) by (simp add: listed_def)
  have w: "w64 (smeta + n) = smeta + n" using sz by (simp add: w64_id)
  from mal [OF o fits_small [OF _ sz]] known(2) obtain q h where
    m: "mal (mc_heap s1) (smeta + n) = Inr (q, h)"
      "q = 0 \<or> q \<noteq> 0 \<and> q \<notin> fst ` set (us @ vs) \<and> owns h (insert q (fst ` set (us @ vs)))" by auto
  let ?s' = "push_meta (s1\<lparr>mc_heap := h\<rparr>) q n file i"
  have run: "mini_realloc mal fre smeta fuel s p n file i =
      (if q = 0 then Inl Null_deref else Inr (q + smeta, ?s'))"
    using known(1,2) f e kn w m(1) u(1) [unfolded t_def]
    by (simp add: mini_realloc_def Let_def split del: if_split cong: if_cong)
  show ?thesis
  proof (cases "q = 0")
    case False
    have "listed owns ?s' ((q, n) # us @ vs)"
      using u(2) m(2) False by (intro push_meta_listed) (auto simp: listed_def)
    moreover have "balanced ?s' (in_use ((q, n) # us @ vs))"
      using bt u(3,4) by (simp add: balanced_def push_meta_def)
    ultimately show ?thesis using run False bs(1)
      by (intro disjI2 exI [of _ "q + smeta"] exI [of _ ?s'] exI [of _ "(q, n) # us @ vs"]) simp
  next
    case True
    have "mc_heap t = mc_heap s" by (simp add: t_def)
    then have "fre (mc_heap s) a = Inr (mc_heap s1)" using u(5) by simp
    moreover have "(a, k) \<in> set bs" using bs(1) by simp
    ultimately have "realloc_oom mal fre smeta s bs p n"
      using True m(1) known(2) bs(2) kn unfolding realloc_oom_def by blast
    then show ?thesis using run True by simp
  qed
qed

text \<open>
  \<open>mini_realloc\<close> keeps them too, with one exception: when the allocator has no memory for the new
  block, it writes through the null pointer.
\<close>

lemma mini_realloc_ok:
  assumes l: "listed owns s bs" "balanced s (in_use bs)" and fuel: "length bs < fuel"
    and sz: "smeta + n \<le> 2 ^ 62"
  shows "mini_realloc mal fre smeta fuel s p n file i = Inl Null_deref \<and> realloc_oom mal fre smeta s bs p n
     \<or> (\<exists>q s' bs'. mini_realloc mal fre smeta fuel s p n file i = Inr (q, s')
          \<and> listed owns s' bs' \<and> balanced s' (in_use bs') \<and> length bs' \<le> Suc (length bs))"
proof -
  have sg: "seg (mc_meta s) (mc_head s) bs 0" using l(1) by (simp add: listed_def)
  consider (new) "p = 0" | (drop) "p \<noteq> 0" "n = 0"
    | (unknown) "p \<noteq> 0" "n \<noteq> 0" "\<forall>a \<in> fst ` set bs. a + smeta \<noteq> p"
    | (known) "p \<noteq> 0" "n \<noteq> 0" "\<exists>a \<in> fst ` set bs. a + smeta = p" by blast
  then show ?thesis
  proof cases
    case new
    then show ?thesis
      using mini_malloc_ok [OF l sz, of "file" i] l by (cases "n = 0") (fastforce simp: mini_realloc_def)+
  next
    case drop
    then show ?thesis using mini_free_ok [OF l fuel, of smeta p] by (fastforce simp: mini_realloc_def)
  next
    case unknown
    then show ?thesis
      using find_meta_None [OF sg fuel unknown(3)] l
      by (auto simp: mini_realloc_def listed_def balanced_def intro!: exI [of _ bs])
  next
    case known
    then obtain a k where "(a, k) \<in> set bs" "p = a + smeta" by auto
    then obtain us vs where bs: "bs = us @ (a, k) # vs" "p = a + smeta" by (meson split_list)
    show ?thesis
    proof (cases "k = n")
      case True
      have d: "a \<notin> fst ` set us" using l(1) bs(1) by (auto simp: listed_def)
      have "find_meta fuel smeta (mc_meta s) (mc_head s) (mc_head s) 0 p = Inr (Some (a, last_or 0 (map fst us)))"
        using find_meta_Some [OF _ _ d] sg fuel bs by simp
      then show ?thesis using True known sg bs(1) l
        by (auto simp: mini_realloc_def seg_append ld_meta_def split: option.splits)
    next
      case False
      then show ?thesis using mini_realloc_moved [OF l fuel sz known(1,2) bs] by blast
    qed
  qed
qed

end

section \<open>On top of malloc/alloc.c\<close>

definition heap_owns :: "heap \<Rightarrow> nat set \<Rightarrow> bool" where
  "heap_owns h L \<longleftrightarrow> (\<exists>live. alloc_rel h live \<and> dom live = L)"

definition heap_fits :: "nat \<Rightarrow> bool" where
  "heap_fits n \<longleftrightarrow> n \<le> 2 ^ 62"

interpretation heap_alloc: allocator malloc free heap_fits heap_owns
proof unfold_locales
  fix h L n assume o: "heap_owns h L" and "heap_fits n"
  then obtain live where live: "alloc_rel h live" "dom live = L" "size_ok n"
    by (auto simp: heap_owns_def heap_fits_def size_ok_def)
  from malloc_simulates [OF live(1,3)] obtain p h' live' where
    m: "malloc h n = Inr (p, h')" "spec live (Malloc n) p live'" "alloc_rel h' live'" .
  show "\<exists>p h'. malloc h n = Inr (p, h')
      \<and> (p = 0 \<and> heap_owns h' L \<or> p \<noteq> 0 \<and> p \<notin> L \<and> heap_owns h' (insert p L))"
  proof (cases "p = 0 \<and> live' = live")
    case True
    then show ?thesis using m live(2) by (auto simp: heap_owns_def)
  next
    case False
    then obtain xs where "p \<noteq> 0" "live p = None" "live' = live(p \<mapsto> xs)"
      using m(2) by (auto simp: fresh_def)
    moreover from this have d: "dom live' = insert p L" "p \<notin> L" using live(2) by auto
    moreover from d have "heap_owns h' (insert p L)" unfolding heap_owns_def using m(3) by blast
    ultimately have "p \<noteq> 0 \<and> p \<notin> L \<and> heap_owns h' (insert p L)" by blast
    with m(1) show ?thesis by blast
  qed
next
  fix h L p assume o: "heap_owns h L" and p: "p \<in> L"
  then obtain live where live: "alloc_rel h live" "dom live = L" by (auto simp: heap_owns_def)
  then have "p = 0 \<or> live p \<noteq> None" using p by blast
  from free_simulates [OF live(1) this] obtain h' where f: "free h p = Inr h'" "alloc_rel h' (freed live p)" .
  from live(1) obtain bs where "objs_on (payload h) (used bs) live" by (auto simp: alloc_rel_def)
  then have "p \<noteq> 0" using p live(2) by (auto simp: objs_on_def)
  then have "dom (freed live p) = L - {p}" using live(2) by (auto simp: freed_def)
  with f show "\<exists>h'. free h p = Inr h' \<and> heap_owns h' (L - {p})" by (auto simp: heap_owns_def)
qed (simp add: heap_fits_def)

section \<open>Histories\<close>

datatype mop =
    MMalloc nat
  | MCalloc nat nat
  | MRealloc nat nat
  | MFree nat

fun mc_step :: "nat \<Rightarrow> nat \<Rightarrow> heap memcheck \<Rightarrow> mop \<Rightarrow> heap memcheck res" where
  "mc_step smeta fuel s (MMalloc n) = rbind (mini_malloc malloc smeta s n [] 0) (\<lambda>(p, s). Inr s)"
| "mc_step smeta fuel s (MCalloc k n) = rbind (mini_calloc malloc smeta s k n [] 0) (\<lambda>(p, s). Inr s)"
| "mc_step smeta fuel s (MRealloc p n) =
     rbind (mini_realloc malloc free smeta fuel s p n [] 0) (\<lambda>(p, s). Inr s)"
| "mc_step smeta fuel s (MFree p) = mini_free free smeta fuel s p"

fun mc_run :: "nat \<Rightarrow> nat \<Rightarrow> heap memcheck \<Rightarrow> mop list \<Rightarrow> heap memcheck res" where
  "mc_run smeta fuel s [] = Inr s"
| "mc_run smeta fuel s (p # ps) = rbind (mc_step smeta fuel s p) (\<lambda>s. mc_run smeta fuel s ps)"

fun mop_ok :: "nat \<Rightarrow> mop \<Rightarrow> bool" where
  "mop_ok smeta (MMalloc n) = (smeta + n \<le> 2 ^ 62)"
| "mop_ok smeta (MCalloc k n) = (smeta + k * n \<le> 2 ^ 62)"
| "mop_ok smeta (MRealloc p n) = (smeta + n \<le> 2 ^ 62)"
| "mop_ok smeta (MFree p) = True"

lemma mc_step_ok:
  assumes l: "listed heap_owns s bs" "balanced s (in_use bs)" and fuel: "length bs < fuel"
    and ok: "mop_ok smeta p"
  shows "mc_step smeta fuel s p = Inl Null_deref
         \<and> (\<exists>q n. p = MRealloc q n \<and> realloc_oom malloc free smeta s bs q n)
     \<or> (\<exists>s' bs'. mc_step smeta fuel s p = Inr s' \<and> listed heap_owns s' bs' \<and> balanced s' (in_use bs')
          \<and> length bs' \<le> Suc (length bs))"
proof (cases p)
  case (MMalloc n)
  then show ?thesis
    using heap_alloc.mini_malloc_ok [OF l, of smeta n "[]" 0] ok by fastforce
next
  case (MCalloc k n)
  then show ?thesis
    using heap_alloc.mini_calloc_ok [OF l, of smeta k n "[]" 0] ok by fastforce
next
  case (MRealloc q n)
  then show ?thesis
    using heap_alloc.mini_realloc_ok [OF l fuel, of smeta n q "[]" 0] ok by fastforce
next
  case (MFree q)
  then show ?thesis
    using heap_alloc.mini_free_ok [OF l fuel, of smeta q] by fastforce
qed

text \<open>The runs that end in that call.\<close>

definition stops_oom :: "nat \<Rightarrow> nat \<Rightarrow> heap memcheck \<Rightarrow> mop list \<Rightarrow> bool" where
  "stops_oom smeta fuel s ops \<longleftrightarrow> mc_run smeta fuel s ops = Inl Null_deref \<and>
     (\<exists>us p n vs s' bs'. ops = us @ MRealloc p n # vs \<and> mc_run smeta fuel s us = Inr s'
        \<and> listed heap_owns s' bs' \<and> realloc_oom malloc free smeta s' bs' p n)"

lemma stops_oom_Cons:
  assumes "mc_step smeta fuel s p = Inr s'" and "stops_oom smeta fuel s' ops"
  shows "stops_oom smeta fuel s (p # ops)"
proof -
  from assms(2) obtain us q n vs s1 bs1 where "mc_run smeta fuel s' ops = Inl Null_deref"
    "ops = us @ MRealloc q n # vs" "mc_run smeta fuel s' us = Inr s1" "listed heap_owns s1 bs1"
    "realloc_oom malloc free smeta s1 bs1 q n" unfolding stops_oom_def by blast
  then show ?thesis
    unfolding stops_oom_def using assms(1)
    by (intro conjI exI [of _ "p # us"] exI [of _ q] exI [of _ n] exI [of _ vs] exI [of _ s1]
        exI [of _ bs1]) simp_all
qed

lemma mc_run_ok:
  assumes "listed heap_owns s bs" and "balanced s (in_use bs)" and "length bs + length ops \<le> fuel"
    and "\<forall>p \<in> set ops. mop_ok smeta p"
  shows "stops_oom smeta fuel s ops
     \<or> (\<exists>s' bs'. mc_run smeta fuel s ops = Inr s' \<and> listed heap_owns s' bs' \<and> balanced s' (in_use bs'))"
  using assms
proof (induction ops arbitrary: s bs)
  case Nil
  then show ?case by auto
next
  case (Cons p ops)
  have fuel: "length bs < fuel" and p: "mop_ok smeta p" using Cons.prems by auto
  from mc_step_ok [OF Cons.prems(1,2) fuel p] show ?case
  proof (elim disjE exE conjE)
    fix s' bs'
    assume s: "mc_step smeta fuel s p = Inr s'" "listed heap_owns s' bs'" "balanced s' (in_use bs')"
      "length bs' \<le> Suc (length bs)"
    have "length bs' + length ops \<le> fuel" "\<forall>p \<in> set ops. mop_ok smeta p" using Cons.prems s(4) by auto
    from Cons.IH [OF s(2,3) this] show ?case using stops_oom_Cons [OF s(1)] by (auto simp: s(1))
  next
    fix q n
    assume "mc_step smeta fuel s p = Inl Null_deref" "p = MRealloc q n"
      "realloc_oom malloc free smeta s bs q n"
    then have "stops_oom smeta fuel s (p # ops)"
      unfolding stops_oom_def using Cons.prems(1)
      by (intro conjI exI [of _ "[]"] exI [of _ q] exI [of _ n] exI [of _ ops] exI [of _ s]
          exI [of _ bs]) simp_all
    then show ?case by blast
  qed
qed

lemma memcheck_init_listed:
  assumes "0 < low" and "low \<le> limit" and "limit < 2 ^ 63" and "low mod 16 = 0"
  shows "listed heap_owns (memcheck_init (heap_init low limit)) []"
    "balanced (memcheck_init (heap_init low limit)) (in_use [])"
proof -
  have "alloc_rel (heap_init low limit) Map.empty"
    using reachable_alloc_rel [OF reachable_start [OF assms]] .
  then show "listed heap_owns (memcheck_init (heap_init low limit)) []"
    by (simp add: listed_def memcheck_init_def heap_owns_def)
  show "balanced (memcheck_init (heap_init low limit)) (in_use [])"
    by (simp add: balanced_def memcheck_init_def)
qed

section \<open>Properties\<close>

text \<open>C8: over any history of calls of up to \<open>2 ^ 62\<close> bytes, with any pointers, valid or not, the list
  of \<open>meta_data\<close> holds exactly the blocks in use and the total requested is the total freed plus the
  bytes in use, so that the difference of the two totals is the leak. No call faults, with one
  exception: \<open>mini_realloc\<close> of a listed block to another size, when the allocator has no memory for
  the new size once the block has been given back, writes through the null pointer.\<close>

theorem memcheck_leak_exact:
  assumes "0 < low" and "low \<le> limit" and "limit < 2 ^ 63" and "low mod 16 = 0"
    and "\<forall>p \<in> set ops. mop_ok smeta p" and "length ops \<le> fuel"
  defines "s0 \<equiv> memcheck_init (heap_init low limit)"
  shows "(\<exists>s bs. mc_run smeta fuel s0 ops = Inr s \<and> listed heap_owns s bs
          \<and> w64 (mc_requested s) = w64 (mc_freed s + in_use bs))
     \<or> mc_run smeta fuel s0 ops = Inl Null_deref \<and>
         (\<exists>us p n vs s bs. ops = us @ MRealloc p n # vs \<and> mc_run smeta fuel s0 us = Inr s
            \<and> listed heap_owns s bs \<and> realloc_oom malloc free smeta s bs p n)"
proof -
  have "length [] + length ops \<le> fuel" using assms(6) by simp
  from mc_run_ok [OF memcheck_init_listed [OF assms(1-4)] this assms(5)]
  show ?thesis unfolding stops_oom_def balanced_def s0_def by blast
qed

lemma memcheck_leak_exact_witness:
  "\<exists>s bs. mc_run 32 3 (memcheck_init (heap_init 16 4096)) [MMalloc 10, MFree 80, MFree 7] = Inr s
     \<and> listed heap_owns s bs \<and> w64 (mc_requested s) = w64 (mc_freed s + in_use bs)"
proof -
  have "[MMalloc 10, MFree 80, MFree 7] \<noteq> us @ MRealloc p n # vs" for us p n vs
    by (auto simp: Cons_eq_append_conv)
  then show ?thesis
    using memcheck_leak_exact [of 16 4096 "[MMalloc 10, MFree 80, MFree 7]" 32 3] by simp
qed

text \<open>\<open>mini_free\<close> of a pointer that is not the payload of a listed block, a second
  \<open>mini_free\<close> of the same pointer included, changes nothing but the count of invalid addresses; of a listed
  one it takes exactly that block off the list.\<close>

theorem mini_free_classifies:
  assumes "listed heap_owns s bs" and "balanced s (in_use bs)" and "length bs < fuel" and "p \<noteq> 0"
  shows "\<exists>s' bs'. mini_free free smeta fuel s p = Inr s' \<and> listed heap_owns s' bs'
     \<and> (if \<exists>a \<in> fst ` set bs. a + smeta = p
        then fst ` set bs' = fst ` set bs - {p - smeta} \<and> mc_invalid s' = mc_invalid s
        else bs' = bs \<and> mc_invalid s' = w64 (mc_invalid s + 1))"
proof -
  from heap_alloc.mini_free_ok [OF assms(1-3), of smeta p] assms(4) obtain s' bs' where
    "mini_free free smeta fuel s p = Inr s'" "listed heap_owns s' bs'"
    "if \<exists>a \<in> fst ` set bs. a + smeta = p
     then fst ` set bs' = fst ` set bs - {p - smeta} \<and> mc_invalid s' = mc_invalid s
     else bs' = bs \<and> mc_invalid s' = w64 (mc_invalid s + 1)" by auto
  then show ?thesis by blast
qed

lemma mini_free_classifies_witness:
  "\<exists>s' bs'. mini_free free 32 1 (memcheck_init (heap_init 16 4096)) 48 = Inr s' \<and> listed heap_owns s' bs'
     \<and> (if \<exists>a \<in> fst ` set ([] :: (nat \<times> nat) list). a + 32 = 48
        then fst ` set bs' = fst ` set ([] :: (nat \<times> nat) list) - {48 - 32} \<and> mc_invalid s' = mc_invalid (memcheck_init (heap_init 16 4096))
        else bs' = [] \<and> mc_invalid s' = w64 (mc_invalid (memcheck_init (heap_init 16 4096)) + 1))"
  by (rule mini_free_classifies [OF memcheck_init_listed]) simp_all

end
