(* ===== verification/Minixfs.thy ===== *)
theory Minixfs
  imports Prelude "HOL-Library.Word"
begin

unbundle bit_operations_syntax

text \<open>
  \<^verbatim>\<open>src/finding_filesystems/minixfs.c\<close>: permissions, ownership, file creation, reading and
  writing of a small file system. The header with its constants and the library of helpers it
  calls (\<open>minixfs_utils.h\<close>) are not part of the repository: they are the two records \<open>conf\<close> and
  \<open>utils\<close>, arguments of the operations.

  An inode and a data block are named by their numbers. The data region is seen as the bytes of
  each block and, for indirect blocks, as an array of block numbers.
\<close>

section \<open>State\<close>

record inode =
  i_uid :: nat
  i_gid :: nat
  i_mode :: int
  i_size :: nat
  i_direct :: "int list"
  i_indirect :: int
  i_atim :: nat
  i_mtim :: nat
  i_ctim :: nat

record fs =
  inodes :: "nat \<Rightarrow> inode"
  blk_bytes :: "int \<Rightarrow> nat \<Rightarrow> 8 word"
  blk_index :: "int \<Rightarrow> nat \<Rightarrow> int"
  data_map :: "nat \<Rightarrow> 8 word"
  dblock_count :: nat

record conf =
  BLOCK :: nat
  NUM_DIRECT :: nat
  RWX_BITS :: nat
  MODE_BITS :: nat
  DATA_NUM :: int
  NAME_ENTRY :: nat

text \<open>The helpers: an operation that may change the file system takes and returns it.\<close>

record utils =
  get_inode :: "fs \<Rightarrow> string \<Rightarrow> nat option"
  first_unused_inode :: "fs \<Rightarrow> nat"
  parent_directory :: "fs \<Rightarrow> string \<Rightarrow> nat \<times> string"
  valid_filename :: "string \<Rightarrow> bool"
  is_directory :: "fs \<Rightarrow> nat \<Rightarrow> bool"
  init_inode :: "fs \<Rightarrow> nat \<Rightarrow> nat \<Rightarrow> fs"
  add_data_block_to_inode :: "fs \<Rightarrow> nat \<Rightarrow> int \<times> fs"
  add_single_indirect_block :: "fs \<Rightarrow> nat \<Rightarrow> int \<times> fs"
  add_data_block_to_indirect_block :: "fs \<Rightarrow> int \<Rightarrow> int \<times> fs"
  dirent_bytes :: "nat \<Rightarrow> string \<Rightarrow> 8 word list"
  min_blockcount :: "fs \<Rightarrow> string \<Rightarrow> nat \<Rightarrow> int \<times> fs"
  is_virtual_path :: "string \<Rightarrow> string option"

datatype errno = ENOENT | ENOSPC

text \<open>The result of a call: a value, or -1 with \<open>errno\<close>.\<close>

type_synonym 'a call = "errno + 'a"

definition upd_inode :: "fs \<Rightarrow> nat \<Rightarrow> (inode \<Rightarrow> inode) \<Rightarrow> fs" where
  "upd_inode f n g = f\<lparr>inodes := (inodes f)(n := g (inodes f n))\<rparr>"

text \<open>\<open>memcpy\<close> into a block and out of it\<close>

definition put_block :: "fs \<Rightarrow> int \<Rightarrow> nat \<Rightarrow> 8 word list \<Rightarrow> fs" where
  "put_block f b pos xs = f\<lparr>blk_bytes := (\<lambda>c k.
     if c = b \<and> pos \<le> k \<and> k < pos + length xs then xs ! (k - pos) else blk_bytes f c k)\<rparr>"

definition get_block :: "fs \<Rightarrow> int \<Rightarrow> nat \<Rightarrow> nat \<Rightarrow> 8 word list" where
  "get_block f b pos n = map (\<lambda>i. blk_bytes f b (pos + i)) [0..<n]"

section \<open>chmod and chown\<close>

definition minixfs_chmod :: "conf \<Rightarrow> utils \<Rightarrow> nat \<Rightarrow> fs \<Rightarrow> string \<Rightarrow> int \<Rightarrow> fs call" where
  "minixfs_chmod c u now f path new_permissions =
     (case get_inode u f path of
        None \<Rightarrow> Inl ENOENT
      | Some n \<Rightarrow>
          let type = drop_bit (RWX_BITS c) (i_mode (inodes f n));
              mode = take_bit (MODE_BITS c) (push_bit (RWX_BITS c) type OR new_permissions)
          in Inr (upd_inode f n (\<lambda>i. i\<lparr>i_mode := mode, i_ctim := now\<rparr>)))"

text \<open>\<open>(uid_t)-1\<close>\<close>

definition no_id :: nat where "no_id = 2 ^ 32 - 1"

definition minixfs_chown :: "utils \<Rightarrow> nat \<Rightarrow> fs \<Rightarrow> string \<Rightarrow> nat \<Rightarrow> nat \<Rightarrow> fs call" where
  "minixfs_chown u now f path owner grp =
     (case get_inode u f path of
        None \<Rightarrow> Inl ENOENT
      | Some n \<Rightarrow>
          let f = (if owner \<noteq> no_id
                   then upd_inode f n (\<lambda>i. i\<lparr>i_uid := owner, i_ctim := now\<rparr>) else f);
              f = (if grp \<noteq> no_id
                   then upd_inode f n (\<lambda>i. i\<lparr>i_gid := grp, i_ctim := now\<rparr>) else f)
          in Inr f)"

section \<open>Creation\<close>

text \<open>
  The block that takes the new directory entry: \<open>blocknum\<close> is the block of the end of the
  directory. \<open>None\<close> is the return with \<open>ENOSPC\<close>.
\<close>

definition entry_block :: "conf \<Rightarrow> utils \<Rightarrow> fs \<Rightarrow> nat \<Rightarrow> nat \<Rightarrow> nat \<Rightarrow> int option \<times> fs" where
  "entry_block c u f parent blocknum idx =
     (if idx = 0 then
        if blocknum < NUM_DIRECT c then
          case add_data_block_to_inode u f parent of (b, f) \<Rightarrow> (Some b, f)
        else
          case (if i_indirect (inodes f parent) = -1
                then add_single_indirect_block u f parent else (0, f)) of (err, f) \<Rightarrow>
          if err = -1 then (None, f)
          else case add_data_block_to_indirect_block u f (i_indirect (inodes f parent)) of (b, f) \<Rightarrow>
            if b = -1 then (None, f) else (Some b, f)
      else if blocknum < NUM_DIRECT c then (Some (i_direct (inodes f parent) ! blocknum), f)
      else (Some (blk_index f (i_indirect (inodes f parent)) (blocknum - NUM_DIRECT c)), f))"

definition minixfs_create_inode_for_path :: "conf \<Rightarrow> utils \<Rightarrow> fs \<Rightarrow> string \<Rightarrow> nat option \<times> fs" where
  "minixfs_create_inode_for_path c u f path =
     (if get_inode u f path \<noteq> None then (None, f)
      else
        let num = first_unused_inode u f;
            (parent, filename) = parent_directory u f path
        in if valid_filename u filename \<and> is_directory u f parent then
             let f = init_inode u f parent num;
                 blocknum = i_size (inodes f parent) div BLOCK c;
                 idx = i_size (inodes f parent) mod BLOCK c
             in case entry_block c u f parent blocknum idx of
                  (None, f) \<Rightarrow> (None, f)
                | (Some datablock, f) \<Rightarrow>
                    let f = upd_inode f parent (\<lambda>i. i\<lparr>i_size := i_size i + NAME_ENTRY c\<rparr>);
                        f = put_block f datablock idx (dirent_bytes u num filename)
                    in (Some num, f)
           else (None, f))"

section \<open>The virtual file\<close>

text \<open>\<open>%zd\<close>\<close>

fun nat_dec :: "nat \<Rightarrow> string" where
  "nat_dec n = (if n < 10 then [char_of (48 + n)] else nat_dec (n div 10) @ [char_of (48 + n mod 10)])"

declare nat_dec.simps [simp del]

definition int_dec :: "int \<Rightarrow> string" where
  "int_dec n = (if n < 0 then CHR ''-'' # nat_dec (nat (- n)) else nat_dec (nat n))"

definition block_info_string :: "conf \<Rightarrow> int \<Rightarrow> string" where
  "block_info_string c num_used_blocks =
     ''Free blocks: '' @ int_dec (DATA_NUM c - num_used_blocks) @ [CHR 0x0A]
     @ ''Used blocks: '' @ int_dec num_used_blocks @ [CHR 0x0A]"

definition used_blocks :: "fs \<Rightarrow> nat" where
  "used_blocks f = length (filter (\<lambda>i. data_map f i \<noteq> 0) [0..<dblock_count f])"

text \<open>The bytes that are copied to the buffer, with the new offset. The \<open>memcpy\<close> runs past the
  string when the sum of count and offset has wrapped around.\<close>

definition minixfs_virtual_read :: "conf \<Rightarrow> fs \<Rightarrow> string \<Rightarrow> nat \<Rightarrow> nat \<Rightarrow> (string \<times> nat) call res" where
  "minixfs_virtual_read c f path count off =
     (if path = ''info'' then
        let file = block_info_string c (int (used_blocks f)) in
        if length file < off then Inr (Inr ([], off))
        else
          let count = (if length file < w64 (count + off) then length file - off else count)
          in rbind (guard (off + count \<le> length file) Bad_access) (\<lambda>_.
             Inr (Inr (take count (drop off file), off + count)))
      else Inr (Inl ENOENT))"

section \<open>Writing\<close>

text \<open>
  The state of the copy loops: the file system, the rest of the buffer (its length is \<open>count\<close>)
  and the number of bytes copied. \<open>arr\<close> reads the array of block numbers that \<open>block_array\<close>
  points to.
\<close>

type_synonym wstate = "fs \<times> 8 word list \<times> nat"

definition direct_at :: "conf \<Rightarrow> inode \<Rightarrow> nat \<Rightarrow> int res" where
  "direct_at c nd i = (if i < NUM_DIRECT c then Inr (i_direct nd ! i) else Inl Bad_access)"

definition indirect_at :: "fs \<Rightarrow> inode \<Rightarrow> nat \<Rightarrow> int res" where
  "indirect_at f nd i = (if i_indirect nd = -1 then Inl Bad_access else Inr (blk_index f (i_indirect nd) i))"

text \<open>The first, possibly partial, block, and the loop over the \<open>n\<close> blocks from \<open>i\<close> on.\<close>

definition write_at :: "(nat \<Rightarrow> int res) \<Rightarrow> nat \<Rightarrow> nat \<Rightarrow> nat \<Rightarrow> wstate \<Rightarrow> wstate res" where
  "write_at arr i shift sz = (\<lambda>(f, buf, copy).
     let numcpy = (if length buf < sz then length buf else sz) in
     rbind (arr i) (\<lambda>b.
     Inr (put_block f b shift (take numcpy buf), drop numcpy buf, copy + numcpy)))"

primrec write_loop :: "nat \<Rightarrow> (nat \<Rightarrow> int res) \<Rightarrow> nat \<Rightarrow> nat \<Rightarrow> wstate \<Rightarrow> wstate res" where
  "write_loop bs arr i 0 s = Inr s"
| "write_loop bs arr i (Suc n) s = rbind (write_at arr i 0 bs s) (\<lambda>s. write_loop bs arr (i + 1) n s)"

definition write_blocks :: "conf \<Rightarrow> inode \<Rightarrow> nat \<Rightarrow> nat \<Rightarrow> nat \<Rightarrow> wstate \<Rightarrow> wstate res" where
  "write_blocks c nd blockstart shiftstart totalblock s =
     (let bs = BLOCK c; direct = direct_at c nd; indirect = indirect_at (fst s) nd in
      if totalblock \<le> NUM_DIRECT c then
        rbind (write_at direct blockstart shiftstart (bs - shiftstart) s) (\<lambda>s.
        write_loop bs direct (blockstart + 1) (totalblock - (blockstart + 1)) s)
      else if blockstart < NUM_DIRECT c then
        rbind (write_at direct blockstart shiftstart (bs - shiftstart) s) (\<lambda>s.
        rbind (write_loop bs direct (blockstart + 1) (NUM_DIRECT c - (blockstart + 1)) s) (\<lambda>s.
        write_loop bs indirect 0 (totalblock - NUM_DIRECT c) s))
      else
        let blockstart = blockstart - NUM_DIRECT c; totalblock = totalblock - NUM_DIRECT c in
        rbind (write_at indirect blockstart shiftstart (bs - shiftstart) s) (\<lambda>s.
        write_loop bs indirect (blockstart + 1) (totalblock - (blockstart + 1)) s))"

definition total_blocks :: "conf \<Rightarrow> nat \<Rightarrow> nat \<Rightarrow> nat" where
  "total_blocks c off count =
     (let remain = w64 (off + count) mod BLOCK c; total = w64 (off + count) div BLOCK c
      in if remain \<noteq> 0 then total + 1 else total)"

definition minixfs_write :: "conf \<Rightarrow> utils \<Rightarrow> nat \<Rightarrow> fs \<Rightarrow> string \<Rightarrow> 8 word list \<Rightarrow> nat
    \<Rightarrow> (nat \<times> nat \<times> fs) call res" where
  "minixfs_write c u now f path buf off =
     (let (node, f) = (case get_inode u f path of
            None \<Rightarrow> minixfs_create_inode_for_path c u f path
          | Some n \<Rightarrow> (Some n, f));
          blockstart = off div BLOCK c; shiftstart = off mod BLOCK c;
          totalblock = total_blocks c off (length buf);
          (err, f) = min_blockcount u f path totalblock
      in if err = -1 then Inr (Inl ENOSPC)
         else case node of
           None \<Rightarrow> Inl Null_deref
         | Some n \<Rightarrow>
             rbind (write_blocks c (inodes f n) blockstart shiftstart totalblock (f, buf, 0))
               (\<lambda>(f, rest, copy).
             rbind (guard (rest = []) Assert_failed) (\<lambda>_.
             Inr (Inr (copy, off + copy,
               upd_inode f n (\<lambda>i. i\<lparr>i_size := w64 (i_size i + copy), i_mtim := now, i_atim := now\<rparr>))))))"

section \<open>Reading\<close>

text \<open>The state of the copy loops: what has been copied, and the \<open>count\<close> that is left.\<close>

type_synonym rstate = "8 word list \<times> nat"

definition read_at :: "fs \<Rightarrow> (nat \<Rightarrow> int res) \<Rightarrow> nat \<Rightarrow> nat \<Rightarrow> nat \<Rightarrow> rstate \<Rightarrow> rstate res" where
  "read_at f arr i shift sz = (\<lambda>(acc, count).
     let numcpy = (if count < sz then count else sz) in
     rbind (arr i) (\<lambda>b. Inr (acc @ get_block f b shift numcpy, count - numcpy)))"

primrec read_loop :: "fs \<Rightarrow> nat \<Rightarrow> (nat \<Rightarrow> int res) \<Rightarrow> nat \<Rightarrow> nat \<Rightarrow> rstate \<Rightarrow> rstate res" where
  "read_loop f bs arr i 0 s = Inr s"
| "read_loop f bs arr i (Suc n) s = rbind (read_at f arr i 0 bs s) (\<lambda>s. read_loop f bs arr (i + 1) n s)"

definition read_blocks :: "conf \<Rightarrow> fs \<Rightarrow> inode \<Rightarrow> nat \<Rightarrow> nat \<Rightarrow> nat \<Rightarrow> nat \<Rightarrow> rstate res" where
  "read_blocks c f nd blockstart shiftstart totalblock count =
     (let bs = BLOCK c; direct = direct_at c nd; indirect = indirect_at f nd in
      if totalblock \<le> NUM_DIRECT c then
        rbind (read_at f direct blockstart shiftstart (bs - shiftstart) ([], count)) (\<lambda>s.
        read_loop f bs direct (blockstart + 1) (totalblock - (blockstart + 1)) s)
      else if blockstart < NUM_DIRECT c then
        rbind (read_at f direct blockstart shiftstart (bs - shiftstart) ([], count)) (\<lambda>s.
        rbind (read_loop f bs direct (blockstart + 1) (NUM_DIRECT c - (blockstart + 1)) s) (\<lambda>s.
        read_loop f bs indirect 0 (totalblock - NUM_DIRECT c) s))
      else
        let blockstart = blockstart - NUM_DIRECT c; totalblock = totalblock - NUM_DIRECT c in
        rbind (read_at f indirect blockstart shiftstart (bs - shiftstart) ([], count)) (\<lambda>s.
        read_loop f bs indirect (blockstart + 1) (totalblock - (blockstart + 1)) s))"

text \<open>The bytes of the buffer, the new offset, and the file system. A virtual read yields
  characters, given here by their codes.\<close>

definition minixfs_read :: "conf \<Rightarrow> utils \<Rightarrow> nat \<Rightarrow> fs \<Rightarrow> string \<Rightarrow> nat \<Rightarrow> nat
    \<Rightarrow> (8 word list \<times> nat \<times> fs) call res" where
  "minixfs_read c u now f path count off =
     (case is_virtual_path u path of
        Some vp \<Rightarrow> rbind (minixfs_virtual_read c f vp count off) (\<lambda>r.
          Inr (case r of Inl e \<Rightarrow> Inl e | Inr (s, off') \<Rightarrow> Inr (map of_char s, off', f)))
      | None \<Rightarrow>
          (case get_inode u f path of
             None \<Rightarrow> Inr (Inl ENOENT)
           | Some n \<Rightarrow>
               let stamp = (\<lambda>i. i\<lparr>i_atim := now\<rparr>); sz = i_size (inodes f n) in
               if signed64 sz \<le> int off then Inr (Inr ([], off, upd_inode f n stamp))
               else
                 let count = (if sz < w64 (count + off) then sz - off else count) in
                 rbind (read_blocks c f (inodes f n) (off div BLOCK c) (off mod BLOCK c)
                   (total_blocks c off count) count) (\<lambda>(acc, rest).
                 rbind (guard (rest = 0) Assert_failed) (\<lambda>_.
                 Inr (Inr (acc, off + length acc, upd_inode f n stamp))))))"

end
