(* ===== verification/Minixfs_Correct.thy ===== *)
theory Minixfs_Correct
  imports Minixfs
begin

text \<open>
  Reading and writing of \<^verbatim>\<open>src/finding_filesystems/minixfs.c\<close> against the file as one
  sequence of bytes: the three cases of the code (all blocks direct, across the border, all
  blocks indirect) are one reference, the byte at a position of the file.
\<close>

section \<open>The file as a sequence of bytes\<close>

definition file_block :: "conf \<Rightarrow> fs \<Rightarrow> inode \<Rightarrow> nat \<Rightarrow> int" where
  "file_block c f nd i = (if i < NUM_DIRECT c then i_direct nd ! i
     else blk_index f (i_indirect nd) (i - NUM_DIRECT c))"

definition file_byte :: "conf \<Rightarrow> fs \<Rightarrow> inode \<Rightarrow> nat \<Rightarrow> 8 word" where
  "file_byte c f nd p = blk_bytes f (file_block c f nd (p div BLOCK c)) (p mod BLOCK c)"

text \<open>A file whose first \<open>n\<close> blocks are there and distinct.\<close>

definition has_blocks :: "conf \<Rightarrow> fs \<Rightarrow> inode \<Rightarrow> nat \<Rightarrow> bool" where
  "has_blocks c f nd n \<longleftrightarrow> inj_on (file_block c f nd) {..<n} \<and> (NUM_DIRECT c < n \<longrightarrow> i_indirect nd \<noteq> -1)"

lemma direct_at_block: "i < NUM_DIRECT c \<Longrightarrow> direct_at c nd i = Inr (file_block c f nd i)"
  by (simp add: direct_at_def file_block_def)

lemma indirect_at_block:
  "i_indirect nd \<noteq> -1 \<Longrightarrow> indirect_at f nd i = Inr (file_block c f nd (NUM_DIRECT c + i))"
  by (simp add: indirect_at_def file_block_def)

section \<open>The copy loops of minixfs_write\<close>

text \<open>After \<open>cp\<close> bytes of \<open>buf\<close> have been written from the position \<open>off\<close> on; \<open>FB\<close> gives the
  block of the file with an index below \<open>T\<close>.\<close>

definition wrote :: "nat \<Rightarrow> (nat \<Rightarrow> int) \<Rightarrow> nat \<Rightarrow> fs \<Rightarrow> 8 word list \<Rightarrow> nat \<Rightarrow> wstate \<Rightarrow> nat \<Rightarrow> bool" where
  "wrote bs FB T f0 buf off s cp \<longleftrightarrow> (\<exists>f. s = (f, drop cp buf, cp) \<and> cp \<le> length buf
     \<and> f = f0\<lparr>blk_bytes := blk_bytes f\<rparr>
     \<and> (\<forall>i < T. \<forall>k < bs. blk_bytes f (FB i) k =
          (if off \<le> i * bs + k \<and> i * bs + k < off + cp then buf ! (i * bs + k - off)
           else blk_bytes f0 (FB i) k))
     \<and> (\<forall>b. b \<notin> FB ` {..<T} \<longrightarrow> blk_bytes f b = blk_bytes f0 b))"

lemma wrote_start: "wrote bs FB T f0 buf off (f0, buf, 0) 0"
  by (auto simp: wrote_def intro!: exI [of _ f0])

text \<open>The copy has reached the position \<open>p\<close>, or the end of the buffer.\<close>

definition reached :: "8 word list \<Rightarrow> nat \<Rightarrow> nat \<Rightarrow> nat \<Rightarrow> bool" where
  "reached buf off cp p \<longleftrightarrow> off + cp = p \<or> cp = length buf \<and> off + cp \<le> p"

text \<open>Writing the next \<open>n\<close> bytes of the buffer at their place in block \<open>i\<close> extends what has been
  written from \<open>cp\<close> to \<open>cp + n\<close> bytes.\<close>

lemma block_disjoint:
  fixes bs i j k :: nat
  assumes "k < bs" and "j \<noteq> i"
  shows "j * bs + k < i * bs \<or> (i + 1) * bs \<le> j * bs"
proof (cases "j < i")
  case True
  then have "(j + 1) * bs \<le> i * bs" by (intro mult_le_mono1) simp
  then show ?thesis using assms by simp
next
  case False
  then show ?thesis using assms by (intro disjI2 mult_le_mono1) simp
qed

lemma put_block_extends:
  fixes bs off cp :: nat
  assumes f: "\<And>j k. j < T \<Longrightarrow> k < bs \<Longrightarrow> blk_bytes f (FB j) k =
       (if off \<le> j * bs + k \<and> j * bs + k < off + cp then buf ! (j * bs + k - off) else blk_bytes f0 (FB j) k)"
    and i: "i < T" and inj: "inj_on FB {..<T}" and cp: "cp \<le> length buf"
    and n: "n \<le> length buf - cp" "shift + n \<le> bs" "n \<noteq> 0 \<Longrightarrow> off + cp = i * bs + shift"
    and jk: "j < T" "k < bs"
  shows "blk_bytes (put_block f (FB i) shift (take n (drop cp buf))) (FB j) k =
    (if off \<le> j * bs + k \<and> j * bs + k < off + (cp + n)
     then buf ! (j * bs + k - off) else blk_bytes f0 (FB j) k)"
proof -
  consider (none) "n = 0" | (here) "n \<noteq> 0" "j = i" "shift \<le> k \<and> k < shift + n"
    | (beside) "n \<noteq> 0" "j = i" "\<not> (shift \<le> k \<and> k < shift + n)" | (other) "n \<noteq> 0" "j \<noteq> i" by blast
  then show ?thesis
  proof cases
    case none
    then show ?thesis using f jk by (auto simp: put_block_def)
  next
    case here
    then have at: "i * bs + k - off = cp + (k - shift)" "off \<le> i * bs + k" "i * bs + k < off + (cp + n)"
      and "k - shift < n" using n(3) by auto
    then have "take n (drop cp buf) ! (k - shift) = buf ! (i * bs + k - off)" using cp by simp
    then show ?thesis using here n(1,2) at(2,3) by (simp add: put_block_def)
  next
    case beside
    then have "i * bs + k < off + cp \<longleftrightarrow> i * bs + k < off + (cp + n)" using n(3) by auto
    then show ?thesis using beside n f [OF jk] by (auto simp: put_block_def)
  next
    case other
    then have "FB j \<noteq> FB i" using inj i jk by (auto simp: inj_on_def)
    moreover have "j * bs + k < off + cp \<longleftrightarrow> j * bs + k < off + (cp + n)"
      using block_disjoint [OF jk(2) other(2)] n(2,3) other(1) by auto
    ultimately show ?thesis using f [OF jk] by (simp add: put_block_def)
  qed
qed

lemma write_at_wrote:
  assumes w: "wrote bs FB T f0 buf off s cp" and i: "i < T" and inj: "inj_on FB {..<T}"
    and arr: "arr i = Inr (FB i)" and sh: "shift < bs" and r: "reached buf off cp (i * bs + shift)"
  obtains s' cp' where "write_at arr i shift (bs - shift) s = Inr s'" "wrote bs FB T f0 buf off s' cp'"
    "reached buf off cp' ((i + 1) * bs)"
proof -
  from w obtain f where f: "s = (f, drop cp buf, cp)" "cp \<le> length buf" "f = f0\<lparr>blk_bytes := blk_bytes f\<rparr>"
    "\<And>j k. j < T \<Longrightarrow> k < bs \<Longrightarrow> blk_bytes f (FB j) k =
       (if off \<le> j * bs + k \<and> j * bs + k < off + cp then buf ! (j * bs + k - off) else blk_bytes f0 (FB j) k)"
    "\<And>b. b \<notin> FB ` {..<T} \<Longrightarrow> blk_bytes f b = blk_bytes f0 b" by (auto simp: wrote_def)
  define n where "n = (if length buf - cp < bs - shift then length buf - cp else bs - shift)"
  let ?f = "put_block f (FB i) shift (take n (drop cp buf))"
  have n: "n \<le> length buf - cp" "shift + n \<le> bs" using sh by (auto simp: n_def)
  have run: "write_at arr i shift (bs - shift) s = Inr (?f, drop (cp + n) buf, cp + n)"
    by (simp add: write_at_def f(1) arr n_def Let_def add.commute)
  have "blk_bytes ?f (FB j) k = (if off \<le> j * bs + k \<and> j * bs + k < off + (cp + n)
      then buf ! (j * bs + k - off) else blk_bytes f0 (FB j) k)" if jk: "j < T" "k < bs" for j k
    by (rule put_block_extends [OF f(4) i inj f(2) n _ jk]) (use r n(1) in \<open>auto simp: reached_def\<close>)
  moreover have "blk_bytes ?f b = blk_bytes f0 b" if "b \<notin> FB ` {..<T}" for b
  proof -
    have "b \<noteq> FB i" using that i by auto
    then show ?thesis using f(5) [OF that] by (simp add: put_block_def)
  qed
  moreover have "?f = f0\<lparr>blk_bytes := blk_bytes ?f\<rparr>" by (subst f(3)) (simp add: put_block_def cong: if_cong)
  ultimately have "wrote bs FB T f0 buf off (?f, drop (cp + n) buf, cp + n) (cp + n)"
    using n(1) f(2) unfolding wrote_def by (intro exI [of _ ?f]) auto
  moreover have "reached buf off (cp + n) ((i + 1) * bs)"
    using r sh f(2) by (auto simp: reached_def n_def)
  ultimately show thesis using run that by blast
qed

lemma write_loop_wrote:
  assumes "wrote bs FB T f0 buf off s cp" and "i + n \<le> T" and "inj_on FB {..<T}" and "0 < bs"
    and "\<forall>j. i \<le> j \<and> j < i + n \<longrightarrow> arr (j - d) = Inr (FB j)" and "d \<le> i"
    and "reached buf off cp (i * bs)"
  shows "\<exists>s' cp'. write_loop bs arr (i - d) n s = Inr s' \<and> wrote bs FB T f0 buf off s' cp'
     \<and> reached buf off cp' ((i + n) * bs)"
  using assms
proof (induction n arbitrary: i s cp)
  case 0
  then show ?case by auto
next
  case (Suc n)
  have "wrote bs FB T f0 buf off s cp" "i < T" using Suc.prems by auto
  moreover have "(\<lambda>k. arr (k - d)) i = Inr (FB i)" using Suc.prems(5) by simp
  ultimately obtain s1 cp1 where
    s1: "write_at (\<lambda>k. arr (k - d)) i 0 (bs - 0) s = Inr s1" "wrote bs FB T f0 buf off s1 cp1"
      "reached buf off cp1 ((i + 1) * bs)"
    by (rule write_at_wrote [OF _ _ Suc.prems(3)]) (use Suc.prems in auto)
  have "write_at arr (i - d) 0 bs s = Inr s1" using s1(1) by (simp add: write_at_def)
  moreover have "\<exists>s' cp'. write_loop bs arr (i + 1 - d) n s1 = Inr s' \<and> wrote bs FB T f0 buf off s' cp'
     \<and> reached buf off cp' ((i + 1 + n) * bs)"
    using Suc.prems s1 by (intro Suc.IH) auto
  ultimately show ?case using Suc.prems(6) by (simp add: Suc_diff_le)
qed

lemma total_blocks_bounds:
  assumes "0 < BLOCK c" and "off + n < 2 ^ 64" and "0 < n"
  shows "off + n \<le> total_blocks c off n * BLOCK c" "off div BLOCK c < total_blocks c off n"
    "(total_blocks c off n - 1) * BLOCK c < off + n"
proof -
  let ?b = "BLOCK c" and ?q = "(off + n) div BLOCK c" and ?r = "(off + n) mod BLOCK c"
  have t: "total_blocks c off n = (if ?r \<noteq> 0 then ?q + 1 else ?q)"
    using assms(2) by (simp add: total_blocks_def w64_id Let_def)
  have e: "?q * ?b + ?r = off + n" by simp
  have r: "?r < ?b" using assms(1) by simp
  show "off + n \<le> total_blocks c off n * ?b" proof (cases "?r = 0")
    case True
    then show ?thesis using e by (simp add: t)
  next
    case False
    have "off + n \<le> ?q * ?b + ?b" using e r by linarith
    then show ?thesis using False by (simp add: t)
  qed
  then have "off < total_blocks c off n * ?b" using assms(3) by linarith
  then show "off div ?b < total_blocks c off n" by (simp add: div_less_iff_less_mult assms(1))
  show "(total_blocks c off n - 1) * ?b < off + n"
  proof (cases "?r = 0")
    case True
    then have "?q * ?b = off + n" using e by simp
    then have "0 < ?q" using assms(3) by (cases "?q = 0") auto
    then have "(?q - 1) * ?b < ?q * ?b" using assms(1) by simp
    then show ?thesis using True \<open>?q * ?b = off + n\<close> by (simp add: t)
  next
    case False
    then have "?q * ?b < off + n" using e by linarith
    then show ?thesis using False by (simp add: t)
  qed
qed

lemma div_mod_mult: "(p div b) * b + p mod b = (p :: nat)"
  by simp

lemma write_blocks_wrote:
  fixes c off
  assumes bs: "0 < BLOCK c" and hb: "has_blocks c f nd T" and T: "T = total_blocks c off (length buf)"
    and len: "off + length buf < 2 ^ 64" and ne: "buf \<noteq> []"
  obtains f' where "write_blocks c nd (off div BLOCK c) (off mod BLOCK c) T (f, buf, 0)
      = Inr (f', [], length buf)"
    "wrote (BLOCK c) (file_block c f nd) T f buf off (f', [], length buf) (length buf)"
proof -
  note concl = that
  let ?bs = "BLOCK c" and ?FB = "file_block c f nd" and ?N = "NUM_DIRECT c"
  let ?i = "off div ?bs" and ?sh = "off mod ?bs"
  have tb: "off + length buf \<le> T * ?bs" "?i < T" using total_blocks_bounds(1,2) [OF bs len] ne T by auto
  have inj: "inj_on ?FB {..<T}" using hb by (simp add: has_blocks_def)
  have sh: "?sh < ?bs" using bs by simp
  have st: "reached buf off 0 (?i * ?bs + ?sh)" by (simp add: reached_def)
  have dir: "direct_at c nd j = Inr (?FB j)" if "j < ?N" for j using that by (rule direct_at_block)
  have ind: "indirect_at f nd (j - ?N) = Inr (?FB j)" if "?N \<le> j" "?N < T" for j
    using that hb indirect_at_block [of nd f "j - ?N" c] by (simp add: has_blocks_def)
  have finish: thesis if "write_blocks c nd ?i ?sh T (f, buf, 0) = Inr s'" "wrote ?bs ?FB T f buf off s' cp"
    "reached buf off cp (T * ?bs)" for s' cp
  proof -
    from that(2) obtain f' where f': "s' = (f', drop cp buf, cp)" "cp \<le> length buf" by (auto simp: wrote_def)
    have "cp = length buf" using that(3) f'(2) tb(1) by (auto simp: reached_def)
    with that(1,2) f' show thesis by (intro concl [of f']) auto
  qed
  note step = write_at_wrote [OF wrote_start tb(2) inj _ sh st]
  show thesis
  proof (cases "T \<le> ?N")
    case True
    from step [of "direct_at c nd"] dir tb(2) True obtain s1 cp1 where
      s1: "write_at (direct_at c nd) ?i ?sh (?bs - ?sh) (f, buf, 0) = Inr s1" "wrote ?bs ?FB T f buf off s1 cp1"
        "reached buf off cp1 ((?i + 1) * ?bs)" by (metis order_less_le_trans)
    obtain s2 cp2 where s2: "write_loop ?bs (direct_at c nd) (?i + 1) (T - (?i + 1)) s1 = Inr s2"
        "wrote ?bs ?FB T f buf off s2 cp2" "reached buf off cp2 (T * ?bs)"
      using write_loop_wrote [OF s1(2) _ inj bs, of "?i + 1" "T - (?i + 1)" "direct_at c nd" 0] s1(3) tb(2) True dir
      by auto
    show thesis by (rule finish [OF _ s2(2,3)]) (use True s1(1) s2(1) in \<open>simp add: write_blocks_def Let_def\<close>)
  next
    case F: False
    show thesis
    proof (cases "?i < ?N")
      case True
      from step [of "direct_at c nd"] dir True obtain s1 cp1 where
        s1: "write_at (direct_at c nd) ?i ?sh (?bs - ?sh) (f, buf, 0) = Inr s1" "wrote ?bs ?FB T f buf off s1 cp1"
          "reached buf off cp1 ((?i + 1) * ?bs)" by metis
      obtain s2 cp2 where s2: "write_loop ?bs (direct_at c nd) (?i + 1) (?N - (?i + 1)) s1 = Inr s2"
          "wrote ?bs ?FB T f buf off s2 cp2" "reached buf off cp2 (?N * ?bs)"
        using write_loop_wrote [OF s1(2) _ inj bs, of "?i + 1" "?N - (?i + 1)" "direct_at c nd" 0] s1(3) True F dir
        by auto
      obtain s3 cp3 where s3: "write_loop ?bs (indirect_at f nd) 0 (T - ?N) s2 = Inr s3"
          "wrote ?bs ?FB T f buf off s3 cp3" "reached buf off cp3 (T * ?bs)"
        using write_loop_wrote [OF s2(2) _ inj bs, of ?N "T - ?N" "indirect_at f nd" ?N] s2(3) F ind by auto
      show thesis
        by (rule finish [OF _ s3(2,3)]) (use True F s1(1) s2(1) s3(1) in \<open>simp add: write_blocks_def Let_def\<close>)
    next
      case False
      from step [of "\<lambda>k. indirect_at f nd (k - ?N)"] ind False F obtain s1 cp1 where
        s1: "write_at (\<lambda>k. indirect_at f nd (k - ?N)) ?i ?sh (?bs - ?sh) (f, buf, 0) = Inr s1"
          "wrote ?bs ?FB T f buf off s1 cp1" "reached buf off cp1 ((?i + 1) * ?bs)" by (metis not_le)
      have s1': "write_at (indirect_at f nd) (?i - ?N) ?sh (?bs - ?sh) (f, buf, 0) = Inr s1"
        using s1(1) by (simp add: write_at_def)
      obtain s2 cp2 where s2: "write_loop ?bs (indirect_at f nd) (?i + 1 - ?N) (T - (?i + 1)) s1 = Inr s2"
          "wrote ?bs ?FB T f buf off s2 cp2" "reached buf off cp2 (T * ?bs)"
        using write_loop_wrote [OF s1(2) _ inj bs, of "?i + 1" "T - (?i + 1)" "indirect_at f nd" ?N] s1(3) tb(2) F False ind
        by auto
      have "T - ?N - Suc (?i - ?N) = T - (?i + 1)" "Suc (?i - ?N) = ?i + 1 - ?N" using False by auto
      then show thesis
        by (intro finish [OF _ s2(2,3)]) (use False F s1' s2(1) in \<open>simp add: write_blocks_def Let_def\<close>)
    qed
  qed
qed

section \<open>The copy loops of minixfs_read\<close>

definition got :: "nat \<Rightarrow> (nat \<Rightarrow> int) \<Rightarrow> fs \<Rightarrow> nat \<Rightarrow> nat \<Rightarrow> rstate \<Rightarrow> nat \<Rightarrow> bool" where
  "got bs FB f off n s cp \<longleftrightarrow> cp \<le> n
     \<and> s = (map (\<lambda>p. blk_bytes f (FB (p div bs)) (p mod bs)) [off..<off + cp], n - cp)"

definition gone :: "nat \<Rightarrow> nat \<Rightarrow> nat \<Rightarrow> nat \<Rightarrow> bool" where
  "gone n off cp p \<longleftrightarrow> off + cp = p \<or> cp = n \<and> off + cp \<le> p"

lemma read_at_got:
  assumes g: "got bs FB f off n s cp" and arr: "arr i = Inr (FB i)" and sh: "shift < bs"
    and r: "gone n off cp (i * bs + shift)"
  obtains s' cp' where "read_at f arr i shift (bs - shift) s = Inr s'" "got bs FB f off n s' cp'"
    "gone n off cp' ((i + 1) * bs)"
proof -
  define k where "k = (if n - cp < bs - shift then n - cp else bs - shift)"
  have k: "cp + k \<le> n" "shift + k \<le> bs" using g sh by (auto simp: k_def got_def)
  let ?B = "\<lambda>p. blk_bytes f (FB (p div bs)) (p mod bs)"
  have "get_block f (FB i) shift k = map ?B [off + cp..<off + cp + k]"
  proof (cases "k = 0")
    case True
    then show ?thesis by (simp add: get_block_def)
  next
    case False
    then have at: "off + cp = i * bs + shift" using r k(1) by (auto simp: gone_def)
    show ?thesis
    proof (rule nth_equalityI)
      fix j assume "j < length (get_block f (FB i) shift k)"
      then have j: "j < k" by (simp add: get_block_def)
      have p: "off + cp + j = i * bs + (shift + j)" "shift + j < bs" using at j k(2) by auto
      have "(off + cp + j) div bs = i" "(off + cp + j) mod bs = shift + j"
        using p(2) unfolding p(1) by simp_all
      then show "get_block f (FB i) shift k ! j = map ?B [off + cp..<off + cp + k] ! j"
        using j by (simp add: get_block_def)
    qed (simp add: get_block_def)
  qed
  moreover have "[off..<off + (cp + k)] = [off..<off + cp] @ [off + cp..<off + cp + k]"
    by (metis add.assoc le_add1 upt_add_eq_append)
  ultimately have "read_at f arr i shift (bs - shift) s =
      Inr (map ?B [off..<off + (cp + k)], n - (cp + k))"
    using g arr by (simp add: read_at_def got_def k_def Let_def)
  moreover have "gone n off (cp + k) ((i + 1) * bs)"
    using r sh g by (auto simp: gone_def k_def got_def)
  ultimately show thesis using k(1) by (intro that [of _ "cp + k"]) (auto simp: got_def)
qed

lemma read_loop_got:
  assumes "got bs FB f off n s cp" and "0 < bs"
    and "\<forall>j. i \<le> j \<and> j < i + m \<longrightarrow> arr (j - d) = Inr (FB j)" and "d \<le> i" and "gone n off cp (i * bs)"
  shows "\<exists>s' cp'. read_loop f bs arr (i - d) m s = Inr s' \<and> got bs FB f off n s' cp'
     \<and> gone n off cp' ((i + m) * bs)"
  using assms
proof (induction m arbitrary: i s cp)
  case 0
  then show ?case by auto
next
  case (Suc m)
  have "(\<lambda>k. arr (k - d)) i = Inr (FB i)" using Suc.prems(3) by simp
  with Suc.prems(1) obtain s1 cp1 where
    s1: "read_at f (\<lambda>k. arr (k - d)) i 0 (bs - 0) s = Inr s1" "got bs FB f off n s1 cp1"
      "gone n off cp1 ((i + 1) * bs)"
    by (rule read_at_got) (use Suc.prems in auto)
  have "read_at f arr (i - d) 0 bs s = Inr s1" using s1(1) by (simp add: read_at_def)
  moreover have "\<exists>s' cp'. read_loop f bs arr (i + 1 - d) m s1 = Inr s' \<and> got bs FB f off n s' cp'
     \<and> gone n off cp' ((i + 1 + m) * bs)"
    using Suc.prems s1 by (intro Suc.IH) auto
  ultimately show ?case using Suc.prems(4) by (simp add: Suc_diff_le)
qed

lemma read_blocks_eq:
  assumes bs: "0 < BLOCK c" and T: "T = total_blocks c off n" and ind: "NUM_DIRECT c < T \<longrightarrow> i_indirect nd \<noteq> -1"
    and len: "off + n < 2 ^ 64" and ne: "0 < n"
  shows "read_blocks c f nd (off div BLOCK c) (off mod BLOCK c) T n
     = Inr (map (file_byte c f nd) [off..<off + n], 0)"
proof -
  let ?bs = "BLOCK c" and ?FB = "file_block c f nd" and ?N = "NUM_DIRECT c"
  let ?i = "off div ?bs" and ?sh = "off mod ?bs"
  have tb: "off + n \<le> T * ?bs" "?i < T" using total_blocks_bounds(1,2) [OF bs len ne] T by auto
  have sh: "?sh < ?bs" using bs by simp
  have st: "got ?bs ?FB f off n ([], n) 0" "gone n off 0 (?i * ?bs + ?sh)" by (simp_all add: got_def gone_def)
  have dir: "direct_at c nd j = Inr (?FB j)" if "j < ?N" for j using that by (rule direct_at_block)
  have ind: "indirect_at f nd (j - ?N) = Inr (?FB j)" if "?N \<le> j" "?N < T" for j
    using that ind indirect_at_block [of nd f "j - ?N" c] by simp
  have finish: "read_blocks c f nd ?i ?sh T n = Inr (map (file_byte c f nd) [off..<off + n], 0)"
    if "read_blocks c f nd ?i ?sh T n = Inr s'" "got ?bs ?FB f off n s' cp" "gone n off cp (T * ?bs)" for s' cp
  proof -
    have "cp = n" using that(2,3) tb(1) by (auto simp: gone_def got_def)
    then show ?thesis using that(1,2) by (simp add: got_def file_byte_def)
  qed
  show ?thesis
  proof (cases "T \<le> ?N")
    case True
    from read_at_got [OF st(1) _ sh st(2), of "direct_at c nd"] dir tb(2) True obtain s1 cp1 where
      s1: "read_at f (direct_at c nd) ?i ?sh (?bs - ?sh) ([], n) = Inr s1" "got ?bs ?FB f off n s1 cp1"
        "gone n off cp1 ((?i + 1) * ?bs)" by (metis order_less_le_trans)
    obtain s2 cp2 where s2: "read_loop f ?bs (direct_at c nd) (?i + 1) (T - (?i + 1)) s1 = Inr s2"
        "got ?bs ?FB f off n s2 cp2" "gone n off cp2 (T * ?bs)"
      using read_loop_got [OF s1(2) bs, of "?i + 1" "T - (?i + 1)" "direct_at c nd" 0] s1(3) tb(2) True dir by auto
    show ?thesis by (rule finish [OF _ s2(2,3)]) (use True s1(1) s2(1) in \<open>simp add: read_blocks_def Let_def\<close>)
  next
    case F: False
    show ?thesis
    proof (cases "?i < ?N")
      case True
      from read_at_got [OF st(1) _ sh st(2), of "direct_at c nd"] dir True obtain s1 cp1 where
        s1: "read_at f (direct_at c nd) ?i ?sh (?bs - ?sh) ([], n) = Inr s1" "got ?bs ?FB f off n s1 cp1"
          "gone n off cp1 ((?i + 1) * ?bs)" by metis
      obtain s2 cp2 where s2: "read_loop f ?bs (direct_at c nd) (?i + 1) (?N - (?i + 1)) s1 = Inr s2"
          "got ?bs ?FB f off n s2 cp2" "gone n off cp2 (?N * ?bs)"
        using read_loop_got [OF s1(2) bs, of "?i + 1" "?N - (?i + 1)" "direct_at c nd" 0] s1(3) True F dir by auto
      obtain s3 cp3 where s3: "read_loop f ?bs (indirect_at f nd) 0 (T - ?N) s2 = Inr s3"
          "got ?bs ?FB f off n s3 cp3" "gone n off cp3 (T * ?bs)"
        using read_loop_got [OF s2(2) bs, of ?N "T - ?N" "indirect_at f nd" ?N] s2(3) F ind by auto
      show ?thesis
        by (rule finish [OF _ s3(2,3)]) (use True F s1(1) s2(1) s3(1) in \<open>simp add: read_blocks_def Let_def\<close>)
    next
      case False
      from read_at_got [OF st(1) _ sh st(2), of "\<lambda>k. indirect_at f nd (k - ?N)"] ind False F obtain s1 cp1 where
        s1: "read_at f (\<lambda>k. indirect_at f nd (k - ?N)) ?i ?sh (?bs - ?sh) ([], n) = Inr s1"
          "got ?bs ?FB f off n s1 cp1" "gone n off cp1 ((?i + 1) * ?bs)" by (metis not_le)
      have s1': "read_at f (indirect_at f nd) (?i - ?N) ?sh (?bs - ?sh) ([], n) = Inr s1"
        using s1(1) by (simp add: read_at_def)
      obtain s2 cp2 where s2: "read_loop f ?bs (indirect_at f nd) (?i + 1 - ?N) (T - (?i + 1)) s1 = Inr s2"
          "got ?bs ?FB f off n s2 cp2" "gone n off cp2 (T * ?bs)"
        using read_loop_got [OF s1(2) bs, of "?i + 1" "T - (?i + 1)" "indirect_at f nd" ?N] s1(3) tb(2) F False ind
        by auto
      have "T - ?N - Suc (?i - ?N) = T - (?i + 1)" "Suc (?i - ?N) = ?i + 1 - ?N" using False by auto
      then show ?thesis
        by (intro finish [OF _ s2(2,3)]) (use False F s1' s2(1) in \<open>simp add: read_blocks_def Let_def\<close>)
    qed
  qed
qed

section \<open>Properties\<close>

text \<open>
  \<open>g\<close> is \<open>f\<close> but for the first \<open>T\<close> data blocks of the inode \<open>n\<close>, its size and its times: what a write
  to the file may change. The directories, all other inodes and the places of all blocks are the same.
\<close>

definition same_elsewhere :: "conf \<Rightarrow> nat \<Rightarrow> nat \<Rightarrow> fs \<Rightarrow> fs \<Rightarrow> bool" where
  "same_elsewhere c n T f g \<longleftrightarrow> blk_index g = blk_index f \<and> data_map g = data_map f
     \<and> dblock_count g = dblock_count f
     \<and> (\<forall>b. b \<notin> file_block c f (inodes f n) ` {..<T} \<longrightarrow> blk_bytes g b = blk_bytes f b)
     \<and> (\<forall>k. k \<noteq> n \<longrightarrow> inodes g k = inodes f k)
     \<and> (\<exists>s m a. inodes g n = (inodes f n)\<lparr>i_size := s, i_mtim := m, i_atim := a\<rparr>)"

lemma minixfs_write_run:
  assumes "0 < BLOCK c" and "get_inode u f path = Some n"
    and "min_blockcount u f path (total_blocks c off (length buf)) = (err, f1)" and "err \<noteq> -1"
    and "has_blocks c f1 (inodes f1 n) (total_blocks c off (length buf))"
    and "off + length buf < 2 ^ 64" and "buf \<noteq> []"
  obtains f' where "minixfs_write c u now f path buf off = Inr (Inr (length buf, off + length buf, f'))"
    "\<forall>p < total_blocks c off (length buf) * BLOCK c. file_byte c f' (inodes f' n) p =
       (if off \<le> p \<and> p < off + length buf then buf ! (p - off) else file_byte c f1 (inodes f1 n) p)"
    "i_size (inodes f' n) = w64 (i_size (inodes f1 n) + length buf)"
    "i_indirect (inodes f' n) = i_indirect (inodes f1 n)"
    "same_elsewhere c n (total_blocks c off (length buf)) f1 f'"
proof -
  let ?T = "total_blocks c off (length buf)" and ?FB = "file_block c f1 (inodes f1 n)"
  from write_blocks_wrote [OF assms(1,5) refl assms(6,7)] obtain f2 where
    w: "write_blocks c (inodes f1 n) (off div BLOCK c) (off mod BLOCK c) ?T (f1, buf, 0) = Inr (f2, [], length buf)"
      "wrote (BLOCK c) ?FB ?T f1 buf off (f2, [], length buf) (length buf)" .
  from w(2) have f2: "f2 = f1\<lparr>blk_bytes := blk_bytes f2\<rparr>"
    "\<And>i k. i < ?T \<Longrightarrow> k < BLOCK c \<Longrightarrow> blk_bytes f2 (?FB i) k =
       (if off \<le> i * BLOCK c + k \<and> i * BLOCK c + k < off + length buf then buf ! (i * BLOCK c + k - off)
        else blk_bytes f1 (?FB i) k)" "\<And>b. b \<notin> ?FB ` {..<?T} \<Longrightarrow> blk_bytes f2 b = blk_bytes f1 b"
    by (auto simp: wrote_def)
  let ?f = "upd_inode f2 n (\<lambda>i. i\<lparr>i_size := w64 (i_size i + length buf), i_mtim := now, i_atim := now\<rparr>)"
  have run: "minixfs_write c u now f path buf off = Inr (Inr (length buf, off + length buf, ?f))"
    using assms(2-4) w(1) by (simp add: minixfs_write_def)
  have in2: "inodes f2 = inodes f1" "blk_index f2 = blk_index f1" "data_map f2 = data_map f1"
    "dblock_count f2 = dblock_count f1" by (subst f2(1), simp)+
  then have fb: "file_block c ?f (inodes ?f n) = ?FB"
    by (intro ext) (simp add: file_block_def upd_inode_def)
  show thesis
  proof (rule that [OF run])
    show "\<forall>p < ?T * BLOCK c. file_byte c ?f (inodes ?f n) p =
       (if off \<le> p \<and> p < off + length buf then buf ! (p - off) else file_byte c f1 (inodes f1 n) p)"
    proof (intro allI impI)
      fix p assume p: "p < ?T * BLOCK c"
      have "p div BLOCK c < ?T" "p mod BLOCK c < BLOCK c"
        using p assms(1) by (simp_all add: div_less_iff_less_mult)
      from f2(2) [OF this] show "file_byte c ?f (inodes ?f n) p =
         (if off \<le> p \<and> p < off + length buf then buf ! (p - off) else file_byte c f1 (inodes f1 n) p)"
        unfolding file_byte_def fb by (simp add: upd_inode_def)
    qed
    have "\<exists>s m a. inodes ?f n = (inodes f1 n)\<lparr>i_size := s, i_mtim := m, i_atim := a\<rparr>"
      by (auto simp: upd_inode_def in2 intro!: exI)
    then show "same_elsewhere c n ?T f1 ?f"
      using f2(3) by (simp add: same_elsewhere_def upd_inode_def in2)
  qed (simp_all add: upd_inode_def in2)
qed

lemma minixfs_read_run:
  assumes "0 < BLOCK c" and "is_virtual_path u path = None" and "get_inode u f path = Some n"
    and "i_size (inodes f n) < 2 ^ 63" and "count + off < 2 ^ 64" and "off < i_size (inodes f n)" and "0 < count"
    and "NUM_DIRECT c < total_blocks c off (min count (i_size (inodes f n) - off)) \<longrightarrow> i_indirect (inodes f n) \<noteq> -1"
  shows "minixfs_read c u now f path count off = Inr (Inr
    (map (file_byte c f (inodes f n)) [off ..< min (i_size (inodes f n)) (off + count)],
     min (i_size (inodes f n)) (off + count), upd_inode f n (\<lambda>i. i\<lparr>i_atim := now\<rparr>)))"
proof -
  let ?sz = "i_size (inodes f n)"
  let ?k = "min count (?sz - off)"
  have k: "off + ?k < 2 ^ 64" "0 < ?k" "off + ?k = min ?sz (off + count)"
    using assms(5-7) by (auto simp: min_def)
  have w: "w64 (count + off) = count + off" using assms(5) by (rule w64_id)
  have c: "(if ?sz < w64 (count + off) then ?sz - off else count) = ?k"
    using assms(6) w by (auto simp: min_def)
  have "signed64 ?sz = int ?sz" using assms(4) by (simp add: signed64_def)
  then have "\<not> signed64 ?sz \<le> int off" using assms(6) by simp
  with read_blocks_eq [OF assms(1) refl assms(8) k(1,2), of f] assms(2,3) c k(3) show ?thesis
    unfolding minixfs_read_def by (simp add: Let_def)
qed

text \<open>A small file system for the witnesses: blocks of two bytes, one direct block.\<close>

definition wconf :: conf where
  "wconf = \<lparr>BLOCK = 2, NUM_DIRECT = 1, RWX_BITS = 9, MODE_BITS = 16, DATA_NUM = 8, NAME_ENTRY = 256\<rparr>"

definition wfs :: fs where
  "wfs = \<lparr>inodes = (\<lambda>_. \<lparr>i_uid = 0, i_gid = 0, i_mode = 420, i_size = 3, i_direct = [5], i_indirect = 9,
      i_atim = 0, i_mtim = 0, i_ctim = 0\<rparr>),
    blk_bytes = (\<lambda>_ _. 0), blk_index = (\<lambda>_ i. 10 + int i), data_map = (\<lambda>_. 0), dblock_count = 8\<rparr>"

definition wutils :: utils where
  "wutils = \<lparr>get_inode = (\<lambda>_ _. Some 0), first_unused_inode = (\<lambda>_. 1), parent_directory = (\<lambda>_ p. (0, p)),
    valid_filename = (\<lambda>_. True), is_directory = (\<lambda>_ _. True), init_inode = (\<lambda>f _ _. f),
    add_data_block_to_inode = (\<lambda>f _. (5, f)), add_single_indirect_block = (\<lambda>f _. (0, f)),
    add_data_block_to_indirect_block = (\<lambda>f _. (10, f)), dirent_bytes = (\<lambda>_ _. []),
    min_blockcount = (\<lambda>f _ _. (0, f)), is_virtual_path = (\<lambda>_. None)\<rparr>"

lemma wfs_blocks: "has_blocks wconf wfs (inodes wfs 0) 3"
  by (auto simp: has_blocks_def wconf_def wfs_def inj_on_def file_block_def)

text \<open>C9: writing \<open>buf\<close> at \<open>off\<close> changes exactly the bytes of the file from \<open>off\<close> on, in whatever
  mixture of direct and indirect blocks they lie, and returns the length of \<open>buf\<close>. The size of the
  file grows by the length of \<open>buf\<close>, even when the bytes were overwritten in place.\<close>

theorem minixfs_write_spec:
  assumes "0 < BLOCK c" and "get_inode u f path = Some n"
    and "min_blockcount u f path (total_blocks c off (length buf)) = (err, f1)" and "err \<noteq> -1"
    and "has_blocks c f1 (inodes f1 n) (total_blocks c off (length buf))"
    and "off + length buf < 2 ^ 64" and "buf \<noteq> []"
  shows "\<exists>f'. minixfs_write c u now f path buf off = Inr (Inr (length buf, off + length buf, f'))
    \<and> (\<forall>p < total_blocks c off (length buf) * BLOCK c. file_byte c f' (inodes f' n) p =
         (if off \<le> p \<and> p < off + length buf then buf ! (p - off) else file_byte c f1 (inodes f1 n) p))
    \<and> i_size (inodes f' n) = w64 (i_size (inodes f1 n) + length buf)"
  using minixfs_write_run [OF assms] by metis

lemma minixfs_write_spec_witness:
  "\<exists>f'. minixfs_write wconf wutils 7 wfs ''f'' [1, 2, 3, 4] 1 = Inr (Inr (length [1, 2, 3, 4 :: 8 word], 1 + length [1, 2, 3, 4 :: 8 word], f'))
    \<and> (\<forall>p < total_blocks wconf 1 (length [1, 2, 3, 4 :: 8 word]) * BLOCK wconf. file_byte wconf f' (inodes f' 0) p =
         (if 1 \<le> p \<and> p < 1 + length [1, 2, 3, 4 :: 8 word] then [1, 2, 3, 4] ! (p - 1)
          else file_byte wconf wfs (inodes wfs 0) p))
    \<and> i_size (inodes f' 0) = w64 (i_size (inodes wfs 0) + length [1, 2, 3, 4 :: 8 word])"
proof (rule minixfs_write_spec [where err = "0 :: int"])
  show "has_blocks wconf wfs (inodes wfs 0) (total_blocks wconf 1 (length [1, 2, 3, 4 :: 8 word]))"
    using wfs_blocks by (simp add: total_blocks_def wconf_def w64_def)
qed (simp_all add: wconf_def wutils_def)

text \<open>\<open>minixfs_read\<close> returns the bytes of the file from \<open>off\<close> on, up to \<open>count\<close> of them and not
  past the end of the file, moves the offset behind them and changes nothing but the access time.\<close>

theorem minixfs_read_spec:
  assumes "0 < BLOCK c" and "is_virtual_path u path = None" and "get_inode u f path = Some n"
    and "i_size (inodes f n) < 2 ^ 63" and "count + off < 2 ^ 64" and "off < i_size (inodes f n)" and "0 < count"
    and "NUM_DIRECT c < total_blocks c off (min count (i_size (inodes f n) - off)) \<longrightarrow> i_indirect (inodes f n) \<noteq> -1"
  shows "minixfs_read c u now f path count off = Inr (Inr
    (map (file_byte c f (inodes f n)) [off ..< min (i_size (inodes f n)) (off + count)],
     min (i_size (inodes f n)) (off + count), upd_inode f n (\<lambda>i. i\<lparr>i_atim := now\<rparr>)))"
  by (rule minixfs_read_run [OF assms])

lemma minixfs_read_spec_witness:
  "minixfs_read wconf wutils 7 wfs ''f'' 9 1 = Inr (Inr
    (map (file_byte wconf wfs (inodes wfs 0)) [1 ..< min (i_size (inodes wfs 0)) (1 + 9)],
     min (i_size (inodes wfs 0)) (1 + 9), upd_inode wfs 0 (\<lambda>i. i\<lparr>i_atim := 7\<rparr>)))"
  by (rule minixfs_read_spec) (simp_all add: wconf_def wutils_def wfs_def)

text \<open>C10: what is written within or at the end of a file is what a read at the same place returns.
  The path is looked up once more by the read, in the file system that the write has left; the lookup
  may read any directory and any inode, but not what is written: the data of the file itself, its
  size and its times.\<close>

theorem minixfs_write_read:
  assumes "0 < BLOCK c" and "get_inode u f path = Some n"
    and "\<And>g. same_elsewhere c n (total_blocks c off (length buf)) f1 g \<Longrightarrow> get_inode u g path = Some n"
    and "is_virtual_path u path = None"
    and "min_blockcount u f path (total_blocks c off (length buf)) = (err, f1)" and "err \<noteq> -1"
    and "has_blocks c f1 (inodes f1 n) (total_blocks c off (length buf))" and "buf \<noteq> []"
    and "off \<le> i_size (inodes f1 n)" and "i_size (inodes f1 n) + length buf < 2 ^ 63"
  shows "\<exists>f' f''. minixfs_write c u now f path buf off = Inr (Inr (length buf, off + length buf, f'))
    \<and> minixfs_read c u later f' path (length buf) off = Inr (Inr (buf, off + length buf, f''))"
proof -
  let ?T = "total_blocks c off (length buf)"
  have len: "off + length buf < 2 ^ 64" using assms(9,10) by simp
  from minixfs_write_run [OF assms(1,2,5,6,7) len assms(8)] obtain f' where
    w: "minixfs_write c u now f path buf off = Inr (Inr (length buf, off + length buf, f'))"
      "\<forall>p < ?T * BLOCK c. file_byte c f' (inodes f' n) p =
         (if off \<le> p \<and> p < off + length buf then buf ! (p - off) else file_byte c f1 (inodes f1 n) p)"
      "i_size (inodes f' n) = w64 (i_size (inodes f1 n) + length buf)"
      "i_indirect (inodes f' n) = i_indirect (inodes f1 n)" "same_elsewhere c n ?T f1 f'" by metis
  have sz: "i_size (inodes f' n) = i_size (inodes f1 n) + length buf" using w(3) assms(10) by (simp add: w64_id)
  have pos: "0 < length buf" using assms(8) by simp
  have m: "min (length buf) (i_size (inodes f' n) - off) = length buf"
    "min (i_size (inodes f' n)) (off + length buf) = off + length buf" using sz assms(9) by auto
  have "NUM_DIRECT c < ?T \<longrightarrow> i_indirect (inodes f' n) \<noteq> -1" using assms(7) w(4) by (simp add: has_blocks_def)
  then have "minixfs_read c u later f' path (length buf) off = Inr (Inr
      (map (file_byte c f' (inodes f' n)) [off ..< off + length buf], off + length buf,
       upd_inode f' n (\<lambda>i. i\<lparr>i_atim := later\<rparr>)))"
    using minixfs_read_run [of c u path f' n "length buf" off later] assms(1,4,9,10) assms(3) [OF w(5)] sz len pos m
    by (simp add: add.commute)
  moreover have "map (file_byte c f' (inodes f' n)) [off ..< off + length buf] = buf"
  proof (rule nth_equalityI)
    fix i assume "i < length (map (file_byte c f' (inodes f' n)) [off ..< off + length buf])"
    then have i: "i < length buf" by simp
    then have "off + i < ?T * BLOCK c" using total_blocks_bounds(1) [OF assms(1) len pos] by linarith
    with w(2) i show "map (file_byte c f' (inodes f' n)) [off ..< off + length buf] ! i = buf ! i" by simp
  qed simp
  ultimately show ?thesis using w(1) by auto
qed

text \<open>For the witness, a file system with a root directory: the inode 1 has the block 3, whose one
  entry is a name of one character and the number of an inode. The path is looked up there.\<close>

definition dir_fs :: fs where
  "dir_fs = wfs\<lparr>inodes := (inodes wfs)(1 := (inodes wfs 1)\<lparr>i_direct := [3], i_size := 2\<rparr>),
     blk_bytes := (\<lambda>b k. if b = 3 \<and> k = 0 then 102 else 0)\<rparr>"

definition dir_utils :: utils where
  "dir_utils = wutils\<lparr>get_inode := (\<lambda>(f :: fs) path. let entry = blk_bytes f (hd (i_direct (inodes f 1))) in
     if path = [char_of (unat (entry 0))] then Some (unat (entry 1)) else None)\<rparr>"

lemma char_of_f: "char_of (102 :: nat) = CHR ''f''"
  by (simp add: char_of_def bit_0)

lemma dir_fs_blocks: "has_blocks wconf dir_fs (inodes dir_fs 0) 3" "file_block wconf dir_fs (inodes dir_fs 0) i \<noteq> 3"
  by (auto simp: has_blocks_def wconf_def dir_fs_def wfs_def inj_on_def file_block_def)

lemma minixfs_write_read_witness:
  "\<exists>f' f''. minixfs_write wconf dir_utils 7 dir_fs ''f'' [1, 2, 3, 4] 1 = Inr (Inr (length [1, 2, 3, 4 :: 8 word], 1 + length [1, 2, 3, 4 :: 8 word], f'))
    \<and> minixfs_read wconf dir_utils 8 f' ''f'' (length [1, 2, 3, 4 :: 8 word]) 1 = Inr (Inr ([1, 2, 3, 4], 1 + length [1, 2, 3, 4 :: 8 word], f''))"
proof (rule minixfs_write_read [where err = "0 :: int"])
  show "has_blocks wconf dir_fs (inodes dir_fs 0) (total_blocks wconf 1 (length [1, 2, 3, 4 :: 8 word]))"
    using dir_fs_blocks(1) by (simp add: total_blocks_def wconf_def w64_def)
  fix g assume g: "same_elsewhere wconf 0 (total_blocks wconf 1 (length [1, 2, 3, 4 :: 8 word])) dir_fs g"
  have "3 \<notin> file_block wconf dir_fs (inodes dir_fs 0) ` A" for A using dir_fs_blocks(2) by fastforce
  then have "blk_bytes g 3 = blk_bytes dir_fs 3" using g by (simp add: same_elsewhere_def)
  moreover have "inodes g 1 = inodes dir_fs 1" using g by (simp add: same_elsewhere_def)
  ultimately show "get_inode dir_utils g ''f'' = Some 0"
    by (simp add: dir_utils_def dir_fs_def char_of_f)
qed (simp_all add: wconf_def dir_utils_def wutils_def dir_fs_def wfs_def char_of_f)

text \<open>\<open>minixfs_chmod\<close> replaces the permission bits of the mode, keeps the type bits above them and
  changes no other inode.\<close>

theorem minixfs_chmod_spec:
  assumes "get_inode u f path = Some n" and "RWX_BITS c \<le> MODE_BITS c"
    and "take_bit (RWX_BITS c) perm = perm" and "take_bit (MODE_BITS c) (i_mode (inodes f n)) = i_mode (inodes f n)"
  shows "\<exists>f'. minixfs_chmod c u now f path perm = Inr f'
    \<and> take_bit (RWX_BITS c) (i_mode (inodes f' n)) = perm
    \<and> drop_bit (RWX_BITS c) (i_mode (inodes f' n)) = drop_bit (RWX_BITS c) (i_mode (inodes f n))
    \<and> (\<forall>k. k \<noteq> n \<longrightarrow> inodes f' k = inodes f k)"
proof -
  let ?m = "i_mode (inodes f n)" and ?R = "RWX_BITS c" and ?M = "MODE_BITS c"
  let ?new = "take_bit ?M (push_bit ?R (drop_bit ?R ?m) OR perm)"
  have p: "bit perm k \<Longrightarrow> k < ?R" for k
    by (metis assms(3) bit_take_bit_iff)
  have m: "bit ?m k \<Longrightarrow> k < ?M" for k by (metis assms(4) bit_take_bit_iff)
  have "take_bit ?R ?new = perm"
    using p assms(2) by (intro bit_eqI) (auto simp: bit_simps)
  moreover have "drop_bit ?R ?new = drop_bit ?R ?m"
    using p m by (intro bit_eqI) (auto simp: bit_simps)
  ultimately show ?thesis using assms(1) by (auto simp: minixfs_chmod_def upd_inode_def Let_def)
qed

lemma minixfs_chmod_spec_witness:
  "\<exists>f'. minixfs_chmod wconf wutils 7 wfs ''f'' 7 = Inr f'
    \<and> take_bit (RWX_BITS wconf) (i_mode (inodes f' 0)) = 7
    \<and> drop_bit (RWX_BITS wconf) (i_mode (inodes f' 0)) = drop_bit (RWX_BITS wconf) (i_mode (inodes wfs 0))
    \<and> (\<forall>k. k \<noteq> 0 \<longrightarrow> inodes f' k = inodes wfs k)"
  by (rule minixfs_chmod_spec) (simp_all add: wconf_def wutils_def wfs_def take_bit_eq_mod)

end
