(* ===== verification/Parmake.thy ===== *)
theory Parmake
  imports Prelude
begin

text \<open>
  The parallel make (\<open>parallel_make/parmake.c\<close>). The libraries it is linked with (graph, queue,
  set, vector, parser) are not in the repository: a graph is the pair of functions
  \<open>graph_neighbors\<close> and \<open>graph_antineighbors\<close> with the commands of each rule, a set is a set, the
  queue and the vectors are lists. The files and what \<open>system\<close> does to them are an argument of
  the model too: \<open>'w\<close> is the state of the file system.
\<close>

record 'w menv =
  graph_neighbors :: "string \<Rightarrow> string list"
  graph_antineighbors :: "string \<Rightarrow> string list"
  commands :: "string \<Rightarrow> string list"
  stat_mtime :: "'w \<Rightarrow> string \<Rightarrow> int option"
  system :: "string \<Rightarrow> 'w \<Rightarrow> int \<times> 'w"

text \<open>
  The state of the program: \<open>rule->state\<close> of each vertex (0 untouched, 1 waiting, 2 failed,
  4 satisfied), the queue \<open>q\<close>, the goals not yet finished with the two counters, and the files.
\<close>

record 'w pm =
  rstate :: "string \<Rightarrow> nat"
  pmq :: "string list"
  goal :: "string list"
  numgoalfin :: nat
  numgoals :: nat
  world :: 'w

section \<open>The search for cycles\<close>

text \<open>
  \<open>isCyclic\<close> and its loop over the neighbours; the two sets are returned with the answer. The
  recursion has fuel: one unit for each vertex on the path.
\<close>

fun isCyclic :: "nat \<Rightarrow> (string \<Rightarrow> string list) \<Rightarrow> string \<Rightarrow> string set \<Rightarrow> string set
    \<Rightarrow> (nat \<times> string set \<times> string set) res"
  and cyclic_loop :: "nat \<Rightarrow> (string \<Rightarrow> string list) \<Rightarrow> string list \<Rightarrow> string set \<Rightarrow> string set
    \<Rightarrow> (nat \<times> string set \<times> string set) res" where
  "isCyclic 0 nb v visit recurv = Inl Out_of_fuel"
| "isCyclic (Suc k) nb v visit recurv =
     rbind (cyclic_loop k nb (nb v) (insert v visit) (insert v recurv)) (\<lambda>(r, visit, recurv).
       if r = 1 then Inr (1, visit, recurv) else Inr (0, visit, recurv - {v}))"
| "cyclic_loop k nb [] visit recurv = Inr (0, visit, recurv)"
| "cyclic_loop k nb (n # ns) visit recurv =
     (if n \<notin> visit then
        rbind (isCyclic k nb n visit recurv) (\<lambda>(acyclic, visit, recurv).
          if acyclic = 1 then Inr (1, visit, recurv)
          else if n \<in> recurv then Inr (1, visit, recurv)
          else cyclic_loop k nb ns visit recurv)
      else if n \<in> recurv then Inr (1, visit, recurv)
      else cyclic_loop k nb ns visit recurv)"

section \<open>Marking the rules that are needed\<close>

fun dfs :: "nat \<Rightarrow> 'w menv \<Rightarrow> string \<Rightarrow> string set \<times> 'w pm \<Rightarrow> (string set \<times> 'w pm) res"
  and dfs_loop :: "nat \<Rightarrow> 'w menv \<Rightarrow> string list \<Rightarrow> string set \<times> 'w pm \<Rightarrow> (string set \<times> 'w pm) res" where
  "dfs 0 e v vs = Inl Out_of_fuel"
| "dfs (Suc k) e v (visited, s) =
     rbind (dfs_loop k e (graph_neighbors e v) (insert v visited, s\<lparr>rstate := (rstate s)(v := 1)\<rparr>))
       (\<lambda>(visited, s).
          Inr (visited, if graph_neighbors e v = [] then s\<lparr>pmq := pmq s @ [v]\<rparr> else s))"
| "dfs_loop k e [] vs = Inr vs"
| "dfs_loop k e (n # ns) (visited, s) =
     (if n \<notin> visited then rbind (dfs k e n (visited, s)) (dfs_loop k e ns)
      else dfs_loop k e ns (visited, s))"

section \<open>Running a rule\<close>

primrec run :: "'w menv \<Rightarrow> string list \<Rightarrow> 'w \<Rightarrow> nat \<times> 'w" where
  "run e [] w = (0, w)"
| "run e (c # cs) w =
     (let (success, w) = system e c w in if success \<noteq> 0 then (1, w) else run e cs w)"

text \<open>The loop over the dependencies of an existing file with modification time \<open>t\<close>.\<close>

primrec modified :: "'w menv \<Rightarrow> 'w \<Rightarrow> int \<Rightarrow> string list \<Rightarrow> bool" where
  "modified e w t [] = False"
| "modified e w t (n # ns) =
     (case stat_mtime e w n of
        None \<Rightarrow> True
      | Some u \<Rightarrow> if u - t > 1 then True else modified e w t ns)"

definition run_rule :: "'w menv \<Rightarrow> string \<Rightarrow> 'w pm \<Rightarrow> 'w pm" where
  "run_rule e vertex s =
     (let (fail, w) = run e (commands e vertex) (world s)
      in s\<lparr>world := w, rstate := (rstate s)(vertex := if fail = 1 then 2 else 4)\<rparr>)"

definition build :: "'w menv \<Rightarrow> string \<Rightarrow> 'w pm \<Rightarrow> 'w pm" where
  "build e vertex s =
     (if rstate s vertex \<noteq> 2 then
        case stat_mtime e (world s) vertex of
          None \<Rightarrow> run_rule e vertex s
        | Some t \<Rightarrow>
            if modified e (world s) t (graph_neighbors e vertex) then run_rule e vertex s
            else s\<lparr>rstate := (rstate s)(vertex := 4)\<rparr>
      else s)"

section \<open>Passing the result on\<close>

text \<open>The loop over the dependencies of \<open>next\<close>: the flags \<open>ready\<close> (set when one is still waiting)
  and \<open>shouldfail\<close>.\<close>

primrec scan_deps :: "(string \<Rightarrow> nat) \<Rightarrow> string list \<Rightarrow> bool \<Rightarrow> (bool \<times> bool) res" where
  "scan_deps st [] shouldfail = Inr (False, shouldfail)"
| "scan_deps st (d # ds) shouldfail =
     (let shouldfail = (if st d = 2 then True else shouldfail) in
      if st d = 1 then Inr (True, shouldfail)
      else if st d = 0 then Inl Assert_failed
      else scan_deps st ds shouldfail)"

definition propagate :: "'w menv \<Rightarrow> string \<Rightarrow> 'w pm \<Rightarrow> 'w pm res" where
  "propagate e nxt s =
     (if rstate s nxt = 0 then Inr s
      else if rstate s nxt = 2 then Inr s
      else rbind (guard (rstate s nxt \<noteq> 4) Assert_failed) (\<lambda>_.
        rbind (scan_deps (rstate s) (graph_neighbors e nxt) False) (\<lambda>(ready, shouldfail).
          if ready then Inr s
          else
            let s = (if shouldfail then s\<lparr>rstate := (rstate s)(nxt := 2)\<rparr> else s)
            in Inr (s\<lparr>pmq := pmq s @ [nxt]\<rparr>))))"

primrec propagate_all :: "'w menv \<Rightarrow> string list \<Rightarrow> 'w pm \<Rightarrow> 'w pm res" where
  "propagate_all e [] s = Inr s"
| "propagate_all e (n # ns) s = rbind (propagate e n s) (propagate_all e ns)"

definition finish_goal :: "string \<Rightarrow> 'w pm \<Rightarrow> 'w pm" where
  "finish_goal vertex s =
     (if vertex \<in> set (goal s)
      then s\<lparr>numgoalfin := numgoalfin s + 1, goal := remove1 vertex (goal s)\<rparr> else s)"

text \<open>
  One turn of the worker's loop, for the vertex it has pulled. The result \<open>None\<close> is the exit of
  the thread.
\<close>

definition thread_turn :: "'w menv \<Rightarrow> string \<Rightarrow> 'w pm \<Rightarrow> 'w pm option res" where
  "thread_turn e vertex s =
     (if vertex = ''EOF'' then Inr None
      else rbind (propagate_all e (graph_antineighbors e vertex) (build e vertex s)) (\<lambda>s.
             Inr (Some (finish_goal vertex s))))"

text \<open>
  A worker takes the turns one after the other while the queue holds something; \<open>queue_pull\<close> on
  the empty queue blocks, which ends the model's run.
\<close>

primrec thread :: "nat \<Rightarrow> 'w menv \<Rightarrow> 'w pm \<Rightarrow> 'w pm res" where
  "thread 0 e s = Inl Out_of_fuel"
| "thread (Suc k) e s =
     (case pmq s of
        [] \<Rightarrow> Inr s
      | v # rest \<Rightarrow>
          rbind (thread_turn e v (s\<lparr>pmq := rest\<rparr>)) (\<lambda>r.
            case r of
              None \<Rightarrow> Inr (s\<lparr>pmq := rest @ [v]\<rparr>)
            | Some t \<Rightarrow> thread k e t))"

section \<open>The main thread\<close>

text \<open>The goals that lie on or above a cycle, by their index in the vector of goals.\<close>

primrec cyclic_goals :: "nat \<Rightarrow> 'w menv \<Rightarrow> nat \<Rightarrow> string list \<Rightarrow> nat list res" where
  "cyclic_goals k e i [] = Inr []"
| "cyclic_goals k e i (g # gs) =
     rbind (isCyclic k (graph_neighbors e) g {} {}) (\<lambda>(r, _, _).
       rbind (cyclic_goals k e (i + 1) gs) (\<lambda>toerase.
         Inr (if r = 1 then i # toerase else toerase)))"

text \<open>\<open>vector_erase\<close> asserts that the position is below the size.\<close>

primrec erase_goals :: "nat list \<Rightarrow> string list \<Rightarrow> string list res" where
  "erase_goals [] goals = Inr goals"
| "erase_goals (i # is) goals =
     rbind (guard (i < length goals) Assert_failed) (\<lambda>_.
       erase_goals is (take i goals @ drop (i + 1) goals))"

primrec dfs_goals :: "nat \<Rightarrow> 'w menv \<Rightarrow> string list \<Rightarrow> string set \<times> 'w pm \<Rightarrow> (string set \<times> 'w pm) res" where
  "dfs_goals k e [] vs = Inr vs"
| "dfs_goals k e (g # gs) vs = rbind (dfs k e g vs) (dfs_goals k e gs)"

text \<open>
  \<open>parmake\<close> up to the creation of the threads: the rules are parsed with state 0, the goals are
  the neighbours of the empty name.
\<close>

definition parmake_start :: "nat \<Rightarrow> 'w menv \<Rightarrow> 'w \<Rightarrow> 'w pm res" where
  "parmake_start k e w =
     rbind (cyclic_goals k e 0 (graph_neighbors e '''')) (\<lambda>toerase.
       rbind (erase_goals toerase (graph_neighbors e '''')) (\<lambda>goals.
         rbind (dfs_goals k e goals
                 ({}, \<lparr>rstate = (\<lambda>_. 0), pmq = [], goal = [], numgoalfin = 0, numgoals = 0, world = w\<rparr>))
           (\<lambda>(_, s). Inr (s\<lparr>numgoalfin := 0, numgoals := length goals, goal := goals\<rparr>))))"

text \<open>
  \<open>parmake\<close> with one worker: it waits until all goals are finished, which is never signalled when
  the worker blocks before (the outcome \<open>Diverges\<close>), and ends the worker with \<open>EOF\<close>.
\<close>

definition parmake :: "nat \<Rightarrow> 'w menv \<Rightarrow> 'w \<Rightarrow> ('w pm) res" where
  "parmake k e w =
     rbind (parmake_start k e w) (\<lambda>s.
       rbind (thread k e s) (\<lambda>s.
         if numgoalfin s < numgoals s then Inl Diverges
         else thread 1 e (s\<lparr>pmq := pmq s @ [''EOF'']\<rparr>)))"

end
