(* ===== verification/Parmake_Correct.thy ===== *)
theory Parmake_Correct
  imports Parmake
begin

text \<open>
  Correctness of the parallel make: the cycle test against reachability in the graph, the marking
  of the needed rules, and the invariant of the worker, from which follow that no assertion fails,
  that a rule runs only after its dependencies, and that every goal is finished.
\<close>

section \<open>Graphs\<close>

definition edges :: "(string \<Rightarrow> string list) \<Rightarrow> (string \<times> string) set" where
  "edges nb = {(u, v). v \<in> set (nb u)}"

lemma edgesI [intro]: "v \<in> set (nb u) \<Longrightarrow> (u, v) \<in> edges nb"
  by (simp add: edges_def)

lemma edges_iff [simp]: "(u, v) \<in> edges nb \<longleftrightarrow> v \<in> set (nb u)"
  by (simp add: edges_def)

definition closed :: "(string \<Rightarrow> string list) \<Rightarrow> string set \<Rightarrow> bool" where
  "closed nb V \<longleftrightarrow> (\<forall>v\<in>V. set (nb v) \<subseteq> V)"

lemma closed_rtrancl: "(u, v) \<in> (edges nb)\<^sup>* \<Longrightarrow> closed nb V \<Longrightarrow> u \<in> V \<Longrightarrow> v \<in> V"
  by (induction rule: rtrancl_induct) (auto simp: closed_def)

lemma closed_trancl: "(u, v) \<in> (edges nb)\<^sup>+ \<Longrightarrow> closed nb V \<Longrightarrow> u \<in> V \<Longrightarrow> v \<in> V"
  by (meson closed_rtrancl trancl_into_rtrancl)

definition on_cycle :: "(string \<Rightarrow> string list) \<Rightarrow> string \<Rightarrow> bool" where
  "on_cycle nb v \<longleftrightarrow> (v, v) \<in> (edges nb)\<^sup>+"

definition reaches_cycle :: "(string \<Rightarrow> string list) \<Rightarrow> string \<Rightarrow> bool" where
  "reaches_cycle nb v \<longleftrightarrow> (\<exists>u. (v, u) \<in> (edges nb)\<^sup>* \<and> on_cycle nb u)"

lemma reaches_cycle_step: "n \<in> set (nb v) \<Longrightarrow> reaches_cycle nb n \<Longrightarrow> reaches_cycle nb v"
  unfolding reaches_cycle_def by (meson converse_rtrancl_into_rtrancl edgesI)

section \<open>The search for cycles\<close>

lemma cyclic_mono:
  "isCyclic k nb v vis rc = Inr (r, vis', rc') \<Longrightarrow> insert v vis \<subseteq> vis'"
  "cyclic_loop k nb ns vis rc = Inr (r, vis', rc') \<Longrightarrow> vis \<subseteq> vis'"
  by (induction k nb v vis rc and k nb ns vis rc arbitrary: r vis' rc' and r vis' rc'
        rule: isCyclic_cyclic_loop.induct)
    (fastforce simp: res_conv split: if_splits prod.splits)+

text \<open>The search returns, when its fuel is the number of vertices not yet visited.\<close>

lemma cyclic_returns:
  assumes "finite V"
  shows "closed nb V \<Longrightarrow> v \<in> V - vis \<Longrightarrow> card (V - vis) \<le> k \<Longrightarrow> \<exists>r. isCyclic k nb v vis rc = Inr r"
    and "closed nb V \<Longrightarrow> set ns \<subseteq> V \<Longrightarrow> card (V - vis) \<le> k \<Longrightarrow> \<exists>r. cyclic_loop k nb ns vis rc = Inr r"
proof (induction k nb v vis rc and k nb ns vis rc rule: isCyclic_cyclic_loop.induct)
  case (1 nb v visit recurv)
  then show ?case using assms(1) by auto
next
  case (2 k nb v visit recurv)
  have "card (V - insert v visit) < card (V - visit)"
    using 2(3) assms(1) by (intro psubset_card_mono) auto
  with 2(4) have "card (V - insert v visit) \<le> k" by simp
  moreover have "set (nb v) \<subseteq> V" using 2(2,3) by (auto simp: closed_def)
  ultimately obtain r where "cyclic_loop k nb (nb v) (insert v visit) (insert v recurv) = Inr r"
    using 2(1,2) by blast
  then show ?case by (cases r) auto
next
  case (3 k nb visit recurv)
  then show ?case by simp
next
  case (4 k nb n ns visit recurv)
  show ?case
  proof (cases "n \<in> visit")
    case True
    then show ?thesis using 4(3-6) by auto
  next
    case False
    then obtain r vis' rc' where c: "isCyclic k nb n visit recurv = Inr (r, vis', rc')"
      using 4(1) [OF False] 4(4-6) by (metis DiffI insert_subset list.simps(15) prod_cases3)
    have "V - vis' \<subseteq> V - visit" using cyclic_mono(1) [OF c] by auto
    then have "card (V - vis') \<le> k" using 4(6) assms(1) by (meson card_mono finite_Diff le_trans)
    then show ?thesis using 4(2) False c 4(4,5) by auto
  qed
qed

text \<open>
  The finished vertices, those visited and no longer on the path, are closed under edges and on
  no cycle.
\<close>

definition cyc_inv :: "(string \<Rightarrow> string list) \<Rightarrow> string set \<Rightarrow> string set \<Rightarrow> bool" where
  "cyc_inv nb vis rc \<longleftrightarrow> rc \<subseteq> vis \<and> closed nb (vis - rc) \<and> (\<forall>b\<in>vis - rc. \<not> on_cycle nb b)"

lemma cyc_inv_push: "cyc_inv nb vis rc \<Longrightarrow> v \<notin> vis \<Longrightarrow> cyc_inv nb (insert v vis) (insert v rc)"
  unfolding cyc_inv_def by (metis Diff_insert2 Diff_insert_absorb insert_mono)

lemma cyc_inv_finish:
  assumes "cyc_inv nb vis (insert v rc)" and "v \<notin> rc" and "set (nb v) \<subseteq> vis - insert v rc"
  shows "cyc_inv nb vis rc"
proof -
  let ?B = "vis - insert v rc"
  have c: "closed nb ?B" using assms(1) by (simp add: cyc_inv_def)
  have B: "vis - rc = insert v ?B" using assms(1,2) by (auto simp: cyc_inv_def)
  have "closed nb (vis - rc)" unfolding B using c assms(3) by (auto simp: closed_def)
  moreover have "\<not> on_cycle nb v"
  proof
    assume "on_cycle nb v"
    then obtain n where "n \<in> set (nb v)" "(n, v) \<in> (edges nb)\<^sup>*"
      unfolding on_cycle_def by (meson edges_iff tranclD)
    then have "v \<in> ?B" using closed_rtrancl [OF _ c] assms(3) by blast
    then show False by simp
  qed
  moreover have "rc \<subseteq> vis" using assms(1) by (auto simp: cyc_inv_def)
  ultimately show ?thesis using assms(1) B by (auto simp: cyc_inv_def)
qed

lemma cyclic_sound_complete:
  shows "isCyclic k nb v vis rc = Inr (r, vis', rc') \<Longrightarrow> v \<notin> vis \<Longrightarrow> cyc_inv nb vis rc
      \<Longrightarrow> \<forall>u\<in>rc. (u, v) \<in> (edges nb)\<^sup>*
      \<Longrightarrow> (r = 1 \<and> reaches_cycle nb v) \<or> (r = 0 \<and> rc' = rc \<and> cyc_inv nb vis' rc \<and> v \<in> vis' - rc)"
    and "cyclic_loop k nb ns vis rc = Inr (r, vis', rc') \<Longrightarrow> cyc_inv nb vis rc
      \<Longrightarrow> \<forall>n\<in>set ns. \<forall>u\<in>rc. (u, n) \<in> (edges nb)\<^sup>+
      \<Longrightarrow> (r = 1 \<and> (\<exists>n\<in>set ns. reaches_cycle nb n)) \<or> (r = 0 \<and> rc' = rc \<and> cyc_inv nb vis' rc \<and> set ns \<subseteq> vis' - rc)"
proof (induction k nb v vis rc and k nb ns vis rc arbitrary: r vis' rc' and r vis' rc' rule: isCyclic_cyclic_loop.induct)
  case (1 nb v visit recurv)
  then show ?case by simp
next
  case (2 k nb v vis rc)
  obtain q vq rq where q: "cyclic_loop k nb (nb v) (insert v vis) (insert v rc) = Inr (q, vq, rq)"
    and r: "(r, vis', rc') = (if q = 1 then (1, vq, rq) else (0, vq, rq - {v}))"
    using 2(2) by (auto simp: res_conv split: if_splits)
  have "\<forall>n\<in>set (nb v). \<forall>u\<in>insert v rc. (u, n) \<in> (edges nb)\<^sup>+"
    using 2(5) by (metis edgesI insertE r_into_trancl rtrancl_into_trancl1)
  from 2(1) [OF q cyc_inv_push [OF 2(4,3)] this]
  show ?case
  proof (elim disjE conjE)
    assume "q = 1" "\<exists>n\<in>set (nb v). reaches_cycle nb n"
    then show ?thesis using r reaches_cycle_step by auto
  next
    assume "q = 0" "rq = insert v rc" "cyc_inv nb vq (insert v rc)" "set (nb v) \<subseteq> vq - insert v rc"
    moreover have "v \<notin> rc" using 2(3,4) by (auto simp: cyc_inv_def)
    ultimately show ?thesis using r cyc_inv_finish [of nb vq v rc] by (auto simp: cyc_inv_def)
  qed
next
  case (3 k nb visit recurv)
  then show ?case by simp
next
  case (4 k nb n ns vis rc)
  have n: "\<forall>u\<in>rc. (u, n) \<in> (edges nb)\<^sup>+" "\<forall>m\<in>set ns. \<forall>u\<in>rc. (u, m) \<in> (edges nb)\<^sup>+" using 4(6) by auto
  have cyc: "reaches_cycle nb n" if "n \<in> rc"
    using n(1) that by (auto simp: reaches_cycle_def on_cycle_def)
  show ?case
  proof (cases "n \<in> vis")
    case True
    then show ?thesis
    proof (cases "n \<in> rc")
      case False
      then have l: "cyclic_loop k nb ns vis rc = Inr (r, vis', rc')" using 4(4) True by simp
      show ?thesis using 4(3) [OF _ False l 4(5) n(2)] True False cyclic_mono(2) [OF l] by auto
    qed (use 4(4) cyc in auto)
  next
    case False
    then obtain q vq rq where q: "isCyclic k nb n vis rc = Inr (q, vq, rq)"
      and rest: "(if q = 1 then Inr (1, vq, rq) else if n \<in> rq then Inr (1, vq, rq)
          else cyclic_loop k nb ns vq rq) = Inr (r, vis', rc')"
      using 4(4) by (auto simp: res_conv)
    have "\<forall>u\<in>rc. (u, n) \<in> (edges nb)\<^sup>*" using n(1) by (auto intro: trancl_into_rtrancl)
    from 4(1) [OF False q False 4(5) this]
    show ?thesis
    proof (elim disjE conjE)
      assume "q = 1" "reaches_cycle nb n"
      then show ?thesis using rest by auto
    next
      assume a: "q = 0" "rq = rc" "cyc_inv nb vq rc" "n \<in> vq - rc"
      then have l: "cyclic_loop k nb ns vq rc = Inr (r, vis', rc')" using rest by simp
      have q': "isCyclic k nb n vis rc = Inr (0, vq, rc)" using q a by simp
      have "n \<notin> rc" using a(4) by simp
      from 4(2) [OF False q' refl refl _ this l a(3) n(2)] show ?thesis
        using a(4) cyclic_mono(2) [OF l] by auto
    qed
  qed
qed

lemma isCyclic_decides:
  assumes "finite V" and "closed nb V" and "v \<in> V" and "card V \<le> k"
  shows "\<exists>vis rc. isCyclic k nb v {} {} = Inr (if reaches_cycle nb v then 1 else 0, vis, rc)"
proof -
  obtain r vis rc where c: "isCyclic k nb v {} {} = Inr (r, vis, rc)"
    using cyclic_returns(1) [OF assms(1,2), of v "{}" k "{}"] assms(3,4) by auto
  have "cyc_inv nb {} {}" by (simp add: cyc_inv_def closed_def)
  then have "(r = 1 \<and> reaches_cycle nb v) \<or> (r = 0 \<and> rc = {} \<and> cyc_inv nb vis {} \<and> v \<in> vis)"
    using cyclic_sound_complete(1) [OF c] by simp
  moreover have "\<not> reaches_cycle nb v" if "cyc_inv nb vis {}" "v \<in> vis"
    using that closed_rtrancl by (fastforce simp: cyc_inv_def reaches_cycle_def)
  ultimately show ?thesis using c by auto
qed


section \<open>Marking the rules that are needed\<close>

text \<open>
  What \<open>dfs\<close> and its loop do: the new vertices get state 1, they are closed under edges, each leaf
  among them is pushed once.
\<close>

definition marks :: "'w menv \<Rightarrow> string set \<Rightarrow> 'w pm \<Rightarrow> string set \<Rightarrow> 'w pm \<Rightarrow> bool" where
  "marks e vis s vis' s' \<longleftrightarrow> vis \<subseteq> vis'
     \<and> (\<exists>l. s' = s\<lparr>rstate := (\<lambda>x. if x \<in> vis' - vis then 1 else rstate s x), pmq := pmq s @ l\<rparr>
          \<and> distinct l \<and> set l = {x \<in> vis' - vis. graph_neighbors e x = []})"

lemma marksI:
  assumes "vis \<subseteq> vis'" and "s' = s\<lparr>rstate := (\<lambda>x. if x \<in> vis' - vis then 1 else rstate s x), pmq := pmq s @ l\<rparr>"
    and "set l = {x \<in> vis' - vis. graph_neighbors e x = []}" and "distinct l"
  shows "marks e vis s vis' s'"
  unfolding marks_def using assms by blast

lemma marks_refl: "marks e vis s vis s"
  by (simp add: marks_def)

lemma marks_trans:
  assumes "marks e a s b t" and "marks e b t c u"
  shows "marks e a s c u"
proof -
  obtain l where l: "a \<subseteq> b" "t = s\<lparr>rstate := (\<lambda>x. if x \<in> b - a then 1 else rstate s x), pmq := pmq s @ l\<rparr>"
    "distinct l" "set l = {x \<in> b - a. graph_neighbors e x = []}" using assms(1) by (auto simp: marks_def)
  obtain m where m: "b \<subseteq> c" "u = t\<lparr>rstate := (\<lambda>x. if x \<in> c - b then 1 else rstate t x), pmq := pmq t @ m\<rparr>"
    "distinct m" "set m = {x \<in> c - b. graph_neighbors e x = []}" using assms(2) by (auto simp: marks_def)
  have r: "(\<lambda>x. if x \<in> c - b then 1 else if x \<in> b - a then 1 else rstate s x) =
      (\<lambda>x. if x \<in> c - a then 1 else rstate s x)" using l(1) m(1) by (intro ext) auto
  have "u = s\<lparr>rstate := (\<lambda>x. if x \<in> c - a then 1 else rstate s x), pmq := pmq s @ (l @ m)\<rparr>"
    unfolding m(2) l(2) r [symmetric] by (simp cong: if_cong)
  moreover have "distinct (l @ m)" "set (l @ m) = {x \<in> c - a. graph_neighbors e x = []}"
    using l m by auto
  moreover have "a \<subseteq> c" using l(1) m(1) by (rule subset_trans)
  ultimately show ?thesis by (blast intro: marksI)
qed

text \<open>The visit of one node: its mark, those of the nodes below it, and its place in the queue
  when it depends on nothing.\<close>

lemma marks_visit:
  assumes v: "v \<notin> vis"
    and m: "marks e (insert v vis) (s\<lparr>rstate := (rstate s)(v := 1)\<rparr>) vis' s'"
    and leaf: "graph_neighbors e v = [] \<Longrightarrow> vis' = insert v vis \<and> s' = s\<lparr>rstate := (rstate s)(v := 1)\<rparr>"
  shows "marks e vis s vis' (if graph_neighbors e v = [] then s'\<lparr>pmq := pmq s' @ [v]\<rparr> else s')"
proof (cases "graph_neighbors e v = []")
  case True
  note vis' = leaf [OF True]
  have r: "(rstate s)(v := 1) = (\<lambda>x. if x \<in> vis' - vis then 1 else rstate s x)"
    using v vis' by (auto simp: fun_eq_iff)
  have "s'\<lparr>pmq := pmq s' @ [v]\<rparr>
    = s\<lparr>rstate := (\<lambda>x. if x \<in> vis' - vis then 1 else rstate s x), pmq := pmq s @ [v]\<rparr>"
    unfolding r [symmetric] using vis' by simp
  moreover have "set [v] = {x \<in> vis' - vis. graph_neighbors e x = []}" using v True vis' by auto
  ultimately have "marks e vis s vis' (s'\<lparr>pmq := pmq s' @ [v]\<rparr>)"
    by (rule marksI [rotated]) (use vis' in auto)
  then show ?thesis using True by simp
next
  case False
  let ?s = "s\<lparr>rstate := (rstate s)(v := 1)\<rparr>"
  obtain l where l: "insert v vis \<subseteq> vis'" "distinct l"
    "s' = ?s\<lparr>rstate := (\<lambda>x. if x \<in> vis' - insert v vis then 1 else rstate ?s x), pmq := pmq ?s @ l\<rparr>"
    "set l = {x \<in> vis' - insert v vis. graph_neighbors e x = []}"
    using m unfolding marks_def by blast
  have r: "(\<lambda>x. if x \<in> vis' - insert v vis then 1 else ((rstate s)(v := 1)) x) =
      (\<lambda>x. if x \<in> vis' - vis then 1 else rstate s x)"
    using v l(1) by (auto simp: fun_eq_iff)
  have "s' = s\<lparr>rstate := (\<lambda>x. if x \<in> vis' - vis then 1 else rstate s x), pmq := pmq s @ l\<rparr>"
    unfolding l(3) r [symmetric] by (simp cong: if_cong)
  moreover have "set l = {x \<in> vis' - vis. graph_neighbors e x = []}" using l(4) False by auto
  ultimately have "marks e vis s vis' s'" using l(1,2) by (intro marksI) auto
  then show ?thesis using False by simp
qed

lemma dfs_marks:
  assumes "finite V"
  shows "closed (graph_neighbors e) V \<Longrightarrow> v \<in> V - vis \<Longrightarrow> card (V - vis) \<le> k \<Longrightarrow> \<exists>vis' s'. dfs k e v (vis, s) = Inr (vis', s')
      \<and> v \<in> vis' \<and> marks e vis s vis' s' \<and> (\<forall>x\<in>vis' - vis. set (graph_neighbors e x) \<subseteq> vis')
      \<and> (\<forall>x\<in>vis' - vis. (v, x) \<in> (edges (graph_neighbors e))\<^sup>*)"
    and "closed (graph_neighbors e) V \<Longrightarrow> set ns \<subseteq> V \<Longrightarrow> card (V - vis) \<le> k \<Longrightarrow> \<exists>vis' s'. dfs_loop k e ns (vis, s) = Inr (vis', s')
      \<and> set ns \<subseteq> vis' \<and> marks e vis s vis' s' \<and> (\<forall>x\<in>vis' - vis. set (graph_neighbors e x) \<subseteq> vis')
      \<and> (\<forall>x\<in>vis' - vis. \<exists>n\<in>set ns. (n, x) \<in> (edges (graph_neighbors e))\<^sup>*)"
proof (induction k e v "(vis, s)" and k e ns "(vis, s)" arbitrary: vis s and vis s rule: dfs_dfs_loop.induct)
  case (1 e v)
  then show ?case using assms(1) by auto
next
  case (2 k e v visited s)
  let ?s = "s\<lparr>rstate := (rstate s)(v := 1)\<rparr>" and ?N = "graph_neighbors e v"
  have "card (V - insert v visited) < card (V - visited)"
    using 2(3) assms(1) by (intro psubset_card_mono) auto
  then have k: "card (V - insert v visited) \<le> k" using 2(4) by simp
  have "set ?N \<subseteq> V" using 2(2,3) by (auto simp: closed_def)
  from 2(1) [OF 2(2) this k] obtain vis' s' where
    d: "dfs_loop k e ?N (insert v visited, ?s) = Inr (vis', s')" "set ?N \<subseteq> vis'"
      "marks e (insert v visited) ?s vis' s'" "\<forall>x\<in>vis' - insert v visited. set (graph_neighbors e x) \<subseteq> vis'"
      "\<forall>x\<in>vis' - insert v visited. \<exists>n\<in>set ?N. (n, x) \<in> (edges (graph_neighbors e))\<^sup>*"
    by blast
  have "marks e visited s vis' (if ?N = [] then s'\<lparr>pmq := pmq s' @ [v]\<rparr> else s')"
    by (rule marks_visit [OF _ d(3)]) (use 2(3) d(1) in auto)
  moreover have "\<forall>x\<in>vis' - visited. set (graph_neighbors e x) \<subseteq> vis'" using d(2,4) by auto
  moreover have "\<forall>x\<in>vis' - visited. (v, x) \<in> (edges (graph_neighbors e))\<^sup>*"
    using d(5) by (metis Diff_iff converse_rtrancl_into_rtrancl edgesI insertE rtrancl.rtrancl_refl)
  moreover have "v \<in> vis'" using d(3) by (auto simp: marks_def)
  ultimately show ?case using d(1) by auto
next
  case (3 k e)
  then show ?case by (simp add: marks_refl)
next
  case (4 k e n ns visited s)
  show ?case
  proof (cases "n \<in> visited")
    case True
    then have l: "dfs_loop k e (n # ns) (visited, s) = dfs_loop k e ns (visited, s)" by simp
    have "set ns \<subseteq> V" using 4(5) by simp
    from 4(3) [OF _ 4(4) this 4(6)] True obtain vis' s' where i: "dfs_loop k e ns (visited, s) = Inr (vis', s')"
      "set ns \<subseteq> vis'" "marks e visited s vis' s'" "\<forall>x\<in>vis' - visited. set (graph_neighbors e x) \<subseteq> vis'"
      "\<forall>x\<in>vis' - visited. \<exists>n\<in>set ns. (n, x) \<in> (edges (graph_neighbors e))\<^sup>*" by blast
    have "n \<in> vis'" using i(3) True by (auto simp: marks_def)
    then show ?thesis unfolding l i(1) using i(2-5) by auto
  next
    case False
    then obtain vis1 s1 where a: "dfs k e n (visited, s) = Inr (vis1, s1)" "n \<in> vis1" "marks e visited s vis1 s1"
      "\<forall>x\<in>vis1 - visited. set (graph_neighbors e x) \<subseteq> vis1"
      "\<forall>x\<in>vis1 - visited. (n, x) \<in> (edges (graph_neighbors e))\<^sup>*"
      using 4(1) [OF False 4(4) _ 4(6)] 4(5) by auto
    have sub: "visited \<subseteq> vis1" using a(3) by (simp add: marks_def)
    then have "card (V - vis1) \<le> k" using 4(6) assms(1) by (meson Diff_mono card_mono finite_Diff le_trans order_refl)
    then obtain vis2 s2 where b: "dfs_loop k e ns (vis1, s1) = Inr (vis2, s2)" "set ns \<subseteq> vis2" "marks e vis1 s1 vis2 s2"
      "\<forall>x\<in>vis2 - vis1. set (graph_neighbors e x) \<subseteq> vis2"
      "\<forall>x\<in>vis2 - vis1. \<exists>n\<in>set ns. (n, x) \<in> (edges (graph_neighbors e))\<^sup>*"
      using 4(2) [OF False _ 4(4)] a(1) 4(5) by (metis insert_subset list.simps(15))
    have sub2: "vis1 \<subseteq> vis2" using b(3) by (simp add: marks_def)
    have "\<forall>x\<in>vis2 - visited. set (graph_neighbors e x) \<subseteq> vis2"
      using a(4) b(4) sub2 by (metis Diff_iff subset_trans)
    moreover have "\<forall>x\<in>vis2 - visited. \<exists>m\<in>set (n # ns). (m, x) \<in> (edges (graph_neighbors e))\<^sup>*"
      using a(5) b(5) by (metis Diff_iff list.set_intros)
    ultimately show ?thesis using a(1) b(1) False a(2) b(2) sub2 marks_trans [OF a(3) b(3)] by auto
  qed
qed

section \<open>The worker\<close>

text \<open>The graph library: \<open>graph_antineighbors\<close> lists, without repetition, who depends on a vertex.\<close>

definition graph_ok :: "'w menv \<Rightarrow> bool" where
  "graph_ok e \<longleftrightarrow> (\<forall>u. distinct (graph_antineighbors e u)
     \<and> set (graph_antineighbors e u) = {v. u \<in> set (graph_neighbors e v)})"

text \<open>
  The invariant between two turns of the worker, over the states of the rules and the queue. A
  satisfied rule has satisfied dependencies only; a queued rule is failed, or is waiting with
  satisfied dependencies; a rule that waits outside the queue has a dependency that waits or is
  queued (\<open>X\<close> are rules exempt from this while a result is passed on).
\<close>

definition w_inv :: "(string \<Rightarrow> string list) \<Rightarrow> string set \<Rightarrow> (string \<Rightarrow> nat) \<Rightarrow> string list \<Rightarrow> bool" where
  "w_inv nb X st q \<longleftrightarrow>
     (\<forall>v. st v = 0 \<or> st v = 1 \<or> st v = 2 \<or> st v = 4)
   \<and> (\<forall>v d. st v \<noteq> 0 \<longrightarrow> d \<in> set (nb v) \<longrightarrow> st d \<noteq> 0)
   \<and> (\<forall>v d. st v = 4 \<longrightarrow> d \<in> set (nb v) \<longrightarrow> st d = 4)
   \<and> (\<forall>v d. v \<in> set q \<longrightarrow> st v = 1 \<longrightarrow> d \<in> set (nb v) \<longrightarrow> st d = 4)
   \<and> (\<forall>v. v \<in> set q \<longrightarrow> st v = 1 \<or> st v = 2)
   \<and> distinct q
   \<and> (\<forall>v. st v = 1 \<longrightarrow> v \<notin> set q \<longrightarrow> v \<notin> X \<longrightarrow> (\<exists>d\<in>set (nb v). st d = 1 \<or> d \<in> set q))"

lemma w_invD:
  assumes "w_inv nb X st q"
  shows "st v = 0 \<or> st v = 1 \<or> st v = 2 \<or> st v = 4"
    and "st v \<noteq> 0 \<Longrightarrow> d \<in> set (nb v) \<Longrightarrow> st d \<noteq> 0"
    and "st v = 4 \<Longrightarrow> d \<in> set (nb v) \<Longrightarrow> st d = 4"
    and "v \<in> set q \<Longrightarrow> st v = 1 \<Longrightarrow> d \<in> set (nb v) \<Longrightarrow> st d = 4"
    and "v \<in> set q \<Longrightarrow> st v = 1 \<or> st v = 2"
    and "distinct q"
    and "st v = 1 \<Longrightarrow> v \<notin> set q \<Longrightarrow> v \<notin> X \<Longrightarrow> \<exists>d\<in>set (nb v). st d = 1 \<or> d \<in> set q"
proof -
  note w = assms [unfolded w_inv_def]
  show "st v = 0 \<or> st v = 1 \<or> st v = 2 \<or> st v = 4" using w by (elim conjE) (erule allE)
  show "st v \<noteq> 0 \<Longrightarrow> d \<in> set (nb v) \<Longrightarrow> st d \<noteq> 0" using w by (elim conjE) metis
  show "st v = 4 \<Longrightarrow> d \<in> set (nb v) \<Longrightarrow> st d = 4" using w by (elim conjE) metis
  show "v \<in> set q \<Longrightarrow> st v = 1 \<Longrightarrow> d \<in> set (nb v) \<Longrightarrow> st d = 4" using w by (elim conjE) metis
  show "v \<in> set q \<Longrightarrow> st v = 1 \<or> st v = 2" using w by (elim conjE) metis
  show "distinct q" using w by (elim conjE)
  show "st v = 1 \<Longrightarrow> v \<notin> set q \<Longrightarrow> v \<notin> X \<Longrightarrow> \<exists>d\<in>set (nb v). st d = 1 \<or> d \<in> set q"
    using w by (elim conjE) metis
qed

lemma w_invI:
  assumes "\<And>v. st v = 0 \<or> st v = 1 \<or> st v = 2 \<or> st v = 4"
    and "\<And>v d. st v \<noteq> 0 \<Longrightarrow> d \<in> set (nb v) \<Longrightarrow> st d \<noteq> 0"
    and "\<And>v d. st v = 4 \<Longrightarrow> d \<in> set (nb v) \<Longrightarrow> st d = 4"
    and "\<And>v d. v \<in> set q \<Longrightarrow> st v = 1 \<Longrightarrow> d \<in> set (nb v) \<Longrightarrow> st d = 4"
    and "\<And>v. v \<in> set q \<Longrightarrow> st v = 1 \<or> st v = 2"
    and "distinct q"
    and "\<And>v. st v = 1 \<Longrightarrow> v \<notin> set q \<Longrightarrow> v \<notin> X \<Longrightarrow> \<exists>d\<in>set (nb v). st d = 1 \<or> d \<in> set q"
  shows "w_inv nb X st q"
  unfolding w_inv_def
  by (intro conjI allI impI; (rule assms; assumption)?)

lemma w_inv_build:
  assumes i: "w_inv nb {} st (v # rest)" and r: "r = 2 \<or> r = 4" "st v = 2 \<Longrightarrow> r = 2"
    and v: "v \<notin> set (nb v)"
  shows "w_inv nb {n. v \<in> set (nb n)} (st(v := r)) rest"
proof -
  note D = w_invD [OF i]
  have sv: "st v = 1 \<or> st v = 2" using D(5) [of v] by simp
  have no4: "st w \<noteq> 4" if "v \<in> set (nb w)" for w using D(3) [OF _ that] sv by auto
  have noq: "w \<in> set (v # rest) \<Longrightarrow> st w \<noteq> 1" if "v \<in> set (nb w)" for w using D(4) [OF _ _ that] sv by auto
  have vr: "v \<notin> set rest" using D(6) by simp
  show ?thesis
  proof (rule w_invI)
    fix w d assume a: "(st(v := r)) w \<noteq> 0" "d \<in> set (nb w)"
    then have "st w \<noteq> 0" using sv by (cases "w = v") auto
    then have "st d \<noteq> 0" using D(2) a(2) by blast
    then show "(st(v := r)) d \<noteq> 0" using r by auto
  next
    fix w d assume a: "(st(v := r)) w = 4" "d \<in> set (nb w)"
    show "(st(v := r)) d = 4"
    proof (cases "w = v")
      case True
      then have "st v = 1" using a(1) sv r by auto
      then show ?thesis using D(4) [of v d] a True v by auto
    next
      case False
      then show ?thesis using a D(3) [of w d] no4 [of w] by auto
    qed
  next
    fix w d assume a: "w \<in> set rest" "(st(v := r)) w = 1" "d \<in> set (nb w)"
    moreover have "w \<noteq> v" using a(1) vr by auto
    ultimately show "(st(v := r)) d = 4" using D(4) [of w d] noq [of w] by auto
  next
    fix w assume a: "(st(v := r)) w = 1" "w \<notin> set rest" "w \<notin> {n. v \<in> set (nb n)}"
    then have "w \<noteq> v" using r(1) by (cases "w = v") auto
    moreover from this a(1) have "st w = 1" by simp
    ultimately show "\<exists>d\<in>set (nb w). (st(v := r)) d = 1 \<or> d \<in> set rest"
      using D(7) [of w] a(2,3) by auto
  qed (use D(1,5,6) r sv vr in \<open>auto split: if_splits\<close>)
qed

lemma w_inv_push:
  assumes i: "w_inv nb (insert n X) st q" and n: "st n = 1" "n \<notin> set q"
    and d: "\<And>d. d \<in> set (nb n) \<Longrightarrow> st d = 2 \<or> st d = 4"
    and r: "r = 1 \<and> (\<forall>d\<in>set (nb n). st d = 4) \<or> r = 2 \<and> (\<exists>d\<in>set (nb n). st d = 2)"
  shows "w_inv nb X (st(n := r)) (q @ [n])"
proof -
  note D = w_invD [OF i]
  have no4: "st w \<noteq> 4" if "n \<in> set (nb w)" for w using D(3) [OF _ that] n by auto
  have noq: "w \<in> set q \<Longrightarrow> st w \<noteq> 1" if "n \<in> set (nb w)" for w using D(4) [OF _ _ that] n by auto
  have nn: "n \<notin> set (nb n)" using d n(1) by fastforce
  show ?thesis
  proof (rule w_invI)
    fix w e assume a: "(st(n := r)) w \<noteq> 0" "e \<in> set (nb w)"
    then have "st w \<noteq> 0" using n(1) by (cases "w = n") auto
    then have "st e \<noteq> 0" using D(2) a(2) by blast
    then show "(st(n := r)) e \<noteq> 0" using r by auto
  next
    fix w e assume a: "(st(n := r)) w = 4" "e \<in> set (nb w)"
    then have "w \<noteq> n" using r by auto
    then show "(st(n := r)) e = 4" using a no4 [of w] D(3) [of w e] by auto
  next
    fix w e assume a: "w \<in> set (q @ [n])" "(st(n := r)) w = 1" "e \<in> set (nb w)"
    show "(st(n := r)) e = 4"
    proof (cases "w = n")
      case True
      then have "st e = 4" "e \<noteq> n" using a r nn by auto
      then show ?thesis by simp
    next
      case False
      then show ?thesis using a noq [of w] D(4) [of w e] by auto
    qed
  next
    fix w assume a: "(st(n := r)) w = 1" "w \<notin> set (q @ [n])" "w \<notin> X"
    then have "\<exists>d\<in>set (nb w). st d = 1 \<or> d \<in> set q" using D(7) [of w] by auto
    then show "\<exists>d\<in>set (nb w). (st(n := r)) d = 1 \<or> d \<in> set (q @ [n])" by auto
  qed (use D(1,5,6) n r in \<open>auto split: if_splits\<close>)
qed

lemma w_inv_skip:
  assumes i: "w_inv nb (insert n X) st q"
    and "st n = 1 \<Longrightarrow> n \<notin> set q \<Longrightarrow> \<exists>d\<in>set (nb n). st d = 1"
  shows "w_inv nb X st q"
proof (rule w_invI)
  fix v assume "st v = 1" "v \<notin> set q" "v \<notin> X"
  then show "\<exists>d\<in>set (nb v). st d = 1 \<or> d \<in> set q"
    using assms(2) w_invD(7) [OF i, of v] by (cases "v = n") auto
qed (use w_invD(1-6) [OF i] in \<open>blast+\<close>)

text \<open>While the result of \<open>v\<close> is passed on to \<open>As\<close>.\<close>

definition passing :: "'w menv \<Rightarrow> string \<Rightarrow> string list \<Rightarrow> 'w pm \<Rightarrow> bool" where
  "passing e v As s \<longleftrightarrow> w_inv (graph_neighbors e) (set As) (rstate s) (pmq s)
     \<and> (rstate s v = 2 \<or> rstate s v = 4) \<and> v \<notin> set (pmq s) \<and> distinct As
     \<and> (\<forall>n\<in>set As. v \<in> set (graph_neighbors e n) \<and> rstate s n \<noteq> 4 \<and> (n \<in> set (pmq s) \<longrightarrow> rstate s n = 2))"

lemma scan_deps_result:
  "\<forall>d\<in>set ds. st d \<noteq> 0 \<Longrightarrow> \<exists>sf. scan_deps st ds b = Inr (\<exists>d\<in>set ds. st d = 1, sf)
     \<and> ((\<forall>d\<in>set ds. st d \<noteq> 1) \<longrightarrow> (sf \<longleftrightarrow> b \<or> (\<exists>d\<in>set ds. st d = 2)))"
proof (induction ds arbitrary: b)
  case (Cons d ds)
  from Cons.IH [of True] Cons.IH [of b] Cons.prems show ?case by (auto simp: Let_def)
qed simp

text \<open>What \<open>build\<close> does to the states.\<close>

lemma build_effect:
  "\<exists>w r. build e v s = s\<lparr>rstate := (rstate s)(v := r), world := w\<rparr> \<and> (r = 2 \<or> r = 4)
     \<and> (rstate s v = 2 \<longrightarrow> r = 2)"
proof -
  have keep: "s = s\<lparr>rstate := (rstate s)(v := rstate s v), world := world s\<rparr>" by simp
  have four: "s\<lparr>rstate := (rstate s)(v := 4)\<rparr> = s\<lparr>rstate := (rstate s)(v := 4), world := world s\<rparr>" by simp
  have rr: "\<exists>w r. run_rule e v s = s\<lparr>rstate := (rstate s)(v := r), world := w\<rparr> \<and> (r = 2 \<or> r = 4)"
  proof -
    obtain fail w where "run e (commands e v) (world s) = (fail, w)" by fastforce
    then have "run_rule e v s = s\<lparr>rstate := (rstate s)(v := if fail = 1 then 2 else 4), world := w\<rparr>"
      by (simp add: run_rule_def)
    then show ?thesis by (intro exI [of _ w] exI [of _ "if fail = 1 then 2 else 4"]) simp
  qed
  show ?thesis
  proof (cases "rstate s v = 2")
    case True
    then show ?thesis unfolding build_def using keep by metis
  next
    case False
    then have "build e v s = run_rule e v s \<or> build e v s = s\<lparr>rstate := (rstate s)(v := 4)\<rparr>"
      by (auto simp: build_def split: option.splits)
    then show ?thesis using rr four False by metis
  qed
qed

lemma passing_start:
  assumes "w_inv (graph_neighbors e) {} (rstate s) (v # rest)" and "graph_ok e"
    and "v \<notin> set (graph_neighbors e v)"
  shows "passing e v (graph_antineighbors e v) (build e v (s\<lparr>pmq := rest\<rparr>))"
proof -
  let ?nb = "graph_neighbors e"
  note D = w_invD [OF assms(1)]
  obtain w r where b: "build e v (s\<lparr>pmq := rest\<rparr>) = s\<lparr>pmq := rest, rstate := (rstate s)(v := r), world := w\<rparr>"
    "r = 2 \<or> r = 4" "rstate s v = 2 \<longrightarrow> r = 2"
    using build_effect [of e v "s\<lparr>pmq := rest\<rparr>"] by auto
  have A: "set (graph_antineighbors e v) = {n. v \<in> set (?nb n)}" "distinct (graph_antineighbors e v)"
    using assms(2) by (auto simp: graph_ok_def)
  have sv: "rstate s v = 1 \<or> rstate s v = 2" using D(5) [of v] by simp
  have "rstate s n \<noteq> 4" "n \<in> set rest \<Longrightarrow> rstate s n = 2" if "v \<in> set (?nb n)" for n
    using D(3) [OF _ that] D(4) [OF _ _ that] D(5) [of n] sv by auto
  moreover have "n \<noteq> v" if "v \<in> set (?nb n)" for n using that assms(3) by auto
  ultimately show ?thesis unfolding passing_def b(1)
    using w_inv_build [OF assms(1) b(2) _ assms(3)] b(2,3) A D(6) by auto
qed

lemma propagate_step:
  assumes "passing e v (n # As) s"
  shows "\<exists>t. propagate e n s = Inr t \<and> passing e v As t"
proof -
  let ?nb = "graph_neighbors e" and ?st = "rstate s"
  have i: "w_inv ?nb (insert n (set As)) ?st (pmq s)" and v: "v \<in> set (?nb n)" "?st n \<noteq> 4" "n \<in> set (pmq s) \<Longrightarrow> ?st n = 2"
    and n: "n \<notin> set As" and sv: "?st v = 2 \<or> ?st v = 4"
    using assms by (auto simp: passing_def)
  note D = w_invD [OF i]
  have skip: "passing e v As s" if "?st n = 1 \<Longrightarrow> n \<notin> set (pmq s) \<Longrightarrow> \<exists>d\<in>set (?nb n). ?st d = 1"
    using w_inv_skip [OF i that] assms by (auto simp: passing_def)
  show ?thesis
  proof (cases "?st n = 1")
    case False
    then show ?thesis using D(1) [of n] v(2) skip by (auto simp: propagate_def)
  next
    case True
    then obtain sf where sc: "scan_deps ?st (?nb n) False = Inr (\<exists>d\<in>set (?nb n). ?st d = 1, sf)"
      "(\<forall>d\<in>set (?nb n). ?st d \<noteq> 1) \<longrightarrow> (sf \<longleftrightarrow> (\<exists>d\<in>set (?nb n). ?st d = 2))"
      using scan_deps_result [of "?nb n" ?st False] D(2) [of n] by auto
    show ?thesis
    proof (cases "\<exists>d\<in>set (?nb n). ?st d = 1")
      case True
      then show ?thesis using sc \<open>?st n = 1\<close> skip by (auto simp: propagate_def)
    next
      case False
      let ?r = "if sf then 2 else 1"
      let ?t = "s\<lparr>rstate := ?st(n := ?r), pmq := pmq s @ [n]\<rparr>"
      have d: "?st d = 2 \<or> ?st d = 4" if "d \<in> set (?nb n)" for d
        using D(1) [of d] D(2) [OF _ that] \<open>?st n = 1\<close> False that by auto
      have nq: "n \<notin> set (pmq s)" using v(3) \<open>?st n = 1\<close> by auto
      have "?r = 1 \<and> (\<forall>d\<in>set (?nb n). ?st d = 4) \<or> ?r = 2 \<and> (\<exists>d\<in>set (?nb n). ?st d = 2)"
        using sc(2) False d by auto
      from w_inv_push [OF i \<open>?st n = 1\<close> nq d this]
      have "w_inv ?nb (set As) (rstate ?t) (pmq ?t)" by simp
      moreover have "n \<noteq> v" using sv \<open>?st n = 1\<close> by auto
      ultimately have "passing e v As ?t" using assms n by (auto simp: passing_def)
      moreover have "propagate e n s = Inr ?t"
      proof -
        have "?st(n := 1) = ?st" using \<open>?st n = 1\<close> by (rule fun_upd_idem)
        then show ?thesis using \<open>?st n = 1\<close> sc(1) False by (auto simp: propagate_def Let_def)
      qed
      ultimately show ?thesis by blast
    qed
  qed
qed

lemma propagate_all_inv:
  assumes "passing e v As s"
  shows "\<exists>t. propagate_all e As s = Inr t \<and> passing e v [] t"
  using assms
proof (induction As arbitrary: s)
  case (Cons n As)
  from propagate_step [OF Cons.prems] obtain t where "propagate e n s = Inr t" "passing e v As t" by blast
  with Cons.IH show ?case by auto
qed simp

text \<open>The rules that are still to be processed.\<close>

definition pending :: "'w pm \<Rightarrow> string set" where
  "pending s = {v. rstate s v = 1 \<or> v \<in> set (pmq s)}"

definition touched :: "'w pm \<Rightarrow> string set" where
  "touched s = {v. rstate s v \<noteq> 0}"

text \<open>A step of the propagation keeps the pending rules, the touched rules and the goals.\<close>

definition same_work :: "'w pm \<Rightarrow> 'w pm \<Rightarrow> bool" where
  "same_work s t \<longleftrightarrow> pending t = pending s \<and> touched t = touched s \<and> goal t = goal s
     \<and> numgoalfin t = numgoalfin s \<and> numgoals t = numgoals s"

lemma propagate_same_work: "propagate e n s = Inr t \<Longrightarrow> w_inv nb X (rstate s) (pmq s) \<Longrightarrow> same_work s t"
  using w_invD(1) [of nb X "rstate s" "pmq s" n]
  by (auto simp: propagate_def same_work_def pending_def touched_def res_conv Let_def split: if_splits)

lemma propagate_all_same_work:
  "propagate_all e As s = Inr t \<Longrightarrow> passing e v As s \<Longrightarrow> same_work s t"
proof (induction As arbitrary: s)
  case (Cons n As)
  then obtain u where u: "propagate e n s = Inr u" "propagate_all e As u = Inr t" by (auto simp: res_conv)
  have "passing e v As u" using propagate_step [OF Cons.prems(2)] u(1) by auto
  from Cons.IH [OF u(2) this] propagate_same_work [OF u(1)] Cons.prems(2) show ?case
    by (auto simp: same_work_def passing_def)
qed (simp add: same_work_def)

text \<open>The invariant of the whole run.\<close>

definition pm_inv :: "'w menv \<Rightarrow> 'w pm \<Rightarrow> bool" where
  "pm_inv e s \<longleftrightarrow> w_inv (graph_neighbors e) {} (rstate s) (pmq s)
     \<and> finite (touched s) \<and> ''EOF'' \<notin> touched s \<and> (\<forall>v\<in>touched s. \<not> on_cycle (graph_neighbors e) v)
     \<and> set (goal s) \<subseteq> pending s \<and> distinct (goal s) \<and> numgoals s = numgoalfin s + length (goal s)"

lemma pending_touched: "w_inv nb X (rstate s) (pmq s) \<Longrightarrow> pending s \<subseteq> touched s"
  using w_invD(5) [of nb X "rstate s" "pmq s"] by (force simp: pending_def touched_def)

lemma finite_pending: "pm_inv e s \<Longrightarrow> finite (pending s)"
  unfolding pm_inv_def by (elim conjE) (rule finite_subset [OF pending_touched])

lemma thread_turn_ok:
  assumes "pm_inv e s" and "graph_ok e" and "pmq s = v # rest"
  shows "\<exists>t. thread_turn e v (s\<lparr>pmq := rest\<rparr>) = Inr (Some t) \<and> pm_inv e t
    \<and> pending t = pending s - {v} \<and> touched t = touched s \<and> numgoals t = numgoals s"
proof -
  let ?nb = "graph_neighbors e" and ?b = "build e v (s\<lparr>pmq := rest\<rparr>)"
  have i: "w_inv ?nb {} (rstate s) (v # rest)" using assms(1,3) by (simp add: pm_inv_def)
  have vt: "v \<in> touched s" using w_invD(5) [OF i, of v] by (auto simp: touched_def)
  then have "\<not> on_cycle ?nb v" "v \<noteq> ''EOF''" using assms(1) by (auto simp: pm_inv_def)
  then have p: "passing e v (graph_antineighbors e v) ?b"
    by (intro passing_start [OF i assms(2)]) (auto simp: on_cycle_def)
  obtain u where u: "propagate_all e (graph_antineighbors e v) ?b = Inr u" "passing e v [] u"
    using propagate_all_inv [OF p] by blast
  obtain w r where b: "?b = s\<lparr>pmq := rest, rstate := (rstate s)(v := r), world := w\<rparr>" "r = 2 \<or> r = 4"
    using build_effect [of e v "s\<lparr>pmq := rest\<rparr>"] by auto
  have "v \<notin> set rest" using w_invD(6) [OF i] by simp
  then have pend: "pending ?b = pending s - {v}" using b(2) assms(3) by (auto simp: b(1) pending_def)
  have touch: "touched ?b = touched s" using b(2) vt by (auto simp: b(1) touched_def)
  note sw = propagate_all_same_work [OF u(1) p]
  let ?t = "finish_goal v u"
  have t: "rstate ?t = rstate u" "pmq ?t = pmq u" "goal ?t = remove1 v (goal u)"
    "numgoals ?t = numgoals u" "numgoalfin ?t = numgoalfin u + (if v \<in> set (goal u) then 1 else 0)"
    by (auto simp: finish_goal_def remove1_idem)
  have g: "goal u = goal s" "numgoals u = numgoals s" "numgoalfin u = numgoalfin s"
    using sw b(1) by (auto simp: same_work_def)
  have "pending ?t = pending s - {v}" "touched ?t = touched s"
    using sw pend touch t by (auto simp: same_work_def pending_def touched_def)
  moreover from this have "pm_inv e ?t" using assms(1) u(2) t g
    by (auto simp: pm_inv_def passing_def length_remove1 split: if_splits dest: length_pos_if_in_set)
  moreover have "thread_turn e v (s\<lparr>pmq := rest\<rparr>) = Inr (Some ?t)"
    using u(1) \<open>v \<noteq> ''EOF''\<close> by (simp add: thread_turn_def)
  moreover have "numgoals ?t = numgoals s" using t g by simp
  ultimately show ?thesis by blast
qed

text \<open>With fuel for each pending rule the worker empties the queue.\<close>

lemma thread_finishes:
  assumes "graph_ok e" and "pm_inv e s" and "card (pending s) < k"
  shows "\<exists>t. thread k e s = Inr t \<and> pm_inv e t \<and> pmq t = [] \<and> touched t = touched s
    \<and> numgoals t = numgoals s"
  using assms(2,3)
proof (induction k arbitrary: s)
  case (Suc k)
  show ?case
  proof (cases "pmq s")
    case Nil
    then show ?thesis using Suc.prems by auto
  next
    case (Cons v rest)
    from thread_turn_ok [OF Suc.prems(1) assms(1) this] obtain t where
      t: "thread_turn e v (s\<lparr>pmq := rest\<rparr>) = Inr (Some t)" "pm_inv e t" "pending t = pending s - {v}"
        "touched t = touched s" "numgoals t = numgoals s" by blast
    have "v \<in> pending s" "finite (pending s)"
      using Cons finite_pending [OF Suc.prems(1)] by (auto simp: pending_def)
    then have "card (pending t) < card (pending s)" unfolding t(3) by (meson card_Diff1_less)
    then have "card (pending t) < k" using Suc.prems(2) by simp
    with Suc.IH [OF t(2)] t(1,4,5) Cons show ?thesis by auto
  qed
qed simp

text \<open>When the queue is empty nothing is pending: a waiting rule would wait for another one, and so
  on without end.\<close>

lemma drained:
  assumes "pm_inv e s" and "pmq s = []"
  shows "pending s = {}"
proof (rule ccontr)
  let ?nb = "graph_neighbors e" and ?E = "edges (graph_neighbors e)"
  assume ne: "pending s \<noteq> {}"
  have w: "w_inv ?nb {} (rstate s) []" using assms by (simp add: pm_inv_def)
  have fin: "finite (pending s)" using finite_pending [OF assms(1)] .
  have nc: "\<not> on_cycle ?nb x" if "x \<in> pending s" for x
    using assms(1) pending_touched that unfolding pm_inv_def by blast
  let ?R = "{(d, v). v \<in> pending s \<and> d \<in> pending s \<and> d \<in> set (?nb v)}"
  have "acyclic ?R"
  proof (rule acyclicI, intro allI notI)
    fix x assume "(x, x) \<in> ?R\<^sup>+"
    then have "x \<in> pending s" by (induction rule: trancl_induct) auto
    moreover have "(x, x) \<in> (?E\<inverse>)\<^sup>+" using \<open>(x, x) \<in> ?R\<^sup>+\<close> by (rule trancl_mono) auto
    then have "on_cycle ?nb x" by (simp add: trancl_converse on_cycle_def)
    ultimately show False using nc by blast
  qed
  moreover have "finite ?R" by (rule finite_subset [OF _ finite_cartesian_product [OF fin fin]]) auto
  ultimately have "wf ?R" by (rule finite_acyclic_wf [rotated])
  from wfE_min' [OF this ne] obtain v where v: "v \<in> pending s" "\<And>d. (d, v) \<in> ?R \<Longrightarrow> d \<notin> pending s" by blast
  then have "rstate s v = 1" using assms(2) by (simp add: pending_def)
  then obtain d where "d \<in> set (?nb v)" "rstate s d = 1" using w_invD(7) [OF w, of v] by auto
  then have "(d, v) \<in> ?R" "d \<in> pending s" using v(1) by (auto simp: pending_def)
  with v(2) show False by blast
qed

section \<open>The start\<close>

text \<open>
  What is asked of the makefile: its rules are finitely many (\<open>V\<close>, within the fuel), the name
  \<open>EOF\<close> is not among them, the goals are listed once.
\<close>

definition makefile_ok :: "nat \<Rightarrow> 'w menv \<Rightarrow> string set \<Rightarrow> bool" where
  "makefile_ok k e V \<longleftrightarrow> finite V \<and> card V < k \<and> closed (graph_neighbors e) V \<and> ''EOF'' \<notin> V
     \<and> set (graph_neighbors e '''') \<subseteq> V \<and> distinct (graph_neighbors e '''') \<and> graph_ok e"

definition good_goals :: "'w menv \<Rightarrow> string list" where
  "good_goals e = filter (\<lambda>g. \<not> reaches_cycle (graph_neighbors e) g) (graph_neighbors e '''')"

lemma cyclic_goals_spec:
  assumes "finite V" "closed (graph_neighbors e) V" "card V \<le> k" "set gs \<subseteq> V"
  shows "cyclic_goals k e i gs =
    Inr (map (\<lambda>j. j + i) (filter (\<lambda>j. reaches_cycle (graph_neighbors e) (gs ! j)) [0 ..< length gs]))"
  using assms(4)
proof (induction gs arbitrary: i)
  case (Cons g gs)
  have "g \<in> V" using Cons.prems by simp
  from isCyclic_decides [OF assms(1,2) this assms(3)] obtain vis rc where
    "isCyclic k (graph_neighbors e) g {} {} = Inr (if reaches_cycle (graph_neighbors e) g then 1 else 0, vis, rc)"
    by blast
  moreover have "[0 ..< length (g # gs)] = 0 # map Suc [0 ..< length gs]"
    by (simp add: upt_conv_Cons map_Suc_upt del: upt_Suc)
  moreover have "cyclic_goals k e (i + 1) gs =
      Inr (map (\<lambda>j. j + (i + 1)) (filter (\<lambda>j. reaches_cycle (graph_neighbors e) (gs ! j)) [0 ..< length gs]))"
    using Cons.IH Cons.prems by simp
  ultimately show ?case by (simp only: cyclic_goals.simps rbind.simps prod.case) (simp add: filter_map o_def)
qed simp

text \<open>With at most one goal to erase the vector of goals is what it should be.\<close>

lemma filter_none: "filter P gs = [] \<Longrightarrow> filter (\<lambda>j. P (gs ! j)) [0 ..< length gs] = []"
  by (auto simp: filter_empty_conv)

lemma erase_goals_one:
  assumes "length (filter P gs) \<le> 1"
  shows "erase_goals (filter (\<lambda>j. P (gs ! j)) [0 ..< length gs]) gs = Inr (filter (\<lambda>g. \<not> P g) gs)"
proof (cases "filter P gs = []")
  case True
  then have "filter (\<lambda>g. \<not> P g) gs = gs" by (auto simp: filter_empty_conv filter_id_conv)
  with filter_none [OF True] show ?thesis by simp
next
  case False
  then obtain x where "filter P gs = [x]" using assms by (cases "filter P gs") auto
  then obtain us vs where g: "gs = us @ x # vs" "\<forall>u\<in>set us. \<not> P u" "P x" "filter P vs = []"
    by (metis filter_eq_ConsD)
  have a: "[0 ..< length gs] = [0 ..< length us] @ length us # map (\<lambda>j. j + Suc (length us)) [0 ..< length vs]"
    by (rule nth_equalityI) (auto simp: g(1) nth_append nth_Cons')
  have "filter (\<lambda>j. P (gs ! j)) [0 ..< length us] = []"
    using g(1,2) by (auto simp: filter_empty_conv nth_append)
  moreover have "filter (\<lambda>j. P (gs ! j)) (map (\<lambda>j. j + Suc (length us)) [0 ..< length vs]) = []"
    using g(1,4) by (auto simp: filter_empty_conv nth_append)
  ultimately have "filter (\<lambda>j. P (gs ! j)) [0 ..< length gs] = [length us]"
    unfolding a using g(1,3) by simp
  moreover have "filter (\<lambda>g. \<not> P g) us = us" "filter (\<lambda>g. \<not> P g) vs = vs"
    using g(2,4) by (auto simp: filter_empty_conv filter_id_conv)
  ultimately show ?thesis using g(1,3) by simp
qed

lemma dfs_loop_visited: "set ns \<subseteq> vis \<Longrightarrow> dfs_loop k e ns (vis, s) = Inr (vis, s)"
  by (induction ns) auto

text \<open>Before the goals \<open>gs\<close> are searched: exactly the visited rules are marked, exactly the leaves
  among them are queued.\<close>

definition marked :: "'w menv \<Rightarrow> string set \<Rightarrow> 'w pm \<Rightarrow> bool" where
  "marked e vis s \<longleftrightarrow> closed (graph_neighbors e) vis \<and> rstate s = (\<lambda>x. if x \<in> vis then 1 else 0)
     \<and> distinct (pmq s) \<and> set (pmq s) = {x \<in> vis. graph_neighbors e x = []}"

lemma dfs_marked:
  assumes "marked e vis s" and "finite V" and "closed (graph_neighbors e) V" and "card V < k" and "g \<in> V"
    and "g \<in> vis \<Longrightarrow> graph_neighbors e g \<noteq> []"
  shows "\<exists>vis' s'. dfs k e g (vis, s) = Inr (vis', s') \<and> marked e vis' s' \<and> insert g vis \<subseteq> vis'
    \<and> (\<forall>x\<in>vis' - vis. (g, x) \<in> (edges (graph_neighbors e))\<^sup>*) \<and> world s' = world s"
proof (cases "g \<in> vis")
  case True
  obtain k' where k: "k = Suc k'" using assms(4) by (cases k) auto
  have "set (graph_neighbors e g) \<subseteq> vis" "rstate s g = 1" using assms(1) True by (auto simp: marked_def closed_def)
  then have "dfs k e g (vis, s) = Inr (vis, s)"
    using True assms(6) by (simp add: k insert_absorb dfs_loop_visited fun_upd_idem)
  then show ?thesis using assms(1) True by auto
next
  case False
  have "card (V - vis) \<le> k" using assms(2,4) by (meson card_mono Diff_subset le_trans less_imp_le)
  then obtain vis' s' where d: "dfs k e g (vis, s) = Inr (vis', s')" "g \<in> vis'" "marks e vis s vis' s'"
      "\<forall>x\<in>vis' - vis. set (graph_neighbors e x) \<subseteq> vis'"
      "\<forall>x\<in>vis' - vis. (g, x) \<in> (edges (graph_neighbors e))\<^sup>*"
    using dfs_marks(1) [OF assms(2,3)] False assms(5) by (metis DiffI)
  obtain l where l: "vis \<subseteq> vis'" "s' = s\<lparr>rstate := (\<lambda>x. if x \<in> vis' - vis then 1 else rstate s x), pmq := pmq s @ l\<rparr>"
    "distinct l" "set l = {x \<in> vis' - vis. graph_neighbors e x = []}" using d(3) unfolding marks_def by blast
  have "closed (graph_neighbors e) vis'"
    using d(4) l(1) assms(1) unfolding closed_def marked_def by blast
  moreover have "rstate s' = (\<lambda>x. if x \<in> vis' then 1 else 0)"
    using l(1,2) assms(1) by (auto simp: marked_def fun_eq_iff)
  moreover have "distinct (pmq s')" "set (pmq s') = {x \<in> vis'. graph_neighbors e x = []}"
    using l assms(1) by (auto simp: marked_def)
  ultimately show ?thesis using d(1,2,5) l(1,2) by (auto simp: marked_def)
qed

text \<open>No leaf is a goal of its own and needed by another goal.\<close>

definition leaves_once :: "(string \<Rightarrow> string list) \<Rightarrow> string list \<Rightarrow> bool" where
  "leaves_once nb gs \<longleftrightarrow> (\<forall>g\<in>set gs. nb g = [] \<longrightarrow> (\<forall>h\<in>set gs. h \<noteq> g \<longrightarrow> (h, g) \<notin> (edges nb)\<^sup>*))"

lemma dfs_goals_marked:
  assumes "finite V" and "closed (graph_neighbors e) V" and "card V < k"
    and "marked e vis s" and "set gs \<subseteq> V" and "distinct gs"
    and "\<forall>x\<in>vis. \<exists>h\<in>set hs. (h, x) \<in> (edges (graph_neighbors e))\<^sup>*" and "set hs \<inter> set gs = {}"
    and "leaves_once (graph_neighbors e) (hs @ gs)"
  shows "\<exists>vis' s'. dfs_goals k e gs (vis, s) = Inr (vis', s') \<and> marked e vis' s' \<and> vis \<union> set gs \<subseteq> vis'
    \<and> (\<forall>x\<in>vis'. \<exists>h\<in>set (hs @ gs). (h, x) \<in> (edges (graph_neighbors e))\<^sup>*) \<and> world s' = world s"
  using assms(4-)
proof (induction gs arbitrary: vis s hs)
  case (Cons g gs)
  let ?E = "(edges (graph_neighbors e))\<^sup>*"
  have "graph_neighbors e g \<noteq> []" if "g \<in> vis"
    using Cons.prems(4-6) that unfolding leaves_once_def by fastforce
  from dfs_marked [OF Cons.prems(1) assms(1-3) _ this] Cons.prems(2) obtain vis1 s1 where
    a: "dfs k e g (vis, s) = Inr (vis1, s1)" "marked e vis1 s1" "insert g vis \<subseteq> vis1"
      "\<forall>x\<in>vis1 - vis. (g, x) \<in> ?E" "world s1 = world s" by auto
  have "\<forall>x\<in>vis1. \<exists>h\<in>set (hs @ [g]). (h, x) \<in> ?E" using a(4) Cons.prems(4) by (metis Diff_iff Un_iff list.set_intros(1) set_append)
  moreover have "set (hs @ [g]) \<inter> set gs = {}" "leaves_once (graph_neighbors e) ((hs @ [g]) @ gs)"
    using Cons.prems(3,5,6) by auto
  ultimately obtain vis2 s2 where "dfs_goals k e gs (vis1, s1) = Inr (vis2, s2)" "marked e vis2 s2" "vis1 \<union> set gs \<subseteq> vis2"
    "\<forall>x\<in>vis2. \<exists>h\<in>set ((hs @ [g]) @ gs). (h, x) \<in> ?E" "world s2 = world s1"
    using Cons.IH [OF a(2), of "hs @ [g]"] Cons.prems(2,3) by auto
  then show ?case using a by auto
qed auto

text \<open>The rules that some goal needs.\<close>

definition needed :: "'w menv \<Rightarrow> string set" where
  "needed e = {x. \<exists>g\<in>set (good_goals e). (g, x) \<in> (edges (graph_neighbors e))\<^sup>*}"

lemma needed_no_cycle: "x \<in> needed e \<Longrightarrow> \<not> on_cycle (graph_neighbors e) x"
  by (auto simp: needed_def good_goals_def reaches_cycle_def)

lemma parmake_start_ok:
  assumes "makefile_ok k e V" and "length (filter (reaches_cycle (graph_neighbors e)) (graph_neighbors e '''')) \<le> 1"
    and "leaves_once (graph_neighbors e) (good_goals e)"
  shows "\<exists>s. parmake_start k e w = Inr s \<and> pm_inv e s \<and> touched s = needed e \<and> goal s = good_goals e
    \<and> card (pending s) < k \<and> numgoals s = length (good_goals e)"
proof -
  let ?nb = "graph_neighbors e" and ?gs = "good_goals e"
  have V: "finite V" "closed ?nb V" "card V < k" "set (?nb '''') \<subseteq> V" "distinct (?nb '''')" "''EOF'' \<notin> V"
    using assms(1) by (auto simp: makefile_ok_def)
  let ?s = "\<lparr>rstate = (\<lambda>_. 0), pmq = [], goal = [], numgoalfin = 0, numgoals = 0, world = w\<rparr>"
  have gs: "set ?gs \<subseteq> V" "distinct ?gs" using V(4,5) by (auto simp: good_goals_def)
  have "marked e {} ?s" by (simp add: marked_def closed_def)
  from dfs_goals_marked [OF V(1-3) this gs, of "[]"] assms(3) obtain vis t where
    d: "dfs_goals k e ?gs ({}, ?s) = Inr (vis, t)" "marked e vis t" "set ?gs \<subseteq> vis"
      "\<forall>x\<in>vis. \<exists>h\<in>set ?gs. (h, x) \<in> (edges ?nb)\<^sup>*" by auto
  let ?t = "t\<lparr>numgoalfin := 0, numgoals := length ?gs, goal := ?gs\<rparr>"
  have st: "parmake_start k e w = Inr ?t"
    using V(3) cyclic_goals_spec [OF V(1,2) _ V(4), of k 0] erase_goals_one [OF assms(2)] d(1)
    by (simp add: parmake_start_def good_goals_def)
  have vis: "vis = needed e"
  proof
    show "vis \<subseteq> needed e" using d(4) by (auto simp: needed_def)
    show "needed e \<subseteq> vis" using d(2,3) closed_rtrancl unfolding needed_def marked_def by fastforce
  qed
  have sub: "vis \<subseteq> V" using d(4) gs(1) V(2) closed_rtrancl by fastforce
  have touched: "touched ?t = vis" using d(2) by (auto simp: touched_def marked_def)
  have pend: "pending ?t = vis" using d(2) by (auto simp: pending_def marked_def)
  have ne: "\<exists>d\<in>set xs. d \<in> vis" if "xs \<noteq> []" "set xs \<subseteq> vis" for xs using that by (cases xs) auto
  have "w_inv ?nb {} (rstate ?t) (pmq ?t)"
    using d(2) by (intro w_invI) (auto simp: marked_def closed_def intro!: ne split: if_splits)
  then have "pm_inv e ?t"
    using touched pend d(3) gs(2) sub V(1,6) finite_subset needed_no_cycle [of _ e] vis
    by (auto simp: pm_inv_def)
  moreover have "card (pending ?t) < k" using pend sub V(1,3) by (metis card_mono order_le_less_trans)
  ultimately show ?thesis using st touched vis by auto
qed

lemma parmake_ok:
  assumes "makefile_ok k e V" and "length (filter (reaches_cycle (graph_neighbors e)) (graph_neighbors e '''')) \<le> 1"
    and "leaves_once (graph_neighbors e) (good_goals e)"
  shows "\<exists>s. parmake k e w = Inr s \<and> pmq s = [''EOF''] \<and> numgoalfin s = length (good_goals e) \<and> goal s = []
    \<and> (\<forall>v\<in>needed e. rstate s v = 2 \<or> rstate s v = 4)
    \<and> (\<forall>v. rstate s v = 4 \<longrightarrow> (\<forall>d\<in>set (graph_neighbors e v). rstate s d = 4))"
proof -
  from parmake_start_ok [OF assms] obtain s where s: "parmake_start k e w = Inr s" "pm_inv e s" "touched s = needed e"
    "goal s = good_goals e" "card (pending s) < k" "numgoals s = length (good_goals e)" by blast
  have "graph_ok e" using assms(1) by (simp add: makefile_ok_def)
  from thread_finishes [OF this s(2,5)] obtain t where t: "thread k e s = Inr t" "pm_inv e t" "pmq t = []"
    "touched t = touched s" "numgoals t = numgoals s" by blast
  have p: "pending t = {}" using drained [OF t(2,3)] .
  have w: "w_inv (graph_neighbors e) {} (rstate t) []" using t(2,3) by (simp add: pm_inv_def)
  have "goal t = []" using p t(2) by (auto simp: pm_inv_def)
  then have "numgoals t = numgoalfin t" using t(2) by (simp add: pm_inv_def)
  then have n: "numgoalfin t = length (good_goals e)" using t(5) s(6) by simp
  let ?t = "t\<lparr>pmq := [''EOF'']\<rparr>"
  have "parmake k e w = Inr ?t"
    using s(1) t(1,3,5) s(6) n by (simp add: parmake_def thread_turn_def)
  moreover have "rstate t v = 2 \<or> rstate t v = 4" if "v \<in> needed e" for v
  proof -
    have "v \<in> touched t" using that s(3) t(4) by simp
    then show ?thesis using w_invD(1) [OF w, of v] p by (auto simp: pending_def touched_def)
  qed
  ultimately show ?thesis using n \<open>goal t = []\<close> w_invD(3) [OF w] by auto
qed

section \<open>The properties\<close>

text \<open>The steps of the worker: one turn of its loop on the head of the queue.\<close>

inductive worker_step :: "'w menv \<Rightarrow> 'w pm \<Rightarrow> 'w pm \<Rightarrow> bool" for e where
  turn: "pmq s = v # rest \<Longrightarrow> thread_turn e v (s\<lparr>pmq := rest\<rparr>) = Inr (Some t) \<Longrightarrow> worker_step e s t"

inductive_cases worker_stepE: "worker_step e s t"

definition worker_init :: "'w menv \<Rightarrow> 'w pm \<Rightarrow> bool" where
  "worker_init e s \<longleftrightarrow> (\<exists>k V w. makefile_ok k e V
     \<and> length (filter (reaches_cycle (graph_neighbors e)) (graph_neighbors e '''')) \<le> 1
     \<and> leaves_once (graph_neighbors e) (good_goals e) \<and> parmake_start k e w = Inr s)"

definition worker_inv :: "'w menv \<Rightarrow> 'w pm \<Rightarrow> bool" where
  "worker_inv e s \<longleftrightarrow> graph_ok e \<and> pm_inv e s"

interpretation worker: transition_system "worker_init e" "worker_step e" "worker_inv e" for e
proof unfold_locales
  fix s assume "worker_init e s"
  then obtain k V w where a: "makefile_ok k e V"
    "length (filter (reaches_cycle (graph_neighbors e)) (graph_neighbors e '''')) \<le> 1"
    "leaves_once (graph_neighbors e) (good_goals e)" "parmake_start k e w = Inr s"
    unfolding worker_init_def by blast
  from parmake_start_ok [OF a(1-3), of w] a(1,4) show "worker_inv e s" by (auto simp: worker_inv_def makefile_ok_def)
next
  fix s t assume "worker_inv e s" "worker_step e s t"
  then show "worker_inv e t"
    using thread_turn_ok by (fastforce simp: worker_inv_def elim!: worker_stepE)
qed

definition demo :: "string list menv" where
  "demo = \<lparr>graph_neighbors = (\<lambda>v. if v = '''' then [''a''] else if v = ''a'' then [''b''] else []),
     graph_antineighbors = (\<lambda>v. if v = ''a'' then [''''] else if v = ''b'' then [''a''] else []),
     commands = (\<lambda>v. [v]), stat_mtime = (\<lambda>_ _. None), system = (\<lambda>c w. (0, w @ [c]))\<rparr>"

lemma demo_ok:
  "makefile_ok 3 demo {''a'', ''b''}"
  "length (filter (reaches_cycle (graph_neighbors demo)) (graph_neighbors demo '''')) \<le> 1"
  "leaves_once (graph_neighbors demo) (good_goals demo)"
proof -
  show m: "makefile_ok 3 demo {''a'', ''b''}"
    by (auto simp: makefile_ok_def closed_def graph_ok_def demo_def)
  show "length (filter (reaches_cycle (graph_neighbors demo)) (graph_neighbors demo '''')) \<le> 1"
    by (simp add: demo_def)
  show "leaves_once (graph_neighbors demo) (good_goals demo)"
    by (auto simp: leaves_once_def good_goals_def demo_def)
qed

text \<open>C14: \<open>isCyclic\<close>, started with empty sets, returns on every finite graph, and returns 1 exactly
  when a cycle can be reached from the vertex. One unit of fuel for each vertex is enough.\<close>

theorem isCyclic_correct:
  assumes "finite V" and "closed nb V" and "v \<in> V" and "card V \<le> k"
  shows "\<exists>visit recurv. isCyclic k nb v {} {} = Inr (if reaches_cycle nb v then 1 else 0, visit, recurv)"
  by (rule isCyclic_decides [OF assms])

lemma isCyclic_correct_witness:
  "\<exists>visit recurv. isCyclic 2 (graph_neighbors demo) ''a'' {} {} =
     Inr (if reaches_cycle (graph_neighbors demo) ''a'' then 1 else 0, visit, recurv)"
  by (rule isCyclic_correct [where V = "{''a'', ''b''}"]) (auto simp: closed_def demo_def)



text \<open>In every state of the run the worker's next turn returns, and when its rule has not failed,
  all the dependencies of the rule are satisfied: commands run in the order of the dependencies.\<close>

theorem worker_order:
  assumes "reachable (worker_init e) (worker_step e) s" and "pmq s = v # rest"
  shows "(rstate s v \<noteq> 2 \<longrightarrow> (\<forall>d\<in>set (graph_neighbors e v). rstate s d = 4))
    \<and> (\<exists>t. thread_turn e v (s\<lparr>pmq := rest\<rparr>) = Inr (Some t))"
proof -
  have i: "graph_ok e" "pm_inv e s" using worker.reachable_inv [OF assms(1)] by (auto simp: worker_inv_def)
  then have "w_inv (graph_neighbors e) {} (rstate s) (v # rest)" using assms(2) by (simp add: pm_inv_def)
  from w_invD(4,5) [OF this, of v] thread_turn_ok [OF i(2,1) assms(2)] show ?thesis by auto
qed

lemma worker_order_witness:
  "\<exists>s. parmake_start 3 demo [] = Inr s \<and> pmq s = [''b'']
    \<and> (rstate s ''b'' \<noteq> 2 \<longrightarrow> (\<forall>d\<in>set (graph_neighbors demo ''b''). rstate s d = 4))
    \<and> (\<exists>t. thread_turn demo ''b'' (s\<lparr>pmq := []\<rparr>) = Inr (Some t))"
proof -
  have e: "\<exists>s. parmake_start 3 demo [] = Inr s \<and> pmq s = [''b'']"
    by (simp add: parmake_start_def demo_def numeral_3_eq_3)
  then obtain s where s: "parmake_start 3 demo [] = Inr s" "pmq s = [''b'']" by blast
  have "worker_init demo s" unfolding worker_init_def using demo_ok s(1) by blast
  then have "reachable (worker_init demo) (worker_step demo) s" by (rule reach_init)
  from worker_order [OF this s(2)] s show ?thesis by blast
qed

text \<open>Two goals that depend on themselves and a third one without dependencies.\<close>

definition two_cycles :: "string list menv" where
  "two_cycles = \<lparr>graph_neighbors = (\<lambda>v. if v = '''' then [''a'', ''b'', ''c''] else if v = ''a'' then [''a'']
       else if v = ''b'' then [''b''] else []),
     graph_antineighbors = (\<lambda>v. if v = ''a'' then ['''', ''a''] else if v = ''b'' then ['''', ''b'']
       else if v = ''c'' then [''''] else []),
     commands = (\<lambda>v. [v]), stat_mtime = (\<lambda>_ _. None), system = (\<lambda>c w. (0, w @ [c]))\<rparr>"

text \<open>With two goals above cycles the indices in \<open>toerase\<close> no longer fit after the first
  \<open>vector_erase\<close>: the goal \<open>b\<close>, which depends on itself, is kept and the goal \<open>c\<close> is erased, so that
  \<open>parmake\<close> waits for ever.\<close>

theorem parmake_two_cycles:
  "erase_goals [0, 1] (graph_neighbors two_cycles '''') = Inr [''b'']
   \<and> cyclic_goals 4 two_cycles 0 (graph_neighbors two_cycles '''') = Inr [0, 1]
   \<and> parmake 4 two_cycles [] = Inl Diverges"
  by (simp add: parmake_def parmake_start_def two_cycles_def eval_nat_numeral)

text \<open>The goals \<open>a\<close> and \<open>b\<close>, where \<open>a\<close> needs \<open>b\<close>.\<close>

definition shared_leaf :: "string list menv" where
  "shared_leaf = demo\<lparr>graph_neighbors := (\<lambda>v. if v = '''' then [''a'', ''b''] else if v = ''a'' then [''b''] else []),
     graph_antineighbors := (\<lambda>v. if v = ''a'' then [''''] else if v = ''b'' then ['''', ''a''] else [])\<rparr>"

text \<open>A leaf that is a goal and needed by another goal is queued twice: its commands run twice,
  and so do those of the rules above it.\<close>

theorem parmake_shared_leaf:
  "\<exists>s. parmake 9 shared_leaf [] = Inr s \<and> world s = [''b'', ''b'', ''a'', ''a'']"
  by (simp add: parmake_def parmake_start_def shared_leaf_def demo_def thread_turn_def build_def run_rule_def
      propagate_def finish_goal_def Let_def eval_nat_numeral)

end
