(* ===== verification/Parmake_Threads.thy ===== *)
theory Parmake_Threads
  imports Parmake_Correct
begin

text \<open>
  The parallel make with any number of workers (\<open>thread\<close> and the main thread of
  \<open>parallel_make/parmake.c\<close>). A step of a worker is the code between two points where another thread
  can come in: a critical section of \<open>mutex\<close>, a call of the queue, of \<open>stat\<close> or of \<open>system\<close>, or a
  read of the vector of goals, which the code does without the mutex.
\<close>

section \<open>The code\<close>

text \<open>Where a worker is; the lists are what its loops still have before them.\<close>

datatype wpc =
    Pulling
  | Seen_eof
  | Left
  | Looking string
  | Statting string
  | Comparing string int "string list"
  | Running string "string list"
  | Storing string nat
  | Telling string "string list"
  | Scanning string string "string list"
  | Failing string string "string list"
  | Pushing string string "string list"
  | Searching string nat
  | At_goal string nat
  | Finishing string nat

text \<open>One step of \<open>thread\<close> on the shared state: \<open>None\<close> when the worker blocks or has ended, a fault
  when an assertion fails. \<open>Finishing\<close> takes the lock only after the goal was found.\<close>

fun wstep :: "'w menv \<Rightarrow> wpc \<Rightarrow> 'w pm \<Rightarrow> (wpc \<times> 'w pm) res option" where
  "wstep e Pulling s =
     (case pmq s of
        [] \<Rightarrow> None
      | v # rest \<Rightarrow> Some (Inr (if v = ''EOF'' then Seen_eof else Looking v, s\<lparr>pmq := rest\<rparr>)))"
| "wstep e Seen_eof s = Some (Inr (Left, s\<lparr>pmq := pmq s @ [''EOF'']\<rparr>))"
| "wstep e Left s = None"
| "wstep e (Looking v) s =
     Some (Inr (if rstate s v \<noteq> 2 then Statting v else Telling v (graph_antineighbors e v), s))"
| "wstep e (Statting v) s =
     Some (Inr (case stat_mtime e (world s) v of
                  None \<Rightarrow> Running v (commands e v)
                | Some t \<Rightarrow> Comparing v t (graph_neighbors e v), s))"
| "wstep e (Comparing v t []) s = Some (Inr (Storing v 4, s))"
| "wstep e (Comparing v t (d # ds)) s =
     Some (Inr (case stat_mtime e (world s) d of
                  None \<Rightarrow> Running v (commands e v)
                | Some u \<Rightarrow> if u - t > 1 then Running v (commands e v) else Comparing v t ds, s))"
| "wstep e (Running v []) s = Some (Inr (Storing v 4, s))"
| "wstep e (Running v (c # cs)) s =
     (let (success, w) = system e c (world s)
      in Some (Inr (if success \<noteq> 0 then Storing v 2 else Running v cs, s\<lparr>world := w\<rparr>)))"
| "wstep e (Storing v r) s =
     Some (Inr (Telling v (graph_antineighbors e v), s\<lparr>rstate := (rstate s)(v := r)\<rparr>))"
| "wstep e (Telling v []) s = Some (Inr (Searching v 0, s))"
| "wstep e (Telling v (n # ns)) s =
     Some (if rstate s n = 0 then Inr (Telling v ns, s)
           else if rstate s n = 2 then Inr (Telling v ns, s)
           else rbind (guard (rstate s n \<noteq> 4) Assert_failed) (\<lambda>_. Inr (Scanning v n ns, s)))"
| "wstep e (Scanning v n ns) s =
     Some (rbind (scan_deps (rstate s) (graph_neighbors e n) False) (\<lambda>(ready, shouldfail).
       Inr (if ready then Telling v ns else if shouldfail then Failing v n ns else Pushing v n ns, s)))"
| "wstep e (Failing v n ns) s = Some (Inr (Pushing v n ns, s\<lparr>rstate := (rstate s)(n := 2)\<rparr>))"
| "wstep e (Pushing v n ns) s = Some (Inr (Telling v ns, s\<lparr>pmq := pmq s @ [n]\<rparr>))"
| "wstep e (Searching v i) s = Some (Inr (if i < length (goal s) then At_goal v i else Pulling, s))"
| "wstep e (At_goal v i) s =
     Some (rbind (guard (i < length (goal s)) Assert_failed) (\<lambda>_.
       Inr (if v = goal s ! i then Finishing v i else Searching v (i + 1), s)))"
| "wstep e (Finishing v i) s =
     Some (rbind (guard (i < length (goal s)) Assert_failed) (\<lambda>_.
       Inr (Pulling, s\<lparr>numgoalfin := numgoalfin s + 1, goal := take i (goal s) @ drop (i + 1) (goal s)\<rparr>)))"

text \<open>
  The whole program: the shared state, where each worker and the main thread are, and the history of
  the results that were stored.
\<close>

datatype mainpc = Awaiting | Ending | Joining | Finished

record 'w mk =
  shared :: "'w pm"
  workers :: "nat \<Rightarrow> wpc"
  main_at :: mainpc
  stored :: "(string \<times> nat) list"

fun result_of :: "wpc \<Rightarrow> (string \<times> nat) list" where
  "result_of (Storing v r) = [(v, r)]"
| "result_of (Failing v n ns) = [(n, 2)]"
| "result_of _ = []"

definition worker_acts :: "'w menv \<Rightarrow> nat \<Rightarrow> 'w mk \<Rightarrow> 'w mk res option" where
  "worker_acts e i m =
     map_option (\<lambda>r. rbind r (\<lambda>(p, s).
       Inr (m\<lparr>shared := s, workers := (workers m)(i := p), stored := stored m @ result_of (workers m i)\<rparr>)))
       (wstep e (workers m i) (shared m))"

text \<open>
  The main thread: the wait for the goals (whose condition is made true under the mutex, in the section
  that broadcasts), the push of \<open>EOF\<close>, and the joins.
\<close>

definition main_acts :: "nat \<Rightarrow> 'w mk \<Rightarrow> 'w mk option" where
  "main_acts num_threads m =
     (case main_at m of
        Awaiting \<Rightarrow>
          if numgoalfin (shared m) < numgoals (shared m) then None else Some (m\<lparr>main_at := Ending\<rparr>)
      | Ending \<Rightarrow>
          Some (m\<lparr>shared := (shared m)\<lparr>pmq := pmq (shared m) @ [''EOF'']\<rparr>, main_at := Joining\<rparr>)
      | Joining \<Rightarrow>
          if list_all (\<lambda>i. workers m i = Left) [0 ..< num_threads] then Some (m\<lparr>main_at := Finished\<rparr>) else None
      | Finished \<Rightarrow> None)"

definition mk_start :: "'w pm \<Rightarrow> 'w mk" where
  "mk_start s = \<lparr>shared = s, workers = (\<lambda>_. Pulling), main_at = Awaiting, stored = []\<rparr>"

definition mk_init :: "nat \<Rightarrow> 'w menv \<Rightarrow> 'w \<Rightarrow> 'w mk \<Rightarrow> bool" where
  "mk_init k e w m \<longleftrightarrow> (\<exists>s. parmake_start k e w = Inr s \<and> m = mk_start s)"

inductive mk_step :: "'w menv \<Rightarrow> nat \<Rightarrow> 'w mk \<Rightarrow> 'w mk \<Rightarrow> bool" for e num_threads where
  worker: "i < num_threads \<Longrightarrow> worker_acts e i m = Some (Inr m') \<Longrightarrow> mk_step e num_threads m m'"
| main: "main_acts num_threads m = Some m' \<Longrightarrow> mk_step e num_threads m m'"

inductive_cases mk_stepE: "mk_step e num_threads m m'"

section \<open>The start\<close>

text \<open>What the search leaves behind: marked rules are those visited, queued ones are leaves, and a rule
  that is new among the visited has only visited dependencies.\<close>

definition dfs_inv :: "'w menv \<Rightarrow> string set \<Rightarrow> 'w pm \<Rightarrow> bool" where
  "dfs_inv e vis s \<longleftrightarrow> rstate s = (\<lambda>x. if x \<in> vis then 1 else 0)
     \<and> (\<forall>x\<in>set (pmq s). x \<in> vis \<and> graph_neighbors e x = [])"

lemma dfs_keeps:
  "dfs k e v (vis, s) = Inr (vis', s') \<Longrightarrow> dfs_inv e vis s \<Longrightarrow>
     dfs_inv e vis' s' \<and> insert v vis \<subseteq> vis' \<and> (\<forall>x\<in>insert v (vis' - vis). set (graph_neighbors e x) \<subseteq> vis')"
  "dfs_loop k e ns (vis, s) = Inr (vis', s') \<Longrightarrow> dfs_inv e vis s \<Longrightarrow>
     dfs_inv e vis' s' \<and> vis \<union> set ns \<subseteq> vis' \<and> (\<forall>x\<in>vis' - vis. set (graph_neighbors e x) \<subseteq> vis')"
proof (induction k e v "(vis, s)" and k e ns "(vis, s)" arbitrary: vis s vis' s' and vis s vis' s' rule: dfs_dfs_loop.induct)
  case (2 k e v vis s)
  have j: "dfs_inv e (insert v vis) (s\<lparr>rstate := (rstate s)(v := 1)\<rparr>)"
    using "2.prems"(2) by (auto simp: dfs_inv_def fun_eq_iff)
  obtain s1 where l: "dfs_loop k e (graph_neighbors e v) (insert v vis, s\<lparr>rstate := (rstate s)(v := 1)\<rparr>) = Inr (vis', s1)"
    "s' = (if graph_neighbors e v = [] then s1\<lparr>pmq := pmq s1 @ [v]\<rparr> else s1)"
    using "2.prems"(1) by (auto simp: res_conv)
  from "2.hyps" [OF l(1) j] l(2) show ?case by (auto simp: dfs_inv_def)
next
  case (4 k e n ns vis s)
  show ?case
  proof (cases "n \<in> vis")
    case True
    then have "dfs_loop k e ns (vis, s) = Inr (vis', s')" using "4.prems"(1) by simp
    from "4.hyps"(3) [OF _ this "4.prems"(2)] True show ?thesis by auto
  next
    case False
    then obtain u where u: "dfs k e n (vis, s) = Inr u" "dfs_loop k e ns u = Inr (vis', s')"
      using "4.prems"(1) by (auto simp: res_conv)
    obtain v1 s1 where p: "u = (v1, s1)" by fastforce
    from "4.hyps"(1) [OF False u(1) [unfolded p] "4.prems"(2)] have
      a: "dfs_inv e v1 s1" "insert n vis \<subseteq> v1" "\<forall>x\<in>insert n (v1 - vis). set (graph_neighbors e x) \<subseteq> v1" by auto
    from "4.hyps"(2) [OF False u(1) [unfolded p] u(2) [unfolded p] a(1)] have
      "dfs_inv e vis' s'" "v1 \<union> set ns \<subseteq> vis'" and
      c: "\<forall>x\<in>vis' - v1. set (graph_neighbors e x) \<subseteq> vis'" by auto
    moreover have "set (graph_neighbors e x) \<subseteq> vis'" if "x \<in> vis' - vis" for x
      using that a(3) \<open>v1 \<union> set ns \<subseteq> vis'\<close> c by (cases "x \<in> v1") (blast+)
    ultimately show ?thesis using a(2) by auto
  qed
qed (auto simp: dfs_inv_def)

text \<open>A rule that some thread deals with: its dependencies are decided (\<open>ready\<close>), and unless it has failed
  each of them was satisfied at some time (\<open>good\<close>).\<close>

definition decided :: "(string \<Rightarrow> nat) \<Rightarrow> string \<Rightarrow> bool" where
  "decided st v \<longleftrightarrow> st v = 2 \<or> st v = 4"

definition good :: "'w menv \<Rightarrow> (string \<times> nat) list \<Rightarrow> string \<Rightarrow> bool" where
  "good e l v \<longleftrightarrow> (\<forall>d\<in>set (graph_neighbors e v). (d, 4) \<in> set l)"

definition ripe :: "'w menv \<Rightarrow> (string \<Rightarrow> nat) \<Rightarrow> (string \<times> nat) list \<Rightarrow> string \<Rightarrow> bool" where
  "ripe e st l v \<longleftrightarrow> st v \<noteq> 0 \<and> (\<forall>d\<in>set (graph_neighbors e v). decided st d) \<and> (st v = 2 \<or> good e l v)"

definition building :: "'w menv \<Rightarrow> (string \<Rightarrow> nat) \<Rightarrow> (string \<times> nat) list \<Rightarrow> string \<Rightarrow> bool" where
  "building e st l v \<longleftrightarrow> st v \<noteq> 0 \<and> (\<forall>d\<in>set (graph_neighbors e v). decided st d) \<and> good e l v"

text \<open>What holds at each place of a worker.\<close>

fun place_ok :: "'w menv \<Rightarrow> (string \<Rightarrow> nat) \<Rightarrow> (string \<times> nat) list \<Rightarrow> wpc \<Rightarrow> bool" where
  "place_ok e st l (Looking v) = ripe e st l v"
| "place_ok e st l (Statting v) = building e st l v"
| "place_ok e st l (Comparing v t ds) = building e st l v"
| "place_ok e st l (Running v cs) = building e st l v"
| "place_ok e st l (Storing v r) = (building e st l v \<and> (r = 2 \<or> r = 4))"
| "place_ok e st l (Scanning v n ns) = (st n \<noteq> 0)"
| "place_ok e st l (Failing v n ns) = (st n \<noteq> 0 \<and> (\<forall>d\<in>set (graph_neighbors e n). decided st d))"
| "place_ok e st l (Pushing v n ns) = ripe e st l n"
| "place_ok e st l p = True"

definition shared_ok :: "'w menv \<Rightarrow> 'w pm \<Rightarrow> (string \<times> nat) list \<Rightarrow> bool" where
  "shared_ok e s l \<longleftrightarrow>
     (\<forall>v. rstate s v = 0 \<or> rstate s v = 1 \<or> decided (rstate s) v)
   \<and> (\<forall>v d. rstate s v \<noteq> 0 \<longrightarrow> d \<in> set (graph_neighbors e v) \<longrightarrow> rstate s d \<noteq> 0)
   \<and> (\<forall>v. rstate s v = 4 \<longrightarrow> (v, 4) \<in> set l)
   \<and> (\<forall>v\<in>set (pmq s). v = ''EOF'' \<or> ripe e (rstate s) l v)"

definition mk_inv :: "'w menv \<Rightarrow> 'w mk \<Rightarrow> bool" where
  "mk_inv e m \<longleftrightarrow> shared_ok e (shared m) (stored m)
     \<and> (\<forall>i. place_ok e (rstate (shared m)) (stored m) (workers m i))"

section \<open>What other threads may change\<close>

text \<open>A step moves states only forward; what it makes of a failed rule is failed, or the rule was good.\<close>

definition forward :: "'w menv \<Rightarrow> (string \<Rightarrow> nat) \<Rightarrow> (string \<times> nat) list \<Rightarrow> (string \<Rightarrow> nat)
    \<Rightarrow> (string \<times> nat) list \<Rightarrow> bool" where
  "forward e st l st' l' \<longleftrightarrow> (\<forall>v. st v \<noteq> 0 \<longrightarrow> st' v \<noteq> 0) \<and> (\<forall>v. decided st v \<longrightarrow> decided st' v)
     \<and> set l \<subseteq> set l' \<and> (\<forall>v. st v = 2 \<longrightarrow> st' v = 2 \<or> good e l v)"

lemma forward_refl [simp]: "forward e st l st l"
  by (simp add: forward_def)

lemma forward_good: "forward e st l st' l' \<Longrightarrow> good e l v \<Longrightarrow> good e l' v"
  by (auto simp: forward_def good_def)

lemma forward_ripe: "forward e st l st' l' \<Longrightarrow> ripe e st l v \<Longrightarrow> ripe e st' l' v"
  using forward_good [of e st l st' l' v] by (auto simp: ripe_def forward_def)

lemma forward_building: "forward e st l st' l' \<Longrightarrow> building e st l v \<Longrightarrow> building e st' l' v"
  using forward_good [of e st l st' l' v] by (auto simp: building_def forward_def)

lemma forward_place: "forward e st l st' l' \<Longrightarrow> place_ok e st l p \<Longrightarrow> place_ok e st' l' p"
  by (cases p) (simp_all add: forward_ripe forward_building, auto simp: forward_def)

lemma building_ripe: "building e st l v \<Longrightarrow> ripe e st l v"
  by (simp add: building_def ripe_def)

text \<open>A stored result.\<close>

lemma store_forward:
  assumes "st v \<noteq> 0" and "r = 2 \<or> r = 4" and "r = 4 \<Longrightarrow> good e l v"
  shows "forward e st l (st(v := r)) (l @ [(v, r)])"
  using assms by (auto simp: forward_def decided_def)

lemma store_shared:
  assumes "shared_ok e s l" and "rstate s v \<noteq> 0" and "r = 2 \<or> r = 4" and "r = 4 \<Longrightarrow> good e l v"
  shows "shared_ok e (s\<lparr>rstate := (rstate s)(v := r)\<rparr>) (l @ [(v, r)])"
  using assms(1) forward_ripe [OF store_forward [of "rstate s", OF assms(2-4)]] assms(2,3)
  unfolding shared_ok_def by (auto simp: decided_def)

section \<open>The invariant\<close>

lemma shared_okD:
  assumes "shared_ok e s l"
  shows "rstate s v = 0 \<or> rstate s v = 1 \<or> rstate s v = 2 \<or> rstate s v = 4"
    and "rstate s v \<noteq> 0 \<Longrightarrow> d \<in> set (graph_neighbors e v) \<Longrightarrow> rstate s d \<noteq> 0"
    and "rstate s v = 4 \<Longrightarrow> (v, 4) \<in> set l"
    and "v \<in> set (pmq s) \<Longrightarrow> v = ''EOF'' \<or> ripe e (rstate s) l v"
  using assms unfolding shared_ok_def decided_def by blast+

text \<open>What the loop over the dependencies finds.\<close>

lemma scan_ripe:
  assumes "shared_ok e s l" and "rstate s n \<noteq> 0"
    and "scan_deps (rstate s) (graph_neighbors e n) False = Inr (False, shouldfail)"
  shows "(\<forall>d\<in>set (graph_neighbors e n). decided (rstate s) d) \<and> (\<not> shouldfail \<longrightarrow> ripe e (rstate s) l n)"
proof -
  let ?ds = "graph_neighbors e n" and ?st = "rstate s"
  have nz: "\<forall>d\<in>set ?ds. ?st d \<noteq> 0" using shared_okD(2) [OF assms(1,2)] by blast
  from scan_deps_result [OF nz, of False] assms(3) have
    n1: "\<forall>d\<in>set ?ds. ?st d \<noteq> 1" and sf: "shouldfail \<longleftrightarrow> (\<exists>d\<in>set ?ds. ?st d = 2)" by auto
  have d: "decided ?st d" if "d \<in> set ?ds" for d
    using shared_okD(1) [OF assms(1), of d] nz n1 that by (auto simp: decided_def)
  moreover have "good e l n" if "\<not> shouldfail"
    using shared_okD(3) [OF assms(1)] d sf that by (auto simp: good_def decided_def)
  ultimately show ?thesis using assms(2) by (simp add: ripe_def)
qed

text \<open>The scan never meets an untouched dependency, so its assertion holds.\<close>

lemma scan_returns:
  assumes "shared_ok e s l" and "rstate s n \<noteq> 0"
  shows "\<exists>r. scan_deps (rstate s) (graph_neighbors e n) False = Inr r"
  using scan_deps_result [of "graph_neighbors e n" "rstate s" False] shared_okD(2) [OF assms] by blast

lemma shared_push: "shared_ok e s l \<Longrightarrow> v = ''EOF'' \<or> ripe e (rstate s) l v \<Longrightarrow> shared_ok e (s\<lparr>pmq := pmq s @ [v]\<rparr>) l"
  unfolding shared_ok_def by auto

lemma shared_pull: "shared_ok e s l \<Longrightarrow> pmq s = v # rest \<Longrightarrow> shared_ok e (s\<lparr>pmq := rest\<rparr>) l"
  unfolding shared_ok_def by auto

lemma shared_other: "shared_ok e s l \<Longrightarrow> shared_ok e (s\<lparr>world := w\<rparr>) l"
  "shared_ok e s l \<Longrightarrow> shared_ok e (s\<lparr>numgoalfin := n, goal := gs\<rparr>) l"
  unfolding shared_ok_def by auto

text \<open>One step of a worker, for itself.\<close>

lemma wstep_ok:
  assumes "wstep e p s = Some (Inr (q, t))" and "shared_ok e s l" and "place_ok e (rstate s) l p"
  shows "shared_ok e t (l @ result_of p) \<and> place_ok e (rstate t) (l @ result_of p) q
    \<and> forward e (rstate s) l (rstate t) (l @ result_of p)"
proof (cases p)
  case Pulling
  then show ?thesis
    using assms(1,2) shared_pull [OF assms(2)] shared_okD(4) [OF assms(2), of "hd (pmq s)"]
    by (auto split: list.splits if_splits)
next
  case Seen_eof
  then show ?thesis using assms shared_push by auto
next
  case (Looking v)
  then show ?thesis using assms by (auto simp: ripe_def building_def)
next
  case (Statting v)
  then show ?thesis using assms by (auto split: option.splits)
next
  case (Comparing v u ds)
  then show ?thesis using assms by (cases ds) (auto split: option.splits)
next
  case (Running v cs)
  then show ?thesis using assms shared_other(1) by (cases cs) (auto split: prod.splits)
next
  case (Storing v r)
  then have b: "building e (rstate s) l v" "r = 2 \<or> r = 4" and t: "t = s\<lparr>rstate := (rstate s)(v := r)\<rparr>"
    "q = Telling v (graph_antineighbors e v)" using assms by auto
  then have "rstate s v \<noteq> 0" "r = 4 \<Longrightarrow> good e l v" by (auto simp: building_def)
  from store_shared [OF assms(2) this(1) b(2) this(2)] store_forward [of "rstate s", OF this(1) b(2) this(2)]
  show ?thesis by (simp add: Storing t)
next
  case (Telling v ns)
  then show ?thesis using assms by (cases ns) (auto simp: res_conv split: if_splits)
next
  case (Scanning v n ns)
  then obtain ready sf where "scan_deps (rstate s) (graph_neighbors e n) False = Inr (ready, sf)"
    "q = (if ready then Telling v ns else if sf then Failing v n ns else Pushing v n ns)" "t = s" and nz: "rstate s n \<noteq> 0"
    using assms by (auto simp: res_conv)
  then show ?thesis using scan_ripe [OF assms(2) nz] assms(2) nz by (auto simp: Scanning)
next
  case (Failing v n ns)
  then have n: "rstate s n \<noteq> 0" "\<forall>d\<in>set (graph_neighbors e n). decided (rstate s) d"
    and t: "t = s\<lparr>rstate := (rstate s)(n := 2)\<rparr>" "q = Pushing v n ns" using assms by auto
  then show ?thesis using store_shared [OF assms(2) n(1), of 2] store_forward [of "rstate s" n 2 e l]
    by (auto simp: Failing ripe_def decided_def)
next
  case (Pushing v n ns)
  then show ?thesis using assms shared_push [OF assms(2)] by auto
next
  case (Finishing v i)
  then show ?thesis using assms(1) shared_other(2) [OF assms(2)] by (auto simp: res_conv)
qed (use assms in \<open>auto simp: res_conv\<close>)

lemma mk_inv_start:
  assumes "mk_init k e w m"
  shows "mk_inv e m"
proof -
  obtain s where s: "parmake_start k e w = Inr s" "m = mk_start s" using assms by (auto simp: mk_init_def)
  have goals: "dfs_inv e vis u \<Longrightarrow> closed (graph_neighbors e) vis \<Longrightarrow> dfs_goals k e gs (vis, u) = Inr (vis', u')
      \<Longrightarrow> dfs_inv e vis' u' \<and> closed (graph_neighbors e) vis'" for gs vis u vis' u'
  proof (induction gs arbitrary: vis u)
    case (Cons g gs)
    then obtain v1 u1 where d: "dfs k e g (vis, u) = Inr (v1, u1)" "dfs_goals k e gs (v1, u1) = Inr (vis', u')"
      by (auto simp: res_conv)
    from dfs_keeps(1) [OF d(1) Cons.prems(1)] Cons.prems(2) have "dfs_inv e v1 u1" "closed (graph_neighbors e) v1"
      unfolding closed_def by blast+
    then show ?case using Cons.IH d(2) by blast
  qed simp
  let ?s0 = "\<lparr>rstate = (\<lambda>_. 0), pmq = [], goal = [], numgoalfin = 0, numgoals = 0, world = w\<rparr>"
  obtain gs vis u where d: "dfs_goals k e gs ({}, ?s0) = Inr (vis, u)" "rstate s = rstate u" "pmq s = pmq u"
    using s(1) by (auto simp: parmake_start_def res_conv)
  have "dfs_inv e {} ?s0" by (simp add: dfs_inv_def)
  from goals [OF this _ d(1)] d(2,3) have u: "dfs_inv e vis u" "closed (graph_neighbors e) vis"
    "rstate s = rstate u" "pmq s = pmq u" by (auto simp: closed_def)
  have "shared_ok e s []"
    using u by (auto simp: shared_ok_def dfs_inv_def closed_def ripe_def good_def decided_def)
  then show ?thesis by (simp add: s(2) mk_inv_def mk_start_def)
qed

lemma mk_inv_worker:
  assumes "mk_inv e m" and "worker_acts e i m = Some (Inr m')"
  shows "mk_inv e m'"
proof -
  obtain q t where a: "wstep e (workers m i) (shared m) = Some (Inr (q, t))"
    "m' = m\<lparr>shared := t, workers := (workers m)(i := q), stored := stored m @ result_of (workers m i)\<rparr>"
    using assms(2) by (auto simp: worker_acts_def res_conv)
  have ok: "shared_ok e (shared m) (stored m)" "place_ok e (rstate (shared m)) (stored m) (workers m j)" for j
    using assms(1) by (simp_all add: mk_inv_def)
  from wstep_ok [OF a(1) ok] forward_place [OF _ ok(2)] show ?thesis by (simp add: mk_inv_def a(2))
qed

lemma mk_inv_main: "mk_inv e m \<Longrightarrow> main_acts n m = Some m' \<Longrightarrow> mk_inv e m'"
  using shared_push [of e "shared m" "stored m" "''EOF''"]
  by (auto simp: mk_inv_def main_acts_def split: mainpc.splits if_splits)

interpretation mk: transition_system "mk_init k e w" "mk_step e n" "mk_inv e" for k e w n
  by unfold_locales (auto intro: mk_inv_start mk_inv_worker mk_inv_main elim!: mk_stepE)

section \<open>One worker\<close>

text \<open>A path of one worker that nothing interrupts.\<close>

abbreviation wpath :: "'w menv \<Rightarrow> wpc \<times> 'w pm \<Rightarrow> wpc \<times> 'w pm \<Rightarrow> bool" where
  "wpath e \<equiv> (\<lambda>x y. wstep e (fst x) (snd x) = Some (Inr y))\<^sup>*\<^sup>*"

lemma wpath_first: "wstep e p s = Some (Inr y) \<Longrightarrow> wpath e y z \<Longrightarrow> wpath e (p, s) z"
  by (rule converse_rtranclp_into_rtranclp) auto

lemma wpath_one: "wstep e p s = Some (Inr y) \<Longrightarrow> wpath e (p, s) y"
  by (rule wpath_first) auto

lemma run_path:
  "run e cs (world s) = (fail, w) \<Longrightarrow> wpath e (Running v cs, s) (Storing v (if fail = 1 then 2 else 4), s\<lparr>world := w\<rparr>)"
proof (induction cs arbitrary: s)
  case Nil
  then show ?case by (auto intro!: wpath_one)
next
  case (Cons c cs)
  obtain r u where c: "system e c (world s) = (r, u)" by fastforce
  show ?case
  proof (cases "r = 0")
    case True
    with c Cons.prems Cons.IH [of "s\<lparr>world := u\<rparr>"] show ?thesis by (intro wpath_first) auto
  next
    case False
    with c Cons.prems show ?thesis by (intro wpath_one) auto
  qed
qed

lemma run_rule_path: "wpath e (Running v (commands e v), s) (Telling v (graph_antineighbors e v), run_rule e v s)"
proof -
  obtain fail w where r: "run e (commands e v) (world s) = (fail, w)" by fastforce
  have "wpath e (Storing v (if fail = 1 then 2 else 4), s\<lparr>world := w\<rparr>) (Telling v (graph_antineighbors e v), run_rule e v s)"
    using r by (intro wpath_one) (simp add: run_rule_def)
  with run_path [OF r] show ?thesis by (rule rtranclp_trans)
qed

lemma compare_path:
  "wpath e (Comparing v t ds, s)
     (if modified e (world s) t ds then (Running v (commands e v), s) else (Storing v 4, s))"
proof (induction ds)
  case Nil
  then show ?case by (auto intro!: wpath_one)
next
  case (Cons d ds)
  show ?case
  proof (cases "stat_mtime e (world s) d")
    case None
    then show ?thesis by (auto intro!: wpath_one)
  next
    case (Some u)
    with Cons show ?thesis by (cases "u - t > 1") (auto intro: wpath_one wpath_first)
  qed
qed

lemma build_path: "wpath e (Looking v, s) (Telling v (graph_antineighbors e v), build e v s)"
proof (cases "rstate s v = 2")
  case True
  then show ?thesis by (intro wpath_one) (simp add: build_def)
next
  case False
  have "wpath e (Statting v, s) (Telling v (graph_antineighbors e v), build e v s)"
  proof (cases "stat_mtime e (world s) v")
    case None
    then show ?thesis using False run_rule_path by (intro wpath_first) (auto simp: build_def)
  next
    case (Some t)
    have "wpath e (Comparing v t (graph_neighbors e v), s) (Telling v (graph_antineighbors e v), build e v s)"
    proof (cases "modified e (world s) t (graph_neighbors e v)")
      case True
      then show ?thesis using compare_path [of e v t "graph_neighbors e v" s] run_rule_path [of e v s] False Some
        by (auto simp: build_def)
    next
      case n: False
      then have "wpath e (Storing v 4, s) (Telling v (graph_antineighbors e v), build e v s)"
        using False Some by (intro wpath_one) (simp add: build_def)
      then show ?thesis using compare_path [of e v t "graph_neighbors e v" s] n by auto
    qed
    then show ?thesis using Some by (intro wpath_first) auto
  qed
  then show ?thesis using False by (intro wpath_first) auto
qed

lemma propagate_path:
  assumes "propagate e n s = Inr t"
  shows "wpath e (Telling v (n # ns), s) (Telling v ns, t)"
proof (cases "rstate s n = 0 \<or> rstate s n = 2")
  case True
  then show ?thesis using assms by (intro wpath_one) (auto simp: propagate_def)
next
  case False
  then obtain ready sf where n4: "rstate s n \<noteq> 4"
    and sc: "scan_deps (rstate s) (graph_neighbors e n) False = Inr (ready, sf)"
    and t: "t = (if ready then s else let s = (if sf then s\<lparr>rstate := (rstate s)(n := 2)\<rparr> else s) in s\<lparr>pmq := pmq s @ [n]\<rparr>)"
    using assms by (auto simp: propagate_def res_conv Let_def split: if_splits)
  have p: "wpath e (Pushing v n ns, u) (Telling v ns, u\<lparr>pmq := pmq u @ [n]\<rparr>)" for u
    by (rule wpath_one) simp
  have "wpath e (Scanning v n ns, s) (Telling v ns, t)"
  proof (cases "\<not> ready \<and> sf")
    case True
    have "wpath e (Failing v n ns, s) (Telling v ns, t)"
      using p [of "s\<lparr>rstate := (rstate s)(n := 2)\<rparr>"] True by (intro wpath_first) (auto simp: t)
    then show ?thesis using sc True by (intro wpath_first) auto
  next
    case f: False
    then show ?thesis using sc p [of s] by (intro wpath_first) (auto simp: t)
  qed
  then show ?thesis using False n4 by (intro wpath_first) auto
qed

lemma propagate_all_path: "propagate_all e ns s = Inr t \<Longrightarrow> wpath e (Telling v ns, s) (Telling v [], t)"
proof (induction ns arbitrary: s)
  case (Cons n ns)
  then obtain u where u: "propagate e n s = Inr u" "propagate_all e ns u = Inr t" by (auto simp: res_conv)
  from propagate_path [OF u(1)] Cons.IH [OF u(2)] show ?case by (rule rtranclp_trans)
qed simp

text \<open>The loop over the goals erases the first goal with the name.\<close>

lemma erase_first: "i < length gs \<Longrightarrow> v \<notin> set (take i gs) \<Longrightarrow> gs ! i = v \<Longrightarrow> take i gs @ drop (i + 1) gs = remove1 v gs"
proof (induction gs arbitrary: i)
  case (Cons g gs)
  then show ?case by (cases i) auto
qed simp

lemma goal_path:
  "v \<notin> set (take i (goal s)) \<Longrightarrow> wpath e (Searching v i, s) (Pulling, finish_goal v s)"
proof (induction "length (goal s) - i" arbitrary: i)
  case 0
  then show ?case by (intro wpath_one) (simp add: finish_goal_def)
next
  case (Suc k)
  then have i: "i < length (goal s)" by simp
  have "wpath e (At_goal v i, s) (Pulling, finish_goal v s)"
  proof (cases "goal s ! i = v")
    case True
    have "wpath e (Finishing v i, s) (Pulling, finish_goal v s)"
      using erase_first [OF i Suc.prems True] i True
      by (intro wpath_one) (auto simp: finish_goal_def in_set_conv_nth)
    then show ?thesis using i True by (intro wpath_first) auto
  next
    case False
    have "v \<notin> set (take (Suc i) (goal s))" using Suc.prems False i by (simp add: take_Suc_conv_app_nth)
    with Suc.hyps have "wpath e (Searching v (Suc i), s) (Pulling, finish_goal v s)" by auto
    then show ?thesis using i False by (intro wpath_first) auto
  qed
  then show ?case using i by (intro wpath_first) auto
qed

lemma turn_path:
  assumes "pmq s = v # rest" and "thread_turn e v (s\<lparr>pmq := rest\<rparr>) = Inr (Some t)"
  shows "wpath e (Pulling, s) (Pulling, t)"
proof -
  let ?s = "s\<lparr>pmq := rest\<rparr>"
  obtain u where u: "v \<noteq> ''EOF''" "propagate_all e (graph_antineighbors e v) (build e v ?s) = Inr u" "t = finish_goal v u"
    using assms(2) by (auto simp: thread_turn_def res_conv split: if_splits)
  have "wpath e (Telling v [], u) (Pulling, t)" using goal_path [of v 0 u] u(3) by (intro wpath_first) auto
  with build_path [of e v ?s] propagate_all_path [OF u(2), of v] have "wpath e (Looking v, ?s) (Pulling, t)"
    by (meson rtranclp_trans)
  then show ?thesis using assms(1) u(1) by (intro wpath_first) auto
qed

lemma thread_path:
  "thread k e s = Inr t \<Longrightarrow> \<forall>v\<in>set (pmq t). v \<noteq> ''EOF'' \<Longrightarrow> wpath e (Pulling, s) (Pulling, t) \<and> pmq t = []"
proof (induction k arbitrary: s)
  case (Suc k)
  show ?case
  proof (cases "pmq s")
    case Nil
    then show ?thesis using Suc.prems by simp
  next
    case (Cons v rest)
    with Suc.prems obtain r where r: "thread_turn e v (s\<lparr>pmq := rest\<rparr>) = Inr r"
      "(case r of None \<Rightarrow> Inr (s\<lparr>pmq := rest @ [v]\<rparr>) | Some t \<Rightarrow> thread k e t) = Inr t"
      by (auto simp: res_conv)
    then obtain u where u: "r = Some u" "thread k e u = Inr t"
      using Suc.prems(2) by (cases r) (auto simp: thread_turn_def res_conv split: if_splits)
    from turn_path [OF Cons] r(1) u(1) have "wpath e (Pulling, s) (Pulling, u)" by simp
    with Suc.IH [OF u(2) Suc.prems(2)] show ?thesis by (auto intro: rtranclp_trans)
  qed
qed simp

text \<open>A path of worker \<open>i\<close> as a run of the whole program.\<close>

lemma path_reachable:
  assumes "wpath e x y" and "i < n" and "reachable init (mk_step e n) m" and "workers m i = fst x" and "shared m = snd x"
  shows "\<exists>m'. reachable init (mk_step e n) m' \<and> workers m' i = fst y \<and> shared m' = snd y \<and> main_at m' = main_at m"
  using assms(1)
proof (induction rule: rtranclp_induct)
  case (step y z)
  then obtain m1 where m1: "reachable init (mk_step e n) m1" "workers m1 i = fst y" "shared m1 = snd y" "main_at m1 = main_at m"
    by blast
  obtain p s where z: "z = (p, s)" by fastforce
  let ?m2 = "m1\<lparr>shared := s, workers := (workers m1)(i := p), stored := stored m1 @ result_of (workers m1 i)\<rparr>"
  have "worker_acts e i m1 = Some (Inr ?m2)" using step.hyps(2) m1(2,3) by (simp add: worker_acts_def z)
  then have "reachable init (mk_step e n) ?m2" using m1(1) assms(2) by (blast intro: reach_step mk_step.worker)
  then show ?case using m1(4) by (intro exI [of _ ?m2]) (simp add: z)
qed (use assms in auto)

lemma main_reachable: "reachable init (mk_step e n) m \<Longrightarrow> main_acts n m = Some m' \<Longrightarrow> reachable init (mk_step e n) m'"
  by (blast intro: reach_step mk_step.main)

section \<open>Runs\<close>

definition mk_do :: "'w menv \<Rightarrow> nat \<Rightarrow> nat option \<Rightarrow> 'w mk \<Rightarrow> 'w mk option" where
  "mk_do e n a m =
     (case a of
        None \<Rightarrow> main_acts n m
      | Some i \<Rightarrow>
          if i < n then (case worker_acts e i m of Some (Inr m') \<Rightarrow> Some m' | _ \<Rightarrow> None) else None)"

lemma mk_do_step: "mk_do e n a m = Some m' \<Longrightarrow> mk_step e n m m'"
  by (auto simp: mk_do_def intro: mk_step.intros split: option.splits sum.splits if_splits)

text \<open>What a schedule reaches from the start.\<close>

definition mk_sample :: "nat \<Rightarrow> 'w menv \<Rightarrow> 'w \<Rightarrow> nat \<Rightarrow> nat option list \<Rightarrow> 'w mk option" where
  "mk_sample k e w n sched =
     (case parmake_start k e w of Inl _ \<Rightarrow> None | Inr s \<Rightarrow> run_schedule (mk_do e n) sched (mk_start s))"

lemma mk_sample_reachable:
  assumes "mk_sample k e w n sched = Some m"
  shows "reachable (mk_init k e w) (mk_step e n) m"
proof -
  obtain s where s: "parmake_start k e w = Inr s" "run_schedule (mk_do e n) sched (mk_start s) = Some m"
    using assms by (auto simp: mk_sample_def split: sum.splits)
  from s(1) have "reachable (mk_init k e w) (mk_step e n) (mk_start s)" by (intro reach_init) (auto simp: mk_init_def)
  from run_schedule_reachable [OF s(2) this] show ?thesis by (blast intro: mk_do_step)
qed

text \<open>Leaves that are the goals.\<close>

definition leaf_goals :: "string list \<Rightarrow> string list menv" where
  "leaf_goals gs = \<lparr>graph_neighbors = (\<lambda>v. if v = '''' then gs else []),
     graph_antineighbors = (\<lambda>v. if v \<in> set gs then [''''] else []),
     commands = (\<lambda>v. [v]), stat_mtime = (\<lambda>_ _. None), system = (\<lambda>c w. (0, w @ [c]))\<rparr>"

text \<open>The goal \<open>t\<close> needs \<open>j\<close>, which needs \<open>a\<close> and \<open>b\<close>.\<close>

definition joined :: "string list menv" where
  "joined = (leaf_goals [''t''])\<lparr>
     graph_neighbors := (\<lambda>v. if v = '''' then [''t''] else if v = ''t'' then [''j'']
       else if v = ''j'' then [''a'', ''b''] else []),
     graph_antineighbors := (\<lambda>v. if v = ''t'' then [''''] else if v = ''j'' then [''t'']
       else if v = ''a'' \<or> v = ''b'' then [''j''] else [])\<rparr>"

definition aborts :: "'a res option \<Rightarrow> bool" where
  "aborts r = (case r of Some (Inl Assert_failed) \<Rightarrow> True | _ \<Rightarrow> False)"

lemma aborts_iff [simp]: "aborts r \<longleftrightarrow> r = Some (Inl Assert_failed)"
  by (auto simp: aborts_def split: option.splits sum.splits fault.splits)

abbreviation both_found :: "nat option list" where
  "both_found \<equiv> replicate 10 (Some 0) @ replicate 12 (Some 1)"

abbreviation both_told :: "nat option list" where
  "both_told \<equiv> replicate 6 (Some 0) @ replicate 6 (Some 1) @ [Some 0, Some 1, Some 0, Some 1, Some 0, Some 1]
     @ replicate 9 (Some 0) @ replicate 9 (Some 1) @ replicate 18 (Some 0) @ [Some 1]"

lemma goal_race_run:
  "map_option (\<lambda>m. (aborts (worker_acts (leaf_goals [''x'', ''y'']) 1 m), workers m 1, goal (shared m)))
     (mk_sample 4 (leaf_goals [''x'', ''y'']) [] 2 (both_found @ [Some 0]))
   = Some (True, Finishing ''y'' 1, [''y''])"
  by code_simp

lemma lost_goal_run:
  "map_option (\<lambda>m. (goal (shared m), numgoalfin (shared m), numgoals (shared m), pmq (shared m), main_at m, workers m 0, workers m 1))
     (mk_sample 5 (leaf_goals [''x'', ''y'', ''z'']) [] 2 (both_found @ [Some 0, Some 1] @ replicate 11 (Some 0)))
   = Some ([''y''], 2, 3, [], Awaiting, Pulling, Pulling)"
  by code_simp

lemma built_twice_run:
  "map_option (\<lambda>m. (aborts (worker_acts joined 1 m), world (shared m))) (mk_sample 5 joined [] 2 both_told)
   = Some (True, [''a'', ''b'', ''j'', ''j'', ''t''])"
  by code_simp

section \<open>The properties\<close>

text \<open>C12: with any number of workers and in every interleaving, a worker builds a rule (looks at its
  files or runs its commands) only after each dependency was built and satisfied, and no dependency is
  waiting or untouched; and the assertion in the scan of the dependencies never fails.\<close>

theorem parmake_order:
  assumes "reachable (mk_init k e w) (mk_step e n) m"
  shows "(workers m i = Statting v \<or> workers m i = Comparing v t ds \<or> workers m i = Running v cs \<longrightarrow>
      (\<forall>d\<in>set (graph_neighbors e v). (d, 4) \<in> set (stored m) \<and> (rstate (shared m) d = 2 \<or> rstate (shared m) d = 4)))
    \<and> (workers m i = Scanning v u ns \<longrightarrow> (\<exists>r. wstep e (workers m i) (shared m) = Some (Inr r)))"
proof -
  have i: "mk_inv e m" by (rule mk.reachable_inv [OF assms])
  then have p: "place_ok e (rstate (shared m)) (stored m) (workers m i)" and s: "shared_ok e (shared m) (stored m)"
    by (simp_all add: mk_inv_def)
  show ?thesis
  proof (intro conjI impI)
    assume "workers m i = Scanning v u ns"
    with p scan_returns [OF s, of u] show "\<exists>r. wstep e (workers m i) (shared m) = Some (Inr r)" by auto
  qed (use p in \<open>auto simp: building_def good_def decided_def\<close>)
qed

lemma parmake_order_witness:
  "\<exists>m :: string list mk. workers m 0 = Statting ''a''
     \<and> (\<forall>d\<in>set (graph_neighbors demo ''a''). (d, 4) \<in> set (stored m)
         \<and> (rstate (shared m) d = 2 \<or> rstate (shared m) d = 4))"
proof -
  have "map_option (\<lambda>m. workers m 0) (mk_sample 3 demo [] 2 (replicate 13 (Some 0) @ [Some 0, Some 0]))
      = Some (Statting ''a'')"
    by code_simp
  then obtain m where m: "workers m 0 = Statting ''a''"
    "mk_sample 3 demo [] 2 (replicate 13 (Some 0) @ [Some 0, Some 0]) = Some m" by auto
  from parmake_order [OF mk_sample_reachable [OF m(2)], of 0 "''a''"] m(1) show ?thesis by auto
qed

text \<open>The sequential \<open>parmake\<close> ends its worker on an empty queue.\<close>

lemma parmake_parts:
  assumes "parmake k e w = Inr s" and "pmq s = [''EOF'']"
  obtains s0 s1 where "parmake_start k e w = Inr s0" "thread k e s0 = Inr s1" "numgoals s1 \<le> numgoalfin s1"
    "pmq s1 = []" "s = s1\<lparr>pmq := [''EOF'']\<rparr>"
proof -
  obtain s0 s1 where s: "parmake_start k e w = Inr s0" "thread k e s0 = Inr s1" "numgoals s1 \<le> numgoalfin s1"
    "thread 1 e (s1\<lparr>pmq := pmq s1 @ [''EOF'']\<rparr>) = Inr s"
    using assms(1) by (auto simp: parmake_def res_conv split: if_splits)
  have q: "pmq s1 = []"
  proof (rule ccontr)
    assume "pmq s1 \<noteq> []"
    then obtain v rest where q1: "pmq s1 = v # rest" by (cases "pmq s1") auto
    then show False using s(4) assms(2)
      by (cases "v = ''EOF''") (auto simp: thread_turn_def res_conv)
  qed
  moreover have "s = s1\<lparr>pmq := [''EOF'']\<rparr>" using s(4) q by (simp add: thread_turn_def)
  ultimately show thesis using that s by blast
qed

text \<open>The sequential \<open>parmake\<close> is one of the interleavings with one worker: when it returns, the
  program of threads has a run with one worker that ends with the same states, files, goals and queue.\<close>

theorem parmake_one_worker:
  assumes "parmake k e w = Inr s" and "pmq s = [''EOF'']"
  shows "\<exists>m. reachable (mk_init k e w) (mk_step e 1) m \<and> main_at m = Finished \<and> workers m 0 = wpc.Left \<and> shared m = s"
proof -
  obtain s0 s1 where s: "parmake_start k e w = Inr s0" "thread k e s0 = Inr s1" "numgoals s1 \<le> numgoalfin s1"
    "pmq s1 = []" "s = s1\<lparr>pmq := [''EOF'']\<rparr>"
    using parmake_parts [OF assms] by blast
  let ?R = "reachable (mk_init k e w) (mk_step e 1)" and ?s2 = "s1\<lparr>pmq := [''EOF'']\<rparr>"
  note q = s(4) and s2 = s(5)
  have r0: "?R (mk_start s0)" using s(1) by (intro reach_init) (auto simp: mk_init_def)
  have "wpath e (Pulling, s0) (Pulling, s1)" using thread_path [OF s(2)] q by simp
  from path_reachable [OF this _ r0, of 0] obtain m1 where m1: "?R m1" "workers m1 0 = Pulling" "shared m1 = s1" "main_at m1 = Awaiting"
    by (auto simp: mk_start_def)
  have m2: "?R (m1\<lparr>main_at := Ending\<rparr>)" using m1 s(3) by (intro main_reachable [OF m1(1)]) (simp add: main_acts_def)
  have m3: "?R (m1\<lparr>shared := ?s2, main_at := Joining\<rparr>)" using m1(3) q by (intro main_reachable [OF m2]) (simp add: main_acts_def)
  have "wpath e (Seen_eof, s1) (Left, ?s2)" using q by (intro wpath_one) simp
  then have "wpath e (Pulling, ?s2) (Left, ?s2)" using q by (intro wpath_first) auto
  from path_reachable [OF this _ m3, of 0] m1(2) obtain m4 where
    m4: "?R m4" "workers m4 0 = Left" "shared m4 = ?s2" "main_at m4 = Joining" by auto
  have "?R (m4\<lparr>main_at := Finished\<rparr>)" using m4 by (intro main_reachable [OF m4(1)]) (simp add: main_acts_def)
  then show ?thesis using m4 s2 by (intro exI [of _ "m4\<lparr>main_at := Finished\<rparr>"]) simp
qed

lemma parmake_one_worker_witness:
  "\<exists>m :: string list mk. main_at m = Finished \<and> workers m 0 = wpc.Left \<and> world (shared m) = [''b'', ''a'']"
proof -
  have "\<exists>s. parmake 3 demo [] = Inr s \<and> pmq s = [''EOF''] \<and> world s = [''b'', ''a'']"
    by (simp add: parmake_def parmake_start_def demo_def thread_turn_def build_def run_rule_def
        propagate_def finish_goal_def Let_def eval_nat_numeral)
  then obtain s where s: "parmake 3 demo [] = Inr s" "pmq s = [''EOF'']" "world s = [''b'', ''a'']" by blast
  from parmake_one_worker [OF s(1,2)] s(3) show ?thesis by auto
qed

text \<open>With two workers a makefile without any fault can abort \<open>parmake\<close>: both see the last two
  dependencies of \<open>j\<close> satisfied and both queue it, its commands run twice, and the one that is later finds
  the rule above already satisfied, where the assertion \<open>deprule->state != 4\<close> fails.\<close>

theorem parmake_built_twice:
  "\<exists>m. reachable (mk_init 5 joined []) (mk_step joined 2) m \<and> world (shared m) = [''a'', ''b'', ''j'', ''j'', ''t'']
     \<and> worker_acts joined 1 m = Some (Inl Assert_failed)"
proof -
  obtain m where "mk_sample 5 joined [] 2 both_told = Some m" "worker_acts joined 1 m = Some (Inl Assert_failed)"
    "world (shared m) = [''a'', ''b'', ''j'', ''j'', ''t'']" using built_twice_run by auto
  then show ?thesis by (intro exI [of _ m] conjI mk_sample_reachable)
qed

text \<open>Two workers that look for their goals at the same time hold indices of the vector before either has
  erased: the second \<open>vector_erase\<close> is out of bounds.\<close>

theorem parmake_goal_race:
  "\<exists>m. reachable (mk_init 4 (leaf_goals [''x'', ''y'']) []) (mk_step (leaf_goals [''x'', ''y'']) 2) m
     \<and> worker_acts (leaf_goals [''x'', ''y'']) 1 m = Some (Inl Assert_failed)"
proof -
  obtain m where "mk_sample 4 (leaf_goals [''x'', ''y'']) [] 2 (both_found @ [Some 0]) = Some m"
    "worker_acts (leaf_goals [''x'', ''y'']) 1 m = Some (Inl Assert_failed)" using goal_race_run by auto
  then show ?thesis by (intro exI [of _ m] conjI mk_sample_reachable)
qed

text \<open>With a third goal the second \<open>vector_erase\<close> takes the wrong goal away, and the program waits for
  ever: no thread can make a step, while the main thread waits for the goals.\<close>

theorem parmake_lost_goal:
  "\<exists>m. reachable (mk_init 5 (leaf_goals [''x'', ''y'', ''z'']) []) (mk_step (leaf_goals [''x'', ''y'', ''z'']) 2) m
     \<and> main_at m = Awaiting \<and> (\<nexists>m'. mk_step (leaf_goals [''x'', ''y'', ''z'']) 2 m m')"
proof -
  let ?e = "leaf_goals [''x'', ''y'', ''z'']"
  obtain m where m: "mk_sample 5 ?e [] 2 (both_found @ [Some 0, Some 1] @ replicate 11 (Some 0)) = Some m"
    "pmq (shared m) = []" "main_at m = Awaiting" "workers m 0 = Pulling" "workers m 1 = Pulling"
    "numgoalfin (shared m) = 2" "numgoals (shared m) = 3"
    using lost_goal_run by auto
  have "\<not> mk_step ?e 2 m m'" for m'
  proof
    assume "mk_step ?e 2 m m'"
    then show False
      by (rule mk_stepE) (use m(2-) in \<open>auto simp: worker_acts_def main_acts_def less_2_cases_iff\<close>)
  qed
  then show ?thesis using mk_sample_reachable [OF m(1)] m(3) by blast
qed

end
