(* ===== verification/Parmake_Single.thy ===== *)
theory Parmake_Single
  imports Parmake_Threads
begin

text \<open>
  The parallel make with one worker, in every interleaving with the main thread. The worker moves on a path
  that is determined by the state it starts in; the main thread only adds \<open>EOF\<close> to the queue when all goals
  are finished, which the worker sees when it pulls it. So the number of steps that are left can be counted.
\<close>

section \<open>The steps that are left\<close>

definition wrel :: "'w menv \<Rightarrow> wpc \<times> 'w pm \<Rightarrow> wpc \<times> 'w pm \<Rightarrow> bool" where
  "wrel e x y \<longleftrightarrow> wstep e (fst x) (snd x) = Some (Inr y)"

text \<open>The path ends where the worker pulls from an empty queue.\<close>

definition path_end :: "wpc \<times> 'w pm \<Rightarrow> bool" where
  "path_end x \<longleftrightarrow> fst x = Pulling \<and> pmq (snd x) = [] \<and> numgoals (snd x) \<le> numgoalfin (snd x)"

definition steps_left :: "'w menv \<Rightarrow> nat \<Rightarrow> wpc \<times> 'w pm \<Rightarrow> bool" where
  "steps_left e j x \<longleftrightarrow> (\<exists>z. path_end z \<and> (wrel e ^^ j) x z)"

lemma steps_left_0: "steps_left e 0 x \<longleftrightarrow> path_end x"
  by (cases x) (auto simp: steps_left_def)

lemma steps_left_Suc: "steps_left e (Suc j) x \<longleftrightarrow> (\<exists>y. wrel e x y \<and> steps_left e j y)"
  unfolding steps_left_def by (meson relpowp_Suc_D2 relpowp_Suc_I2)

lemma steps_left_step: "steps_left e j x \<Longrightarrow> wrel e x y \<Longrightarrow> \<exists>i. j = Suc i \<and> steps_left e i y"
  by (cases j) (auto simp: steps_left_0 steps_left_Suc path_end_def wrel_def split: list.splits)

lemma steps_left_goes: "steps_left e j x \<Longrightarrow> \<not> path_end x \<Longrightarrow> \<exists>y. wrel e x y"
  by (cases j) (auto simp: steps_left_0 steps_left_Suc)

text \<open>The worker does not stop on the path: it never finds \<open>EOF\<close> there.\<close>

lemma not_on_path: "\<not> steps_left e j (Left, s)" "\<not> steps_left e j (Seen_eof, s)"
proof -
  show l: "\<not> steps_left e j (Left, s)" for j s
    using steps_left_goes [of e j "(Left, s)"] by (auto simp: path_end_def wrel_def)
  show "\<not> steps_left e j (Seen_eof, s)"
    using l by (cases j) (auto simp: steps_left_0 steps_left_Suc path_end_def wrel_def)
qed

lemma pull_on_path: "steps_left e j (Pulling, s) \<Longrightarrow> pmq s = v # q \<Longrightarrow> v \<noteq> ''EOF''"
  by (cases j) (auto simp: steps_left_0 steps_left_Suc path_end_def wrel_def not_on_path)

text \<open>\<open>EOF\<close> somewhere in the queue.\<close>

definition with_eof :: "'w pm \<Rightarrow> 'w pm \<Rightarrow> bool" where
  "with_eof s t \<longleftrightarrow> (\<exists>a b. pmq s = a @ b \<and> t = s\<lparr>pmq := a @ ''EOF'' # b\<rparr>)"

lemma with_eof_append: "with_eof s (s\<lparr>pmq := pmq s @ [''EOF'']\<rparr>)"
  unfolding with_eof_def by (intro exI [of _ "pmq s"] exI [of _ "[]"]) simp

text \<open>Steps that leave the queue alone do not depend on it.\<close>

lemma wstep_frame:
  assumes "wstep e p s = Some (Inr (q, s'))" and "p \<noteq> Pulling" and "p \<noteq> Seen_eof" and "\<And>v n ns. p \<noteq> Pushing v n ns"
  shows "wstep e p (s\<lparr>pmq := x\<rparr>) = Some (Inr (q, s'\<lparr>pmq := x\<rparr>)) \<and> pmq s' = pmq s"
proof (cases p)
  case (Comparing v t ds)
  then show ?thesis using assms(1) by (cases ds) auto
next
  case (Running v cs)
  then show ?thesis using assms(1) by (cases cs) (auto split: prod.splits)
next
  case (Telling v ns)
  then show ?thesis using assms(1) by (cases ns) (auto simp: res_conv split: if_splits)
next
  case (Scanning v n ns)
  then obtain r where "scan_deps (rstate s) (graph_neighbors e n) False = Inr r" using assms(1) by (auto simp: res_conv)
  then show ?thesis using assms(1) Scanning by (cases r) auto
qed (use assms in \<open>auto simp: res_conv\<close>)

text \<open>A step that is not a pull is the same with \<open>EOF\<close> in the queue.\<close>

lemma with_eof_step:
  assumes "with_eof s t" and "p \<noteq> Pulling" and "wstep e p s = Some (Inr (q, s'))"
  shows "\<exists>t'. wstep e p t = Some (Inr (q, t')) \<and> with_eof s' t'"
proof -
  obtain a b where ab: "pmq s = a @ b" "t = s\<lparr>pmq := a @ ''EOF'' # b\<rparr>" using assms(1) by (auto simp: with_eof_def)
  have put: "with_eof (s\<lparr>pmq := pmq s @ [v]\<rparr>) (t\<lparr>pmq := pmq t @ [v]\<rparr>)" for v
    unfolding with_eof_def ab by (intro exI [of _ a] exI [of _ "b @ [v]"]) (simp add: ab)
  consider "p = Seen_eof" | v n ns where "p = Pushing v n ns" | "p \<noteq> Seen_eof" "\<And>v n ns. p \<noteq> Pushing v n ns" by blast
  then show ?thesis
  proof cases
    case 3
    from wstep_frame [OF assms(3,2) this] show ?thesis unfolding ab with_eof_def by (auto simp: ab(1))
  qed (use assms(3) put in auto)
qed

section \<open>The whole program\<close>

definition main_left :: "mainpc \<Rightarrow> nat" where
  "main_left p = (case p of Awaiting \<Rightarrow> 3 | Ending \<Rightarrow> 2 | Joining \<Rightarrow> 1 | Finished \<Rightarrow> 0)"

text \<open>What holds with \<open>k\<close> steps left: the worker is on its path, or has seen \<open>EOF\<close>.\<close>

definition single :: "'w menv \<Rightarrow> nat \<Rightarrow> 'w mk \<Rightarrow> bool" where
  "single e k m \<longleftrightarrow>
     (main_at m \<noteq> Awaiting \<longrightarrow> numgoals (shared m) \<le> numgoalfin (shared m))
   \<and> (workers m 0 = Left \<and> (main_at m = Joining \<or> main_at m = Finished) \<and> k = main_left (main_at m)
      \<or> workers m 0 = Seen_eof \<and> main_at m = Joining \<and> k = 2
      \<or> (main_at m = Awaiting \<or> main_at m = Ending)
          \<and> (\<exists>j. steps_left e j (workers m 0, shared m) \<and> k = j + 2 + main_left (main_at m))
      \<or> main_at m = Joining
          \<and> (\<exists>j s. steps_left e j (workers m 0, s) \<and> with_eof s (shared m) \<and> k = j + 3))"

lemma wstep_goals: "wstep e p s = Some (Inr (q, t)) \<Longrightarrow> numgoals t = numgoals s \<and> numgoalfin s \<le> numgoalfin t"
  by (cases "(e, p, s)" rule: wstep.cases) (auto simp: res_conv split: list.splits prod.splits if_splits)

lemma worker_acts_Inr:
  "worker_acts e i m = Some (Inr m') \<longleftrightarrow> (\<exists>q t. wstep e (workers m i) (shared m) = Some (Inr (q, t))
     \<and> m' = m\<lparr>shared := t, workers := (workers m)(i := q), stored := stored m @ result_of (workers m i)\<rparr>)"
  by (auto simp: worker_acts_def res_conv)

lemma worker_acts_Inl: "worker_acts e i m = Some (Inl f) \<longleftrightarrow> wstep e (workers m i) (shared m) = Some (Inl f)"
  by (auto simp: worker_acts_def elim: rbind.elims)

lemma single_worker:
  assumes "single e k m" and "wstep e (workers m 0) (shared m) = Some (Inr (q, t))"
  shows "\<exists>i<k. single e i (m\<lparr>shared := t, workers := (workers m)(0 := q), stored := l\<rparr>)"
proof -
  note g = wstep_goals [OF assms(2)]
  consider "workers m 0 = Left" | "workers m 0 = Seen_eof" "main_at m = Joining" "k = 2"
    | j where "main_at m = Awaiting \<or> main_at m = Ending" "steps_left e j (workers m 0, shared m)" "k = j + 2 + main_left (main_at m)"
    | j s where "main_at m = Joining" "steps_left e j (workers m 0, s)" "with_eof s (shared m)" "k = j + 3"
    using assms(1) unfolding single_def by blast
  then show ?thesis
  proof cases
    case 1
    then show ?thesis using assms(2) by simp
  next
    case 2
    then show ?thesis using assms g by (intro exI [of _ 1]) (auto simp: single_def main_left_def)
  next
    case (3 j)
    obtain i where "j = Suc i" "steps_left e i (q, t)"
      using steps_left_step [OF 3(2), of "(q, t)"] assms(2) by (auto simp: wrel_def)
    then show ?thesis using 3 assms(1) g
      by (intro exI [of _ "i + 2 + main_left (main_at m)"]) (auto simp: single_def)
  next
    case (4 j s)
    have n: "numgoals t \<le> numgoalfin t" using assms(1) 4(1) g by (auto simp: single_def)
    show ?thesis
    proof (cases "workers m 0 = Pulling")
      case False
      have "\<not> path_end (workers m 0, s)" using False by (simp add: path_end_def)
      from steps_left_goes [OF 4(2) this] obtain q' s' where s': "wstep e (workers m 0) s = Some (Inr (q', s'))"
        by (auto simp: wrel_def)
      from with_eof_step [OF 4(3) False this] assms(2) have "q' = q" "with_eof s' t" by auto
      moreover obtain i where "j = Suc i" "steps_left e i (q', s')"
        using steps_left_step [OF 4(2), of "(q', s')"] s' by (auto simp: wrel_def)
      ultimately show ?thesis using 4 n by (intro exI [of _ "i + 3"]) (auto simp: single_def)
    next
      case True
      obtain a b where ab: "pmq s = a @ b" "shared m = s\<lparr>pmq := a @ ''EOF'' # b\<rparr>" using 4(3) by (auto simp: with_eof_def)
      show ?thesis
      proof (cases a)
        case Nil
        then have "q = Seen_eof" using assms(2) True ab by simp
        then show ?thesis using 4 n by (intro exI [of _ 2]) (auto simp: single_def)
      next
        case (Cons v a')
        then have v: "v \<noteq> ''EOF''" using pull_on_path [of e j s v "a' @ b"] 4(2) True ab(1) by simp
        then have q: "q = Looking v" and t: "t = s\<lparr>pmq := a' @ ''EOF'' # b\<rparr>" using assms(2) True ab Cons by auto
        have "wrel e (Pulling, s) (Looking v, s\<lparr>pmq := a' @ b\<rparr>)" using v ab(1) Cons by (simp add: wrel_def)
        then obtain i where i: "j = Suc i" "steps_left e i (Looking v, s\<lparr>pmq := a' @ b\<rparr>)"
          using steps_left_step 4(2) True by metis
        have "with_eof (s\<lparr>pmq := a' @ b\<rparr>) t" unfolding with_eof_def t by (intro exI [of _ a'] exI [of _ b]) simp
        then show ?thesis using 4 n i q by (intro exI [of _ "i + 3"]) (auto simp: single_def)
      qed
    qed
  qed
qed

lemma single_main:
  assumes "single e k m" and "main_acts 1 m = Some m'"
  shows "\<exists>i<k. single e i m'"
proof (cases "main_at m")
  case Awaiting
  then obtain j where "steps_left e j (workers m 0, shared m)" "k = j + 5" "numgoals (shared m) \<le> numgoalfin (shared m)"
    "m' = m\<lparr>main_at := Ending\<rparr>" using assms by (auto simp: single_def main_acts_def main_left_def split: if_splits)
  then show ?thesis by (intro exI [of _ "j + 4"]) (simp add: single_def main_left_def)
next
  case Ending
  then obtain j where "steps_left e j (workers m 0, shared m)" "k = j + 4" "numgoals (shared m) \<le> numgoalfin (shared m)"
    "m' = m\<lparr>shared := (shared m)\<lparr>pmq := pmq (shared m) @ [''EOF'']\<rparr>, main_at := Joining\<rparr>"
    using assms by (auto simp: single_def main_acts_def main_left_def)
  then show ?thesis using with_eof_append by (intro exI [of _ "j + 3"]) (auto simp: single_def main_left_def)
next
  case Joining
  then have "workers m 0 = Left" "m' = m\<lparr>main_at := Finished\<rparr>" using assms(2) by (auto simp: main_acts_def split: if_splits)
  then show ?thesis using assms(1) Joining not_on_path(1) by (intro exI [of _ 0]) (auto simp: single_def main_left_def)
qed (use assms(2) in \<open>simp add: main_acts_def\<close>)

lemma single_step: "single e k m \<Longrightarrow> mk_step e 1 m m' \<Longrightarrow> \<exists>i<k. single e i m'"
  by (erule mk_stepE) (auto simp: worker_acts_Inr intro: single_main dest: single_worker)

text \<open>Until the end some thread can make a step, and the step of the worker is never a failed assertion.\<close>

lemma single_worker_goes:
  assumes "single e k m" and "workers m 0 \<noteq> Left" and "main_at m = Joining \<or> \<not> path_end (workers m 0, shared m)"
  shows "\<exists>q t. wstep e (workers m 0) (shared m) = Some (Inr (q, t))"
proof -
  consider "workers m 0 = Seen_eof" | j where "main_at m \<noteq> Joining" "steps_left e j (workers m 0, shared m)"
    | j s where "steps_left e j (workers m 0, s)" "with_eof s (shared m)"
    using assms(1,2) unfolding single_def by auto
  then show ?thesis
  proof cases
    case (2 j)
    then show ?thesis using steps_left_goes [OF 2(2)] assms(3) by (auto simp: wrel_def)
  next
    case (3 j s)
    show ?thesis
    proof (cases "workers m 0 = Pulling")
      case True
      have "pmq (shared m) \<noteq> []" using 3(2) by (auto simp: with_eof_def)
      then show ?thesis using True by (auto simp: neq_Nil_conv)
    next
      case False
      then have "\<not> path_end (workers m 0, s)" by (simp add: path_end_def)
      from steps_left_goes [OF 3(1) this] obtain q s' where "wstep e (workers m 0) s = Some (Inr (q, s'))"
        by (auto simp: wrel_def)
      from with_eof_step [OF 3(2) False this] show ?thesis by blast
    qed
  qed simp
qed

lemma single_goes:
  assumes "single e k m" and "main_at m \<noteq> Finished"
  shows "\<exists>m'. mk_step e 1 m m'"
proof (cases "\<exists>q t. wstep e (workers m 0) (shared m) = Some (Inr (q, t))")
  case True
  then show ?thesis by (auto simp: worker_acts_Inr intro!: mk_step.worker [of 0])
next
  case False
  then have "workers m 0 = Left \<or> main_at m \<noteq> Joining \<and> path_end (workers m 0, shared m)"
    using single_worker_goes [OF assms(1)] by blast
  then have "main_acts 1 m \<noteq> None"
    using assms by (auto simp: main_acts_def path_end_def single_def not_on_path split: mainpc.splits)
  then show ?thesis by (auto intro: mk_step.main)
qed

lemma single_no_abort: "single e k m \<Longrightarrow> worker_acts e 0 m \<noteq> Some (Inl f)"
proof
  assume a: "single e k m" "worker_acts e 0 m = Some (Inl f)"
  then have f: "wstep e (workers m 0) (shared m) = Some (Inl f)" by (simp add: worker_acts_Inl)
  then have "workers m 0 \<noteq> wpc.Left" "\<not> path_end (workers m 0, shared m)" by (auto simp: path_end_def)
  from single_worker_goes [OF a(1)] this f show False by auto
qed

lemma single_ends: "single e k m \<Longrightarrow> \<not> (\<exists>run. run 0 = m \<and> (\<forall>i. mk_step e 1 (run i) (run (Suc i))))"
proof (induction k arbitrary: m rule: less_induct)
  case (less k)
  show ?case
  proof
    assume "\<exists>run. run 0 = m \<and> (\<forall>i. mk_step e 1 (run i) (run (Suc i)))"
    then obtain run where run: "run 0 = m" "\<And>i. mk_step e 1 (run i) (run (Suc i))" by blast
    obtain i where "i < k" "single e i (run 1)" using single_step [OF less.prems] run(2) [of 0] run(1) by auto
    moreover have "\<exists>r. r 0 = run 1 \<and> (\<forall>i. mk_step e 1 (r i) (r (Suc i)))"
      using run(2) by (intro exI [of _ "\<lambda>i. run (Suc i)"]) auto
    ultimately show False using less.IH by blast
  qed
qed

lemma single_start:
  assumes "parmake k e w = Inr s" and "pmq s = [''EOF'']" and "mk_init k e w m"
  shows "\<exists>n. single e n m"
proof -
  obtain s0 s1 where s: "parmake_start k e w = Inr s0" "thread k e s0 = Inr s1" "numgoals s1 \<le> numgoalfin s1" "pmq s1 = []"
    using parmake_parts [OF assms(1,2)] by blast
  have "wpath e (Pulling, s0) (Pulling, s1)" using thread_path [OF s(2)] s(4) by simp
  then obtain j where "(wrel e ^^ j) (Pulling, s0) (Pulling, s1)"
    by (auto simp: wrel_def [abs_def] dest!: rtranclp_imp_relpowp)
  then have "steps_left e j (Pulling, s0)" unfolding steps_left_def path_end_def using s(3,4) by force
  moreover have "m = mk_start s0" using assms(3) s(1) by (auto simp: mk_init_def)
  ultimately show ?thesis by (auto simp: single_def mk_start_def)
qed

lemma runs_end:
  assumes "parmake k e w = Inr s" and "pmq s = [''EOF'']" and "reachable (mk_init k e w) (mk_step e 1) m"
  shows "\<exists>n. single e n m"
  using assms(3)
proof (induction rule: reachable.induct)
  case (reach_init m)
  then show ?case by (rule single_start [OF assms(1,2)])
next
  case (reach_step m m')
  then show ?case using single_step by blast
qed



end
