(* ===== verification/Mmu.thy ===== *)
theory Mmu
  imports Prelude "HOL-Library.Word"
begin

text \<open>
  The memory management unit (\<open>ideal_indirection/mmu.c\<close>): translation of virtual addresses by a
  page directory and page tables per process, with a TLB in front of them.

  The TLB, the kernel that hands out frames, the swap files and \<open>find_segment\<close> are libraries
  outside the repository and arguments of the model (\<open>env\<close>). A system pointer is the physical
  address of what it points to. Frames are typed: \<open>pdes\<close> are the page directories, \<open>ptes\<close> the page
  tables, \<open>bytes\<close> the memory of the processes, each by the address of the frame.
\<close>

unbundle bit_operations_syntax

type_synonym addr32 = "32 word"

record page_directory_entry =
  pde_present :: bool
  pde_read_write :: bool
  pde_user_supervisor :: bool
  pde_base_addr :: "20 word"

record page_table_entry =
  pte_present :: bool
  pte_read_write :: bool
  pte_user_supervisor :: bool
  pte_accessed :: bool
  pte_dirty :: bool
  pte_base_addr :: "20 word"

text \<open>A pointer to an entry of a page table: the frame of the table and the index.\<close>

type_synonym pteref = "addr32 \<times> nat"

datatype perm = READ | WRITE | EXEC

datatype segname = STACK | MMAP | HEAP | BSS | DATA | TEXT | TESTING

record vm_segmentation =
  seg_start :: addr32
  seg_end :: addr32
  permissions :: "perm set"
  grows_down :: bool

record 'k ram =
  pdes :: "addr32 \<Rightarrow> nat \<Rightarrow> page_directory_entry"
  ptes :: "addr32 \<Rightarrow> nat \<Rightarrow> page_table_entry"
  bytes :: "addr32 \<Rightarrow> 8 word"
  kern :: 'k

record ('k, 't) mmu =
  tlb :: 't
  curr_pid :: nat
  page_directories :: "nat \<Rightarrow> addr32 option"
  segmentations :: "nat \<Rightarrow> (segname \<Rightarrow> vm_segmentation) option"
  num_tlb_misses :: nat
  num_page_faults :: nat
  num_segmentation_faults :: nat
  ram :: "'k ram"

record ('k, 't) env =
  MAX_PROCESS_ID :: nat
  ask_kernel_for_frame :: "pteref option \<Rightarrow> 'k ram \<Rightarrow> addr32 \<times> 'k ram"
  return_frame_to_kernel :: "addr32 \<Rightarrow> 'k ram \<Rightarrow> 'k ram"
  read_page_from_disk :: "pteref \<Rightarrow> 'k ram \<Rightarrow> 'k ram"
  remove_swap_file :: "pteref \<Rightarrow> 'k ram \<Rightarrow> 'k ram"
  remove_swap_files :: "'k ram \<Rightarrow> 'k ram"
  tlb_create :: 't
  tlb_flush :: "'t \<Rightarrow> 't"
  tlb_get_pte :: "'t \<Rightarrow> addr32 \<Rightarrow> pteref option \<times> 't"
  tlb_add_pte :: "'t \<Rightarrow> addr32 \<Rightarrow> pteref \<Rightarrow> 't"
  find_segment :: "(segname \<Rightarrow> vm_segmentation) option \<Rightarrow> addr32 \<Rightarrow> vm_segmentation option"

definition PAGE_SIZE :: nat where "PAGE_SIZE = 4096"
definition NUM_ENTRIES :: nat where "NUM_ENTRIES = 1024"

definition mmu_create :: "('k, 't) env \<Rightarrow> 'k ram \<Rightarrow> ('k, 't) mmu" where
  "mmu_create e r = \<lparr>tlb = tlb_create e, curr_pid = 0, page_directories = (\<lambda>_. None),
     segmentations = (\<lambda>_. None), num_tlb_misses = 0, num_page_faults = 0, num_segmentation_faults = 0,
     ram = r\<rparr>"

section \<open>Counters\<close>

definition mmu_tlb_miss :: "('k, 't) mmu \<Rightarrow> ('k, 't) mmu" where
  "mmu_tlb_miss m = m\<lparr>num_tlb_misses := w64 (num_tlb_misses m + 1)\<rparr>"

definition mmu_raise_page_fault :: "('k, 't) mmu \<Rightarrow> ('k, 't) mmu" where
  "mmu_raise_page_fault m = m\<lparr>num_page_faults := w64 (num_page_faults m + 1)\<rparr>"

definition mmu_raise_segmentation_fault :: "('k, 't) mmu \<Rightarrow> ('k, 't) mmu" where
  "mmu_raise_segmentation_fault m = m\<lparr>num_segmentation_faults := w64 (num_segmentation_faults m + 1)\<rparr>"

section \<open>Addresses\<close>

definition dir_index :: "addr32 \<Rightarrow> nat" where
  "dir_index va = unat (drop_bit 22 (va AND 0xffc00000))"

definition table_index :: "addr32 \<Rightarrow> nat" where
  "table_index va = unat (drop_bit 12 (va AND 0x003ff000))"

definition page_offset :: "addr32 \<Rightarrow> addr32" where
  "page_offset va = va AND 0x00000fff"

definition page_number :: "addr32 \<Rightarrow> addr32" where
  "page_number va = drop_bit 12 (va AND 0xfffff000)"

text \<open>The frame at a base address, and the base address that is stored for a frame.\<close>

definition frame_at :: "20 word \<Rightarrow> addr32" where
  "frame_at base = push_bit 12 (ucast base)"

definition base_of :: "addr32 \<Rightarrow> 20 word" where
  "base_of frame = ucast (drop_bit 12 (frame AND 0xfffff000))"

section \<open>Access\<close>

definition set_pde :: "addr32 \<Rightarrow> nat \<Rightarrow> page_directory_entry \<Rightarrow> 'k ram \<Rightarrow> 'k ram" where
  "set_pde pd i d r = r\<lparr>pdes := (pdes r)(pd := (pdes r pd)(i := d))\<rparr>"

definition get_pte :: "'k ram \<Rightarrow> pteref \<Rightarrow> page_table_entry" where
  "get_pte r p = ptes r (fst p) (snd p)"

definition set_pte :: "pteref \<Rightarrow> page_table_entry \<Rightarrow> 'k ram \<Rightarrow> 'k ram" where
  "set_pte p d r = r\<lparr>ptes := (ptes r)(fst p := (ptes r (fst p))(snd p := d))\<rparr>"

definition switch_process :: "('k, 't) env \<Rightarrow> nat \<Rightarrow> ('k, 't) mmu \<Rightarrow> ('k, 't) mmu" where
  "switch_process e pid m =
     (if pid \<noteq> curr_pid m then m\<lparr>tlb := tlb_flush e (tlb m), curr_pid := pid\<rparr> else m)"

text \<open>The page table for \<open>va\<close>, which is made when its directory entry is not present.\<close>

definition walk_directory :: "('k, 't) env \<Rightarrow> addr32 \<Rightarrow> nat \<Rightarrow> ('k, 't) mmu \<Rightarrow> ('k, 't) mmu" where
  "walk_directory e pd didx m =
     (if \<not> pde_present (pdes (ram m) pd didx) then
        let m = mmu_raise_page_fault m;
            (frame, r) = ask_kernel_for_frame e None (ram m)
        in m\<lparr>ram := set_pde pd didx ((pdes r pd didx)\<lparr>pde_base_addr := base_of frame, pde_present := True,
                    pde_read_write := True, pde_user_supervisor := True\<rparr>) r\<rparr>
      else m)"

definition find_pte :: "('k, 't) env \<Rightarrow> nat \<Rightarrow> addr32 \<Rightarrow> ('k, 't) mmu \<Rightarrow> (pteref \<times> ('k, 't) mmu) res" where
  "find_pte e pid va m =
     (let (hit, t) = tlb_get_pte e (tlb m) (page_number va);
          m = m\<lparr>tlb := t\<rparr>
      in case hit of
        Some pge \<Rightarrow> Inr (pge, m)
      | None \<Rightarrow>
          let m = mmu_tlb_miss m
          in (case page_directories m pid of
            None \<Rightarrow> Inl Null_deref
          | Some pd \<Rightarrow>
              let m = walk_directory e pd (dir_index va) m;
                  pge = (frame_at (pde_base_addr (pdes (ram m) pd (dir_index va))), table_index va)
              in Inr (pge, m\<lparr>tlb := tlb_add_pte e (tlb m) (page_number va) pge\<rparr>)))"

definition page_in :: "('k, 't) env \<Rightarrow> vm_segmentation \<Rightarrow> pteref \<Rightarrow> ('k, 't) mmu \<Rightarrow> ('k, 't) mmu" where
  "page_in e segment pge m =
     (if \<not> pte_present (get_pte (ram m) pge) then
        let m = mmu_raise_page_fault m;
            (frame, r) = ask_kernel_for_frame e (Some pge) (ram m);
            r = set_pte pge ((get_pte r pge)\<lparr>pte_base_addr := base_of frame, pte_present := True,
                  pte_read_write := (READ \<in> permissions segment \<or> WRITE \<in> permissions segment),
                  pte_user_supervisor := True\<rparr>) r
        in m\<lparr>ram := read_page_from_disk e pge r\<rparr>
      else m)"

definition physical_addr :: "'k ram \<Rightarrow> pteref \<Rightarrow> addr32 \<Rightarrow> addr32" where
  "physical_addr r pge va = frame_at (pte_base_addr (get_pte r pge)) OR page_offset va"

definition copy_out :: "(addr32 \<Rightarrow> 8 word) \<Rightarrow> addr32 \<Rightarrow> nat \<Rightarrow> 8 word list" where
  "copy_out b p n = map (\<lambda>i. b (p + of_nat i)) [0 ..< n]"

primrec copy_in :: "8 word list \<Rightarrow> addr32 \<Rightarrow> (addr32 \<Rightarrow> 8 word) \<Rightarrow> addr32 \<Rightarrow> 8 word" where
  "copy_in [] p b = b"
| "copy_in (x # xs) p b = copy_in xs (p + 1) (b(p := x))"

text \<open>The bytes that are read are returned, none when the access faults.\<close>

definition mmu_read_from_virtual_address :: "('k, 't) env \<Rightarrow> ('k, 't) mmu \<Rightarrow> addr32 \<Rightarrow> nat \<Rightarrow> nat
    \<Rightarrow> (8 word list \<times> ('k, 't) mmu) res" where
  "mmu_read_from_virtual_address e m va pid num_bytes =
     rbind (guard (pid < MAX_PROCESS_ID e) Assert_failed) (\<lambda>_.
     rbind (guard (w64 (num_bytes + unat va mod PAGE_SIZE) \<le> PAGE_SIZE) Assert_failed) (\<lambda>_.
       let m = switch_process e pid m
       in case find_segment e (segmentations m pid) va of
         None \<Rightarrow> Inr ([], mmu_raise_segmentation_fault m)
       | Some segment \<Rightarrow>
           rbind (find_pte e pid va m) (\<lambda>(pge, m).
             let m = page_in e segment pge m
             in if READ \<in> permissions segment then
                  let out = copy_out (bytes (ram m)) (physical_addr (ram m) pge va) num_bytes
                  in Inr (out, m\<lparr>ram := set_pte pge ((get_pte (ram m) pge)\<lparr>pte_accessed := True\<rparr>) (ram m)\<rparr>)
                else Inr ([], mmu_raise_segmentation_fault m))))"

definition mmu_write_to_virtual_address :: "('k, 't) env \<Rightarrow> ('k, 't) mmu \<Rightarrow> addr32 \<Rightarrow> nat \<Rightarrow> 8 word list
    \<Rightarrow> ('k, 't) mmu res" where
  "mmu_write_to_virtual_address e m va pid buffer =
     rbind (guard (pid < MAX_PROCESS_ID e) Assert_failed) (\<lambda>_.
     rbind (guard (w64 (length buffer + unat va mod PAGE_SIZE) \<le> PAGE_SIZE) Assert_failed) (\<lambda>_.
       let m = switch_process e pid m
       in case find_segment e (segmentations m pid) va of
         None \<Rightarrow> Inr (mmu_raise_segmentation_fault m)
       | Some segment \<Rightarrow>
           rbind (find_pte e pid va m) (\<lambda>(pge, m).
             let m = page_in e segment pge m
             in if WRITE \<in> permissions segment then
                  let r = (ram m)\<lparr>bytes := copy_in buffer (physical_addr (ram m) pge va) (bytes (ram m))\<rparr>
                  in Inr (m\<lparr>ram := set_pte pge ((get_pte r pge)\<lparr>pte_accessed := True, pte_dirty := True\<rparr>) r\<rparr>)
                else Inr (mmu_raise_segmentation_fault m))))"

section \<open>Processes\<close>

definition initial_segments :: "segname \<Rightarrow> vm_segmentation" where
  "initial_segments n = (case n of
     STACK \<Rightarrow> \<lparr>seg_start = 0xBFFFE000, seg_end = 0xC07FE000, permissions = {READ, WRITE}, grows_down = True\<rparr>
   | MMAP \<Rightarrow> \<lparr>seg_start = 0xC07FE000, seg_end = 0xC07FE000, permissions = {READ, EXEC, WRITE}, grows_down = True\<rparr>
   | HEAP \<Rightarrow> \<lparr>seg_start = 0x08072000, seg_end = 0x08072000, permissions = {READ, WRITE}, grows_down = False\<rparr>
   | BSS \<Rightarrow> \<lparr>seg_start = 0x0805A000, seg_end = 0x08072000, permissions = {READ, WRITE}, grows_down = False\<rparr>
   | DATA \<Rightarrow> \<lparr>seg_start = 0x08052000, seg_end = 0x0805A000, permissions = {READ, WRITE}, grows_down = False\<rparr>
   | TEXT \<Rightarrow> \<lparr>seg_start = 0x08048000, seg_end = 0x08052000, permissions = {READ, EXEC}, grows_down = False\<rparr>
   | TESTING \<Rightarrow> \<lparr>seg_start = of_nat PAGE_SIZE, seg_end = of_nat (3 * PAGE_SIZE), permissions = {READ, WRITE},
       grows_down = False\<rparr>)"

definition testing_page :: "('k, 't) env \<Rightarrow> addr32 \<Rightarrow> 'k ram \<Rightarrow> nat \<Rightarrow> 'k ram" where
  "testing_page e pd r i =
     (let pte = (frame_at (pde_base_addr (pdes r pd 0)), i);
          (frame, r) = ask_kernel_for_frame e (Some pte) r
      in set_pte pte ((get_pte r pte)\<lparr>pte_base_addr := ucast (drop_bit 12 frame), pte_present := True,
           pte_read_write := True, pte_user_supervisor := True\<rparr>) r)"

definition mmu_add_process :: "('k, 't) env \<Rightarrow> ('k, 't) mmu \<Rightarrow> nat \<Rightarrow> ('k, 't) mmu res" where
  "mmu_add_process e m pid =
     rbind (guard (pid < MAX_PROCESS_ID e) Assert_failed) (\<lambda>_.
       let (pd, r) = ask_kernel_for_frame e None (ram m);
           m = m\<lparr>page_directories := (page_directories m)(pid := Some pd),
                 segmentations := (segmentations m)(pid := Some initial_segments)\<rparr>;
           (frame, r) = ask_kernel_for_frame e None r;
           r = set_pde pd 0 ((pdes r pd 0)\<lparr>pde_base_addr := ucast (drop_bit 12 frame), pde_present := True,
                 pde_read_write := True, pde_user_supervisor := True\<rparr>) r
       in Inr (m\<lparr>ram := foldl (testing_page e pd) r [1, 2]\<rparr>))"

definition free_entry :: "('k, 't) env \<Rightarrow> addr32 \<Rightarrow> 'k ram \<Rightarrow> nat \<Rightarrow> 'k ram" where
  "free_entry e pt r vpn2 =
     (let pte = (pt, vpn2);
          r = (if pte_present (get_pte r pte)
               then return_frame_to_kernel e (frame_at (pte_base_addr (get_pte r pte))) r else r)
      in remove_swap_file e pte r)"

definition free_table :: "('k, 't) env \<Rightarrow> addr32 \<Rightarrow> 'k ram \<Rightarrow> nat \<Rightarrow> 'k ram" where
  "free_table e pd r vpn1 =
     (if pde_present (pdes r pd vpn1) then
        let pt = frame_at (pde_base_addr (pdes r pd vpn1))
        in return_frame_to_kernel e pt (foldl (free_entry e pt) r [0 ..< NUM_ENTRIES])
      else r)"

definition mmu_remove_process :: "('k, 't) env \<Rightarrow> ('k, 't) mmu \<Rightarrow> nat \<Rightarrow> ('k, 't) mmu res" where
  "mmu_remove_process e m pid =
     rbind (guard (pid < MAX_PROCESS_ID e) Assert_failed) (\<lambda>_.
       let m = (case page_directories m pid of
              None \<Rightarrow> m
            | Some pd \<Rightarrow> m\<lparr>ram := return_frame_to_kernel e pd (foldl (free_table e pd) (ram m) [0 ..< NUM_ENTRIES])\<rparr>);
           m = m\<lparr>page_directories := (page_directories m)(pid := None),
                 segmentations := (segmentations m)(pid := None)\<rparr>
       in Inr (if curr_pid m = pid then m\<lparr>tlb := tlb_flush e (tlb m)\<rparr> else m))"

primrec remove_processes :: "('k, 't) env \<Rightarrow> nat list \<Rightarrow> ('k, 't) mmu \<Rightarrow> ('k, 't) mmu res" where
  "remove_processes e [] m = Inr m"
| "remove_processes e (p # ps) m = rbind (mmu_remove_process e m p) (remove_processes e ps)"

text \<open>What is left when the unit is deleted: the memory of the machine.\<close>

definition mmu_delete :: "('k, 't) env \<Rightarrow> ('k, 't) mmu \<Rightarrow> 'k ram res" where
  "mmu_delete e m =
     rbind (remove_processes e [0 ..< MAX_PROCESS_ID e] m) (\<lambda>m. Inr (remove_swap_files e (ram m)))"

end
