(* ===== verification/Mmu_Correct.thy ===== *)
theory Mmu_Correct
  imports Mmu
begin

text \<open>
  Correctness of the memory management unit: the parts of an address, the invariant that the TLB
  only holds entries of the tables of the current process, and from it that the TLB is
  transparent; accesses read what was written.
\<close>

section \<open>Addresses\<close>

lemma masks:
  "(0xffc00000 :: 32 word) = NOT (mask 22)"
  "(0x003ff000 :: 32 word) = mask 22 AND NOT (mask 12)"
  "(0x00000fff :: 32 word) = mask 12"
  "(0xfffff000 :: 32 word) = NOT (mask 12)"
  by (simp_all add: mask_eq_exp_minus_1)

lemma address_reassembles:
  "push_bit 22 (word_of_nat (dir_index va)) OR push_bit 12 (word_of_nat (table_index va)) OR page_offset va = va"
  unfolding dir_index_def table_index_def page_offset_def masks
proof (rule bit_word_eqI)
  fix n assume "n < LENGTH(32)"
  consider "n < 12" | "12 \<le> n" "n < 22" | "22 \<le> n" by linarith
  then show "bit (push_bit 22 (word_of_nat (unat (drop_bit 22 (va AND NOT (mask 22))))) OR
      push_bit 12 (word_of_nat (unat (drop_bit 12 (va AND (mask 22 AND NOT (mask 12)))))) OR va AND mask 12) n = bit va n"
    by cases (use \<open>n < LENGTH(32)\<close> in \<open>auto simp: bit_simps dest: bit_imp_le_length\<close>)
qed

lemma page_number_split:
  "page_number va = push_bit 10 (word_of_nat (dir_index va)) OR word_of_nat (table_index va)"
  unfolding dir_index_def table_index_def page_number_def masks
proof (rule bit_word_eqI)
  fix n assume "n < LENGTH(32)"
  show "bit (drop_bit 12 (va AND NOT (mask 12))) n = bit (push_bit 10 (word_of_nat (unat (drop_bit 22 (va AND NOT (mask 22)))) :: 32 word) OR
      word_of_nat (unat (drop_bit 12 (va AND (mask 22 AND NOT (mask 12)))))) n"
  proof (cases "n < 10")
    case False
    then have "22 + (n - 10) = 12 + n" by simp
    then show ?thesis using False by (auto simp: bit_simps)
  qed (auto simp: bit_simps)
qed

lemma unat_drop: "unat (drop_bit n (va :: addr32)) = unat va div 2 ^ n"
  by (subst unat_drop_bit_eq) (simp only: drop_bit_eq_div)

lemma unat_take: "unat (take_bit n (va :: addr32)) = unat va mod 2 ^ n"
  by (subst unsigned_take_bit_eq) (simp only: take_bit_eq_mod)

lemma dir_index_div: "dir_index va = unat va div 2 ^ 22"
proof -
  have "drop_bit 22 (va AND NOT (mask 22)) = drop_bit 22 va"
    by (rule bit_eqI) (auto simp: bit_simps dest: bit_imp_le_length)
  then show ?thesis by (simp only: dir_index_def masks unat_drop)
qed

lemma page_number_div: "page_number va = drop_bit 12 va"
  unfolding page_number_def masks by (rule bit_eqI) (auto simp: bit_simps dest: bit_imp_le_length)

lemma page_offset_mod: "unat (page_offset va) = unat va mod 2 ^ 12"
  by (simp only: page_offset_def masks take_bit_eq_mask [symmetric] unat_take)

lemma table_index_mod: "table_index va = (unat va div 2 ^ 12) mod 2 ^ 10"
proof -
  have "drop_bit 12 (va AND (mask 22 AND NOT (mask 12))) = take_bit 10 (drop_bit 12 va)"
    by (rule bit_eqI) (auto simp: bit_simps)
  then show ?thesis by (simp only: table_index_def masks unat_drop unat_take)
qed

lemma index_bounds: "dir_index va < NUM_ENTRIES" "table_index va < NUM_ENTRIES" "unat (page_offset va) < PAGE_SIZE"
  using unsigned_less [of va]
  by (simp_all add: dir_index_div table_index_mod page_offset_mod NUM_ENTRIES_def PAGE_SIZE_def div_less_iff_less_mult)

text \<open>The directory index and the table index of an address are those of its page number.\<close>

lemma indices_of_page_number:
  assumes "page_number va = page_number vb"
  shows "dir_index va = dir_index vb \<and> table_index va = table_index vb"
proof -
  have "unat va div 2 ^ 12 = unat vb div 2 ^ 12"
    using arg_cong [OF assms [unfolded page_number_div], of unat] by (simp only: unat_drop)
  moreover have "unat v div 2 ^ 22 = unat v div 2 ^ 12 div 2 ^ 10" for v :: addr32
    by (simp add: div_mult2_eq [symmetric])
  ultimately show ?thesis by (simp only: dir_index_div table_index_mod)
qed

section \<open>The libraries\<close>

text \<open>
  What is relied on of the TLB: nothing is found after a flush or at the start, a lookup adds
  nothing, an insertion adds the entry and nothing else (it may push out others), and an entry that
  was just found is still there.
\<close>

definition tlb_ok :: "('k, 't) env \<Rightarrow> bool" where
  "tlb_ok e \<longleftrightarrow>
     (\<forall>t k. fst (tlb_get_pte e (tlb_flush e t) k) = None)
   \<and> (\<forall>k. fst (tlb_get_pte e (tlb_create e) k) = None)
   \<and> (\<forall>t k k' p. fst (tlb_get_pte e (snd (tlb_get_pte e t k')) k) = Some p \<longrightarrow> fst (tlb_get_pte e t k) = Some p)
   \<and> (\<forall>t k p. fst (tlb_get_pte e (tlb_add_pte e t k p) k) = Some p)
   \<and> (\<forall>t k k' p q. fst (tlb_get_pte e (tlb_add_pte e t k p) k') = Some q \<longrightarrow>
        k' = k \<and> q = p \<or> fst (tlb_get_pte e t k') = Some q)
   \<and> (\<forall>t k p. fst (tlb_get_pte e t k) = Some p \<longrightarrow> fst (tlb_get_pte e (snd (tlb_get_pte e t k)) k) = Some p)"

text \<open>
  What the kernel promises. \<open>inuse\<close> reads off the state of the kernel the frames that it has handed
  out for directories and tables (asked for with \<open>NULL\<close>) and not taken back; it is \<open>None\<close> once the
  kernel has run out of frames, after which nothing is promised. \<open>kept F\<close> says that the frames \<open>F\<close>
  keep their directory entries and that no entry of a page table in them becomes present or gets
  another frame: an entry may lose its presence, when its page is moved to the disk.
\<close>

definition kept :: "addr32 set \<Rightarrow> 'k ram \<Rightarrow> 'k ram \<Rightarrow> bool" where
  "kept F r r' \<longleftrightarrow> (\<forall>f\<in>F. pdes r' f = pdes r f \<and> (\<forall>j. pte_present (ptes r' f j) \<longrightarrow>
     pte_present (ptes r f j) \<and> pte_base_addr (ptes r' f j) = pte_base_addr (ptes r f j)))"

definition unmapped :: "addr32 set \<Rightarrow> 'k ram \<Rightarrow> addr32 \<Rightarrow> bool" where
  "unmapped F r a \<longleftrightarrow> (\<forall>f\<in>F. \<forall>j. pte_present (ptes r f j) \<longrightarrow> frame_at (pte_base_addr (ptes r f j)) \<noteq> a)"

definition blank :: "'k ram \<Rightarrow> addr32 \<Rightarrow> bool" where
  "blank r a \<longleftrightarrow> (\<forall>i. \<not> pde_present (pdes r a i) \<and> \<not> pte_present (ptes r a i))"

text \<open>
  A frame that is handed out starts at a page, is none of those in use for directories and tables, and
  no present entry of a table refers to it. One that was asked for with \<open>NULL\<close> is zeroed and from then
  on in use. A frame that is taken back may be changed; the other frames in use are kept by every call.
\<close>

definition ask_ok :: "('k \<Rightarrow> addr32 set option) \<Rightarrow> ('k, 't) env \<Rightarrow> bool" where
  "ask_ok inuse e \<longleftrightarrow> (\<forall>q r a r' P'. ask_kernel_for_frame e q r = (a, r') \<longrightarrow> inuse (kern r') = Some P' \<longrightarrow>
     (\<exists>P. inuse (kern r) = Some P \<and> a \<notin> P \<and> page_offset a = 0 \<and> kept P r r' \<and> unmapped P r' a
        \<and> (if q = None then P' = insert a P \<and> blank r' a else P' = P)))"

definition return_ok :: "('k \<Rightarrow> addr32 set option) \<Rightarrow> ('k, 't) env \<Rightarrow> bool" where
  "return_ok inuse e \<longleftrightarrow> (\<forall>a r. case inuse (kern r) of
       None \<Rightarrow> inuse (kern (return_frame_to_kernel e a r)) = None
     | Some P \<Rightarrow> \<exists>P'. inuse (kern (return_frame_to_kernel e a r)) = Some P' \<and> P - {a} \<subseteq> P' \<and> P' \<subseteq> P
         \<and> kept (P - {a}) r (return_frame_to_kernel e a r))"

definition kernel_ok :: "('k \<Rightarrow> addr32 set option) \<Rightarrow> ('k, 't) env \<Rightarrow> bool" where
  "kernel_ok inuse e \<longleftrightarrow> ask_ok inuse e \<and> return_ok inuse e
   \<and> (\<forall>p r. inuse (kern (read_page_from_disk e p r)) = inuse (kern r)
        \<and> (\<forall>P. inuse (kern r) = Some P \<longrightarrow> kept P r (read_page_from_disk e p r)))
   \<and> (\<forall>p r. inuse (kern (remove_swap_file e p r)) = inuse (kern r)
        \<and> (\<forall>P. inuse (kern r) = Some P \<longrightarrow> kept P r (remove_swap_file e p r)))"

lemma kept_simps: "kept F r r" "kept F r r' \<Longrightarrow> G \<subseteq> F \<Longrightarrow> kept G r r'"
  "kept F r r' \<Longrightarrow> kept F r' r'' \<Longrightarrow> kept F r r''" "kept F r r' \<Longrightarrow> f \<in> F \<Longrightarrow> pdes r' f = pdes r f"
  by (auto simp: kept_def subset_iff)

lemma kernel_askE:
  assumes "kernel_ok inuse e" and "ask_kernel_for_frame e q r = (a, r')" and "inuse (kern r') = Some P'"
  obtains P where "inuse (kern r) = Some P" "a \<notin> P" "page_offset a = 0" "kept P r r'" "unmapped P r' a"
    "if q = None then P' = insert a P \<and> blank r' a else P' = P"
  using assms unfolding kernel_ok_def ask_ok_def by blast

lemma kernel_returnE:
  assumes "kernel_ok inuse e" and "inuse (kern r) = Some P"
  obtains P' where "inuse (kern (return_frame_to_kernel e a r)) = Some P'" "P - {a} \<subseteq> P'" "P' \<subseteq> P"
    "kept (P - {a}) r (return_frame_to_kernel e a r)"
proof -
  have "case inuse (kern r) of None \<Rightarrow> inuse (kern (return_frame_to_kernel e a r)) = None
     | Some P \<Rightarrow> \<exists>P'. inuse (kern (return_frame_to_kernel e a r)) = Some P' \<and> P - {a} \<subseteq> P' \<and> P' \<subseteq> P
         \<and> kept (P - {a}) r (return_frame_to_kernel e a r)"
    using assms(1) unfolding kernel_ok_def return_ok_def by blast
  then show thesis using assms(2) that by auto
qed

lemma kernel_okD:
  assumes "kernel_ok inuse e"
  shows "inuse (kern (read_page_from_disk e p r)) = inuse (kern r)"
    "inuse (kern (remove_swap_file e p r)) = inuse (kern r)"
    "inuse (kern r) = Some P \<Longrightarrow> kept P r (read_page_from_disk e p r)"
    "inuse (kern r) = Some P \<Longrightarrow> kept P r (remove_swap_file e p r)"
  using assms unfolding kernel_ok_def by blast+

text \<open>A kernel that has run out of frames stays so.\<close>

lemma return_None:
  assumes "kernel_ok inuse e" and "inuse (kern r) = None"
  shows "inuse (kern (return_frame_to_kernel e a r)) = None"
proof -
  have "case inuse (kern r) of None \<Rightarrow> inuse (kern (return_frame_to_kernel e a r)) = None
     | Some P \<Rightarrow> \<exists>P'. inuse (kern (return_frame_to_kernel e a r)) = Some P' \<and> P - {a} \<subseteq> P' \<and> P' \<subseteq> P
         \<and> kept (P - {a}) r (return_frame_to_kernel e a r)"
    using assms(1) unfolding kernel_ok_def return_ok_def by blast
  then show ?thesis using assms(2) by simp
qed

lemma ram_simps [simp]:
  "pdes (set_pte p d r) = pdes r" "bytes (set_pte p d r) = bytes r" "kern (set_pte p d r) = kern r"
  "get_pte (set_pte p d r) p = d" "get_pte (r\<lparr>bytes := b\<rparr>) p = get_pte r p"
  "pdes (set_pde pd i d' r) = (pdes r)(pd := (pdes r pd)(i := d'))" "ptes (set_pde pd i d' r) = ptes r"
  "kern (set_pde pd i d' r) = kern r"
  by (simp_all add: set_pte_def set_pde_def get_pte_def)

lemma foldl_None:
  "inuse (kern r) = None \<Longrightarrow> (\<And>r i. inuse (kern r) = None \<Longrightarrow> inuse (kern (f r i)) = None)
    \<Longrightarrow> inuse (kern (foldl f r xs)) = None"
  by (induction xs arbitrary: r) simp_all

lemma free_table_None:
  assumes "kernel_ok inuse e" and "inuse (kern r) = None"
  shows "inuse (kern (free_table e pd r i)) = None"
proof -
  have "inuse (kern (free_entry e pt r j)) = None" if "inuse (kern r) = None" for pt r j
    using that return_None [OF assms(1)] by (simp add: free_entry_def Let_def kernel_okD(2) [OF assms(1)])
  then have "inuse (kern (foldl (free_entry e pt) r js)) = None" for pt js
    using foldl_None [of inuse r "free_entry e pt" js, OF assms(2)] by blast
  then show ?thesis using assms(2) return_None [OF assms(1)] by (simp add: free_table_def Let_def)
qed

text \<open>The frame at the base address that is stored for a frame is that frame.\<close>

lemma frame_at_base:
  assumes "page_offset a = 0"
  shows "frame_at (base_of a) = a" "frame_at (ucast (drop_bit 12 a)) = a"
proof -
  have low: "\<not> bit a n" if "n < 12" for n
  proof
    assume "bit a n"
    then have "bit (page_offset a) n" using that by (simp add: page_offset_def masks bit_simps)
    then show False using assms by simp
  qed
  show "frame_at (ucast (drop_bit 12 a)) = a"
    unfolding frame_at_def proof (rule bit_word_eqI)
    fix n assume "n < LENGTH(32)"
    then show "bit (push_bit 12 (ucast (ucast (drop_bit 12 a) :: 20 word) :: addr32)) n = bit a n"
      using low [of n] by (cases "n < 12") (auto simp: bit_simps)
  qed
  moreover have "drop_bit 12 (a AND NOT (mask 12)) = drop_bit 12 a"
    by (rule bit_eqI) (auto simp: bit_simps dest: bit_imp_le_length)
  ultimately show "frame_at (base_of a) = a" by (simp only: base_of_def masks)
qed

section \<open>Which frames belong to whom\<close>

text \<open>
  The invariant of the directories \<open>D\<close>, all with respect to the frames \<open>P\<close> in use: directories are in
  use and no two processes share one; the tables of a directory are in use, belong to one entry of one
  directory and are no directories; a page that is present is in no frame that is in use.
\<close>

definition has_table :: "(nat \<Rightarrow> addr32 option) \<Rightarrow> 'k ram \<Rightarrow> nat \<Rightarrow> nat \<Rightarrow> addr32 \<Rightarrow> bool" where
  "has_table D r p i t \<longleftrightarrow> (\<exists>pd. D p = Some pd \<and> pde_present (pdes r pd i) \<and> t = frame_at (pde_base_addr (pdes r pd i)))"

definition owned :: "addr32 set \<Rightarrow> (nat \<Rightarrow> addr32 option) \<Rightarrow> 'k ram \<Rightarrow> bool" where
  "owned P D r \<longleftrightarrow>
     (\<forall>p pd. D p = Some pd \<longrightarrow> pd \<in> P)
   \<and> (\<forall>p q pd. D p = Some pd \<longrightarrow> D q = Some pd \<longrightarrow> p = q)
   \<and> (\<forall>p i t. has_table D r p i t \<longrightarrow> t \<in> P \<and> (\<forall>q. D q \<noteq> Some t))
   \<and> (\<forall>p q i j t. has_table D r p i t \<longrightarrow> has_table D r q j t \<longrightarrow> p = q \<and> i = j)
   \<and> (\<forall>p i t j. has_table D r p i t \<longrightarrow> pte_present (ptes r t j) \<longrightarrow> frame_at (pte_base_addr (ptes r t j)) \<notin> P)"

lemma ownedD:
  assumes "owned P D r"
  shows "D p = Some pd \<Longrightarrow> pd \<in> P" "D p = Some pd \<Longrightarrow> D q = Some pd \<Longrightarrow> p = q"
    "has_table D r p i t \<Longrightarrow> t \<in> P" "has_table D r p i t \<Longrightarrow> D q \<noteq> Some t"
    "has_table D r p i t \<Longrightarrow> has_table D r q j t \<Longrightarrow> p = q \<and> i = j"
    "has_table D r p i t \<Longrightarrow> pte_present (ptes r t k) \<Longrightarrow> frame_at (pte_base_addr (ptes r t k)) \<notin> P"
  using assms unfolding owned_def by blast+

text \<open>The invariant only looks at the directories and their tables, and stays when fewer frames are in use.\<close>

lemma owned_kept:
  assumes "owned P D r" and "kept F r r'" and "\<And>p pd. D p = Some pd \<Longrightarrow> pd \<in> F"
    and "\<And>p i t. has_table D r p i t \<Longrightarrow> t \<in> F" and "F \<subseteq> P'" and "P' \<subseteq> P"
  shows "owned P' D r'"
proof -
  have ht: "has_table D r' p i t \<longleftrightarrow> has_table D r p i t" for p i t
    using kept_simps(4) [OF assms(2) assms(3)] by (auto simp: has_table_def)
  show ?thesis
    unfolding owned_def ht
  proof (intro conjI allI impI)
    fix p i t j assume t: "has_table D r p i t" and pr: "pte_present (ptes r' t j)"
    have "pte_present (ptes r t j) \<and> pte_base_addr (ptes r' t j) = pte_base_addr (ptes r t j)"
      using assms(2) assms(4) [OF t] pr by (simp add: kept_def)
    then show "frame_at (pte_base_addr (ptes r' t j)) \<notin> P'" using ownedD(6) [OF assms(1) t] assms(6) by auto
  next
    fix p i t q assume t: "has_table D r p i t"
    show "t \<in> P'" using assms(4) [OF t] assms(5) by blast
    show "D q \<noteq> Some t" by (rule ownedD(4) [OF assms(1) t])
  next
    fix p q i j t assume "has_table D r p i t" "has_table D r q j t"
    from ownedD(5) [OF assms(1) this] show "p = q" "i = j" by simp_all
  next
    fix p pd assume "D p = Some pd"
    then show "pd \<in> P'" using assms(3,5) by blast
  next
    fix p q pd assume "D p = Some pd" "D q = Some pd"
    then show "p = q" by (rule ownedD(2) [OF assms(1)])
  qed
qed

lemma owned_all: "owned P D r \<Longrightarrow> kept P r r' \<Longrightarrow> owned P D r'"
  by (rule owned_kept [where F = P]) (auto dest: ownedD(1,3))

lemma owned_new_dir:
  assumes "owned P D r" and "a \<notin> P" and "unmapped P r a" and "blank r a"
  shows "owned (insert a P) (D(pid := Some a)) r"
proof -
  have ht: "has_table (D(pid := Some a)) r p i t \<longleftrightarrow> p \<noteq> pid \<and> has_table D r p i t" for p i t
    using assms(4) by (auto simp: has_table_def blank_def)
  show ?thesis
    unfolding owned_def ht
    using ownedD [OF assms(1)] assms(2,3) by (auto simp: unmapped_def split: if_splits)
qed

lemma owned_new_table:
  assumes "owned P D r" and "a \<notin> P" and "unmapped P r a" and "blank r a" and "D p = Some pd"
    and "pde_present d" and "frame_at (pde_base_addr d) = a"
  shows "owned (insert a P) D (set_pde pd i d r)"
proof -
  have ht: "has_table D (set_pde pd i d r) q j t \<longleftrightarrow> (if q = p \<and> j = i then t = a else has_table D r q j t)" for q j t
  proof (cases "q = p")
    case True
    then show ?thesis using assms(5-7) by (auto simp: has_table_def)
  next
    case False
    then have "D q \<noteq> Some pd" using ownedD(2) [OF assms(1,5)] by blast
    then show ?thesis using False by (cases "D q") (auto simp: has_table_def)
  qed
  have new: "has_table D r q j t \<Longrightarrow> t \<noteq> a" "D q \<noteq> Some a" for q j t
    using ownedD(1,3) [OF assms(1)] assms(2) by blast+
  show ?thesis
    unfolding owned_def ht
  proof (intro conjI allI impI)
    fix q j t k
    assume "if q = p \<and> j = i then t = a else has_table D r q j t" "pte_present (ptes (set_pde pd i d r) t k)"
    then show "frame_at (pte_base_addr (ptes (set_pde pd i d r) t k)) \<notin> insert a P"
      using ownedD(3,6) [OF assms(1), of q j t] assms(3,4) by (auto simp: unmapped_def blank_def split: if_splits)
  next
    fix q q' j j' t
    assume "if q = p \<and> j = i then t = a else has_table D r q j t"
      "if q' = p \<and> j' = i then t = a else has_table D r q' j' t"
    then have "(q = p \<and> j = i \<longleftrightarrow> q' = p \<and> j' = i) \<and> (q = q' \<and> j = j')"
      using new(1) ownedD(5) [OF assms(1), of q j t q' j'] by (auto split: if_splits)
    then show "q = q'" "j = j'" by simp_all
  next
    fix q j t q' assume "if q = p \<and> j = i then t = a else has_table D r q j t"
    then show "t \<in> insert a P" "D q' \<noteq> Some t"
      using new(2) ownedD(3,4) [OF assms(1), of q j t] by (auto split: if_splits)
  next
    fix q pd' assume "D q = Some pd'"
    then show "pd' \<in> insert a P" using ownedD(1) [OF assms(1)] by blast
  next
    fix q q' pd' assume "D q = Some pd'" "D q' = Some pd'"
    then show "q = q'" by (rule ownedD(2) [OF assms(1)])
  qed
qed

lemma owned_set_pte:
  assumes "owned P D r" and "pte_present d \<Longrightarrow> frame_at (pte_base_addr d) \<notin> P"
  shows "owned P D (set_pte p d r)"
proof -
  have ht: "has_table D (set_pte p d r) q j t \<longleftrightarrow> has_table D r q j t" for q j t by (simp add: has_table_def)
  have pt: "ptes (set_pte p d r) t j = (if t = fst p \<and> j = snd p then d else ptes r t j)" for t j
    by (simp add: set_pte_def)
  show ?thesis
    unfolding owned_def ht pt using ownedD [OF assms(1)] assms(2) by (auto split: if_splits)
qed

lemma kept_set_pte:
  "pte_present d \<longrightarrow> pte_present (get_pte r p) \<and> pte_base_addr d = pte_base_addr (get_pte r p) \<Longrightarrow> kept F r (set_pte p d r)"
  by (auto simp: kept_def set_pte_def get_pte_def)

lemma kept_bytes: "kept F r (r\<lparr>bytes := b\<rparr>)"
  by (simp add: kept_def)

lemma owned_drop: "owned P D r \<Longrightarrow> owned P (D(pid := None)) r"
proof -
  assume o: "owned P D r"
  have ht: "has_table (D(pid := None)) r p i t \<longleftrightarrow> p \<noteq> pid \<and> has_table D r p i t" for p i t
    by (auto simp: has_table_def)
  show ?thesis unfolding owned_def ht using ownedD [OF o] by (auto split: if_splits)
qed

section \<open>The TLB holds entries of the current process\<close>

text \<open>The walk through the directory of the current process.\<close>

definition walk :: "('k, 't) mmu \<Rightarrow> addr32 \<Rightarrow> pteref option" where
  "walk m va = (case page_directories m (curr_pid m) of
     None \<Rightarrow> None
   | Some pd \<Rightarrow>
       if pde_present (pdes (ram m) pd (dir_index va))
       then Some (frame_at (pde_base_addr (pdes (ram m) pd (dir_index va))), table_index va) else None)"

definition coherent :: "('k, 't) env \<Rightarrow> ('k, 't) mmu \<Rightarrow> bool" where
  "coherent e m \<longleftrightarrow> (\<forall>va p. fst (tlb_get_pte e (tlb m) (page_number va)) = Some p \<longrightarrow> walk m va = Some p)"

lemma coherentD: "coherent e m \<Longrightarrow> fst (tlb_get_pte e (tlb m) (page_number va)) = Some p \<Longrightarrow> walk m va = Some p"
  unfolding coherent_def by blast

lemma walk_page: "page_number va = page_number vb \<Longrightarrow> walk m va = walk m vb"
  using indices_of_page_number [of va vb] by (cases "page_directories m (curr_pid m)") (simp_all add: walk_def)

lemma coherent_empty:
  "(\<And>k. fst (tlb_get_pte e (tlb m) k) = None) \<Longrightarrow> coherent e m"
  by (simp add: coherent_def)

lemma tlb_flushed: "tlb_ok e \<Longrightarrow> fst (tlb_get_pte e (tlb_flush e t) k) = None"
  unfolding tlb_ok_def by blast

lemma coherent_flush: "tlb_ok e \<Longrightarrow> coherent e (m\<lparr>tlb := tlb_flush e t\<rparr>)"
  by (rule coherent_empty) (simp add: tlb_flushed)

lemma coherent_switch: "tlb_ok e \<Longrightarrow> coherent e m \<Longrightarrow> coherent e (switch_process e pid m)"
  by (cases "pid = curr_pid m") (auto simp: switch_process_def tlb_flushed intro!: coherent_empty)

lemma switch_process_simps [simp]:
  "curr_pid (switch_process e pid m) = pid" "ram (switch_process e pid m) = ram m"
  "page_directories (switch_process e pid m) = page_directories m"
  "segmentations (switch_process e pid m) = segmentations m"
  by (auto simp: switch_process_def)

lemma page_fault_simps [simp]:
  "tlb (mmu_raise_page_fault m) = tlb m" "curr_pid (mmu_raise_page_fault m) = curr_pid m"
  "ram (mmu_raise_page_fault m) = ram m" "page_directories (mmu_raise_page_fault m) = page_directories m"
  "segmentations (mmu_raise_page_fault m) = segmentations m"
  by (auto simp: mmu_raise_page_fault_def)

lemma walk_directory_simps [simp]:
  "tlb (walk_directory e pd i m) = tlb m" "curr_pid (walk_directory e pd i m) = curr_pid m"
  "page_directories (walk_directory e pd i m) = page_directories m"
  "segmentations (walk_directory e pd i m) = segmentations m"
  by (auto simp: walk_directory_def Let_def split: prod.splits)

lemma walk_directory_id: "pde_present (pdes (ram m) pd i) \<Longrightarrow> walk_directory e pd i m = m"
  by (simp add: walk_directory_def)

lemma walk_directory_present: "pde_present (pdes (ram (walk_directory e pd i m)) pd i)"
  by (simp add: walk_directory_def Let_def case_prod_beta)

lemma walk_tlb [simp]: "walk (m\<lparr>tlb := t\<rparr>) va = walk m va" "walk (mmu_tlb_miss m) va = walk m va"
  by (cases "page_directories m (curr_pid m)"; simp add: walk_def mmu_tlb_miss_def)+

lemma page_in_simps [simp]:
  "tlb (page_in e s p m) = tlb m" "curr_pid (page_in e s p m) = curr_pid m"
  "page_directories (page_in e s p m) = page_directories m" "segmentations (page_in e s p m) = segmentations m"
  by (auto simp: page_in_def Let_def split: prod.splits)

lemma segmentation_fault_simps [simp]:
  "tlb (mmu_raise_segmentation_fault m) = tlb m" "curr_pid (mmu_raise_segmentation_fault m) = curr_pid m"
  "ram (mmu_raise_segmentation_fault m) = ram m"
  "page_directories (mmu_raise_segmentation_fault m) = page_directories m"
  "segmentations (mmu_raise_segmentation_fault m) = segmentations m"
  by (auto simp: mmu_raise_segmentation_fault_def)

text \<open>
  What an access does to the memory as seen from the directories \<open>D\<close>: unless the kernel runs out of
  frames, the invariant of the frames is kept and so are the present entries of the directories.
\<close>

definition goes :: "('k \<Rightarrow> addr32 set option) \<Rightarrow> (nat \<Rightarrow> addr32 option) \<Rightarrow> 'k ram \<Rightarrow> 'k ram \<Rightarrow> bool" where
  "goes inuse D r r' \<longleftrightarrow> (\<forall>P'. inuse (kern r') = Some P' \<longrightarrow> (\<exists>P. inuse (kern r) = Some P \<and>
     (owned P D r \<longrightarrow> owned P' D r' \<and>
       (\<forall>p pd i. D p = Some pd \<longrightarrow> pde_present (pdes r pd i) \<longrightarrow> pdes r' pd i = pdes r pd i))))"

lemma goesE:
  assumes "goes inuse D r r'" and "inuse (kern r') = Some P'"
  obtains P where "inuse (kern r) = Some P" "owned P D r \<longrightarrow> owned P' D r'"
    "owned P D r \<longrightarrow> (\<forall>p pd i. D p = Some pd \<longrightarrow> pde_present (pdes r pd i) \<longrightarrow> pdes r' pd i = pdes r pd i)"
  using assms unfolding goes_def by blast

lemma goes_refl: "goes inuse D r r"
  by (simp add: goes_def)

lemma goes_trans:
  assumes "goes inuse D r r'" and "goes inuse D r' r''"
  shows "goes inuse D r r''"
  unfolding goes_def
proof (intro allI impI)
  fix P'' assume "inuse (kern r'') = Some P''"
  with assms(2) obtain P' where P': "inuse (kern r') = Some P'" "owned P' D r' \<longrightarrow> owned P'' D r'' \<and>
      (\<forall>p pd i. D p = Some pd \<longrightarrow> pde_present (pdes r' pd i) \<longrightarrow> pdes r'' pd i = pdes r' pd i)"
    unfolding goes_def by blast
  with assms(1) obtain P where P: "inuse (kern r) = Some P" "owned P D r \<longrightarrow> owned P' D r' \<and>
      (\<forall>p pd i. D p = Some pd \<longrightarrow> pde_present (pdes r pd i) \<longrightarrow> pdes r' pd i = pdes r pd i)"
    unfolding goes_def by blast
  have "owned P'' D r'' \<and> (\<forall>p pd i. D p = Some pd \<longrightarrow> pde_present (pdes r pd i) \<longrightarrow> pdes r'' pd i = pdes r pd i)"
    if o: "owned P D r"
  proof (intro conjI allI impI)
    show "owned P'' D r''" using P(2) P'(2) o by blast
    fix p pd i assume d: "D p = Some pd" "pde_present (pdes r pd i)"
    then have "pdes r' pd i = pdes r pd i" using P(2) o by blast
    moreover from this have "pdes r'' pd i = pdes r' pd i" using P(2) P'(2) o d by (metis (full_types))
    ultimately show "pdes r'' pd i = pdes r pd i" by simp
  qed
  with P(1) show "\<exists>P. inuse (kern r) = Some P \<and> (owned P D r \<longrightarrow> owned P'' D r'' \<and>
      (\<forall>p pd i. D p = Some pd \<longrightarrow> pde_present (pdes r pd i) \<longrightarrow> pdes r'' pd i = pdes r pd i))" by blast
qed

lemma goes_kept:
  assumes "inuse (kern r') = inuse (kern r)" and "\<And>P. inuse (kern r) = Some P \<Longrightarrow> kept P r r'"
  shows "goes inuse D r r'"
  unfolding goes_def assms(1)
proof (intro allI impI exI conjI)
  fix P p pd i assume P: "inuse (kern r) = Some P" and o: "owned P D r"
  note k = assms(2) [OF P]
  show "owned P D r'" by (rule owned_all [OF o k])
  show "pdes r' pd i = pdes r pd i" if "D p = Some pd" using kept_simps(4) [OF k ownedD(1) [OF o that]] by simp
qed

lemma goes_set_pte:
  "pte_present d \<longrightarrow> pte_present (get_pte r p) \<and> pte_base_addr d = pte_base_addr (get_pte r p) \<Longrightarrow> goes inuse D r (set_pte p d r)"
  by (rule goes_kept) (simp_all add: kept_set_pte)

lemma goes_bytes: "goes inuse D r (r\<lparr>bytes := b\<rparr>)"
  by (rule goes_kept) (simp_all add: kept_bytes)

lemma goes_ask_page:
  assumes "kernel_ok inuse e" and "ask_kernel_for_frame e (Some q) r = (a, r')"
    and "pte_present d \<Longrightarrow> frame_at (pte_base_addr d) = frame_at (base_of a) \<or> frame_at (pte_base_addr d) = frame_at (ucast (drop_bit 12 a))"
  shows "goes inuse D r (set_pte p d r')"
  unfolding goes_def
proof (intro allI impI)
  fix P' assume "inuse (kern (set_pte p d r')) = Some P'"
  then have "inuse (kern r') = Some P'" by simp
  with assms(1,2) obtain P where P: "inuse (kern r) = Some P" "a \<notin> P" "page_offset a = 0" "kept P r r'" "P' = P"
    by (rule kernel_askE) simp
  have "owned P' D (set_pte p d r') \<and>
      (\<forall>p' pd i. D p' = Some pd \<longrightarrow> pde_present (pdes r pd i) \<longrightarrow> pdes (set_pte p d r') pd i = pdes r pd i)"
    if o: "owned P D r"
  proof (intro conjI allI impI)
    show "owned P' D (set_pte p d r')"
      unfolding P(5) by (rule owned_set_pte [OF owned_all [OF o P(4)]]) (use assms(3) P(2) frame_at_base [OF P(3)] in auto)
    fix p' pd i assume "D p' = Some pd"
    then show "pdes (set_pte p d r') pd i = pdes r pd i" using kept_simps(4) [OF P(4) ownedD(1) [OF o]] by simp
  qed
  with P(1) show "\<exists>P. inuse (kern r) = Some P \<and> (owned P D r \<longrightarrow> owned P' D (set_pte p d r') \<and>
      (\<forall>p' pd i. D p' = Some pd \<longrightarrow> pde_present (pdes r pd i) \<longrightarrow> pdes (set_pte p d r') pd i = pdes r pd i))" by blast
qed

lemma goes_ask_table:
  assumes "kernel_ok inuse e" and "ask_kernel_for_frame e None r = (a, r')" and "D p = Some pd"
    and "\<not> pde_present (pdes r pd i)" and "pde_present d"
    and "pde_base_addr d = base_of a \<or> pde_base_addr d = ucast (drop_bit 12 a)"
  shows "goes inuse D r (set_pde pd i d r')"
  unfolding goes_def
proof (intro allI impI)
  fix P' assume "inuse (kern (set_pde pd i d r')) = Some P'"
  then have "inuse (kern r') = Some P'" by simp
  with assms(1,2) obtain P where P: "inuse (kern r) = Some P" "a \<notin> P" "page_offset a = 0" "kept P r r'"
    "unmapped P r' a" "P' = insert a P" "blank r' a" by (rule kernel_askE) simp
  have "owned P' D (set_pde pd i d r') \<and>
      (\<forall>q f j. D q = Some f \<longrightarrow> pde_present (pdes r f j) \<longrightarrow> pdes (set_pde pd i d r') f j = pdes r f j)"
    if o: "owned P D r"
  proof (intro conjI allI impI)
    show "owned P' D (set_pde pd i d r')"
      unfolding P(6)
      by (rule owned_new_table [OF owned_all [OF o P(4)] P(2,5,7) assms(3,5)])
        (use assms(6) frame_at_base [OF P(3)] in auto)
    fix q f j assume q: "D q = Some f" and pr: "pde_present (pdes r f j)"
    have "pdes r' f = pdes r f" by (rule kept_simps(4) [OF P(4) ownedD(1) [OF o q]])
    moreover have "\<not> (f = pd \<and> j = i)" using pr assms(4) by auto
    ultimately show "pdes (set_pde pd i d r') f j = pdes r f j" by auto
  qed
  with P(1) show "\<exists>P. inuse (kern r) = Some P \<and> (owned P D r \<longrightarrow> owned P' D (set_pde pd i d r') \<and>
      (\<forall>q f j. D q = Some f \<longrightarrow> pde_present (pdes r f j) \<longrightarrow> pdes (set_pde pd i d r') f j = pdes r f j))" by blast
qed

lemma walk_directory_goes:
  assumes "kernel_ok inuse e" and "D p = Some pd"
  shows "goes inuse D (ram m) (ram (walk_directory e pd i m))"
proof (cases "pde_present (pdes (ram m) pd i)")
  case True
  then show ?thesis by (simp add: walk_directory_id goes_refl)
next
  case False
  obtain a r where a: "ask_kernel_for_frame e None (ram m) = (a, r)" by fastforce
  show ?thesis
    using False a goes_ask_table [where D = D and i = i, OF assms(1) a assms(2) False]
    by (simp add: walk_directory_def Let_def)
qed

lemma page_in_goes:
  assumes "kernel_ok inuse e"
  shows "goes inuse D (ram m) (ram (page_in e s p m))"
proof (cases "pte_present (get_pte (ram m) p)")
  case True
  then show ?thesis by (simp add: page_in_def goes_refl)
next
  case False
  obtain a r where a: "ask_kernel_for_frame e (Some p) (ram m) = (a, r)" by fastforce
  let ?r = "set_pte p ((get_pte r p)\<lparr>pte_base_addr := base_of a, pte_present := True,
                  pte_read_write := (READ \<in> permissions s \<or> WRITE \<in> permissions s), pte_user_supervisor := True\<rparr>) r"
  have "goes inuse D (ram m) ?r" by (rule goes_ask_page [OF assms a]) simp
  moreover have "goes inuse D ?r (read_page_from_disk e p ?r)"
    by (rule goes_kept, rule kernel_okD(1) [OF assms], erule kernel_okD(3) [OF assms])
  ultimately have "goes inuse D (ram m) (read_page_from_disk e p ?r)" by (rule goes_trans)
  then show ?thesis using False a by (simp add: page_in_def Let_def)
qed

lemma testing_page_goes:
  assumes "kernel_ok inuse e"
  shows "goes inuse D r (testing_page e pd r i)"
proof -
  let ?p = "(frame_at (pde_base_addr (pdes r pd 0)), i)"
  obtain a r' where a: "ask_kernel_for_frame e (Some ?p) r = (a, r')" by fastforce
  show ?thesis unfolding testing_page_def Let_def a by (simp, rule goes_ask_page [OF assms a]) simp
qed

section \<open>The invariant of the unit\<close>

definition minv :: "('k \<Rightarrow> addr32 set option) \<Rightarrow> ('k, 't) env \<Rightarrow> ('k, 't) mmu \<Rightarrow> bool" where
  "minv inuse e m \<longleftrightarrow> (\<forall>P. inuse (kern (ram m)) = Some P \<longrightarrow> coherent e m \<and> owned P (page_directories m) (ram m))"

lemma coherent_mono:
  assumes "coherent e m" and "tlb m' = tlb m" and "\<And>va p. walk m va = Some p \<Longrightarrow> walk m' va = Some p"
  shows "coherent e m'"
  using assms by (simp add: coherent_def)

lemma walk_mono:
  assumes "curr_pid m' = curr_pid m" and "page_directories m' (curr_pid m) = page_directories m (curr_pid m)"
    and "\<And>pd i. page_directories m (curr_pid m) = Some pd \<Longrightarrow> pde_present (pdes (ram m) pd i)
      \<Longrightarrow> pdes (ram m') pd i = pdes (ram m) pd i"
    and "walk m va = Some p"
  shows "walk m' va = Some p"
  using assms(4) assms(3) [of _ "dir_index va"]
  by (auto simp: walk_def assms(1,2) split: option.splits if_splits)

lemma minv_goes:
  assumes "minv inuse e m" and "goes inuse (page_directories m) (ram m) (ram m')" and "tlb m' = tlb m"
    and "curr_pid m' = curr_pid m" and "page_directories m' = page_directories m"
  shows "minv inuse e m'"
  unfolding minv_def
proof (intro allI impI)
  fix P' assume "inuse (kern (ram m')) = Some P'"
  with assms(2) obtain P where P: "inuse (kern (ram m)) = Some P"
    "owned P (page_directories m) (ram m) \<longrightarrow> owned P' (page_directories m) (ram m')"
    "owned P (page_directories m) (ram m) \<longrightarrow> (\<forall>p pd i. page_directories m p = Some pd
       \<longrightarrow> pde_present (pdes (ram m) pd i) \<longrightarrow> pdes (ram m') pd i = pdes (ram m) pd i)" by (rule goesE)
  have i: "coherent e m" "owned P (page_directories m) (ram m)" using assms(1) P(1) by (auto simp: minv_def)
  have "coherent e m'"
    by (rule coherent_mono [OF i(1) assms(3)], rule walk_mono) (use assms(4,5) P(3) i(2) in auto)
  then show "coherent e m' \<and> owned P' (page_directories m') (ram m')" using P(2) i(2) assms(5) by simp
qed

lemma find_pte_minv:
  assumes "tlb_ok e" and "kernel_ok inuse e" and "minv inuse e m" and "find_pte e (curr_pid m) va m = Inr (p, m')"
  shows "minv inuse e m'"
proof -
  obtain hit t where g: "tlb_get_pte e (tlb m) (page_number va) = (hit, t)" by fastforce
  have t: "fst (tlb_get_pte e t k) = Some q \<Longrightarrow> fst (tlb_get_pte e (tlb m) k) = Some q" for k q
    using assms(1) g unfolding tlb_ok_def by (metis snd_conv)
  have sub: "minv inuse e (m\<lparr>tlb := t\<rparr>)"
    unfolding minv_def
  proof (intro allI impI conjI)
    fix P assume "inuse (kern (ram (m\<lparr>tlb := t\<rparr>))) = Some P"
    then have i: "coherent e m" "owned P (page_directories m) (ram m)" using assms(3) by (auto simp: minv_def)
    show "coherent e (m\<lparr>tlb := t\<rparr>)" using coherentD [OF i(1)] t by (auto simp: coherent_def)
    show "owned P (page_directories (m\<lparr>tlb := t\<rparr>)) (ram (m\<lparr>tlb := t\<rparr>))" using i(2) by simp
  qed
  show ?thesis
  proof (cases hit)
    case (Some q)
    then have "m' = m\<lparr>tlb := t\<rparr>" using assms(4) g by (auto simp: find_pte_def)
    with sub show ?thesis by simp
  next
    case None
    let ?a = "mmu_tlb_miss (m\<lparr>tlb := t\<rparr>)"
    obtain pd where pd: "page_directories m (curr_pid m) = Some pd"
      using assms(4) g None by (auto simp: find_pte_def mmu_tlb_miss_def Let_def split: option.splits)
    let ?b = "walk_directory e pd (dir_index va) ?a"
    let ?p = "(frame_at (pde_base_addr (pdes (ram ?b) pd (dir_index va))), table_index va)"
    have a: "tlb ?a = t" "curr_pid ?a = curr_pid m" "page_directories ?a = page_directories m"
      by (simp_all add: mmu_tlb_miss_def)
    have m': "p = ?p" "m' = ?b\<lparr>tlb := tlb_add_pte e t (page_number va) ?p\<rparr>"
      using assms(4) g None pd a by (auto simp: find_pte_def Let_def mmu_tlb_miss_def)
    have "minv inuse e ?a" using sub by (rule minv_goes) (simp_all add: mmu_tlb_miss_def goes_refl)
    then have b: "minv inuse e ?b"
      using walk_directory_goes [where D = "page_directories m" and m = ?a, OF assms(2) pd]
      by (intro minv_goes [of inuse e ?a ?b]) (simp_all add: a)
    have w: "walk ?b va = Some p" using walk_directory_present [of e pd "dir_index va" ?a] a pd m'(1) by (simp add: walk_def)
    have add: "fst (tlb_get_pte e (tlb_add_pte e t k p) k') = Some q \<Longrightarrow>
        k' = k \<and> q = p \<or> fst (tlb_get_pte e t k') = Some q" for k k' p q
      using assms(1) unfolding tlb_ok_def by blast
    have "coherent e m'" if c: "coherent e ?b"
      unfolding coherent_def
    proof (intro allI impI)
      fix vb q assume "fst (tlb_get_pte e (tlb m') (page_number vb)) = Some q"
      then have "page_number vb = page_number va \<and> q = p \<or> fst (tlb_get_pte e t (page_number vb)) = Some q"
        using add m' by simp
      then have "walk ?b vb = Some q"
        using w walk_page coherentD [OF c, of vb q] a(1) by (metis walk_directory_simps(1))
      then show "walk m' vb = Some q" using m'(2) by simp
    qed
    then show ?thesis using b m'(2) by (simp add: minv_def)
  qed
qed

lemma minv_switch: "tlb_ok e \<Longrightarrow> minv inuse e m \<Longrightarrow> minv inuse e (switch_process e pid m)"
  using coherent_switch by (fastforce simp: minv_def)

lemma minv_segfault: "minv inuse e m \<Longrightarrow> minv inuse e (mmu_raise_segmentation_fault m)"
  by (rule minv_goes) (simp_all add: goes_refl)

lemma minv_set_pte:
  "minv inuse e m \<Longrightarrow> pte_present d \<longrightarrow> pte_present (get_pte (ram m) p) \<and> pte_base_addr d = pte_base_addr (get_pte (ram m) p)
    \<Longrightarrow> minv inuse e (m\<lparr>ram := set_pte p d (ram m)\<rparr>)"
  by (erule minv_goes) (simp_all add: goes_set_pte)

lemma minv_bytes: "minv inuse e m \<Longrightarrow> minv inuse e (m\<lparr>ram := (ram m)\<lparr>bytes := b\<rparr>\<rparr>)"
  by (erule minv_goes) (simp_all add: goes_bytes)

lemma access_minv:
  assumes "tlb_ok e" and "kernel_ok inuse e" and "minv inuse e m"
    and "find_pte e pid va (switch_process e pid m) = Inr (p, m')"
  shows "minv inuse e (page_in e s p m')"
proof -
  have "find_pte e (curr_pid (switch_process e pid m)) va (switch_process e pid m) = Inr (p, m')"
    using assms(4) by simp
  from find_pte_minv [OF assms(1,2) minv_switch [OF assms(1,3)] this] show ?thesis
    by (rule minv_goes) (simp_all add: page_in_goes [OF assms(2)])
qed

lemma mmu_read_minv:
  assumes "tlb_ok e" and "kernel_ok inuse e" and "minv inuse e m"
    and "mmu_read_from_virtual_address e m va pid n = Inr (out, m')"
  shows "minv inuse e m'"
  using assms(4) minv_switch [OF assms(1,3), of pid] access_minv [OF assms(1-3), of pid va]
  by (auto simp: mmu_read_from_virtual_address_def res_conv Let_def split: option.splits if_splits
      intro!: minv_segfault minv_set_pte)

lemma mmu_write_minv:
  assumes "tlb_ok e" and "kernel_ok inuse e" and "minv inuse e m"
    and "mmu_write_to_virtual_address e m va pid buf = Inr m'"
  shows "minv inuse e m'"
proof -
  have store: "minv inuse e (a\<lparr>ram := set_pte p ((get_pte (ram a) p)\<lparr>pte_accessed := True, pte_dirty := True\<rparr>)
      ((ram a)\<lparr>bytes := b\<rparr>)\<rparr>)" if "minv inuse e a" for a p b
    using minv_set_pte [OF minv_bytes [OF that, of b], of "(get_pte (ram a) p)\<lparr>pte_accessed := True, pte_dirty := True\<rparr>" p]
    by simp
  show ?thesis
    using assms(4) minv_switch [OF assms(1,3), of pid] access_minv [OF assms(1-3), of pid va]
    by (auto simp: mmu_write_to_virtual_address_def res_conv Let_def split: option.splits if_splits
        intro!: minv_segfault store)
qed

text \<open>When the current process has no directory the TLB is empty.\<close>

lemma coherent_no_process:
  assumes "coherent e m" and "page_directories m (curr_pid m) = None" and "tlb m' = tlb m"
  shows "coherent e m'"
proof -
  have "walk m va = None" for va using assms(2) by (simp add: walk_def)
  then have "fst (tlb_get_pte e (tlb m) (page_number va)) = None" for va
    using coherentD [OF assms(1), of va] by (cases "fst (tlb_get_pte e (tlb m) (page_number va))") auto
  then show ?thesis by (simp add: coherent_def assms(3))
qed

text \<open>A process that is added gets a new directory with a new table as its first entry.\<close>

lemma mmu_add_process_frames:
  assumes k: "kernel_ok inuse e" and run: "mmu_add_process e m pid = Inr m'"
    and P': "inuse (kern (ram m')) = Some P'"
  obtains P pd t where "inuse (kern (ram m)) = Some P" "page_directories m' = (page_directories m)(pid := Some pd)"
    "tlb m' = tlb m" "curr_pid m' = curr_pid m"
    "owned P (page_directories m) (ram m) \<Longrightarrow> owned P' (page_directories m') (ram m')
      \<and> has_table (page_directories m') (ram m') pid 0 t \<and> t \<notin> P
      \<and> (\<forall>q f i. q \<noteq> pid \<longrightarrow> page_directories m q = Some f \<longrightarrow> pde_present (pdes (ram m) f i)
           \<longrightarrow> pdes (ram m') f i = pdes (ram m) f i)"
proof -
  obtain pd r1 where a1: "ask_kernel_for_frame e None (ram m) = (pd, r1)" by fastforce
  obtain t r2 where a2: "ask_kernel_for_frame e None r1 = (t, r2)" by fastforce
  let ?D = "(page_directories m)(pid := Some pd)"
  let ?d = "(pdes r2 pd 0)\<lparr>pde_base_addr := ucast (drop_bit 12 t), pde_present := True,
                 pde_read_write := True, pde_user_supervisor := True\<rparr>"
  let ?r3 = "set_pde pd 0 ?d r2"
  have "m' = m\<lparr>page_directories := ?D, segmentations := (segmentations m)(pid := Some initial_segments),
      ram := testing_page e pd (testing_page e pd ?r3 1) 2\<rparr>"
    using run unfolding mmu_add_process_def Let_def a1 a2 prod.case
    by (cases "pid < MAX_PROCESS_ID e") (simp_all add: a2 del: ram_simps)
  then have m': "page_directories m' = ?D" "tlb m' = tlb m" "curr_pid m' = curr_pid m"
    "ram m' = testing_page e pd (testing_page e pd ?r3 1) 2" by simp_all
  have "goes inuse ?D ?r3 (ram m')" unfolding m'(4) by (rule goes_trans [OF testing_page_goes [OF k] testing_page_goes [OF k]])
  then obtain P3 where P3: "inuse (kern ?r3) = Some P3" "owned P3 ?D ?r3 \<longrightarrow> owned P' ?D (ram m')"
    "owned P3 ?D ?r3 \<longrightarrow> (\<forall>p f i. ?D p = Some f \<longrightarrow> pde_present (pdes ?r3 f i) \<longrightarrow> pdes (ram m') f i = pdes ?r3 f i)"
    using P' by (rule goesE)
  from P3(1) have "inuse (kern r2) = Some P3" by simp
  with k a2 obtain P2 where P2: "inuse (kern r1) = Some P2" "t \<notin> P2" "page_offset t = 0" "kept P2 r1 r2"
    "unmapped P2 r2 t" "P3 = insert t P2" "blank r2 t" by (rule kernel_askE) simp
  from k a1 P2(1) obtain P where P: "inuse (kern (ram m)) = Some P" "pd \<notin> P" "kept P (ram m) r1"
    "unmapped P r1 pd" "P2 = insert pd P" "blank r1 pd" by (rule kernel_askE) simp
  have d: "pde_present ?d" "frame_at (pde_base_addr ?d) = t" using frame_at_base(2) [OF P2(3)] by simp_all
  have "owned P' ?D (ram m') \<and> has_table ?D (ram m') pid 0 t \<and> t \<notin> P
      \<and> (\<forall>q f i. q \<noteq> pid \<longrightarrow> page_directories m q = Some f \<longrightarrow> pde_present (pdes (ram m) f i)
           \<longrightarrow> pdes (ram m') f i = pdes (ram m) f i)" if o: "owned P (page_directories m) (ram m)"
  proof -
    have "owned P2 ?D r1" unfolding P(5) by (rule owned_new_dir [OF owned_all [OF o P(3)] P(2,4,6)])
    then have "owned P2 ?D r2" using P2(4) by (rule owned_all)
    then have o3: "owned P3 ?D ?r3" unfolding P2(6) by (rule owned_new_table [where p = pid, OF _ P2(2,5,7) _ d]) simp
    have at: "?D p = Some f \<Longrightarrow> pde_present (pdes ?r3 f i) \<Longrightarrow> pdes (ram m') f i = pdes ?r3 f i" for p f i
      using P3(3) o3 by blast
    have "pdes (ram m') pd 0 = ?d" using at [of pid pd 0] d(1) by simp
    then have "has_table ?D (ram m') pid 0 t" using d by (simp add: has_table_def)
    moreover have "pdes (ram m') f i = pdes (ram m) f i"
      if q: "q \<noteq> pid" "page_directories m q = Some f" "pde_present (pdes (ram m) f i)" for q f i
    proof -
      have f: "f \<in> P" by (rule ownedD(1) [OF o q(2)])
      then have "f \<noteq> pd" "f \<in> P2" using P(2,5) by auto
      then have e3: "pdes ?r3 f = pdes (ram m) f"
        using kept_simps(4) [OF P(3) f] kept_simps(4) [OF P2(4)] by simp
      then have "pdes (ram m') f i = pdes ?r3 f i" using at [of q f i] q by simp
      then show ?thesis using e3 by simp
    qed
    ultimately show ?thesis using P3(2) o3 P2(2) P(5) by blast
  qed
  then show thesis using m' P(1) by (intro that [of P pd t]) simp_all
qed

lemma mmu_add_process_minv:
  assumes "kernel_ok inuse e" and "minv inuse e m" and "mmu_add_process e m pid = Inr m'"
    and "pid = curr_pid m \<longrightarrow> page_directories m pid = None"
  shows "minv inuse e m'"
  unfolding minv_def
proof (intro allI impI)
  fix P' assume P': "inuse (kern (ram m')) = Some P'"
  obtain P pd t where P: "inuse (kern (ram m)) = Some P" "page_directories m' = (page_directories m)(pid := Some pd)"
    "tlb m' = tlb m" "curr_pid m' = curr_pid m"
    "owned P (page_directories m) (ram m) \<Longrightarrow> owned P' (page_directories m') (ram m')
      \<and> has_table (page_directories m') (ram m') pid 0 t \<and> t \<notin> P
      \<and> (\<forall>q f i. q \<noteq> pid \<longrightarrow> page_directories m q = Some f \<longrightarrow> pde_present (pdes (ram m) f i)
           \<longrightarrow> pdes (ram m') f i = pdes (ram m) f i)"
    by (rule mmu_add_process_frames [OF assms(1,3) P']) blast
  have i: "coherent e m" "owned P (page_directories m) (ram m)" using assms(2) P(1) by (auto simp: minv_def)
  have "coherent e m'"
  proof (cases "pid = curr_pid m")
    case True
    then show ?thesis using coherent_no_process [OF i(1) _ P(3)] assms(4) by simp
  next
    case False
    then show ?thesis
      using P(5) [OF i(2)] by (intro coherent_mono [OF i(1) P(3)] walk_mono [OF P(4)]) (auto simp: P(2))
  qed
  then show "coherent e m' \<and> owned P' (page_directories m') (ram m')" using P(5) [OF i(2)] by blast
qed

text \<open>
  While a process is removed, the frames \<open>F\<close> that are still needed stay in use and are kept; \<open>P\<close> are
  the frames that were in use at the start, with the memory \<open>r0\<close>.
\<close>

definition during :: "('k \<Rightarrow> addr32 set option) \<Rightarrow> addr32 set \<Rightarrow> 'k ram \<Rightarrow> addr32 set \<Rightarrow> 'k ram \<Rightarrow> bool" where
  "during inuse P r0 F r \<longleftrightarrow> (\<exists>P'. inuse (kern r) = Some P' \<and> F \<subseteq> P' \<and> P' \<subseteq> P \<and> kept F r0 r)"

lemma during_return:
  assumes "kernel_ok inuse e" and "during inuse P r0 F r" and "G \<subseteq> F" and "a \<notin> G"
  shows "during inuse P r0 G (return_frame_to_kernel e a r)"
proof -
  from assms(2) obtain P' where P': "inuse (kern r) = Some P'" "F \<subseteq> P'" "P' \<subseteq> P" "kept F r0 r"
    unfolding during_def by blast
  from assms(1) P'(1) obtain P'' where P'': "inuse (kern (return_frame_to_kernel e a r)) = Some P''"
    "P' - {a} \<subseteq> P''" "P'' \<subseteq> P'" "kept (P' - {a}) r (return_frame_to_kernel e a r)" by (rule kernel_returnE)
  have G: "G \<subseteq> P' - {a}" using assms(3,4) P'(2) by blast
  have "kept G r0 (return_frame_to_kernel e a r)"
    using kept_simps(2) [OF P'(4) assms(3)] kept_simps(2) [OF P''(4) G] by (rule kept_simps(3))
  then show ?thesis unfolding during_def using P'' P'(3) G by blast
qed

lemma during_mono: "during inuse P r0 F r \<Longrightarrow> G \<subseteq> F \<Longrightarrow> during inuse P r0 G r"
  unfolding during_def using kept_simps(2) by blast

lemma during_swap:
  assumes "kernel_ok inuse e" and "during inuse P r0 F r"
  shows "during inuse P r0 F (remove_swap_file e p r)"
proof -
  from assms(2) obtain P' where P': "inuse (kern r) = Some P'" "F \<subseteq> P'" "P' \<subseteq> P" "kept F r0 r"
    unfolding during_def by blast
  have "kept F r0 (remove_swap_file e p r)"
    using P'(4) kept_simps(2) [OF kernel_okD(4) [OF assms(1) P'(1)] P'(2)] by (rule kept_simps(3))
  then show ?thesis unfolding during_def using P' by (auto simp: kernel_okD(2) [OF assms(1)])
qed

lemma free_entry_during:
  assumes "kernel_ok inuse e" and "during inuse P r0 F r" and "pt \<in> F"
    and "\<And>j. pte_present (ptes r0 pt j) \<Longrightarrow> frame_at (pte_base_addr (ptes r0 pt j)) \<notin> P"
  shows "during inuse P r0 F (free_entry e pt r j)"
proof -
  from assms(2,3) have F: "F \<subseteq> P" "pte_present (ptes r pt j) \<Longrightarrow> pte_present (ptes r0 pt j)
      \<and> pte_base_addr (ptes r pt j) = pte_base_addr (ptes r0 pt j)"
    unfolding during_def kept_def by blast+
  have "during inuse P r0 F (if pte_present (get_pte r (pt, j))
      then return_frame_to_kernel e (frame_at (pte_base_addr (get_pte r (pt, j)))) r else r)"
    using F assms(2) assms(4) [of j] by (auto simp: get_pte_def intro!: during_return [OF assms(1,2)])
  then show ?thesis unfolding free_entry_def Let_def by (rule during_swap [OF assms(1)])
qed

lemma free_entries_during:
  assumes "kernel_ok inuse e" and "during inuse P r0 F r" and "pt \<in> F"
    and "\<And>j. pte_present (ptes r0 pt j) \<Longrightarrow> frame_at (pte_base_addr (ptes r0 pt j)) \<notin> P"
  shows "during inuse P r0 F (foldl (free_entry e pt) r js)"
  using assms(2)
proof (induction js arbitrary: r)
  case (Cons j js)
  then show ?case using free_entry_during [OF assms(1) _ assms(3,4)] by simp
qed simp

text \<open>The frames that are still needed before entry \<open>i\<close> of the directory \<open>pd\<close> is freed.\<close>

definition remaining :: "addr32 set \<Rightarrow> 'k ram \<Rightarrow> addr32 \<Rightarrow> nat \<Rightarrow> addr32 set" where
  "remaining Q r0 pd i = insert pd (Q \<union> {frame_at (pde_base_addr (pdes r0 pd k)) | k. i \<le> k \<and> pde_present (pdes r0 pd k)})"

lemma free_table_during:
  assumes k: "kernel_ok inuse e" and o: "owned P D r0" and pid: "D pid = Some pd"
    and Q: "\<And>i t. has_table D r0 pid i t \<Longrightarrow> t \<notin> Q"
    and r: "during inuse P r0 (remaining Q r0 pd i) r"
  shows "during inuse P r0 (remaining Q r0 pd (Suc i)) (free_table e pd r i)"
proof -
  have sub: "remaining Q r0 pd (Suc i) \<subseteq> remaining Q r0 pd i" unfolding remaining_def by force
  have pd: "pdes r pd = pdes r0 pd" using r unfolding during_def kept_def remaining_def by blast
  show ?thesis
  proof (cases "pde_present (pdes r0 pd i)")
    case True
    let ?pt = "frame_at (pde_base_addr (pdes r0 pd i))"
    have t: "has_table D r0 pid i ?pt" using True pid by (simp add: has_table_def)
    have "?pt \<in> remaining Q r0 pd i" using True unfolding remaining_def by blast
    then have "during inuse P r0 (remaining Q r0 pd i) (foldl (free_entry e ?pt) r [0 ..< NUM_ENTRIES])"
      by (rule free_entries_during [OF k r]) (rule ownedD(6) [OF o t])
    moreover have "?pt \<notin> remaining Q r0 pd (Suc i)"
    proof -
      have "?pt \<noteq> pd" using ownedD(4) [OF o t, of pid] pid by auto
      moreover have "?pt \<noteq> frame_at (pde_base_addr (pdes r0 pd k))" if "Suc i \<le> k" "pde_present (pdes r0 pd k)" for k
      proof
        assume "?pt = frame_at (pde_base_addr (pdes r0 pd k))"
        then have "has_table D r0 pid k ?pt" using that(2) pid by (simp add: has_table_def)
        from ownedD(5) [OF o t this] that(1) show False by simp
      qed
      ultimately show ?thesis using Q [OF t] unfolding remaining_def by blast
    qed
    ultimately show ?thesis
      using True pd by (simp add: free_table_def Let_def) (rule during_return [OF k _ sub])
  next
    case False
    then have "free_table e pd r i = r" using pd by (simp add: free_table_def)
    then show ?thesis using during_mono [OF r sub] by simp
  qed
qed

lemma free_tables_during:
  assumes "kernel_ok inuse e" and "owned P D r0" and "D pid = Some pd"
    and "\<And>i t. has_table D r0 pid i t \<Longrightarrow> t \<notin> Q" and "during inuse P r0 (remaining Q r0 pd 0) r0"
  shows "during inuse P r0 (remaining Q r0 pd n) (foldl (free_table e pd) r0 [0 ..< n])"
proof (induction n)
  case (Suc n)
  then show ?case using free_table_during [OF assms(1-4)] by simp
qed (use assms(5) in simp)

lemma mmu_remove_process_minv:
  assumes t: "tlb_ok e" and k: "kernel_ok inuse e" and inv: "minv inuse e m" and run: "mmu_remove_process e m pid = Inr m'"
  shows "minv inuse e m'"
  unfolding minv_def
proof (intro allI impI)
  fix P' assume P': "inuse (kern (ram m')) = Some P'"
  let ?D = "page_directories m"
  let ?D' = "?D(pid := None)"
  define r' where "r' = (case ?D pid of None \<Rightarrow> ram m
    | Some pd \<Rightarrow> return_frame_to_kernel e pd (foldl (free_table e pd) (ram m) [0 ..< NUM_ENTRIES]))"
  have m': "ram m' = r'" "page_directories m' = ?D'" "curr_pid m' = curr_pid m"
    "tlb m' = (if curr_pid m = pid then tlb_flush e (tlb m) else tlb m)"
    using run unfolding r'_def by (auto simp: mmu_remove_process_def res_conv Let_def split: option.splits)
  let ?Q = "ran ?D' \<union> {f. \<exists>p i. has_table ?D' (ram m) p i f}"
  obtain P where P: "inuse (kern (ram m)) = Some P"
  proof (cases "inuse (kern (ram m))")
    case None
    then have "inuse (kern r') = None"
      unfolding r'_def by (auto split: option.split intro!: return_None [OF k] foldl_None free_table_None [OF k])
    then show ?thesis using P' m'(1) by simp
  qed
  then have i: "coherent e m" "owned P ?D (ram m)" using inv by (auto simp: minv_def)
  have o': "owned P ?D' (ram m)" by (rule owned_drop [OF i(2)])
  have QP: "?Q \<subseteq> P" using ownedD(1,3) [OF o'] unfolding ran_def by blast
  have "during inuse P (ram m) ?Q r'"
  proof (cases "?D pid")
    case None
    then show ?thesis using P QP by (simp add: r'_def during_def kept_simps(1))
  next
    case (Some pd)
    have away: "f \<notin> ?Q" if "has_table ?D (ram m) pid i f" for i f
    proof
      assume "f \<in> ?Q"
      then consider (dir) p where "?D p = Some f" | (tab) p j where "has_table ?D' (ram m) p j f"
        by (auto simp: ran_def split: if_splits)
      then show False
      proof cases
        case dir
        then show False using ownedD(4) [OF i(2) that] by blast
      next
        case tab
        then have "p \<noteq> pid" "has_table ?D (ram m) p j f" by (auto simp: has_table_def split: if_splits)
        then show False using ownedD(5) [OF i(2) that] by blast
      qed
    qed
    have "frame_at (pde_base_addr (pdes (ram m) pd k)) \<in> P" if "pde_present (pdes (ram m) pd k)" for k
      using ownedD(3) [OF i(2), of pid k] that Some by (simp add: has_table_def)
    then have "remaining ?Q (ram m) pd 0 \<subseteq> P"
      unfolding remaining_def using QP ownedD(1) [OF i(2) Some] by blast
    then have "during inuse P (ram m) (remaining ?Q (ram m) pd 0) (ram m)"
      using P by (simp add: during_def kept_simps(1))
    then have "during inuse P (ram m) (remaining ?Q (ram m) pd NUM_ENTRIES) (foldl (free_table e pd) (ram m) [0 ..< NUM_ENTRIES])"
      by (intro free_tables_during [OF k i(2) Some]) (rule away)
    moreover have "?Q \<subseteq> remaining ?Q (ram m) pd NUM_ENTRIES" unfolding remaining_def by blast
    moreover have "pd \<notin> ?Q"
    proof
      assume "pd \<in> ?Q"
      then consider (dir) p where "?D p = Some pd" "p \<noteq> pid" | (tab) p j where "has_table ?D' (ram m) p j pd"
        by (auto simp: ran_def split: if_splits)
      then show False
      proof cases
        case dir
        then show False using ownedD(2) [OF i(2) Some] by blast
      next
        case tab
        then have "has_table ?D (ram m) p j pd" by (auto simp: has_table_def split: if_splits)
        then show False using ownedD(4) [OF i(2)] Some by blast
      qed
    qed
    ultimately show ?thesis unfolding r'_def Some option.case by (rule during_return [OF k])
  qed
  then have d: "?Q \<subseteq> P'" "P' \<subseteq> P" "kept ?Q (ram m) r'" using P' m'(1) unfolding during_def by auto
  have "owned P' ?D' r'"
    by (rule owned_kept [OF o' d(3) _ _ d(1,2)]) (blast intro: ranI)+
  moreover have "coherent e m'"
  proof (cases "curr_pid m = pid")
    case True
    then show ?thesis using tlb_flushed [OF t] m'(4) by (intro coherent_empty) simp
  next
    case False
    have keep: "pdes r' pd = pdes (ram m) pd" if "?D (curr_pid m) = Some pd" for pd
      by (rule kept_simps(4) [OF d(3)]) (use that False in \<open>auto simp: ran_def\<close>)
    have "walk m va = Some p \<Longrightarrow> walk m' va = Some p" for va p
      by (erule walk_mono [rotated 3]) (use False m' keep in auto)
    then show ?thesis using False m'(4) by (intro coherent_mono [OF i(1)]) auto
  qed
  ultimately show "coherent e m' \<and> owned P' (page_directories m') (ram m')" using m' by simp
qed

section \<open>The unit in use\<close>

text \<open>
  The calls of the unit, with any arguments. Left out is one: adding the running process once more,
  which replaces its directory and leaves the old translations in the TLB (\<open>mmu_readd_stale\<close>).
\<close>

inductive mmu_step :: "('k, 't) env \<Rightarrow> ('k, 't) mmu \<Rightarrow> ('k, 't) mmu \<Rightarrow> bool" for e where
  read: "mmu_read_from_virtual_address e m va pid n = Inr (out, m') \<Longrightarrow> mmu_step e m m'"
| write_: "mmu_write_to_virtual_address e m va pid buf = Inr m' \<Longrightarrow> mmu_step e m m'"
| add: "pid = curr_pid m \<longrightarrow> page_directories m pid = None
    \<Longrightarrow> mmu_add_process e m pid = Inr m' \<Longrightarrow> mmu_step e m m'"
| remove: "mmu_remove_process e m pid = Inr m' \<Longrightarrow> mmu_step e m m'"

inductive_cases mmu_stepE: "mmu_step e m m'"

definition mmu_init :: "('k \<Rightarrow> addr32 set option) \<Rightarrow> ('k, 't) env \<Rightarrow> ('k, 't) mmu \<Rightarrow> bool" where
  "mmu_init inuse e m \<longleftrightarrow> tlb_ok e \<and> kernel_ok inuse e \<and> (\<exists>r. m = mmu_create e r)"

definition mmu_inv :: "('k \<Rightarrow> addr32 set option) \<Rightarrow> ('k, 't) env \<Rightarrow> ('k, 't) mmu \<Rightarrow> bool" where
  "mmu_inv inuse e m \<longleftrightarrow> tlb_ok e \<and> kernel_ok inuse e \<and> minv inuse e m"

interpretation unit_in_use: transition_system "mmu_init inuse e" "mmu_step e" "mmu_inv inuse e" for inuse e
proof unfold_locales
  fix m assume "mmu_init inuse e m"
  then obtain r where m: "tlb_ok e" "kernel_ok inuse e" "m = mmu_create e r" unfolding mmu_init_def by blast
  have "fst (tlb_get_pte e (tlb_create e) k) = None" for k using m(1) unfolding tlb_ok_def by blast
  then have "coherent e m" by (intro coherent_empty) (simp add: m(3) mmu_create_def)
  moreover have "owned P (page_directories m) (ram m)" for P
    by (simp add: m(3) mmu_create_def owned_def has_table_def)
  ultimately show "mmu_inv inuse e m" using m by (simp add: mmu_inv_def minv_def)
next
  fix m m' assume i: "mmu_inv inuse e m" and "mmu_step e m m'"
  then have "minv inuse e m'"
    unfolding mmu_inv_def
    by (elim conjE mmu_stepE)
      (blast intro: mmu_read_minv mmu_write_minv mmu_add_process_minv mmu_remove_process_minv)+
  with i show "mmu_inv inuse e m'" by (simp add: mmu_inv_def)
qed

lemma reachable_coherent:
  assumes "reachable (mmu_init inuse e) (mmu_step e) m" and "inuse (kern (ram m)) \<noteq> None"
  shows "tlb_ok e" "kernel_ok inuse e" "coherent e m"
    "\<exists>P. inuse (kern (ram m)) = Some P \<and> owned P (page_directories m) (ram m)"
  using unit_in_use.reachable_inv [OF assms(1)] assms(2) by (auto simp: mmu_inv_def minv_def)

section \<open>The TLB is transparent\<close>

text \<open>What a caller can observe: everything but the TLB and the count of its misses.\<close>

definition observe :: "('k, 't) env \<Rightarrow> ('k, 't) mmu \<Rightarrow> ('k, 't) mmu" where
  "observe e m = m\<lparr>tlb := tlb_create e, num_tlb_misses := 0\<rparr>"

lemma observe_parts:
  assumes "observe e a = observe e b"
  shows "ram a = ram b" "page_directories a = page_directories b" "segmentations a = segmentations b"
    "curr_pid a = curr_pid b"
  using assms by (auto simp: observe_def dest: arg_cong [where f = ram] arg_cong [where f = page_directories]
    arg_cong [where f = segmentations] arg_cong [where f = curr_pid])

lemma observeE:
  assumes "observe e a = observe e b"
  obtains t n where "b = a\<lparr>tlb := t, num_tlb_misses := n\<rparr>"
proof -
  have "b = a\<lparr>tlb := tlb b, num_tlb_misses := num_tlb_misses b\<rparr>"
    using assms by (cases a; cases b) (simp add: observe_def)
  then show thesis by (rule that)
qed

lemma observe_update [simp]:
  "observe e (m\<lparr>tlb := t\<rparr>) = observe e m" "observe e (mmu_tlb_miss m) = observe e m"
  "observe e (m\<lparr>num_tlb_misses := n\<rparr>) = observe e m"
  by (simp_all add: observe_def mmu_tlb_miss_def)

lemma observe_segfault: "observe e a = observe e b \<Longrightarrow>
    observe e (mmu_raise_segmentation_fault a) = observe e (mmu_raise_segmentation_fault b)"
  by (erule observeE) (simp add: mmu_raise_segmentation_fault_def observe_def)

lemma observe_ram: "observe e a = observe e b \<Longrightarrow> observe e (a\<lparr>ram := r\<rparr>) = observe e (b\<lparr>ram := r\<rparr>)"
  by (erule observeE) (simp add: observe_def)

lemma observe_page_in: "observe e a = observe e b \<Longrightarrow> observe e (page_in e s p a) = observe e (page_in e s p b)"
  by (erule observeE) (simp add: page_in_def mmu_raise_page_fault_def observe_def Let_def case_prod_beta)

lemma observe_walk_directory:
  "observe e a = observe e b \<Longrightarrow> observe e (walk_directory e pd i a) = observe e (walk_directory e pd i b)"
  by (erule observeE) (simp add: walk_directory_def mmu_raise_page_fault_def observe_def Let_def case_prod_beta)

lemma observe_switch:
  "observe e a = observe e b \<Longrightarrow> observe e (switch_process e pid a) = observe e (switch_process e pid b)"
  by (erule observeE) (simp add: switch_process_def observe_def)

text \<open>The result of \<open>find_pte\<close> up to the TLB is that of the walk.\<close>

lemma find_pte_walk:
  assumes "coherent e m" and "find_pte e (curr_pid m) va m = Inr (p, m')"
  shows "\<exists>pd. page_directories m (curr_pid m) = Some pd
    \<and> observe e m' = observe e (walk_directory e pd (dir_index va) m)
    \<and> p = (frame_at (pde_base_addr (pdes (ram (walk_directory e pd (dir_index va) m)) pd (dir_index va))), table_index va)"
proof -
  obtain hit t where g: "tlb_get_pte e (tlb m) (page_number va) = (hit, t)" by fastforce
  show ?thesis
  proof (cases hit)
    case (Some q)
    then have m': "m' = m\<lparr>tlb := t\<rparr>" "q = p" using assms(2) g by (auto simp: find_pte_def)
    have "walk m va = Some p" using g Some m'(2) by (intro coherentD [OF assms(1)]) simp
    then obtain pd where "page_directories m (curr_pid m) = Some pd" "pde_present (pdes (ram m) pd (dir_index va))"
      "p = (frame_at (pde_base_addr (pdes (ram m) pd (dir_index va))), table_index va)"
      by (auto simp: walk_def split: option.splits if_splits)
    then show ?thesis using m' by (auto simp: walk_directory_id)
  next
    case None
    let ?a = "mmu_tlb_miss (m\<lparr>tlb := t\<rparr>)"
    obtain pd where pd: "page_directories m (curr_pid m) = Some pd"
      using assms(2) g None by (auto simp: find_pte_def mmu_tlb_miss_def Let_def split: option.splits)
    have o: "observe e (walk_directory e pd (dir_index va) ?a) = observe e (walk_directory e pd (dir_index va) m)"
      by (rule observe_walk_directory) simp
    have "page_directories ?a (curr_pid m) = Some pd" using pd by (simp add: mmu_tlb_miss_def)
    then show ?thesis using assms(2) g None pd o observe_parts(1) [OF o]
      by (auto simp: find_pte_def Let_def)
  qed
qed

lemma find_pte_returns:
  "(\<exists>pd. page_directories m pid = Some pd) \<Longrightarrow> \<exists>p m'. find_pte e pid va m = Inr (p, m')"
  by (auto simp: find_pte_def mmu_tlb_miss_def Let_def split: prod.splits option.splits)

lemma find_pte_same:
  assumes "coherent e a" and "coherent e b" and "observe e a = observe e b"
    and "find_pte e (curr_pid a) va a = Inr (p, a')"
  shows "\<exists>b'. find_pte e (curr_pid b) va b = Inr (p, b') \<and> observe e a' = observe e b'"
proof -
  note ob = observe_parts [OF assms(3)]
  from find_pte_walk [OF assms(1,4)] obtain pd where a: "page_directories a (curr_pid a) = Some pd"
    "observe e a' = observe e (walk_directory e pd (dir_index va) a)"
    "p = (frame_at (pde_base_addr (pdes (ram (walk_directory e pd (dir_index va) a)) pd (dir_index va))), table_index va)"
    by blast
  then obtain q b' where b: "find_pte e (curr_pid b) va b = Inr (q, b')" using find_pte_returns ob by metis
  from find_pte_walk [OF assms(2) b] a(1) ob have
    "observe e b' = observe e (walk_directory e pd (dir_index va) b)"
    "q = (frame_at (pde_base_addr (pdes (ram (walk_directory e pd (dir_index va) b)) pd (dir_index va))), table_index va)"
    by auto
  moreover note observe_walk_directory [OF assms(3), of pd "dir_index va"]
  ultimately show ?thesis using a b observe_parts(1) by metis
qed

lemma mmu_read_same:
  assumes "tlb_ok e" and "coherent e a" and "coherent e b" and "observe e a = observe e b"
    and "mmu_read_from_virtual_address e a va pid n = Inr (out, a')"
  shows "\<exists>b'. mmu_read_from_virtual_address e b va pid n = Inr (out, b') \<and> observe e a' = observe e b'"
proof -
  let ?a = "switch_process e pid a" and ?b = "switch_process e pid b"
  note o = observe_switch [OF assms(4), of pid]
  have s: "segmentations a = segmentations b" using observe_parts(3) [OF assms(4)] .
  show ?thesis
  proof (cases "find_segment e (segmentations a pid) va")
    case None
    then show ?thesis using assms(5) s observe_segfault [OF o]
      by (auto simp: mmu_read_from_virtual_address_def res_conv Let_def)
  next
    case (Some seg)
    obtain p a1 where f: "find_pte e pid va ?a = Inr (p, a1)"
      using assms(5) Some by (auto simp: mmu_read_from_virtual_address_def res_conv Let_def)
    from find_pte_same [OF coherent_switch [OF assms(1,2)] coherent_switch [OF assms(1,3)] o, of va p a1] f
    obtain b1 where g: "find_pte e pid va ?b = Inr (p, b1)" "observe e a1 = observe e b1" by auto
    note pi = observe_page_in [OF g(2), of seg p]
    show ?thesis using assms(5) Some s f g(1) observe_parts(1) [OF pi] observe_segfault [OF pi] observe_ram [OF pi]
      by (auto simp: mmu_read_from_virtual_address_def res_conv Let_def split: if_splits)
  qed
qed

section \<open>Reading what was written\<close>

lemma copy_in_outside: "(\<And>i. i < length xs \<Longrightarrow> a \<noteq> p + of_nat i) \<Longrightarrow> copy_in xs p b a = b a"
proof (induction xs arbitrary: p b)
  case (Cons x xs)
  have "a \<noteq> (p + 1) + of_nat i" if "i < length xs" for i
    using Cons.prems [of "Suc i"] that by (simp add: algebra_simps)
  moreover have "a \<noteq> p" using Cons.prems [of 0] by simp
  ultimately show ?case using Cons.IH by simp
qed simp

lemma copy_out_in: "length xs \<le> 2 ^ 32 \<Longrightarrow> copy_out (copy_in xs p b) p (length xs) = xs"
proof (induction xs arbitrary: p b)
  case (Cons x xs)
  have "p \<noteq> (p + 1) + of_nat i" if "i < length xs" for i
  proof
    assume "p = (p + 1) + of_nat i"
    then have "(of_nat (Suc i) :: addr32) = 0" by (simp add: algebra_simps)
    then have "(2::nat) ^ 32 dvd Suc i" by (simp add: word_of_nat_eq_0_iff del: of_nat_Suc)
    then have "2 ^ 32 \<le> Suc i" by (rule dvd_imp_le) simp
    then show False using that Cons.prems by simp
  qed
  then have "copy_in xs (p + 1) (b(p := x)) p = x" by (simp add: copy_in_outside)
  moreover have "map (\<lambda>i. copy_in (x # xs) p b (p + of_nat i)) [Suc 0 ..< Suc (length xs)] =
      copy_out (copy_in xs (p + 1) (b(p := x))) (p + 1) (length xs)"
    by (simp add: copy_out_def map_Suc_upt [symmetric] o_def algebra_simps del: upt_Suc)
  ultimately show ?case using Cons by (simp add: copy_out_def upt_conv_Cons del: upt_Suc)
qed (simp add: copy_out_def)

lemma mmu_write_same:
  assumes "tlb_ok e" and "coherent e a" and "coherent e b" and "observe e a = observe e b"
    and "mmu_write_to_virtual_address e a va pid buf = Inr a'"
  shows "\<exists>b'. mmu_write_to_virtual_address e b va pid buf = Inr b' \<and> observe e a' = observe e b'"
proof -
  let ?a = "switch_process e pid a" and ?b = "switch_process e pid b"
  note o = observe_switch [OF assms(4), of pid]
  have s: "segmentations a = segmentations b" using observe_parts(3) [OF assms(4)] .
  show ?thesis
  proof (cases "find_segment e (segmentations a pid) va")
    case None
    then show ?thesis using assms(5) s observe_segfault [OF o]
      by (auto simp: mmu_write_to_virtual_address_def res_conv Let_def)
  next
    case (Some seg)
    obtain p a1 where f: "find_pte e pid va ?a = Inr (p, a1)"
      using assms(5) Some by (auto simp: mmu_write_to_virtual_address_def res_conv Let_def)
    from find_pte_same [OF coherent_switch [OF assms(1,2)] coherent_switch [OF assms(1,3)] o, of va p a1] f
    obtain b1 where g: "find_pte e pid va ?b = Inr (p, b1)" "observe e a1 = observe e b1" by auto
    note pi = observe_page_in [OF g(2), of seg p]
    show ?thesis using assms(5) Some s f g(1) observe_parts(1) [OF pi] observe_segfault [OF pi] observe_ram [OF pi]
      by (auto simp: mmu_write_to_virtual_address_def res_conv Let_def split: if_splits)
  qed
qed

lemma page_in_present:
  "\<forall>p r. ptes (read_page_from_disk e p r) = ptes r \<Longrightarrow> pte_present (get_pte (ram (page_in e s p m)) p)"
  by (cases p) (simp add: page_in_def Let_def case_prod_beta get_pte_def set_pte_def)

lemma page_in_id: "pte_present (get_pte (ram m) p) \<Longrightarrow> page_in e s p m = m"
  by (simp add: page_in_def)

lemma find_pte_found:
  assumes "tlb_ok e" and "find_pte e pid va m = Inr (p, m')"
  shows "fst (tlb_get_pte e (tlb m') (page_number va)) = Some p"
proof -
  have add: "fst (tlb_get_pte e (tlb_add_pte e t k p) k) = Some p"
    and again: "fst (tlb_get_pte e t k) = Some p \<Longrightarrow> fst (tlb_get_pte e (snd (tlb_get_pte e t k)) k) = Some p" for t k p
    using assms(1) unfolding tlb_ok_def by blast+
  obtain hit t where g: "tlb_get_pte e (tlb m) (page_number va) = (hit, t)" by fastforce
  show ?thesis using assms(2) g add again [of "tlb m" "page_number va"]
    by (auto simp: find_pte_def mmu_tlb_miss_def Let_def split: option.splits)
qed

lemma find_pte_hit:
  assumes "fst (tlb_get_pte e (tlb m) (page_number va)) = Some p"
  shows "\<exists>t. find_pte e pid va m = Inr (p, m\<lparr>tlb := t\<rparr>)"
  using assms by (auto simp: find_pte_def Let_def split: prod.splits option.splits)

section \<open>The properties\<close>

text \<open>
  A machine with a TLB that is a list and no swap files. Its kernel notes for each frame it has handed
  out whether it was asked for with \<open>NULL\<close>. It hands out the frames in order, zeroed, marks the pages
  that were in the frame as not present, and has run out of them when all have been handed out.
\<close>

definition demo_frame :: "nat \<Rightarrow> addr32" where
  "demo_frame n = push_bit 12 (word_of_nat n)"

definition demo_zero :: "addr32 \<Rightarrow> bool list ram \<Rightarrow> bool list ram" where
  "demo_zero a r = r\<lparr>
     pdes := (pdes r)(a := \<lambda>_. \<lparr>pde_present = False, pde_read_write = False, pde_user_supervisor = False, pde_base_addr = 0\<rparr>),
     ptes := (\<lambda>f j. if f = a then \<lparr>pte_present = False, pte_read_write = False, pte_user_supervisor = False,
           pte_accessed = False, pte_dirty = False, pte_base_addr = 0\<rparr>
         else if frame_at (pte_base_addr (ptes r f j)) = a then (ptes r f j)\<lparr>pte_present := False\<rparr> else ptes r f j),
     bytes := (\<lambda>p. if p AND 0xfffff000 = a then 0 else bytes r p)\<rparr>"

definition demo_env :: "(bool list, (addr32 \<times> pteref) list) env" where
  "demo_env = \<lparr>MAX_PROCESS_ID = 4,
     ask_kernel_for_frame = (\<lambda>q r. let a = demo_frame (length (kern r)) in
       (a, (demo_zero a r)\<lparr>kern := kern r @ [q = None]\<rparr>)),
     return_frame_to_kernel = (\<lambda>_ r. r), read_page_from_disk = (\<lambda>_ r. r), remove_swap_file = (\<lambda>_ r. r),
     remove_swap_files = (\<lambda>r. r),
     tlb_create = [], tlb_flush = (\<lambda>_. []), tlb_get_pte = (\<lambda>t k. (map_of t k, t)),
     tlb_add_pte = (\<lambda>t k p. (k, p) # t),
     find_segment = (\<lambda>s va. case s of None \<Rightarrow> None
       | Some s \<Rightarrow> if seg_start (s TESTING) \<le> va \<and> va < seg_end (s TESTING) then Some (s TESTING) else None)\<rparr>"

definition demo_inuse :: "bool list \<Rightarrow> addr32 set option" where
  "demo_inuse ks = (if length ks \<le> 2 ^ 20 then Some {demo_frame i | i. i < length ks \<and> ks ! i} else None)"

lemma demo_frame_inj:
  assumes "i < 2 ^ 20" and "j < 2 ^ 20" and "demo_frame i = demo_frame j"
  shows "i = j"
proof -
  have "unat (demo_frame k) = k * 2 ^ 12" if "k < 2 ^ 20" for k
    using that by (simp add: demo_frame_def push_bit_eq_mult unat_word_ariths unat_of_nat)
  then show ?thesis using assms by (metis mult_cancel2 power_not_zero zero_neq_numeral)
qed

lemma demo_frame_offset: "page_offset (demo_frame n) = 0"
  unfolding page_offset_def demo_frame_def masks by (rule bit_word_eqI) (auto simp: bit_simps)

lemma demo_ask: "ask_ok demo_inuse demo_env"
  unfolding ask_ok_def
proof (intro allI impI)
  fix q a P' and r r' :: "bool list ram"
  assume run: "ask_kernel_for_frame demo_env q r = (a, r')" and out: "demo_inuse (kern r') = Some P'"
  let ?n = "length (kern r)"
  have r': "a = demo_frame ?n" "r' = (demo_zero a r)\<lparr>kern := kern r @ [q = None]\<rparr>"
    using run by (auto simp: demo_env_def Let_def)
  have n: "?n < 2 ^ 20" and P': "P' = {demo_frame i | i. i < Suc ?n \<and> (kern r @ [q = None]) ! i}"
    using out r'(2) by (auto simp: demo_inuse_def split: if_splits)
  let ?P = "{demo_frame i | i. i < ?n \<and> kern r ! i}"
  have a: "a \<notin> ?P"
  proof
    assume "a \<in> ?P"
    then obtain i where "i < ?n" "demo_frame ?n = demo_frame i" using r'(1) by auto
    then show False using demo_frame_inj [of ?n i] n by simp
  qed
  have "kept ?P r r'"
  proof -
    have "f \<noteq> a" if "f \<in> ?P" for f using a that by blast
    then show ?thesis unfolding kept_def r'(2) by (simp add: demo_zero_def)
  qed
  moreover have "unmapped ?P r' a" "blank r' a"
    unfolding unmapped_def blank_def r'(2) by (auto simp: demo_zero_def a split: if_splits)
  moreover have "P' = (if q = None then insert a ?P else ?P)"
  proof -
    have "i < Suc ?n \<and> (kern r @ [q = None]) ! i \<longleftrightarrow> i < ?n \<and> kern r ! i \<or> i = ?n \<and> q = None" for i
      by (cases "i = ?n") (auto simp: nth_append)
    then have "P' = {demo_frame i | i. i < ?n \<and> kern r ! i \<or> i = ?n \<and> q = None}" unfolding P' by simp
    also have "\<dots> = (if q = None then insert (demo_frame ?n) ?P else ?P)" by (cases "q = None"; simp; blast)
    finally show ?thesis unfolding r'(1) .
  qed
  moreover have "demo_inuse (kern r) = Some ?P" using n by (simp add: demo_inuse_def)
  ultimately show "\<exists>P. demo_inuse (kern r) = Some P \<and> a \<notin> P \<and> page_offset a = 0 \<and> kept P r r' \<and> unmapped P r' a
      \<and> (if q = None then P' = insert a P \<and> blank r' a else P' = P)"
    using a demo_frame_offset r'(1) by auto
qed

lemma demo_laws: "tlb_ok demo_env" "kernel_ok demo_inuse demo_env"
proof -
  show "tlb_ok demo_env" by (auto simp: tlb_ok_def demo_env_def)
  have "return_ok demo_inuse demo_env"
    by (auto simp: return_ok_def demo_env_def kept_simps(1) split: option.splits)
  then show "kernel_ok demo_inuse demo_env"
    using demo_ask by (simp add: kernel_ok_def) (simp add: demo_env_def kept_simps(1))
qed

definition demo_ram :: "bool list ram" where
  "demo_ram = \<lparr>pdes = (\<lambda>_ _. \<lparr>pde_present = True, pde_read_write = False, pde_user_supervisor = False, pde_base_addr = 7\<rparr>),
     ptes = (\<lambda>_ _. \<lparr>pte_present = True, pte_read_write = False, pte_user_supervisor = False, pte_accessed = False,
       pte_dirty = False, pte_base_addr = 7\<rparr>),
     bytes = (\<lambda>_. 1), kern = [False]\<rparr>"

text \<open>A process is added and reads two bytes.\<close>

lemma demo_reachable: "reachable (mmu_init demo_inuse demo_env) (mmu_step demo_env) (mmu_create demo_env demo_ram)"
  by (rule reach_init) (use demo_laws in \<open>auto simp: mmu_init_def\<close>)

lemma demo_env_simps:
  "MAX_PROCESS_ID demo_env = 4" "tlb_create demo_env = []" "tlb_flush demo_env t = []"
  "tlb_get_pte demo_env t k = (map_of t k, t)" "tlb_add_pte demo_env t k p = (k, p) # t"
  "ask_kernel_for_frame demo_env q r = (demo_frame (length (kern r)),
     (demo_zero (demo_frame (length (kern r))) r)\<lparr>kern := kern r @ [q = None]\<rparr>)"
  "read_page_from_disk demo_env p r = r"
  "find_segment demo_env (Some initial_segments) 0x1000 = Some (initial_segments TESTING)"
  by (simp_all add: demo_env_def Let_def initial_segments_def PAGE_SIZE_def)

lemma demo_grows:
  "length (kern (testing_page demo_env pd r i)) = Suc (length (kern r))"
  "Suc (length (kern (ram m))) < n \<Longrightarrow> length (kern (ram (walk_directory demo_env pd i m))) < n"
  "length (kern (ram m)) < n \<Longrightarrow> length (kern (ram (page_in demo_env s p m))) \<le> n"
  by (simp_all add: testing_page_def walk_directory_def page_in_def demo_env_simps Let_def)

lemma demo_run:
  "\<exists>m1 out m2 p. mmu_add_process demo_env (mmu_create demo_env demo_ram) 1 = Inr m1
    \<and> mmu_read_from_virtual_address demo_env m1 0x1000 1 2 = Inr (out, m2)
    \<and> fst (tlb_get_pte demo_env (tlb m2) (page_number 0x1000)) = Some p \<and> curr_pid m2 = 1
    \<and> length (kern (ram m2)) \<le> 2 ^ 20"
  by (simp add: mmu_add_process_def mmu_read_from_virtual_address_def Let_def case_prod_beta find_pte_def
      switch_process_def mmu_create_def demo_env_simps initial_segments_def [of TESTING] PAGE_SIZE_def w64_def
      mmu_tlb_miss_def demo_grows demo_ram_def)

lemma demo_hit:
  "\<exists>m p. reachable (mmu_init demo_inuse demo_env) (mmu_step demo_env) m
    \<and> fst (tlb_get_pte demo_env (tlb m) (page_number 0x1000)) = Some p \<and> curr_pid m = 1
    \<and> demo_inuse (kern (ram m)) \<noteq> None"
proof -
  let ?m = "mmu_create demo_env demo_ram"
  obtain m1 out m2 p where r: "mmu_add_process demo_env ?m 1 = Inr m1"
    "mmu_read_from_virtual_address demo_env m1 0x1000 1 2 = Inr (out, m2)"
    "fst (tlb_get_pte demo_env (tlb m2) (page_number 0x1000)) = Some p" "curr_pid m2 = 1"
    "length (kern (ram m2)) \<le> 2 ^ 20" using demo_run by blast
  have "mmu_step demo_env ?m m1" using r(1) by (intro mmu_step.add [of 1]) (auto simp: mmu_create_def)
  with demo_reachable have "reachable (mmu_init demo_inuse demo_env) (mmu_step demo_env) m1" by (rule reach_step)
  moreover have "mmu_step demo_env m1 m2" using r(2) by (rule mmu_step.read)
  ultimately have "reachable (mmu_init demo_inuse demo_env) (mmu_step demo_env) m2" by (rule reach_step)
  with r(3-5) show ?thesis by (auto simp: demo_inuse_def)
qed

text \<open>The directory index, the table index and the offset that the code cuts out of an address are
  within their bounds and make up the address, and the key of the TLB is made of the two indices.\<close>

theorem mmu_address_parts:
  "dir_index va < NUM_ENTRIES \<and> table_index va < NUM_ENTRIES \<and> unat (page_offset va) < PAGE_SIZE
   \<and> push_bit 22 (word_of_nat (dir_index va)) OR push_bit 12 (word_of_nat (table_index va)) OR page_offset va = va
   \<and> page_number va = push_bit 10 (word_of_nat (dir_index va)) OR word_of_nat (table_index va)"
  using index_bounds address_reassembles page_number_split by blast



text \<open>When the running process is added once more, the TLB is not flushed: an entry it had for an
  address below 4 MB is still found, but the walk now leads to the new table.\<close>

theorem mmu_readd_stale:
  assumes r: "reachable (mmu_init inuse e) (mmu_step e) m" and hit: "fst (tlb_get_pte e (tlb m) (page_number va)) = Some p"
    and va: "dir_index va = 0" and run: "mmu_add_process e m (curr_pid m) = Inr m'"
    and out: "inuse (kern (ram m')) \<noteq> None"
  shows "fst (tlb_get_pte e (tlb m') (page_number va)) = Some p \<and> walk m' va \<noteq> Some p"
proof -
  have k: "kernel_ok inuse e" using unit_in_use.reachable_inv [OF r] by (simp add: mmu_inv_def)
  from out obtain P' where P': "inuse (kern (ram m')) = Some P'" by blast
  obtain P pd t where P: "inuse (kern (ram m)) = Some P" "tlb m' = tlb m" "curr_pid m' = curr_pid m"
    "owned P (page_directories m) (ram m) \<Longrightarrow> has_table (page_directories m') (ram m') (curr_pid m) 0 t \<and> t \<notin> P"
    by (rule mmu_add_process_frames [OF k run P']) blast
  have o: "owned P (page_directories m) (ram m)" "walk m va = Some p"
    using reachable_coherent(3,4) [OF r] P(1) coherentD [OF _ hit] by auto
  then have "has_table (page_directories m) (ram m) (curr_pid m) 0 (fst p)"
    using va by (auto simp: walk_def has_table_def split: option.splits if_splits)
  then have "fst p \<in> P" by (rule ownedD(3) [OF o(1)])
  moreover have "walk m' va = Some (t, table_index va)"
    using P(4) [OF o(1)] P(3) va by (auto simp: walk_def has_table_def)
  ultimately show ?thesis using P(2,4) o(1) hit by auto
qed

lemma mmu_readd_stale_witness:
  "\<exists>(m :: (bool list, (addr32 \<times> pteref) list) mmu) m' p. mmu_add_process demo_env m (curr_pid m) = Inr m'
     \<and> (demo_inuse (kern (ram m')) \<noteq> None \<longrightarrow>
          fst (tlb_get_pte demo_env (tlb m') (page_number 0x1000)) = Some p \<and> walk m' 0x1000 \<noteq> Some p)"
proof -
  obtain m p where m: "reachable (mmu_init demo_inuse demo_env) (mmu_step demo_env) m"
    "fst (tlb_get_pte demo_env (tlb m) (page_number 0x1000)) = Some p" "curr_pid m = 1" using demo_hit by blast
  have "MAX_PROCESS_ID demo_env = 4" by (simp add: demo_env_def)
  then obtain m' where run: "mmu_add_process demo_env m (curr_pid m) = Inr m'"
    using m(3) by (simp add: mmu_add_process_def Let_def case_prod_beta)
  have "dir_index 0x1000 = 0" by (simp add: dir_index_div)
  then show ?thesis using mmu_readd_stale [OF m(1,2) _ run] run by blast
qed



text \<open>What a process writes within a page it may read and write is what it reads back, without a
  further fault or miss, when reading a page from the disk leaves the entries of the tables alone.\<close>

theorem mmu_write_read:
  assumes "tlb_ok e" and "\<forall>p r. ptes (read_page_from_disk e p r) = ptes r" and "pid < MAX_PROCESS_ID e"
    and "find_segment e (segmentations m pid) va = Some seg" and "READ \<in> permissions seg" and "WRITE \<in> permissions seg"
    and "page_directories m pid = Some pd" and "length buf + unat va mod PAGE_SIZE \<le> PAGE_SIZE"
  shows "\<exists>m' m''. mmu_write_to_virtual_address e m va pid buf = Inr m'
    \<and> mmu_read_from_virtual_address e m' va pid (length buf) = Inr (buf, m'')
    \<and> num_segmentation_faults m'' = num_segmentation_faults m' \<and> num_page_faults m'' = num_page_faults m'
    \<and> num_tlb_misses m'' = num_tlb_misses m'"
proof -
  let ?m = "switch_process e pid m"
  have len: "w64 (length buf + unat va mod PAGE_SIZE) \<le> PAGE_SIZE" "length buf \<le> 2 ^ 32"
    using assms(8) by (simp_all add: w64_id PAGE_SIZE_def)
  obtain p m1 where f: "find_pte e pid va ?m = Inr (p, m1)" using find_pte_returns [of ?m pid e va] assms(7) by auto
  let ?m2 = "page_in e seg p m1"
  let ?r = "(ram ?m2)\<lparr>bytes := copy_in buf (physical_addr (ram ?m2) p va) (bytes (ram ?m2))\<rparr>"
  let ?m3 = "?m2\<lparr>ram := set_pte p ((get_pte ?r p)\<lparr>pte_accessed := True, pte_dirty := True\<rparr>) ?r\<rparr>"
  have w: "mmu_write_to_virtual_address e m va pid buf = Inr ?m3"
    using assms(3-6) len f by (simp add: mmu_write_to_virtual_address_def Let_def)
  have s: "segmentations m1 = segmentations m \<and> curr_pid m1 = pid"
    using f by (auto simp: find_pte_def mmu_tlb_miss_def Let_def split: prod.splits option.splits)
  then have sw: "switch_process e pid ?m3 = ?m3" by (simp add: switch_process_def)
  obtain t where h: "find_pte e pid va ?m3 = Inr (p, ?m3\<lparr>tlb := t\<rparr>)"
    using find_pte_hit [of e ?m3 va p] find_pte_found [OF assms(1) f] by auto
  have pr: "pte_present (get_pte (ram ?m3) p)" using page_in_present [OF assms(2)] by simp
  have ph: "physical_addr (ram ?m3) p va = physical_addr (ram ?m2) p va" by (simp add: physical_addr_def)
  have r: "mmu_read_from_virtual_address e ?m3 va pid (length buf) =
      Inr (buf, ?m3\<lparr>tlb := t, ram := set_pte p ((get_pte (ram ?m3) p)\<lparr>pte_accessed := True\<rparr>) (ram ?m3)\<rparr>)"
    using assms(3-5) len(1) s sw h pr ph copy_out_in [OF len(2)]
    by (simp add: mmu_read_from_virtual_address_def Let_def page_in_id)
  show ?thesis by (rule exI, rule exI, rule conjI, rule w, rule conjI, rule r) simp
qed

lemma mmu_write_read_witness:
  "\<exists>m1 m' m''. mmu_add_process demo_env (mmu_create demo_env demo_ram) 1 = Inr m1
    \<and> mmu_write_to_virtual_address demo_env m1 0x1ffe 1 [7, 8] = Inr m'
    \<and> mmu_read_from_virtual_address demo_env m' 0x1ffe 1 (length [7, 8 :: 8 word]) = Inr ([7, 8], m'')
    \<and> num_segmentation_faults m'' = num_segmentation_faults m' \<and> num_page_faults m'' = num_page_faults m'
    \<and> num_tlb_misses m'' = num_tlb_misses m'"
proof -
  have "\<exists>m1 pd. mmu_add_process demo_env (mmu_create demo_env demo_ram) 1 = Inr m1
      \<and> segmentations m1 1 = Some initial_segments \<and> page_directories m1 1 = Some pd"
    by (simp add: mmu_add_process_def Let_def case_prod_beta mmu_create_def demo_env_def)
  then obtain m1 pd where m1: "mmu_add_process demo_env (mmu_create demo_env demo_ram) 1 = Inr m1"
    "segmentations m1 1 = Some initial_segments" "page_directories m1 1 = Some pd" by blast
  have "find_segment demo_env (segmentations m1 1) 0x1ffe = Some (initial_segments TESTING)"
    unfolding m1(2) by (simp add: demo_env_def initial_segments_def PAGE_SIZE_def)
  from mmu_write_read [OF demo_laws(1) _ _ this _ _ m1(3), of "[7, 8]"] m1(1) show ?thesis
    by (simp add: demo_env_def initial_segments_def PAGE_SIZE_def)
qed

end
