(* ===== verification/Scheduler.thy ===== *)
theory Scheduler
  imports Prelude Complex_Main "HOL-Library.Multiset"
begin

text \<open>
  The scheduler (\<open>savvy_scheduler/libscheduler.c\<close>): six schemes over one priority queue of jobs.

  The priority queue is a library outside the repository: \<open>priqueue_offer\<close> and \<open>priqueue_poll\<close> are
  arguments of the model, with the queue's state \<open>'q\<close>; \<open>queue_ok\<close> below says what is relied on. A
  job is the address of its structure (0 is \<open>NULL\<close>), its \<open>metadata\<close> is found under that address.
  Times are rational numbers, the rounding of \<open>double\<close> is not modelled.
\<close>

record job_info =
  ji_id :: int
  runningtime :: rat
  priority :: rat
  arrivetime :: rat
  timeremaining :: rat
  starttime :: rat
  sequence :: rat

datatype scheme_t = FCFS | PRI | PPRI | PSRTF | RR | SJF | Unrecognized

record 'q sched =
  pqueue :: 'q
  pqueue_scheme :: scheme_t
  prempt :: bool
  totalresponse :: rat
  totalwait :: rat
  totalturnaround :: rat
  numarr :: int
  numfin :: int
  currenttime :: int
  sched_seq :: int
  metadata :: "nat \<rightharpoonup> job_info"

record 'q pqlib =
  priqueue_init :: "(nat \<Rightarrow> nat \<Rightarrow> int) \<Rightarrow> 'q"
  priqueue_offer :: "(nat \<Rightarrow> nat \<Rightarrow> int) \<Rightarrow> 'q \<Rightarrow> nat \<Rightarrow> 'q"
  priqueue_poll :: "'q \<Rightarrow> nat \<times> 'q"

section \<open>The comparison functions\<close>

definition comparer_fcfs :: "job_info \<Rightarrow> job_info \<Rightarrow> int" where
  "comparer_fcfs a b =
     (if arrivetime a < arrivetime b then -1 else if arrivetime a > arrivetime b then 1 else 0)"

definition break_tie :: "job_info \<Rightarrow> job_info \<Rightarrow> int" where
  "break_tie a b = comparer_fcfs a b"

definition comparer_pri :: "job_info \<Rightarrow> job_info \<Rightarrow> int" where
  "comparer_pri a b =
     (if priority a < priority b then -1 else if priority a > priority b then 1 else break_tie a b)"

definition comparer_ppri :: "job_info \<Rightarrow> job_info \<Rightarrow> int" where
  "comparer_ppri a b = comparer_pri a b"

definition comparer_psrtf :: "job_info \<Rightarrow> job_info \<Rightarrow> int" where
  "comparer_psrtf a b =
     (if timeremaining a < timeremaining b then -1
      else if timeremaining a > timeremaining b then 1 else break_tie a b)"

definition comparer_rr :: "job_info \<Rightarrow> job_info \<Rightarrow> int" where
  "comparer_rr a b =
     (if sequence a < sequence b then -1 else if sequence a > sequence b then 1 else break_tie a b)"

definition comparer_sjf :: "job_info \<Rightarrow> job_info \<Rightarrow> int" where
  "comparer_sjf a b =
     (if runningtime a < runningtime b then -1
      else if runningtime a > runningtime b then 1 else break_tie a b)"

text \<open>The function that \<open>scheduler_start_up\<close> chooses, and whether the scheme preempts.\<close>

fun comparision_func :: "scheme_t \<Rightarrow> job_info \<Rightarrow> job_info \<Rightarrow> int" where
  "comparision_func FCFS = comparer_fcfs"
| "comparision_func PRI = comparer_pri"
| "comparision_func PPRI = comparer_ppri"
| "comparision_func PSRTF = comparer_psrtf"
| "comparision_func RR = comparer_rr"
| "comparision_func SJF = comparer_sjf"
| "comparision_func Unrecognized = (\<lambda>_ _. 0)"

definition preemptive :: "scheme_t \<Rightarrow> bool" where
  "preemptive s \<longleftrightarrow> s = PPRI \<or> s = PSRTF \<or> s = RR"

text \<open>The function as the queue calls it, on jobs.\<close>

definition compare_jobs :: "scheme_t \<Rightarrow> (nat \<rightharpoonup> job_info) \<Rightarrow> nat \<Rightarrow> nat \<Rightarrow> int" where
  "compare_jobs s md a b =
     (case (md a, md b) of (Some x, Some y) \<Rightarrow> comparision_func s x y | _ \<Rightarrow> 0)"

section \<open>The operations\<close>

definition scheduler_start_up :: "'q pqlib \<Rightarrow> scheme_t \<Rightarrow> 'q sched res" where
  "scheduler_start_up L s =
     (if s = Unrecognized then Inl (Exited 1)
      else Inr \<lparr>pqueue = priqueue_init L (compare_jobs s Map.empty), pqueue_scheme = s,
        prempt = preemptive s, totalresponse = 0, totalwait = 0, totalturnaround = 0,
        numarr = 0, numfin = 0, currenttime = -1, sched_seq = 0, metadata = Map.empty\<rparr>)"

definition offer :: "'q pqlib \<Rightarrow> 'q sched \<Rightarrow> nat \<Rightarrow> 'q sched" where
  "offer L s j = s\<lparr>pqueue := priqueue_offer L (compare_jobs (pqueue_scheme s) (metadata s)) (pqueue s) j\<rparr>"

text \<open>\<open>malloc\<close> of the job's information is taken to succeed.\<close>

definition scheduler_new_job :: "'q pqlib \<Rightarrow> 'q sched \<Rightarrow> nat \<Rightarrow> int \<Rightarrow> rat \<Rightarrow> rat \<Rightarrow> rat \<Rightarrow> 'q sched" where
  "scheduler_new_job L s newjob job_number time sd_priority sd_running_time =
     (let info = \<lparr>ji_id = job_number, runningtime = sd_running_time, priority = sd_priority, arrivetime = time,
            timeremaining = sd_running_time, starttime = 0, sequence = of_int (sched_seq s)\<rparr>;
          s = s\<lparr>sched_seq := int32 (sched_seq s + 1)\<rparr>;
          s = s\<lparr>metadata := (metadata s)(newjob \<mapsto> info)\<rparr>;
          s = s\<lparr>numarr := int32 (numarr s + 1)\<rparr>
      in offer L s newjob)"

definition ld_info :: "'q sched \<Rightarrow> nat \<Rightarrow> job_info res" where
  "ld_info s j = (if j = 0 then Inl Null_deref
     else case metadata s j of None \<Rightarrow> Inl Bad_access | Some i \<Rightarrow> Inr i)"

text \<open>The conversion of a \<open>double\<close> to an \<open>int\<close> cuts off the fraction.\<close>

definition to_int :: "rat \<Rightarrow> int" where
  "to_int t = (if t < 0 then \<lceil>t\<rceil> else \<lfloor>t\<rfloor>)"

definition upd_info :: "nat \<Rightarrow> (job_info \<Rightarrow> job_info) \<Rightarrow> 'q sched \<Rightarrow> 'q sched res" where
  "upd_info j f s = rbind (ld_info s j) (\<lambda>i. Inr (s\<lparr>metadata := (metadata s)(j \<mapsto> f i)\<rparr>))"

definition charge :: "nat \<Rightarrow> rat \<Rightarrow> 'q sched \<Rightarrow> 'q sched res" where
  "charge j time s =
     (if currenttime s \<noteq> -1 \<and> j \<noteq> 0
      then upd_info j (\<lambda>i. i\<lparr>timeremaining := timeremaining i - (time - of_int (currenttime s))\<rparr>) s
      else Inr s)"

definition requeue :: "'q pqlib \<Rightarrow> nat \<Rightarrow> 'q sched \<Rightarrow> 'q sched res" where
  "requeue L j s =
     (if j \<noteq> 0 then
        rbind (upd_info j (\<lambda>i. i\<lparr>sequence := of_int (sched_seq s)\<rparr>) s) (\<lambda>s.
          Inr (offer L (s\<lparr>sched_seq := int32 (sched_seq s + 1)\<rparr>) j))
      else Inr s)"

definition take_next :: "'q pqlib \<Rightarrow> rat \<Rightarrow> 'q sched \<Rightarrow> (nat \<times> 'q sched) res" where
  "take_next L time s =
     (let (nxt, q) = priqueue_poll L (pqueue s); s = s\<lparr>pqueue := q\<rparr>
      in rbind (ld_info s nxt) (\<lambda>i.
           rbind (if timeremaining i = runningtime i then upd_info nxt (\<lambda>i. i\<lparr>starttime := time\<rparr>) s else Inr s)
             (\<lambda>s. Inr (nxt, s))))"

definition scheduler_quantum_expired :: "'q pqlib \<Rightarrow> 'q sched \<Rightarrow> nat \<Rightarrow> rat \<Rightarrow> (nat \<times> 'q sched) res" where
  "scheduler_quantum_expired L s job_evicted time =
     rbind (charge job_evicted time s) (\<lambda>s.
       let s = s\<lparr>currenttime := int32 (to_int time)\<rparr>
       in if job_evicted \<noteq> 0 \<and> \<not> prempt s then Inr (job_evicted, s)
          else rbind (requeue L job_evicted s) (take_next L time))"

definition scheduler_job_finished :: "'q sched \<Rightarrow> nat \<Rightarrow> rat \<Rightarrow> 'q sched res" where
  "scheduler_job_finished s job_done time =
     rbind (ld_info s job_done) (\<lambda>i.
       Inr (s\<lparr>numfin := int32 (numfin s + 1),
              totalturnaround := totalturnaround s + (time - arrivetime i),
              totalwait := totalwait s + (time - arrivetime i - runningtime i),
              totalresponse := totalresponse s + (starttime i - arrivetime i),
              metadata := (metadata s)(job_done := None)\<rparr>))"

text \<open>The quotients: \<open>None\<close> when no job has finished, where the division by 0 gives no number.\<close>

definition scheduler_average_waiting_time :: "'q sched \<Rightarrow> rat option" where
  "scheduler_average_waiting_time s = (if numfin s = 0 then None else Some (totalwait s / of_int (numfin s)))"

definition scheduler_average_turnaround_time :: "'q sched \<Rightarrow> rat option" where
  "scheduler_average_turnaround_time s =
     (if numfin s = 0 then None else Some (totalturnaround s / of_int (numfin s)))"

definition scheduler_average_response_time :: "'q sched \<Rightarrow> rat option" where
  "scheduler_average_response_time s =
     (if numfin s = 0 then None else Some (totalresponse s / of_int (numfin s)))"

text \<open>What \<open>scheduler_clean_up\<close> prints.\<close>

definition print_stats :: "'q sched \<Rightarrow> rat option list" where
  "print_stats s = [scheduler_average_turnaround_time s, scheduler_average_waiting_time s,
     scheduler_average_response_time s]"

end
