(* ===== verification/Scheduler_Correct.thy ===== *)
theory Scheduler_Correct
  imports Scheduler
begin

text \<open>
  Correctness of the scheduler: the comparison functions are total orders up to ties, no job is lost
  or dispatched twice, the job that is chosen is a least one, round robin is a first-in first-out
  queue, and what a running job is charged.
\<close>

section \<open>The comparison functions\<close>

definition total_on :: "('a \<Rightarrow> 'a \<Rightarrow> int) \<Rightarrow> 'a set \<Rightarrow> bool" where
  "total_on c A \<longleftrightarrow> (\<forall>x\<in>A. \<forall>y\<in>A. c x y = - c y x)
     \<and> (\<forall>x\<in>A. \<forall>y\<in>A. \<forall>z\<in>A. c x y \<le> 0 \<longrightarrow> c y z \<le> 0 \<longrightarrow> c x z \<le> 0)"

lemma total_on_subset: "total_on c A \<Longrightarrow> B \<subseteq> A \<Longrightarrow> total_on c B"
  unfolding total_on_def by blast

lemma comparision_func_total: "total_on (comparision_func s) A"
  unfolding total_on_def
  by (cases s) (auto simp: comparer_fcfs_def comparer_pri_def comparer_ppri_def comparer_psrtf_def
      comparer_rr_def comparer_sjf_def break_tie_def split: if_splits)

lemma compare_jobs_total:
  assumes "J \<subseteq> dom md"
  shows "total_on (compare_jobs c md) J"
proof -
  have e: "compare_jobs c md a b = comparision_func c (the (md a)) (the (md b))" if "a \<in> J" "b \<in> J" for a b
  proof -
    have "md a \<noteq> None" "md b \<noteq> None" using assms that by auto
    then show ?thesis by (auto simp: compare_jobs_def)
  qed
  have T: "comparision_func c u v = - comparision_func c v u"
    "comparision_func c u v \<le> 0 \<Longrightarrow> comparision_func c v w \<le> 0 \<Longrightarrow> comparision_func c u w \<le> 0" for u v w
    using comparision_func_total [of c UNIV] unfolding total_on_def by blast+
  show ?thesis
    unfolding total_on_def
  proof (intro conjI ballI impI)
    fix x y assume "x \<in> J" "y \<in> J"
    then show "compare_jobs c md x y = - compare_jobs c md y x" by (metis e T(1))
  next
    fix x y z assume "x \<in> J" "y \<in> J" "z \<in> J" "compare_jobs c md x y \<le> 0" "compare_jobs c md y z \<le> 0"
    then show "compare_jobs c md x z \<le> 0" by (metis e T(2))
  qed
qed

section \<open>The queue\<close>

text \<open>
  \<open>elems\<close> gives the jobs in the queue in the order they would be polled. A new job is put
  somewhere behind those that compare as not larger and in front of those that compare as not
  smaller; with an empty queue \<open>priqueue_poll\<close> returns \<open>NULL\<close>.
\<close>

definition queue_ok :: "'q pqlib \<Rightarrow> ('q \<Rightarrow> nat list) \<Rightarrow> bool" where
  "queue_ok L elems \<longleftrightarrow>
     (\<forall>c. elems (priqueue_init L c) = [])
   \<and> (\<forall>c q p. sorted_wrt (\<lambda>a b. c a b \<le> 0) (elems q) \<longrightarrow> total_on c (set (p # elems q)) \<longrightarrow>
        (\<exists>xs ys. elems q = xs @ ys \<and> elems (priqueue_offer L c q p) = xs @ p # ys
           \<and> (\<forall>x\<in>set xs. c x p \<le> 0) \<and> (\<forall>y\<in>set ys. c p y \<le> 0)))
   \<and> (\<forall>q. elems q = [] \<longrightarrow> fst (priqueue_poll L q) = 0)
   \<and> (\<forall>q x xs. elems q = x # xs \<longrightarrow> fst (priqueue_poll L q) = x \<and> elems (snd (priqueue_poll L q)) = xs)"

lemma queue_okD:
  assumes "queue_ok L elems"
  shows "elems (priqueue_init L c) = []"
    and "sorted_wrt (\<lambda>a b. c a b \<le> 0) (elems q) \<Longrightarrow> total_on c (set (p # elems q)) \<Longrightarrow>
        \<exists>xs ys. elems q = xs @ ys \<and> elems (priqueue_offer L c q p) = xs @ p # ys
           \<and> (\<forall>x\<in>set xs. c x p \<le> 0) \<and> (\<forall>y\<in>set ys. c p y \<le> 0)"
    and "elems q = [] \<Longrightarrow> fst (priqueue_poll L q) = 0"
    and "elems q = x # xs \<Longrightarrow> priqueue_poll L q = (x, snd (priqueue_poll L q)) \<and> elems (snd (priqueue_poll L q)) = xs"
  using assms unfolding queue_ok_def by (blast, blast, blast, metis prod.collapse)

section \<open>The invariant\<close>

text \<open>The queued jobs: distinct, with metadata, in order; under round robin their sequence numbers
  are below the next one.\<close>

definition sched_inv :: "('q \<Rightarrow> nat list) \<Rightarrow> 'q sched \<Rightarrow> bool" where
  "sched_inv elems s \<longleftrightarrow> distinct (elems (pqueue s)) \<and> 0 \<notin> set (elems (pqueue s))
     \<and> set (elems (pqueue s)) \<subseteq> dom (metadata s)
     \<and> sorted_wrt (\<lambda>a b. compare_jobs (pqueue_scheme s) (metadata s) a b \<le> 0) (elems (pqueue s))
     \<and> prempt s = preemptive (pqueue_scheme s)
     \<and> 0 \<le> sched_seq s \<and> (\<forall>j\<in>set (elems (pqueue s)). sequence (the (metadata s j)) < of_int (sched_seq s))"

lemma sched_invD:
  assumes "sched_inv elems s"
  shows "distinct (elems (pqueue s))" "0 \<notin> set (elems (pqueue s))" "set (elems (pqueue s)) \<subseteq> dom (metadata s)"
    "sorted_wrt (\<lambda>a b. compare_jobs (pqueue_scheme s) (metadata s) a b \<le> 0) (elems (pqueue s))"
    "prempt s = preemptive (pqueue_scheme s)" "0 \<le> sched_seq s"
    "\<And>j. j \<in> set (elems (pqueue s)) \<Longrightarrow> sequence (the (metadata s j)) < of_int (sched_seq s)"
  using assms unfolding sched_inv_def by blast+

text \<open>Only the metadata of the queued jobs matter.\<close>

lemma sorted_agree:
  assumes "sorted_wrt (\<lambda>a b. compare_jobs c md a b \<le> 0) xs" and "\<And>j. j \<in> set xs \<Longrightarrow> md' j = md j"
  shows "sorted_wrt (\<lambda>a b. compare_jobs c md' a b \<le> 0) xs"
  by (rule sorted_wrt_mono_rel [OF _ assms(1)]) (simp add: compare_jobs_def assms(2))

lemma sched_inv_agree:
  assumes "sched_inv elems s" and "pqueue t = pqueue s" "pqueue_scheme t = pqueue_scheme s" "prempt t = prempt s"
    and "sched_seq s \<le> sched_seq t"
    and "\<And>j. j \<in> set (elems (pqueue s)) \<Longrightarrow> metadata t j = metadata s j"
  shows "sched_inv elems t"
proof -
  note D = sched_invD [OF assms(1)]
  have "sequence (the (metadata s j)) < of_int (sched_seq t)" if "j \<in> set (elems (pqueue s))" for j
    using D(7) [OF that] assms(5) by (meson less_le_trans of_int_le_iff)
  then have "\<forall>j\<in>set (elems (pqueue s)). sequence (the (metadata t j)) < of_int (sched_seq t)"
    using assms(6) by simp
  moreover have "set (elems (pqueue s)) \<subseteq> dom (metadata t)"
  proof
    fix j assume "j \<in> set (elems (pqueue s))"
    then show "j \<in> dom (metadata t)" using D(3) assms(6) [of j] by (auto simp: domIff)
  qed
  ultimately show ?thesis
    unfolding sched_inv_def assms(2-4)
    using D(1,2,5) order_trans [OF D(6) assms(5)] sorted_agree [OF D(4) assms(6)] by (intro conjI) simp_all
qed

text \<open>A job joins the queue. Under round robin it goes to the end.\<close>

lemma offer_inv:
  assumes "queue_ok L elems" and "sched_inv elems s" and "j \<noteq> 0" and "j \<notin> set (elems (pqueue s))"
    and "metadata s j = Some i" and "sequence i < of_int (sched_seq s)"
  shows "sched_inv elems (offer L s j) \<and> mset (elems (pqueue (offer L s j))) = add_mset j (mset (elems (pqueue s)))
    \<and> (pqueue_scheme s = RR \<and> (\<forall>k\<in>set (elems (pqueue s)). sequence (the (metadata s k)) < sequence i)
        \<longrightarrow> elems (pqueue (offer L s j)) = elems (pqueue s) @ [j])"
proof -
  let ?c = "compare_jobs (pqueue_scheme s) (metadata s)" and ?q = "elems (pqueue s)"
  note D = sched_invD [OF assms(2)]
  obtain xs ys where q: "?q = xs @ ys" "elems (priqueue_offer L ?c (pqueue s) j) = xs @ j # ys"
    "\<forall>x\<in>set xs. ?c x j \<le> 0" "\<forall>y\<in>set ys. ?c j y \<le> 0"
    using queue_okD(2) [OF assms(1) D(4) compare_jobs_total] D(3) assms(5) by (metis domI insert_subset list.simps(15))
  have o: "offer L s j = s\<lparr>pqueue := priqueue_offer L ?c (pqueue s) j\<rparr>" by (simp add: offer_def)
  have "sorted_wrt (\<lambda>a b. ?c a b \<le> 0) (xs @ j # ys)"
    using D(4) q by (auto simp: sorted_wrt_append)
  then have "sched_inv elems (offer L s j)"
    unfolding sched_inv_def o using D q assms(3-6) by (auto simp: q(2))
  moreover have "ys = []" if rr: "pqueue_scheme s = RR" "\<forall>k\<in>set ?q. sequence (the (metadata s k)) < sequence i"
  proof (rule ccontr)
    assume "ys \<noteq> []"
    then obtain y where y: "y \<in> set ys" by (cases ys) auto
    then obtain k where k: "metadata s y = Some k" using D(3) q(1) by auto
    have "sequence (the (metadata s y)) < sequence i" using rr(2) y q(1) by auto
    then have "sequence k < sequence i" using k by simp
    then have "?c j y = 1" using k assms(5) rr(1) by (simp add: compare_jobs_def comparer_rr_def)
    then show False using q(4) y by auto
  qed
  moreover have "elems (pqueue (offer L s j)) = xs @ j # ys" by (simp add: o q(2))
  ultimately show ?thesis using q(1) by auto
qed

section \<open>The choice of the next job\<close>

lemma upd_info_known: "j \<noteq> 0 \<Longrightarrow> metadata s j = Some i \<Longrightarrow>
    upd_info j f s = Inr (s\<lparr>metadata := (metadata s)(j \<mapsto> f i)\<rparr>)"
  by (simp add: upd_info_def ld_info_def)

text \<open>The head of the queue is taken, and it compares as not larger than any job that stays.\<close>

lemma take_next_ok:
  assumes "queue_ok L elems" and "sched_inv elems s" and "elems (pqueue s) = n # rest"
  shows "\<exists>t. take_next L time s = Inr (n, t) \<and> sched_inv elems t \<and> elems (pqueue t) = rest
    \<and> pqueue_scheme t = pqueue_scheme s \<and> sched_seq t = sched_seq s \<and> dom (metadata t) = dom (metadata s)
    \<and> (\<forall>j\<in>set rest. compare_jobs (pqueue_scheme t) (metadata t) n j \<le> 0)"
proof -
  note D = sched_invD [OF assms(2)]
  obtain q where q: "priqueue_poll L (pqueue s) = (n, q)" "elems q = rest"
    using queue_okD(4) [OF assms(1,3)] by metis
  obtain i where i: "metadata s n = Some i" "n \<noteq> 0" using D(2,3) assms(3) by auto
  define f :: "job_info \<Rightarrow> job_info" where "f = (if timeremaining i = runningtime i then (\<lambda>i. i\<lparr>starttime := time\<rparr>) else id)"
  let ?t = "s\<lparr>pqueue := q, metadata := (metadata s)(n \<mapsto> f i)\<rparr>"
  have "(metadata s)(n \<mapsto> i) = metadata s" using i(1) by auto
  then have t: "take_next L time s = Inr (n, ?t)"
    using q i by (simp add: take_next_def ld_info_def upd_info_def f_def)
  have "sched_inv elems (s\<lparr>pqueue := q\<rparr>)"
    unfolding sched_inv_def using D q(2) assms(3) by auto
  moreover have nr: "n \<notin> set rest" using D(1) assms(3) by simp
  ultimately have "sched_inv elems ?t" by (elim sched_inv_agree) (auto simp: q(2))
  moreover have "compare_jobs (pqueue_scheme s) (metadata ?t) n j \<le> 0" if j: "j \<in> set rest" for j
  proof -
    have "compare_jobs (pqueue_scheme s) (metadata s) n j \<le> 0" using D(4) assms(3) j by simp
    moreover have "comparision_func c (f i) k = comparision_func c i k" for c k
      by (cases c) (simp_all add: f_def comparer_fcfs_def comparer_pri_def comparer_ppri_def comparer_psrtf_def
          comparer_rr_def comparer_sjf_def break_tie_def)
    moreover have "j \<noteq> n" using j nr by auto
    ultimately show ?thesis using i(1) by (cases "metadata s j") (simp_all add: compare_jobs_def)
  qed
  moreover have "dom (metadata ?t) = dom (metadata s)" using i(1) by auto
  ultimately show ?thesis using t q(2) by (intro exI [of _ ?t]) simp
qed

lemma charge_ok:
  assumes "sched_inv elems s" and "j = 0 \<or> metadata s j \<noteq> None" and "j \<notin> set (elems (pqueue s))"
  shows "\<exists>t. charge j time s = Inr t \<and> sched_inv elems t \<and> pqueue t = pqueue s \<and> pqueue_scheme t = pqueue_scheme s
    \<and> sched_seq t = sched_seq s \<and> dom (metadata t) = dom (metadata s) \<and> prempt t = prempt s"
proof (cases "currenttime s \<noteq> -1 \<and> j \<noteq> 0")
  case True
  then obtain i where i: "metadata s j = Some i" using assms(2) by auto
  define t where "t = s\<lparr>metadata := (metadata s)(j \<mapsto> i\<lparr>timeremaining := timeremaining i - (time - of_int (currenttime s))\<rparr>)\<rparr>"
  have "charge j time s = Inr t" using True i by (simp add: charge_def upd_info_known t_def)
  moreover have "sched_inv elems t" by (rule sched_inv_agree [OF assms(1)]) (use assms(3) in \<open>auto simp: t_def\<close>)
  ultimately show ?thesis using i by (auto simp: t_def)
next
  case False
  then show ?thesis using assms(1) by (auto simp: charge_def)
qed

text \<open>
  \<open>scheduler_quantum_expired\<close>: the job that ran, if any, and the queued ones are the job that runs
  next and those that are queued then.
\<close>

lemma requeue_ok:
  assumes "queue_ok L elems" and inv: "sched_inv elems c" and jm: "j = 0 \<or> metadata c j \<noteq> None"
    and jn: "j \<notin> set (elems (pqueue c))" and seq: "sched_seq c < 2 ^ 31 - 1"
  obtains u where "requeue L j c = Inr u" "sched_inv elems u" "pqueue_scheme u = pqueue_scheme c"
      "sched_seq u \<le> sched_seq c + 1" "dom (metadata u) = dom (metadata c)"
      "mset (elems (pqueue u)) = mset ((if j = 0 then [] else [j]) @ elems (pqueue c))"
      "pqueue_scheme c = RR \<longrightarrow> elems (pqueue u) = elems (pqueue c) @ (if j = 0 then [] else [j])"
proof (cases "j = 0")
  case True
  then show ?thesis using that [of c] inv by (simp add: requeue_def)
next
  case j: False
  then obtain i where i: "metadata c j = Some i" using jm by auto
  let ?i = "i\<lparr>sequence := of_int (sched_seq c)\<rparr>"
  let ?d = "c\<lparr>metadata := (metadata c)(j \<mapsto> ?i), sched_seq := sched_seq c + 1\<rparr>"
  have "int32 (sched_seq c + 1) = sched_seq c + 1"
    using seq sched_invD(6) [OF inv] by (intro int32_id) simp_all
  then have r: "requeue L j c = Inr (offer L ?d j)"
    using j i by (simp add: requeue_def upd_info_known)
  have id: "sched_inv elems ?d" by (rule sched_inv_agree [OF inv]) (use jn in auto)
  have "\<forall>k\<in>set (elems (pqueue ?d)). sequence (the (metadata ?d k)) < sequence ?i"
    using sched_invD(7) [OF inv] jn by auto
  then show ?thesis
    using that [OF r] offer_inv [OF assms(1) id j, of ?i] jn i j
    by (auto simp: offer_def insert_absorb)
qed

lemma quantum_ok:
  assumes "queue_ok L elems" and "sched_inv elems s" and "j = 0 \<or> metadata s j \<noteq> None" and "j \<notin> set (elems (pqueue s))"
    and "j \<noteq> 0 \<or> elems (pqueue s) \<noteq> []" and "sched_seq s < 2 ^ 31 - 1"
  shows "\<exists>n t. scheduler_quantum_expired L s j time = Inr (n, t) \<and> sched_inv elems t
    \<and> n \<noteq> 0 \<and> metadata t n \<noteq> None \<and> n \<notin> set (elems (pqueue t)) \<and> pqueue_scheme t = pqueue_scheme s
    \<and> sched_seq t \<le> sched_seq s + 1
    \<and> mset (n # elems (pqueue t)) = mset ((if j = 0 then [] else [j]) @ elems (pqueue s))
    \<and> (if j \<noteq> 0 \<and> \<not> preemptive (pqueue_scheme s) then n = j
       else (\<forall>k\<in>set (elems (pqueue t)). compare_jobs (pqueue_scheme t) (metadata t) n k \<le> 0))
    \<and> (pqueue_scheme s = RR \<longrightarrow> n # elems (pqueue t) = elems (pqueue s) @ (if j = 0 then [] else [j]))"
proof -
  obtain c where c: "charge j time s = Inr c" "sched_inv elems c" "pqueue c = pqueue s" "pqueue_scheme c = pqueue_scheme s"
    "sched_seq c = sched_seq s" "dom (metadata c) = dom (metadata s)" "prempt c = prempt s"
    using charge_ok [OF assms(2,3,4)] by blast
  let ?c = "c\<lparr>currenttime := int32 (to_int time)\<rparr>"
  have ic: "sched_inv elems ?c" by (rule sched_inv_agree [OF c(2)]) simp_all
  have jm: "j = 0 \<or> metadata c j \<noteq> None" using assms(3) c(6) by (metis domIff)
  note pre = sched_invD(5) [OF assms(2)]
  show ?thesis
  proof (cases "j \<noteq> 0 \<and> \<not> prempt s")
    case True
    then have "scheduler_quantum_expired L s j time = Inr (j, ?c)"
      using c(1,7) by (simp add: scheduler_quantum_expired_def Let_def)
    then show ?thesis using True ic jm pre c(3-5) assms(4) by (auto simp: preemptive_def)
  next
    case False
    obtain u where u: "requeue L j ?c = Inr u" "sched_inv elems u" "pqueue_scheme u = pqueue_scheme s"
      "sched_seq u \<le> sched_seq s + 1" "dom (metadata u) = dom (metadata s)"
      "mset (elems (pqueue u)) = mset ((if j = 0 then [] else [j]) @ elems (pqueue s))"
      "pqueue_scheme s = RR \<longrightarrow> elems (pqueue u) = elems (pqueue s) @ (if j = 0 then [] else [j])"
      using requeue_ok [OF assms(1) ic, of j] jm assms(4,6) c(3-6) by auto
    have "elems (pqueue u) \<noteq> []" using u(6) assms(5) by (auto dest: arg_cong [where f = size])
    then obtain n rest where n: "elems (pqueue u) = n # rest" by (cases "elems (pqueue u)") auto
    obtain t where t: "take_next L time u = Inr (n, t)" "sched_inv elems t" "elems (pqueue t) = rest"
      "pqueue_scheme t = pqueue_scheme u" "sched_seq t = sched_seq u" "dom (metadata t) = dom (metadata u)"
      "\<forall>j\<in>set rest. compare_jobs (pqueue_scheme t) (metadata t) n j \<le> 0"
      using take_next_ok [OF assms(1) u(2) n] by blast
    have "scheduler_quantum_expired L s j time = Inr (n, t)"
      using c(1,7) False u(1) t(1) by (auto simp: scheduler_quantum_expired_def Let_def)
    moreover have "n \<noteq> 0" "metadata t n \<noteq> None" "n \<notin> set rest"
      using sched_invD(1-3) [OF u(2)] n t(6) by (auto simp: domIff)
    moreover have "mset (n # elems (pqueue t)) = mset ((if j = 0 then [] else [j]) @ elems (pqueue s))"
      unfolding t(3) n [symmetric] by (rule u(6))
    moreover have "pqueue_scheme s = RR \<longrightarrow> n # elems (pqueue t) = elems (pqueue s) @ (if j = 0 then [] else [j])"
      unfolding t(3) n [symmetric] by (rule u(7))
    ultimately show ?thesis using t(2-5,7) u(3,4) False pre by auto
  qed
qed

section \<open>The scheduler in use\<close>

text \<open>
  The calls the thread library makes, with the job that runs (0 when none does): new jobs, the end
  of a quantum, the end of the running job. Fewer than \<open>2 ^ 31 - 1\<close> sequence numbers are handed out.
\<close>

inductive sched_step :: "'q pqlib \<Rightarrow> ('q \<Rightarrow> nat list) \<Rightarrow> 'q sched \<times> nat \<Rightarrow> 'q sched \<times> nat \<Rightarrow> bool" for L elems where
  new_job: "j \<noteq> 0 \<Longrightarrow> metadata s j = None \<Longrightarrow> sched_seq s < 2 ^ 31 - 1
    \<Longrightarrow> sched_step L elems (s, r) (scheduler_new_job L s j k time pr rt, r)"
| quantum: "r \<noteq> 0 \<or> elems (pqueue s) \<noteq> [] \<Longrightarrow> sched_seq s < 2 ^ 31 - 1
    \<Longrightarrow> scheduler_quantum_expired L s r time = Inr (n, t) \<Longrightarrow> sched_step L elems (s, r) (t, n)"
| finished: "r \<noteq> 0 \<Longrightarrow> scheduler_job_finished s r time = Inr t \<Longrightarrow> sched_step L elems (s, r) (t, 0)"

inductive_cases sched_stepE: "sched_step L elems s t"

definition sched_init :: "'q pqlib \<Rightarrow> ('q \<Rightarrow> nat list) \<Rightarrow> 'q sched \<times> nat \<Rightarrow> bool" where
  "sched_init L elems = (\<lambda>(s, r). r = 0 \<and> queue_ok L elems \<and> (\<exists>c. scheduler_start_up L c = Inr s))"

definition run_inv :: "'q pqlib \<Rightarrow> ('q \<Rightarrow> nat list) \<Rightarrow> 'q sched \<times> nat \<Rightarrow> bool" where
  "run_inv L elems = (\<lambda>(s, r). queue_ok L elems \<and> sched_inv elems s
     \<and> (r = 0 \<or> metadata s r \<noteq> None) \<and> r \<notin> set (elems (pqueue s)))"

lemma new_job_ok:
  assumes "queue_ok L elems" and "sched_inv elems s" and "j \<noteq> 0" and "metadata s j = None" and "sched_seq s < 2 ^ 31 - 1"
  shows "sched_inv elems (scheduler_new_job L s j k time pr rt)
    \<and> mset (elems (pqueue (scheduler_new_job L s j k time pr rt))) = add_mset j (mset (elems (pqueue s)))
    \<and> dom (metadata (scheduler_new_job L s j k time pr rt)) = insert j (dom (metadata s))
    \<and> pqueue_scheme (scheduler_new_job L s j k time pr rt) = pqueue_scheme s
    \<and> (pqueue_scheme s = RR \<longrightarrow> elems (pqueue (scheduler_new_job L s j k time pr rt)) = elems (pqueue s) @ [j])"
proof -
  let ?i = "\<lparr>ji_id = k, runningtime = rt, priority = pr, arrivetime = time, timeremaining = rt,
    starttime = 0, sequence = of_int (sched_seq s)\<rparr>"
  let ?d = "s\<lparr>sched_seq := sched_seq s + 1, metadata := (metadata s)(j \<mapsto> ?i), numarr := int32 (numarr s + 1)\<rparr>"
  note D = sched_invD [OF assms(2)]
  have nq: "j \<notin> set (elems (pqueue s))" using D(3) assms(4) by auto
  have "int32 (sched_seq s + 1) = sched_seq s + 1" using assms(5) D(6) by (intro int32_id) simp_all
  then have n: "scheduler_new_job L s j k time pr rt = offer L ?d j"
    by (simp add: scheduler_new_job_def Let_def)
  have d: "sched_inv elems ?d" by (rule sched_inv_agree [OF assms(2)]) (use nq in auto)
  have "\<forall>k\<in>set (elems (pqueue ?d)). sequence (the (metadata ?d k)) < sequence ?i"
    using D(7) nq by auto
  then show ?thesis using offer_inv [OF assms(1) d assms(3), of ?i] nq unfolding n by (auto simp: offer_def)
qed

interpretation scheduling: transition_system "sched_init L elems" "sched_step L elems" "run_inv L elems" for L elems
proof unfold_locales
  fix x assume "sched_init L elems x"
  then obtain s c where s: "x = (s, 0)" "queue_ok L elems" "scheduler_start_up L c = Inr s"
    by (auto simp: sched_init_def)
  then have "pqueue s = priqueue_init L (compare_jobs c Map.empty)" "prempt s = preemptive (pqueue_scheme s)" "sched_seq s = 0"
    by (auto simp: scheduler_start_up_def split: if_splits)
  then show "run_inv L elems x"
    using s(1,2) queue_okD(1) [OF s(2)] by (simp add: run_inv_def sched_inv_def)
next
  fix x y assume i: "run_inv L elems x" and "sched_step L elems x y"
  from this(2) show "run_inv L elems y"
  proof (cases rule: sched_step.cases)
    case (new_job j s r k time pr rt)
    then have I: "queue_ok L elems" "sched_inv elems s" "r = 0 \<or> metadata s r \<noteq> None" "r \<notin> set (elems (pqueue s))"
      using i by (auto simp: run_inv_def)
    let ?t = "scheduler_new_job L s j k time pr rt"
    from new_job_ok [OF I(1,2) new_job(3-5), of k time pr rt]
    have t: "sched_inv elems ?t" "mset (elems (pqueue ?t)) = add_mset j (mset (elems (pqueue s)))"
      "dom (metadata ?t) = insert j (dom (metadata s))" by auto
    then have "set (elems (pqueue ?t)) = insert j (set (elems (pqueue s)))" by (metis set_mset_add_mset_insert set_mset_mset)
    moreover have "r = 0 \<or> r \<in> dom (metadata ?t)" using t(3) I(3) by auto
    moreover have "r \<noteq> j" using I(3) new_job(3,4) by auto
    ultimately show ?thesis using new_job I t by (auto simp: run_inv_def)
  next
    case (quantum r s time n t)
    then show ?thesis using i quantum_ok [of L elems s r time] by (auto simp: run_inv_def)
  next
    case (finished r s time t)
    then have I: "queue_ok L elems" "sched_inv elems s" "r \<notin> set (elems (pqueue s))"
      using i by (auto simp: run_inv_def)
    have t: "pqueue t = pqueue s" "pqueue_scheme t = pqueue_scheme s" "prempt t = prempt s" "sched_seq t = sched_seq s"
      "metadata t = (metadata s)(r := None)"
      using finished(4) by (auto simp: scheduler_job_finished_def res_conv)
    have "sched_inv elems t" by (rule sched_inv_agree [OF I(2)]) (use t I(3) in auto)
    then show ?thesis using I sched_invD(2) [OF I(2)] t(1) finished(2) by (simp add: run_inv_def)
  qed
qed

section \<open>The properties\<close>

text \<open>A queue that is a list, with two jobs under round robin.\<close>

definition list_queue :: "nat list pqlib" where
  "list_queue = \<lparr>priqueue_init = (\<lambda>_. []),
     priqueue_offer = (\<lambda>c q p. takeWhile (\<lambda>x. c x p \<le> 0) q @ p # dropWhile (\<lambda>x. c x p \<le> 0) q),
     priqueue_poll = (\<lambda>q. case q of [] \<Rightarrow> (0, []) | x # xs \<Rightarrow> (x, xs))\<rparr>"

lemma dropWhile_sorted:
  assumes "sorted_wrt (\<lambda>a b. c a b \<le> 0) q" and "total_on c (set (p # q))"
    and "y \<in> set (dropWhile (\<lambda>x. c x p \<le> 0) q)"
  shows "c p y \<le> (0 :: int)"
  using assms
proof (induction q)
  case (Cons x q)
  have "set (p # q) \<subseteq> set (p # x # q)" by auto
  with Cons.prems(2) have sub: "total_on c (set (p # q))" by (rule total_on_subset)
  show ?case
  proof (cases "c x p \<le> 0")
    case False
    have T: "\<And>u v. u \<in> set (p # x # q) \<Longrightarrow> v \<in> set (p # x # q) \<Longrightarrow> c u v = - c v u"
      "\<And>u v w. u \<in> set (p # x # q) \<Longrightarrow> v \<in> set (p # x # q) \<Longrightarrow> w \<in> set (p # x # q) \<Longrightarrow>
         c u v \<le> 0 \<Longrightarrow> c v w \<le> 0 \<Longrightarrow> c u w \<le> 0"
      using Cons.prems(2) unfolding total_on_def by blast+
    have px: "c p x \<le> 0" using T(1) [of p x] False by simp
    have "y = x \<or> y \<in> set q" using Cons.prems(3) False by simp
    then show ?thesis
    proof
      assume y: "y \<in> set q"
      then have "c x y \<le> 0" using Cons.prems(1) by simp
      then show ?thesis using T(2) [of p x y] px y by simp
    qed (use px in simp)
  qed (use Cons sub in auto)
qed simp

lemma list_queue_ok: "queue_ok list_queue id"
proof -
  have "\<exists>xs ys. q = xs @ ys \<and> takeWhile (\<lambda>x. c x p \<le> 0) q @ p # dropWhile (\<lambda>x. c x p \<le> 0) q = xs @ p # ys
      \<and> (\<forall>x\<in>set xs. c x p \<le> 0) \<and> (\<forall>y\<in>set ys. c p y \<le> 0)"
    if "sorted_wrt (\<lambda>a b. c a b \<le> 0) q" "total_on c (set (p # q))" for c :: "nat \<Rightarrow> nat \<Rightarrow> int" and q p
    using dropWhile_sorted [OF that] set_takeWhileD
    by (intro exI [of _ "takeWhile (\<lambda>x. c x p \<le> 0) q"] exI [of _ "dropWhile (\<lambda>x. c x p \<le> 0) q"]) fastforce
  then show ?thesis by (simp add: queue_ok_def list_queue_def)
qed

definition demo_jobs :: "scheme_t \<Rightarrow> nat list sched" where
  "demo_jobs c = (case scheduler_start_up list_queue c of
     Inr s \<Rightarrow> scheduler_new_job list_queue (scheduler_new_job list_queue s 8 1 0 5 10) 9 2 1 4 3)"

lemma demo_jobs_reachable: "c \<noteq> Unrecognized \<Longrightarrow>
    reachable (sched_init list_queue id) (sched_step list_queue id) (demo_jobs c, 0)"
proof -
  assume c: "c \<noteq> Unrecognized"
  then obtain s where s: "scheduler_start_up list_queue c = Inr s" by (auto simp: scheduler_start_up_def)
  then have f: "metadata s = Map.empty" "sched_seq s = 0" using c by (auto simp: scheduler_start_up_def)
  let ?t = "scheduler_new_job list_queue s 8 1 0 5 10"
  have t: "metadata ?t 9 = None" "sched_seq ?t = 1"
    using f by (simp_all add: scheduler_new_job_def offer_def Let_def int32_def)
  have "reachable (sched_init list_queue id) (sched_step list_queue id) (s, 0)"
    by (rule reach_init) (use s list_queue_ok in \<open>auto simp: sched_init_def\<close>)
  then have "reachable (sched_init list_queue id) (sched_step list_queue id) (?t, 0)"
    by (rule reach_step) (rule sched_step.new_job, use f in auto)
  then have "reachable (sched_init list_queue id) (sched_step list_queue id) (scheduler_new_job list_queue ?t 9 2 1 4 3, 0)"
    by (rule reach_step) (rule sched_step.new_job, use t in auto)
  then show ?thesis using s by (simp add: demo_jobs_def)
qed

text \<open>C17: in every state, the end of a quantum neither loses nor duplicates a job, and chooses by the
  scheme: without preemption the running job goes on, otherwise no job that stays compares as smaller
  than the one chosen. With no job at all it dereferences a null pointer.\<close>

theorem scheduler_dispatch:
  assumes "reachable (sched_init L elems) (sched_step L elems) (s, r)" and "sched_seq s < 2 ^ 31 - 1"
  shows "if r = 0 \<and> elems (pqueue s) = [] then scheduler_quantum_expired L s r time = Inl Null_deref
    else \<exists>n t. scheduler_quantum_expired L s r time = Inr (n, t)
      \<and> mset (n # elems (pqueue t)) = mset ((if r = 0 then [] else [r]) @ elems (pqueue s))
      \<and> (if r \<noteq> 0 \<and> \<not> preemptive (pqueue_scheme s) then n = r
         else (\<forall>k\<in>set (elems (pqueue t)). compare_jobs (pqueue_scheme t) (metadata t) n k \<le> 0))"
proof -
  have i: "queue_ok L elems" "sched_inv elems s" "r = 0 \<or> metadata s r \<noteq> None" "r \<notin> set (elems (pqueue s))"
    using scheduling.reachable_inv [OF assms(1)] by (auto simp: run_inv_def)
  show ?thesis
  proof (cases "r = 0 \<and> elems (pqueue s) = []")
    case True
    then have "fst (priqueue_poll L (pqueue s)) = 0" using queue_okD(3) [OF i(1)] by blast
    then show ?thesis using True
      by (simp add: scheduler_quantum_expired_def charge_def requeue_def take_next_def ld_info_def Let_def case_prod_beta)
  next
    case False
    then have "r \<noteq> 0 \<or> elems (pqueue s) \<noteq> []" by simp
    from quantum_ok [OF i this assms(2), of time] show ?thesis unfolding if_not_P [OF False] by blast
  qed
qed

lemma scheduler_dispatch_witness:
  "\<exists>n t. scheduler_quantum_expired list_queue (demo_jobs PRI) 0 2 = Inr (n, t)
      \<and> mset (n # id (pqueue t)) = mset ((if 0 = (0::nat) then [] else [0]) @ id (pqueue (demo_jobs PRI)))
      \<and> (if 0 \<noteq> (0::nat) \<and> \<not> preemptive (pqueue_scheme (demo_jobs PRI)) then n = 0
         else (\<forall>k\<in>set (id (pqueue t)). compare_jobs (pqueue_scheme t) (metadata t) n k \<le> 0))"
proof -
  have d: "sched_seq (demo_jobs PRI) < 2 ^ 31 - 1" "pqueue (demo_jobs PRI) \<noteq> []"
    by (simp_all add: demo_jobs_def scheduler_start_up_def scheduler_new_job_def offer_def Let_def int32_def list_queue_def)
  from scheduler_dispatch [OF demo_jobs_reachable [of PRI] d(1), of 2] d(2) show ?thesis by simp
qed

text \<open>C18: under round robin the queue is first in, first out: a new job goes to the end, and at the end
  of a quantum the running job goes to the end and the head runs next.\<close>

theorem round_robin_fifo:
  assumes "reachable (sched_init L elems) (sched_step L elems) (s, r)" and "sched_seq s < 2 ^ 31 - 1"
    and "pqueue_scheme s = RR"
  shows "(r \<noteq> 0 \<or> elems (pqueue s) \<noteq> [] \<longrightarrow> (\<exists>n t. scheduler_quantum_expired L s r time = Inr (n, t)
        \<and> n # elems (pqueue t) = elems (pqueue s) @ (if r = 0 then [] else [r])))
    \<and> (\<forall>j k pr rt. j \<noteq> 0 \<longrightarrow> metadata s j = None \<longrightarrow>
        elems (pqueue (scheduler_new_job L s j k time pr rt)) = elems (pqueue s) @ [j])"
proof -
  have i: "queue_ok L elems" "sched_inv elems s" "r = 0 \<or> metadata s r \<noteq> None" "r \<notin> set (elems (pqueue s))"
    using scheduling.reachable_inv [OF assms(1)] by (auto simp: run_inv_def)
  from quantum_ok [OF i _ assms(2), of time] new_job_ok [OF i(1,2) _ _ assms(2)] assms(3) show ?thesis by blast
qed

lemma round_robin_fifo_witness:
  "\<exists>n t. scheduler_quantum_expired list_queue (demo_jobs RR) 0 2 = Inr (n, t) \<and> n # id (pqueue t) = [8, 9]"
proof -
  have d: "sched_seq (demo_jobs RR) < 2 ^ 31 - 1" "pqueue (demo_jobs RR) = [8, 9]" "pqueue_scheme (demo_jobs RR) = RR"
    by (simp_all add: demo_jobs_def scheduler_start_up_def scheduler_new_job_def offer_def Let_def int32_def list_queue_def
        compare_jobs_def comparer_rr_def)
  from round_robin_fifo [OF demo_jobs_reachable [of RR] d(1,3), of 2] d(2) show ?thesis by auto
qed

text \<open>\<open>currenttime\<close> is an \<open>int\<close>: a job that goes on running is charged from the whole part of the
  last time on, so that its remaining time falls by more than the time that has passed.\<close>

theorem quantum_charge_truncates:
  assumes "\<not> prempt s" and "r \<noteq> 0" and "metadata s r = Some i" and "currenttime s \<noteq> -1" and "0 \<le> t1" and "t1 < 2 ^ 31 - 1"
  shows "\<exists>u v. scheduler_quantum_expired L s r t1 = Inr (r, u) \<and> scheduler_quantum_expired L u r t2 = Inr (r, v)
    \<and> timeremaining (the (metadata v r)) = timeremaining i - (t1 - of_int (currenttime s)) - (t2 - of_int \<lfloor>t1\<rfloor>)"
proof -
  let ?i = "i\<lparr>timeremaining := timeremaining i - (t1 - of_int (currenttime s))\<rparr>"
  let ?u = "s\<lparr>metadata := (metadata s)(r \<mapsto> ?i), currenttime := \<lfloor>t1\<rfloor>\<rparr>"
  have "0 \<le> \<lfloor>t1\<rfloor>" "\<lfloor>t1\<rfloor> < 2 ^ 31 - 1" using assms(5,6) by (simp_all add: floor_less_iff)
  then have c: "int32 (to_int t1) = \<lfloor>t1\<rfloor>" using assms(5) by (simp add: to_int_def int32_id)
  have u: "scheduler_quantum_expired L s r t1 = Inr (r, ?u)"
    using assms(1-4) c by (simp add: scheduler_quantum_expired_def charge_def upd_info_known Let_def)
  have "\<lfloor>t1\<rfloor> \<noteq> -1" using \<open>0 \<le> \<lfloor>t1\<rfloor>\<close> by linarith
  then have "\<exists>v. scheduler_quantum_expired L ?u r t2 = Inr (r, v)
      \<and> timeremaining (the (metadata v r)) = timeremaining ?i - (t2 - of_int \<lfloor>t1\<rfloor>)"
    using assms(1,2)
    by (simp add: scheduler_quantum_expired_def charge_def upd_info_known Let_def)
  then obtain v where "scheduler_quantum_expired L ?u r t2 = Inr (r, v)"
    "timeremaining (the (metadata v r)) = timeremaining ?i - (t2 - of_int \<lfloor>t1\<rfloor>)" by blast
  with u show ?thesis by (intro exI [of _ ?u] exI [of _ v]) simp
qed

text \<open>Half a second and one and a half seconds after the start the job has run for one second and is
  charged one and a half.\<close>

lemma quantum_charge_truncates_witness:
  "\<exists>u v. scheduler_quantum_expired list_queue ((demo_jobs FCFS)\<lparr>currenttime := 0\<rparr>) 8 (1 / 2) = Inr (8, u)
    \<and> scheduler_quantum_expired list_queue u 8 (3 / 2) = Inr (8, v)
    \<and> timeremaining (the (metadata v 8)) = 10 - 1 / 2 - 3 / 2"
proof -
  let ?s = "(demo_jobs FCFS)\<lparr>currenttime := 0\<rparr>"
  obtain i where "\<not> prempt ?s" "metadata ?s 8 = Some i" "timeremaining i = 10"
    by (simp add: demo_jobs_def scheduler_start_up_def scheduler_new_job_def offer_def Let_def preemptive_def)
  moreover have "\<lfloor>1 / 2 :: rat\<rfloor> = 0" by (simp add: floor_eq_iff)
  ultimately show ?thesis using quantum_charge_truncates [of ?s 8 i "1 / 2" list_queue "3 / 2"] by simp
qed

end
