(* ===== verification/Monitor.thy ===== *)
theory Monitor
  imports Prelude
begin

text \<open>
  Monitors of the thread library: data guarded by one mutex and one condition variable, as the
  queue and the semaphore of \<open>critical_concurrency\<close> use them.

  An operation takes the mutex, waits in a loop on the condition variable while it is \<open>blocked\<close>,
  has its \<open>effect\<close> with a result, wakes others and releases the mutex. The mutex makes each turn of
  the loop a single step. A thread is outside, about to look at its condition (\<open>Trying\<close>), or asleep
  in \<open>pthread_cond_wait\<close>. \<open>wakes\<close> says which threads the operation wakes. A sleeping thread may
  also wake up by itself, as the library permits. The log holds the operations with their results.
\<close>

datatype 'op pc = Outside | Trying 'op | Asleep 'op

record ('s, 'op, 'r) mon =
  shared :: 's
  pcs :: "nat \<Rightarrow> 'op pc"
  log :: "('op \<times> 'r) list"

fun awake :: "'op pc \<Rightarrow> 'op pc" where
  "awake (Asleep x) = Trying x"
| "awake p = p"

text \<open>\<open>pthread_cond_broadcast\<close> wakes all sleeping threads, \<open>pthread_cond_signal\<close> one of them if
  there is one.\<close>

definition cond_broadcast :: "(nat \<Rightarrow> 'op pc) \<Rightarrow> (nat \<Rightarrow> 'op pc) \<Rightarrow> bool" where
  "cond_broadcast p q \<longleftrightarrow> q = (\<lambda>t. awake (p t))"

definition cond_signal :: "(nat \<Rightarrow> 'op pc) \<Rightarrow> (nat \<Rightarrow> 'op pc) \<Rightarrow> bool" where
  "cond_signal p q \<longleftrightarrow>
     (if \<exists>t x. p t = Asleep x then \<exists>t x. p t = Asleep x \<and> q = p(t := Trying x) else q = p)"

inductive mon_step :: "((nat \<Rightarrow> 'op pc) \<Rightarrow> (nat \<Rightarrow> 'op pc) \<Rightarrow> bool) \<Rightarrow> ('op \<Rightarrow> 's \<Rightarrow> bool)
    \<Rightarrow> ('op \<Rightarrow> 's \<Rightarrow> ('r \<times> 's) res) \<Rightarrow> ('s, 'op, 'r) mon \<Rightarrow> ('s, 'op, 'r) mon \<Rightarrow> bool"
  for wakes blocked effect
  where
    call: "pcs m t = Outside \<Longrightarrow> mon_step wakes blocked effect m (m\<lparr>pcs := (pcs m)(t := Trying x)\<rparr>)"
  | wait: "pcs m t = Trying x \<Longrightarrow> blocked x (shared m)
      \<Longrightarrow> mon_step wakes blocked effect m (m\<lparr>pcs := (pcs m)(t := Asleep x)\<rparr>)"
  | act: "pcs m t = Trying x \<Longrightarrow> \<not> blocked x (shared m) \<Longrightarrow> effect x (shared m) = Inr (r, s)
      \<Longrightarrow> wakes ((pcs m)(t := Outside)) q
      \<Longrightarrow> mon_step wakes blocked effect m \<lparr>shared = s, pcs = q, log = log m @ [(x, r)]\<rparr>"
  | spurious: "pcs m t = Asleep x \<Longrightarrow> mon_step wakes blocked effect m (m\<lparr>pcs := (pcs m)(t := Trying x)\<rparr>)"

inductive_cases mon_stepE: "mon_step wakes blocked effect m m'"

definition mon_init :: "('s \<Rightarrow> bool) \<Rightarrow> ('s, 'op, 'r) mon \<Rightarrow> bool" where
  "mon_init start m \<longleftrightarrow> start (shared m) \<and> pcs m = (\<lambda>_. Outside) \<and> log m = []"

text \<open>
  The contract of a monitor: \<open>J\<close> relates the data to the log; it holds at the start and each
  operation that is not blocked returns and keeps it.
\<close>

locale monitor =
  fixes start :: "'s \<Rightarrow> bool"
    and wakes :: "(nat \<Rightarrow> 'op pc) \<Rightarrow> (nat \<Rightarrow> 'op pc) \<Rightarrow> bool"
    and blocked :: "'op \<Rightarrow> 's \<Rightarrow> bool"
    and effect :: "'op \<Rightarrow> 's \<Rightarrow> ('r \<times> 's) res"
    and J :: "'s \<Rightarrow> ('op \<times> 'r) list \<Rightarrow> bool"
  assumes start_J: "start s \<Longrightarrow> J s []"
    and effect_J: "J s l \<Longrightarrow> \<not> blocked x s \<Longrightarrow> \<exists>r t. effect x s = Inr (r, t) \<and> J t (l @ [(x, r)])"

sublocale monitor \<subseteq> transition_system "mon_init start" "mon_step wakes blocked effect" "\<lambda>m. J (shared m) (log m)"
proof
  fix m :: "('s, 'op, 'r) mon" assume "mon_init start m"
  then show "J (shared m) (log m)" by (simp add: mon_init_def start_J)
next
  fix m m' assume "J (shared m) (log m)" "mon_step wakes blocked effect m m'"
  then show "J (shared m') (log m')" using effect_J by (fastforce elim: mon_stepE)
qed

context monitor
begin

lemma invariant_J: "reachable (mon_init start) (mon_step wakes blocked effect) m \<Longrightarrow> J (shared m) (log m)"
  by (rule reachable_inv)

text \<open>An operation that is not blocked returns.\<close>

lemma unblocked_returns:
  "reachable (mon_init start) (mon_step wakes blocked effect) m \<Longrightarrow> \<not> blocked x (shared m)
    \<Longrightarrow> \<exists>r t. effect x (shared m) = Inr (r, t)"
  using invariant_J effect_J by blast

end

text \<open>When each operation wakes all, no thread sleeps whose operation is not blocked.\<close>

locale broadcast_monitor = monitor start cond_broadcast blocked effect J
  for start :: "'s \<Rightarrow> bool" and blocked :: "'op \<Rightarrow> 's \<Rightarrow> bool" and effect :: "'op \<Rightarrow> 's \<Rightarrow> ('r \<times> 's) res"
    and J :: "'s \<Rightarrow> ('op \<times> 'r) list \<Rightarrow> bool"
begin

lemma no_lost_wakeup:
  "reachable (mon_init start) (mon_step cond_broadcast blocked effect) m \<Longrightarrow> pcs m t = Asleep x \<Longrightarrow> blocked x (shared m)"
proof (induction arbitrary: t x rule: reachable.induct)
  case (reach_init m)
  then show ?case by (simp add: mon_init_def)
next
  case (reach_step m m')
  have no: "awake p \<noteq> Asleep x" for p by (cases p) auto
  from reach_step.hyps(2) reach_step.IH reach_step.prems no show ?case
    by (cases rule: mon_step.cases) (auto simp: cond_broadcast_def split: if_splits)
qed

end

end
