(* ===== verification/Cqueue.thy ===== *)
theory Cqueue
  imports Monitor "HOL-Library.Multiset"
begin

text \<open>
  The thread-safe queue (\<open>critical_concurrency/queue.c\<close>): a linked list with a bound on its length.
  \<open>mal\<close> is \<open>malloc\<close> for the nodes: a function of the nodes in use that gives the address of a new
  one; it is taken to succeed. The fields that \<open>queue_create\<close> does not set have the content of the
  memory that \<open>malloc\<close> returns.
\<close>

section \<open>The program\<close>

record queue_node =
  qn_data :: nat
  qn_next :: nat

record queue =
  q_head :: nat
  q_tail :: nat
  q_size :: int
  q_max_size :: int
  q_nodes :: "nat \<rightharpoonup> queue_node"

definition queue_create :: "nat \<Rightarrow> nat \<Rightarrow> int \<Rightarrow> queue" where
  "queue_create junk_head junk_tail max_size =
     \<lparr>q_head = junk_head, q_tail = junk_tail, q_size = 0, q_max_size = max_size, q_nodes = Map.empty\<rparr>"

definition node_at :: "queue \<Rightarrow> nat \<Rightarrow> queue_node res" where
  "node_at q p = (if p = 0 then Inl Null_deref else case q_nodes q p of None \<Rightarrow> Inl Bad_access | Some n \<Rightarrow> Inr n)"

text \<open>The conditions of the waiting loops, and what is done when they are left.\<close>

definition push_blocked :: "queue \<Rightarrow> bool" where
  "push_blocked q \<longleftrightarrow> 0 < q_max_size q \<and> q_size q = q_max_size q"

definition pull_blocked :: "queue \<Rightarrow> bool" where
  "pull_blocked q \<longleftrightarrow> q_size q = 0"

definition queue_push :: "((nat \<rightharpoonup> queue_node) \<Rightarrow> nat) \<Rightarrow> nat \<Rightarrow> queue \<Rightarrow> (nat \<times> queue) res" where
  "queue_push mal data q =
     (let q = q\<lparr>q_size := q_size q + 1\<rparr>;
          node = mal (q_nodes q);
          q = q\<lparr>q_nodes := (q_nodes q)(node \<mapsto> \<lparr>qn_data = data, qn_next = 0\<rparr>)\<rparr>
      in if q_tail q = 0 then Inr (0, q\<lparr>q_tail := node, q_head := node\<rparr>)
         else rbind (node_at q (q_tail q)) (\<lambda>last.
           Inr (0, q\<lparr>q_nodes := (q_nodes q)(q_tail q \<mapsto> last\<lparr>qn_next := node\<rparr>), q_tail := node\<rparr>)))"

definition queue_pull :: "queue \<Rightarrow> (nat \<times> queue) res" where
  "queue_pull q =
     (let q = q\<lparr>q_size := q_size q - 1\<rparr>; ptr = q_head q
      in rbind (if q_head q = q_tail q then Inr (q\<lparr>q_head := 0, q_tail := 0\<rparr>)
                else rbind (node_at q ptr) (\<lambda>n. Inr (q\<lparr>q_head := qn_next n\<rparr>))) (\<lambda>q.
           rbind (node_at q ptr) (\<lambda>n.
             Inr (qn_data n, q\<lparr>q_nodes := (q_nodes q)(ptr := None)\<rparr>))))"

text \<open>The loop of \<open>queue_destroy\<close>, with fuel for each node.\<close>

primrec free_nodes :: "nat \<Rightarrow> nat \<Rightarrow> queue \<Rightarrow> queue res" where
  "free_nodes 0 ptr q = Inl Out_of_fuel"
| "free_nodes (Suc k) ptr q =
     (if ptr = 0 then Inr q
      else rbind (node_at q ptr) (\<lambda>n. free_nodes k (qn_next n) (q\<lparr>q_nodes := (q_nodes q)(ptr := None)\<rparr>)))"

definition queue_destroy :: "nat \<Rightarrow> queue \<Rightarrow> queue res" where
  "queue_destroy k q = free_nodes k (q_head q) q"

text \<open>The two operations as operations of the monitor.\<close>

datatype qop = Push nat | Pull

fun q_blocked :: "qop \<Rightarrow> queue \<Rightarrow> bool" where
  "q_blocked (Push _) q = push_blocked q"
| "q_blocked Pull q = pull_blocked q"

fun q_effect :: "((nat \<rightharpoonup> queue_node) \<Rightarrow> nat) \<Rightarrow> qop \<Rightarrow> queue \<Rightarrow> (nat \<times> queue) res" where
  "q_effect mal (Push d) q = queue_push mal d q"
| "q_effect mal Pull q = queue_pull q"

section \<open>The list that the nodes make up\<close>

definition mal_ok :: "((nat \<rightharpoonup> queue_node) \<Rightarrow> nat) \<Rightarrow> bool" where
  "mal_ok mal \<longleftrightarrow> (\<forall>h. finite (dom h) \<longrightarrow> mal h \<noteq> 0 \<and> mal h \<notin> dom h)"

primrec linked :: "(nat \<rightharpoonup> queue_node) \<Rightarrow> nat \<Rightarrow> nat list \<Rightarrow> nat list \<Rightarrow> bool" where
  "linked h p [] xs \<longleftrightarrow> p = 0 \<and> xs = []"
| "linked h p (a # as) xs \<longleftrightarrow> p = a \<and> a \<noteq> 0
     \<and> (\<exists>n ys. h a = Some n \<and> xs = qn_data n # ys \<and> linked h (qn_next n) as ys)"

definition q_list :: "queue \<Rightarrow> nat list \<Rightarrow> nat list \<Rightarrow> bool" where
  "q_list q as xs \<longleftrightarrow> linked (q_nodes q) (q_head q) as xs \<and> distinct as \<and> q_tail q = last_or 0 as
     \<and> dom (q_nodes q) = set as \<and> q_size q = int (length xs)"

lemma linked_frame: "linked h p as xs \<Longrightarrow> (\<And>a. a \<in> set as \<Longrightarrow> h' a = h a) \<Longrightarrow> linked h' p as xs"
  by (induction as arbitrary: p xs) auto

lemma linked_length: "linked h p as xs \<Longrightarrow> length as = length xs"
  by (induction as arbitrary: p xs) auto

lemma linked_nonzero: "linked h p as xs \<Longrightarrow> 0 \<notin> set as"
  by (induction as arbitrary: p xs) auto

lemma linked_in_dom: "linked h p as xs \<Longrightarrow> a \<in> set as \<Longrightarrow> \<exists>n. h a = Some n"
  by (induction as arbitrary: p xs) auto

lemma linked_snoc:
  assumes "linked h p (as @ [a]) xs" and "distinct (as @ [a])" and "h a = Some n" and "b \<noteq> 0" and "b \<notin> set (as @ [a])"
  shows "linked (h(b \<mapsto> \<lparr>qn_data = d, qn_next = 0\<rparr>, a \<mapsto> n\<lparr>qn_next := b\<rparr>)) p (as @ [a, b]) (xs @ [d])"
  using assms
proof (induction as arbitrary: p xs)
  case Nil
  then show ?case by auto
next
  case (Cons c as)
  then obtain m ys where m: "p = c" "c \<noteq> 0" "h c = Some m" "xs = qn_data m # ys" "linked h (qn_next m) (as @ [a]) ys" by auto
  have "linked (h(b \<mapsto> \<lparr>qn_data = d, qn_next = 0\<rparr>, a \<mapsto> n\<lparr>qn_next := b\<rparr>)) (qn_next m) (as @ [a, b]) (ys @ [d])"
    by (rule Cons.IH [OF m(5)]) (use Cons.prems in auto)
  moreover have "(h(b \<mapsto> \<lparr>qn_data = d, qn_next = 0\<rparr>, a \<mapsto> n\<lparr>qn_next := b\<rparr>)) c = Some m" using m(3) Cons.prems(2,5) by auto
  ultimately show ?case using m by (simp del: fun_upd_apply)
qed

lemma push_list:
  assumes "q_list q as xs" and "mal_ok mal"
  shows "\<exists>q' bs. queue_push mal d q = Inr (0, q') \<and> q_list q' bs (xs @ [d]) \<and> q_max_size q' = q_max_size q"
proof -
  let ?b = "mal (q_nodes q)"
  have l: "linked (q_nodes q) (q_head q) as xs" "distinct as" "q_tail q = last_or 0 as"
    "dom (q_nodes q) = set as" "q_size q = int (length xs)" using assms(1) by (auto simp: q_list_def)
  have b: "?b \<noteq> 0" "?b \<notin> set as" using assms(2) l(4) unfolding mal_ok_def by (metis finite_set)+
  show ?thesis
  proof (cases as rule: rev_cases)
    case Nil
    then have "xs = []" "q_tail q = 0" using l by auto
    then show ?thesis using b l Nil
      by (intro exI [of _ "q\<lparr>q_size := q_size q + 1, q_nodes := (q_nodes q)(?b \<mapsto> \<lparr>qn_data = d, qn_next = 0\<rparr>),
            q_tail := ?b, q_head := ?b\<rparr>"] exI [of _ "[?b]"])
        (auto simp: queue_push_def q_list_def Let_def)
  next
    case (snoc bs a)
    then obtain n where n: "q_nodes q a = Some n" "a \<noteq> 0" using linked_in_dom [OF l(1)] linked_nonzero [OF l(1)] by auto
    have "?b \<noteq> a" using b(2) snoc by auto
    let ?q = "q\<lparr>q_size := q_size q + 1, q_nodes := (q_nodes q)(?b \<mapsto> \<lparr>qn_data = d, qn_next = 0\<rparr>, a \<mapsto> n\<lparr>qn_next := ?b\<rparr>),
      q_tail := ?b\<rparr>"
    have "queue_push mal d q = Inr (0, ?q)"
      using l(3) snoc n \<open>?b \<noteq> a\<close> by (auto simp: queue_push_def node_at_def Let_def)
    moreover have "q_list ?q (bs @ [a, ?b]) (xs @ [d])"
      using linked_snoc [OF l(1) [unfolded snoc] _ n(1) b(1)] l(2,4,5) b(2) snoc by (auto simp: q_list_def)
    moreover have "q_max_size ?q = q_max_size q" by simp
    ultimately show ?thesis by blast
  qed
qed

lemma pull_list:
  assumes "q_list q as (x # xs)"
  shows "\<exists>q' bs. queue_pull q = Inr (x, q') \<and> q_list q' bs xs \<and> q_max_size q' = q_max_size q"
proof -
  obtain a bs where as: "as = a # bs" using assms by (cases as) (auto simp: q_list_def)
  then obtain n where n: "q_head q = a" "a \<noteq> 0" "q_nodes q a = Some n" "qn_data n = x" "linked (q_nodes q) (qn_next n) bs xs"
    "distinct (a # bs)" "q_tail q = last_or a bs" "dom (q_nodes q) = set (a # bs)" "q_size q = int (length (x # xs))"
    using assms by (auto simp: q_list_def)
  have rest: "linked ((q_nodes q)(a := None)) (qn_next n) bs xs" using n(5,6) by (auto intro: linked_frame)
  let ?q = "q\<lparr>q_size := q_size q - 1, q_head := (if bs = [] then 0 else qn_next n),
    q_tail := (if bs = [] then 0 else q_tail q), q_nodes := (q_nodes q)(a := None)\<rparr>"
  have "q_head q = q_tail q \<longleftrightarrow> bs = []" using n(1,6,7) last_or_eq_iff [of a bs] by auto
  then have "queue_pull q = Inr (x, ?q)"
    using n(1-4) by (auto simp: queue_pull_def node_at_def Let_def)
  moreover have "q_list ?q bs xs"
    using n rest last_or_Cons by (cases bs) (auto simp: q_list_def)
  moreover have "q_max_size ?q = q_max_size q" by simp
  ultimately show ?thesis by blast
qed

lemma free_nodes_all:
  assumes "linked (q_nodes q) p as xs" and "dom (q_nodes q) = set as" and "distinct as" and "length as < k"
  shows "\<exists>q'. free_nodes k p q = Inr q' \<and> q_nodes q' = Map.empty"
  using assms
proof (induction k arbitrary: q p as xs)
  case (Suc k)
  show ?case
  proof (cases as)
    case Nil
    then show ?thesis using Suc.prems by auto
  next
    case (Cons a bs)
    then obtain n ys where n: "p = a" "a \<noteq> 0" "q_nodes q a = Some n" "linked (q_nodes q) (qn_next n) bs ys"
      using Suc.prems(1) by auto
    let ?q = "q\<lparr>q_nodes := (q_nodes q)(a := None)\<rparr>"
    have "linked (q_nodes ?q) (qn_next n) bs ys" using n(4) Suc.prems(3) Cons by (auto intro: linked_frame)
    moreover have "dom (q_nodes ?q) = set bs" using Suc.prems(2,3) Cons by auto
    ultimately have "\<exists>q'. free_nodes k (qn_next n) ?q = Inr q' \<and> q_nodes q' = Map.empty"
      using Suc.prems(3,4) Cons by (elim Suc.IH) (simp_all del: fun_upd_apply)
    then show ?thesis using n by (simp add: node_at_def)
  qed
qed simp

section \<open>The queue as a monitor\<close>

text \<open>What was pushed and what was pulled, in the order of the operations.\<close>

definition pushed :: "(qop \<times> nat) list \<Rightarrow> nat list" where
  "pushed l = concat (map (\<lambda>(x, r). case x of Push d \<Rightarrow> [d] | Pull \<Rightarrow> []) l)"

definition pulled :: "(qop \<times> nat) list \<Rightarrow> nat list" where
  "pulled l = concat (map (\<lambda>(x, r). case x of Push d \<Rightarrow> [] | Pull \<Rightarrow> [r]) l)"

lemma log_simps [simp]:
  "pushed [] = []" "pulled [] = []"
  "pushed (l @ [(Push d, r)]) = pushed l @ [d]" "pushed (l @ [(Pull, r)]) = pushed l"
  "pulled (l @ [(Push d, r)]) = pulled l" "pulled (l @ [(Pull, r)]) = pulled l @ [r]"
  by (simp_all add: pushed_def pulled_def)

text \<open>The queue that \<open>queue_create\<close> makes where the memory from \<open>malloc\<close> holds \<open>junk_head\<close> and
  \<open>junk_tail\<close> in the two fields that are not set.\<close>

definition q_start :: "((nat \<rightharpoonup> queue_node) \<Rightarrow> nat) \<Rightarrow> nat \<Rightarrow> nat \<Rightarrow> queue \<Rightarrow> bool" where
  "q_start mal junk_head junk_tail q \<longleftrightarrow> mal_ok mal \<and> (\<exists>max. q = queue_create junk_head junk_tail max)"

definition q_J :: "((nat \<rightharpoonup> queue_node) \<Rightarrow> nat) \<Rightarrow> queue \<Rightarrow> (qop \<times> nat) list \<Rightarrow> bool" where
  "q_J mal q l \<longleftrightarrow> mal_ok mal \<and> (\<exists>as xs. q_list q as xs \<and> pushed l = pulled l @ xs)
     \<and> (0 < q_max_size q \<longrightarrow> q_size q \<le> q_max_size q)"

interpretation qmon: broadcast_monitor "q_start mal 0 0" q_blocked "q_effect mal" "q_J mal" for mal
proof unfold_locales
  fix q assume "q_start mal 0 0 q"
  then show "q_J mal q []"
    by (auto simp: q_start_def q_J_def queue_create_def q_list_def intro!: exI [of _ "[]"])
next
  fix q l x assume J: "q_J mal q l" and nb: "\<not> q_blocked x q"
  then obtain as xs where q: "mal_ok mal" "q_list q as xs" "pushed l = pulled l @ xs"
    "0 < q_max_size q \<longrightarrow> q_size q \<le> q_max_size q" by (auto simp: q_J_def)
  show "\<exists>r t. q_effect mal x q = Inr (r, t) \<and> q_J mal t (l @ [(x, r)])"
  proof (cases x)
    case (Push d)
    from push_list [OF q(2,1), of d] obtain q' bs where p: "queue_push mal d q = Inr (0, q')" "q_list q' bs (xs @ [d])"
      "q_max_size q' = q_max_size q" by blast
    have "q_size q' = q_size q + 1" using q(2) p(2) by (simp add: q_list_def)
    then have "0 < q_max_size q' \<longrightarrow> q_size q' \<le> q_max_size q'"
      using q(4) nb p(3) Push by (auto simp: push_blocked_def)
    then show ?thesis using p q(1,3) Push by (auto simp: q_J_def)
  next
    case Pull
    have "q_size q \<noteq> 0" using nb Pull by (simp add: pull_blocked_def)
    then obtain y ys where y: "xs = y # ys" using q(2) by (cases xs) (auto simp: q_list_def)
    from pull_list [OF q(2) [unfolded y]] obtain q' bs where p: "queue_pull q = Inr (y, q')" "q_list q' bs ys"
      "q_max_size q' = q_max_size q" by blast
    have "q_size q' = q_size q - 1" using q(2) p(2) y by (simp add: q_list_def)
    then show ?thesis using p q(1,3,4) y Pull by (auto simp: q_J_def)
  qed
qed

section \<open>The properties\<close>

text \<open>A \<open>malloc\<close> that gives the successor of the largest address in use.\<close>

definition next_address :: "(nat \<rightharpoonup> queue_node) \<Rightarrow> nat" where
  "next_address h = (if dom h = {} then 1 else Suc (Max (dom h)))"

lemma next_address_ok: "mal_ok next_address"
proof -
  have "Suc (Max (dom h)) \<notin> dom h" if "finite (dom h)" for h :: "nat \<rightharpoonup> queue_node"
    using Max_ge [OF that] by (metis Suc_n_not_le_n)
  then show ?thesis by (simp add: mal_ok_def next_address_def)
qed

abbreviation queue_runs :: "((nat \<rightharpoonup> queue_node) \<Rightarrow> nat) \<Rightarrow> (queue, qop, nat) mon \<Rightarrow> bool" where
  "queue_runs mal \<equiv> reachable (mon_init (q_start mal 0 0)) (mon_step cond_broadcast q_blocked (q_effect mal))"

text \<open>One thread has pushed 7, a second one is about to pull.\<close>

lemma demo_queue:
  "\<exists>m. queue_runs next_address m \<and> log m = [(Push 7, 0)] \<and> pcs m 1 = Asleep (Push 8) \<and> q_max_size (shared m) = 1"
proof -
  let ?R = "queue_runs next_address"
  let ?q = "queue_create 0 0 1"
  let ?p0 = "(\<lambda>_. Outside)(0 := Trying (Push 7))"
  obtain t as where t: "queue_push next_address 7 ?q = Inr (0, t)" "q_list t as [7]" "q_max_size t = 1"
    using push_list [of ?q "[]" "[]" next_address 7] next_address_ok
    by (auto simp: q_list_def queue_create_def)
  let ?m1 = "\<lparr>shared = t, pcs = (\<lambda>_. Outside), log = [(Push 7, 0 :: nat)]\<rparr>"
  have nb: "\<not> q_blocked (Push 7) ?q" "q_blocked (Push 8) t"
    using t(2,3) by (auto simp: push_blocked_def queue_create_def q_list_def)
  let ?m0 = "\<lparr>shared = ?q, pcs = (\<lambda>_. Outside), log = ([] :: (qop \<times> nat) list)\<rparr>"
  have "?R ?m0" by (rule reach_init) (use next_address_ok in \<open>auto simp: mon_init_def q_start_def\<close>)
  then have "?R (?m0\<lparr>pcs := ?p0\<rparr>)" using mon_step.call [of ?m0 0] by (auto intro: reach_step)
  moreover have "mon_step cond_broadcast q_blocked (q_effect next_address) (?m0\<lparr>pcs := ?p0\<rparr>)
      \<lparr>shared = t, pcs = (\<lambda>_. Outside), log = [(Push 7, 0)]\<rparr>"
    using mon_step.act [of "?m0\<lparr>pcs := ?p0\<rparr>" 0 "Push 7" q_blocked "q_effect next_address" 0 t cond_broadcast "\<lambda>_. Outside"]
      t(1) nb(1) by (simp add: cond_broadcast_def)
  ultimately have "?R \<lparr>shared = t, pcs = (\<lambda>_. Outside), log = [(Push 7, 0)]\<rparr>" by (rule reach_step)
  then have "?R (?m1\<lparr>pcs := (\<lambda>_. Outside)(1 := Trying (Push 8))\<rparr>)" using mon_step.call [of ?m1 1] by (auto intro: reach_step)
  then have "?R (?m1\<lparr>pcs := (\<lambda>_. Outside)(1 := Asleep (Push 8))\<rparr>)"
    using mon_step.wait [of "?m1\<lparr>pcs := (\<lambda>_. Outside)(1 := Trying (Push 8))\<rparr>" 1 "Push 8" q_blocked] nb(2)
    by (auto intro: reach_step)
  then show ?thesis using t(3) by (intro exI [of _ "?m1\<lparr>pcs := (\<lambda>_. Outside)(1 := Asleep (Push 8))\<rparr>"]) simp
qed





text \<open>\<open>queue_create\<close> does not set \<open>head\<close> and \<open>tail\<close>: when the memory that \<open>malloc\<close> returns is not
  zero there, the first \<open>queue_push\<close> follows a pointer to nowhere.\<close>

lemma queue_push_junk:
  "junk_tail \<noteq> 0 \<Longrightarrow> mal Map.empty \<noteq> junk_tail \<Longrightarrow>
    queue_push mal d (queue_create junk_head junk_tail n) = Inl Bad_access"
  by (auto simp: queue_push_def queue_create_def node_at_def Let_def)

text \<open>\<open>queue_destroy\<close> frees every node.\<close>

lemma queue_destroy_frees:
  "q_list q as xs \<Longrightarrow> length xs < k \<Longrightarrow> \<exists>q'. queue_destroy k q = Inr q' \<and> q_nodes q' = Map.empty"
  unfolding queue_destroy_def q_list_def using free_nodes_all linked_length by metis

end
