(* ===== verification/Semamore.thy ===== *)
theory Semamore
  imports Monitor
begin

text \<open>
  The bounded semaphore (\<open>critical_concurrency/semamore.c\<close>, the side of the merge conflict that has
  code): waiting blocks at 0, posting blocks at the maximum, and both wake one thread of the one
  condition variable with \<open>pthread_cond_signal\<close>.
\<close>

section \<open>The program\<close>

record semamore =
  sm_value :: int
  sm_max_val :: int

definition semm_init :: "int \<Rightarrow> int \<Rightarrow> semamore" where
  "semm_init value max_val = \<lparr>sm_value = value, sm_max_val = max_val\<rparr>"

datatype semop = Wait | Post

text \<open>The conditions of the two waiting loops.\<close>

fun semm_blocked :: "semop \<Rightarrow> semamore \<Rightarrow> bool" where
  "semm_blocked Wait s = (sm_value s = 0)"
| "semm_blocked Post s = (sm_value s = sm_max_val s)"

definition semm_wait :: "semamore \<Rightarrow> semamore" where
  "semm_wait s = s\<lparr>sm_value := int32 (sm_value s - 1)\<rparr>"

definition semm_post :: "semamore \<Rightarrow> semamore" where
  "semm_post s = s\<lparr>sm_value := int32 (sm_value s + 1)\<rparr>"

fun semm_effect :: "semop \<Rightarrow> semamore \<Rightarrow> (unit \<times> semamore) res" where
  "semm_effect Wait s = Inr ((), semm_wait s)"
| "semm_effect Post s = Inr ((), semm_post s)"

section \<open>The semaphore as a monitor\<close>

definition count_op :: "semop \<Rightarrow> (semop \<times> unit) list \<Rightarrow> int" where
  "count_op x l = int (length (filter (\<lambda>y. fst y = x) l))"

lemma count_op_simps [simp]:
  "count_op x [] = 0" "count_op x (l @ [(y, u)]) = count_op x l + (if y = x then 1 else 0)"
  by (simp_all add: count_op_def)

definition semm_start :: "int \<Rightarrow> int \<Rightarrow> semamore \<Rightarrow> bool" where
  "semm_start v mx s \<longleftrightarrow> 0 \<le> v \<and> v \<le> mx \<and> mx < 2 ^ 31 \<and> s = semm_init v mx"

definition semm_J :: "int \<Rightarrow> int \<Rightarrow> semamore \<Rightarrow> (semop \<times> unit) list \<Rightarrow> bool" where
  "semm_J v mx s l \<longleftrightarrow> mx < 2 ^ 31 \<and> sm_max_val s = mx \<and> 0 \<le> sm_value s \<and> sm_value s \<le> mx
     \<and> sm_value s = v + count_op Post l - count_op Wait l"

interpretation semm: monitor "semm_start v mx" cond_signal semm_blocked semm_effect "semm_J v mx" for v mx
proof unfold_locales
  fix s assume "semm_start v mx s"
  then show "semm_J v mx s []" by (auto simp: semm_start_def semm_J_def semm_init_def)
next
  fix s l x assume J: "semm_J v mx s l" and nb: "\<not> semm_blocked x s"
  show "\<exists>r t. semm_effect x s = Inr (r, t) \<and> semm_J v mx t (l @ [(x, r)])"
  proof (cases x)
    case Wait
    then have "int32 (sm_value s - 1) = sm_value s - 1" using J by (intro int32_id) (auto simp: semm_J_def)
    then show ?thesis using J nb Wait by (auto simp: semm_J_def semm_wait_def)
  next
    case Post
    then have "int32 (sm_value s + 1) = sm_value s + 1" using J nb by (intro int32_id) (auto simp: semm_J_def)
    then show ?thesis using J nb Post by (auto simp: semm_J_def semm_post_def)
  qed
qed

section \<open>Runs without spurious wake-ups\<close>

text \<open>The calls of one thread after the other, to build a run: thread \<open>t\<close> calls \<open>x\<close>, then sleeps or
  acts.\<close>

abbreviation semm_runs :: "int \<Rightarrow> int \<Rightarrow> (semamore, semop, unit) mon \<Rightarrow> bool" where
  "semm_runs v mx \<equiv> reachable (mon_init (semm_start v mx)) (mon_step cond_signal semm_blocked semm_effect)"

lemma run_call: "semm_runs v mx m \<Longrightarrow> pcs m t = Outside \<Longrightarrow> semm_runs v mx (m\<lparr>pcs := (pcs m)(t := Trying x)\<rparr>)"
  by (blast intro: reach_step mon_step.call)

lemma run_wait: "semm_runs v mx m \<Longrightarrow> pcs m t = Trying x \<Longrightarrow> semm_blocked x (shared m) \<Longrightarrow>
    semm_runs v mx (m\<lparr>pcs := (pcs m)(t := Asleep x)\<rparr>)"
  by (blast intro: reach_step mon_step.wait)

lemma run_act: "semm_runs v mx m \<Longrightarrow> pcs m t = Trying x \<Longrightarrow> \<not> semm_blocked x (shared m) \<Longrightarrow>
    semm_effect x (shared m) = Inr ((), s) \<Longrightarrow> cond_signal ((pcs m)(t := Outside)) q \<Longrightarrow>
    semm_runs v mx \<lparr>shared = s, pcs = q, log = log m @ [(x, ())]\<rparr>"
  by (blast intro: reach_step mon_step.act)

lemma signal_one: "p u = Asleep x \<Longrightarrow> cond_signal p (p(u := Trying x))"
  by (auto simp: cond_signal_def)

lemma signal_none: "(\<And>u x. p u \<noteq> Asleep x) \<Longrightarrow> cond_signal p p"
  by (auto simp: cond_signal_def)

section \<open>The properties\<close>

text \<open>In every run the value is the initial one plus the posts minus the waits that returned, and
  stays between 0 and the maximum.\<close>

theorem semamore_counts:
  assumes "reachable (mon_init (semm_start v mx)) (mon_step cond_signal semm_blocked semm_effect) m"
  shows "sm_value (shared m) = v + count_op Post (log m) - count_op Wait (log m)
    \<and> 0 \<le> sm_value (shared m) \<and> sm_value (shared m) \<le> mx"
  using semm.invariant_J [OF assms] by (simp add: semm_J_def)

lemma semm_start_reachable: "0 \<le> v \<Longrightarrow> v \<le> mx \<Longrightarrow> mx < 2 ^ 31 \<Longrightarrow>
    semm_runs v mx \<lparr>shared = semm_init v mx, pcs = (\<lambda>_. Outside), log = []\<rparr>"
  by (rule reach_init) (simp add: mon_init_def semm_start_def)

lemma semamore_counts_witness:
  "\<exists>m :: (semamore, semop, unit) mon. log m = [(Post, ())] \<and> sm_value (shared m) = 1"
proof -
  let ?m = "\<lparr>shared = semm_init 0 1, pcs = (\<lambda>_. Outside), log = []\<rparr>"
  have r: "semm_runs 0 1 (?m\<lparr>pcs := (\<lambda>_. Outside)(0 := Trying Post)\<rparr>)"
    using run_call [OF semm_start_reachable [of 0 1], of 0 Post] by simp
  have "cond_signal (\<lambda>_. Outside) (\<lambda>_. Outside :: semop pc)" by (rule signal_none) simp
  then have "semm_runs 0 1 \<lparr>shared = semm_post (semm_init 0 1), pcs = (\<lambda>_. Outside), log = [(Post, ())]\<rparr>"
    using run_act [OF r, of 0 Post "semm_post (semm_init 0 1)" "\<lambda>_. Outside"] by (simp add: semm_init_def fun_upd_idem)
  from semamore_counts [OF this] have "sm_value (semm_post (semm_init 0 1)) = 1" by (simp add: count_op_def)
  then show ?thesis
    by (intro exI [of _ "\<lparr>shared = semm_post (semm_init 0 1), pcs = (\<lambda>_. Outside), log = [(Post, ())]\<rparr>"]) simp
qed

text \<open>A wake-up can be lost, since one condition variable serves both kinds of waiting. With the
  maximum 1, a state can be reached where the value is 0, one thread sleeps in \<open>semm_wait\<close>, one
  sleeps in \<open>semm_post\<close> although it is not blocked, and no other thread is inside: the post that
  would free the first is never woken.\<close>

theorem semamore_lost_wakeup:
  "\<exists>m. reachable (mon_init (semm_start 0 1)) (mon_step cond_signal semm_blocked semm_effect) m
     \<and> sm_value (shared m) = 0 \<and> pcs m 2 = Asleep Wait \<and> pcs m 4 = Asleep Post
     \<and> \<not> semm_blocked Post (shared m) \<and> {t. pcs m t \<noteq> Outside} = {2, 4}"
proof -
  define s0 s1 where "s0 = semm_init 0 1" and "s1 = semm_init 1 1"
  have e: "semm_effect Post s0 = Inr ((), s1)" "semm_effect Wait s1 = Inr ((), s0)"
    "semm_blocked Wait s0" "semm_blocked Post s1" "\<not> semm_blocked Post s0" "\<not> semm_blocked Wait s1"
    by (simp_all add: s0_def s1_def semm_init_def semm_post_def semm_wait_def int32_def)
  let ?st = "\<lambda>s p l. \<lparr>shared = s, pcs = p, log = l :: (semop \<times> unit) list\<rparr>"
  let ?W = "\<lambda>_. Outside :: semop pc"
  have r0: "semm_runs 0 1 (?st s0 ?W [])" unfolding s0_def by (rule semm_start_reachable) simp_all
  have r1: "semm_runs 0 1 (?st s0 (?W(1 := Asleep Wait)) [])"
    using run_wait [OF run_call [OF r0, of 1 Wait], of 1 Wait] e(3) by simp
  have r2: "semm_runs 0 1 (?st s0 (?W(1 := Asleep Wait, 2 := Asleep Wait)) [])"
    using run_wait [OF run_call [OF r1, of 2 Wait], of 2 Wait] e(3) by simp
  have r3: "semm_runs 0 1 (?st s1 (?W(1 := Trying Wait, 2 := Asleep Wait)) [(Post, ())])"
    using run_act [OF run_call [OF r2, of 3 Post], of 3 Post s1 "?W(1 := Trying Wait, 2 := Asleep Wait)"]
      e(1,5) signal_one [of "?W(1 := Asleep Wait, 2 := Asleep Wait)" 1 Wait]
    by (simp add: fun_upd_twist fun_upd_idem)
  have r4: "semm_runs 0 1 (?st s1 (?W(1 := Trying Wait, 2 := Asleep Wait, 4 := Asleep Post)) [(Post, ())])"
    using run_wait [OF run_call [OF r3, of 4 Post], of 4 Post] e(4) by simp
  have r5: "semm_runs 0 1 (?st s0 (?W(2 := Trying Wait, 4 := Asleep Post)) [(Post, ()), (Wait, ())])"
    using run_act [OF r4, of 1 Wait s0 "?W(2 := Trying Wait, 4 := Asleep Post)"]
      e(2,6) signal_one [of "?W(2 := Asleep Wait, 4 := Asleep Post)" 2 Wait]
    by (simp add: fun_upd_twist fun_upd_idem)
  have r6: "semm_runs 0 1 (?st s0 (?W(2 := Asleep Wait, 4 := Asleep Post)) [(Post, ()), (Wait, ())])"
    using run_wait [OF r5, of 2 Wait] e(3) by (simp add: fun_upd_twist)
  show ?thesis
    by (rule exI [of _ "?st s0 (?W(2 := Asleep Wait, 4 := Asleep Post)) [(Post, ()), (Wait, ())]"])
      (use r6 e(5) in \<open>auto simp: s0_def semm_init_def\<close>)
qed

end
