(* ===== verification/Barrier.thy ===== *)
theory Barrier
  imports Prelude
begin

text \<open>
  The reusable barrier (\<open>critical_concurrency/barrier.c\<close>) for the threads \<open>0 ..< n\<close>. The code
  between two waits on the condition variable holds the mutex and is one step.
\<close>

section \<open>The program\<close>

record barrier =
  n_threads :: nat
  count :: nat
  times_used :: nat

definition barrier_init :: "nat \<Rightarrow> barrier" where
  "barrier_init num_threads = \<lparr>n_threads = num_threads, count = 0, times_used = 0\<rparr>"

text \<open>
  Where a thread is: outside of \<open>barrier_wait\<close>, asleep in the first or in the second waiting loop,
  or woken up there and about to test the condition of the loop. \<open>arrived\<close> and \<open>left\<close> count how
  often it has entered and left.
\<close>

datatype bpc = Out | Sleep1 | Woken1 | Sleep2 | Woken2

record bstate =
  bar :: barrier
  bpcs :: "nat \<Rightarrow> bpc"
  arrived :: "nat \<Rightarrow> nat"
  left :: "nat \<Rightarrow> nat"

fun wake :: "bpc \<Rightarrow> bpc" where
  "wake Sleep1 = Woken1"
| "wake Sleep2 = Woken2"
| "wake p = p"

definition broadcast :: "bstate \<Rightarrow> bstate" where
  "broadcast s = s\<lparr>bpcs := (\<lambda>t. wake (bpcs s t))\<rparr>"

text \<open>The end of \<open>barrier_wait\<close>, behind the second loop.\<close>

definition leave :: "nat \<Rightarrow> bstate \<Rightarrow> bstate" where
  "leave t s = s\<lparr>bar := (bar s)\<lparr>times_used := times_used (bar s) + 1\<rparr>,
     bpcs := (bpcs s)(t := Out), left := (left s)(t := left s t + 1)\<rparr>"

definition second_loop :: "nat \<Rightarrow> bstate \<Rightarrow> bstate" where
  "second_loop t s = (if count (bar s) < n_threads (bar s) then s\<lparr>bpcs := (bpcs s)(t := Sleep2)\<rparr> else leave t s)"

text \<open>From \<open>count++\<close> on.\<close>

definition arrive :: "nat \<Rightarrow> bstate \<Rightarrow> bstate" where
  "arrive t s =
     (let s = s\<lparr>bar := (bar s)\<lparr>count := count (bar s) + 1\<rparr>, arrived := (arrived s)(t := arrived s t + 1)\<rparr>;
          s = (if count (bar s) = n_threads (bar s)
               then let s = broadcast s in s\<lparr>bar := (bar s)\<lparr>times_used := 0\<rparr>\<rparr> else s)
      in second_loop t s)"

definition first_loop :: "nat \<Rightarrow> bstate \<Rightarrow> bstate" where
  "first_loop t s =
     (if times_used (bar s) < n_threads (bar s) then s\<lparr>bpcs := (bpcs s)(t := Sleep1)\<rparr> else arrive t s)"

definition enter :: "nat \<Rightarrow> bstate \<Rightarrow> bstate" where
  "enter t s =
     (if count (bar s) = n_threads (bar s) then
        let s = (if times_used (bar s) = n_threads (bar s)
                 then broadcast (s\<lparr>bar := (bar s)\<lparr>count := 0\<rparr>\<rparr>) else s)
        in first_loop t s
      else arrive t s)"

text \<open>The steps of the threads. Spurious wake-ups are a rule of their own.\<close>

inductive bar_step :: "nat \<Rightarrow> bstate \<Rightarrow> bstate \<Rightarrow> bool" for n where
  enter: "t < n \<Longrightarrow> bpcs s t = Out \<Longrightarrow> bar_step n s (enter t s)"
| first: "t < n \<Longrightarrow> bpcs s t = Woken1 \<Longrightarrow> bar_step n s (first_loop t s)"
| second: "t < n \<Longrightarrow> bpcs s t = Woken2 \<Longrightarrow> bar_step n s (second_loop t s)"

definition bar_init :: "nat \<Rightarrow> bstate \<Rightarrow> bool" where
  "bar_init n s \<longleftrightarrow> 0 < n \<and> s = \<lparr>bar = barrier_init n, bpcs = (\<lambda>_. Out), arrived = (\<lambda>_. 0), left = (\<lambda>_. 0)\<rparr>"

inductive bar_step_spurious :: "nat \<Rightarrow> bstate \<Rightarrow> bstate \<Rightarrow> bool" for n where
  step: "bar_step n s t \<Longrightarrow> bar_step_spurious n s t"
| spurious: "bpcs s t = Sleep1 \<or> bpcs s t = Sleep2 \<Longrightarrow>
    bar_step_spurious n s (s\<lparr>bpcs := (bpcs s)(t := wake (bpcs s t))\<rparr>)"

section \<open>The two phases\<close>

text \<open>
  Filling: round \<open>r\<close> is open, the threads in \<open>Sleep2\<close> have arrived. Draining: all have arrived, the
  threads in \<open>Woken2\<close> have not yet left.
\<close>

definition filling :: "nat \<Rightarrow> nat \<Rightarrow> bstate \<Rightarrow> bool" where
  "filling n r s \<longleftrightarrow> 0 < n \<and> n_threads (bar s) = n \<and> count (bar s) < n
     \<and> count (bar s) = card {t. t < n \<and> bpcs s t = Sleep2}
     \<and> (\<forall>t<n. bpcs s t = Out \<or> bpcs s t = Woken1 \<and> times_used (bar s) = n \<or> bpcs s t = Sleep2)
     \<and> (\<forall>t<n. arrived s t = (if bpcs s t = Sleep2 then r + 1 else r) \<and> left s t = r)"

definition draining :: "nat \<Rightarrow> nat \<Rightarrow> bstate \<Rightarrow> bool" where
  "draining n r s \<longleftrightarrow> 0 < n \<and> n_threads (bar s) = n \<and> count (bar s) = n
     \<and> times_used (bar s) + card {t. t < n \<and> bpcs s t = Woken2} = n
     \<and> (\<forall>t<n. bpcs s t = Out \<or> bpcs s t = Sleep1 \<or> bpcs s t = Woken2)
     \<and> (\<exists>t<n. bpcs s t \<noteq> Sleep1)
     \<and> (\<forall>t<n. arrived s t = r + 1 \<and> left s t = (if bpcs s t = Woken2 then r else r + 1))"

lemma card_insert_below:
  assumes "t < (n::nat)" and "\<not> P t"
  shows "card {u. u < n \<and> (u = t \<or> P u)} = Suc (card {u. u < n \<and> P u})"
proof -
  have "{u. u < n \<and> (u = t \<or> P u)} = insert t {u. u < n \<and> P u}" using assms by auto
  then show ?thesis using assms by simp
qed

lemma card_remove_below:
  assumes "t < (n::nat)" and "P t"
  shows "Suc (card {u. u < n \<and> u \<noteq> t \<and> P u}) = card {u. u < n \<and> P u}"
proof -
  have "{u. u < n \<and> P u} = insert t {u. u < n \<and> u \<noteq> t \<and> P u}" using assms by auto
  then show ?thesis by simp
qed

lemma card_below_full: "card {u. u < (n::nat) \<and> P u} = n \<longleftrightarrow> (\<forall>u<n. P u)"
proof
  assume c: "card {u. u < n \<and> P u} = n"
  then have "{u. u < n \<and> P u} = {..<n}" by (intro card_subset_eq) auto
  then show "\<forall>u<n. P u" by auto
next
  assume "\<forall>u<n. P u"
  then have "{u. u < n \<and> P u} = {..<n}" by auto
  then show "card {u. u < n \<and> P u} = n" by simp
qed

lemma arrive_filling:
  assumes f: "filling n r s" and t: "t < n" "bpcs s t = Out \<or> bpcs s t = Woken1"
  shows "filling n r (arrive t s) \<or> draining n r (arrive t s)"
proof -
  let ?c = "count (bar s)" and ?S = "\<lambda>u. bpcs s u = Sleep2"
  have F: "0 < n" "n_threads (bar s) = n" "?c < n" "?c = card {u. u < n \<and> ?S u}"
    "\<And>u. u < n \<Longrightarrow> bpcs s u = Out \<or> bpcs s u = Woken1 \<and> times_used (bar s) = n \<or> ?S u"
    "\<And>u. u < n \<Longrightarrow> arrived s u = (if ?S u then r + 1 else r)" "\<And>u. u < n \<Longrightarrow> left s u = r"
    using f unfolding filling_def by blast+
  have nt: "\<not> ?S t" using t(2) by auto
  note ci = card_insert_below [of t n ?S, OF t(1) nt]
  show ?thesis
  proof (cases "?c + 1 = n")
    case False
    then have "arrive t s = s\<lparr>bar := (bar s)\<lparr>count := ?c + 1\<rparr>, arrived := (arrived s)(t := arrived s t + 1),
        bpcs := (bpcs s)(t := Sleep2)\<rparr>"
      using F(2,3) by (simp add: arrive_def second_loop_def)
    moreover have "{u. u < n \<and> ((bpcs s)(t := Sleep2)) u = Sleep2} = {u. u < n \<and> (u = t \<or> ?S u)}" by auto
    ultimately have "filling n r (arrive t s)"
      unfolding filling_def using F False nt t(1) ci by auto
    then show ?thesis ..
  next
    case True
    then have all: "\<forall>u<n. u = t \<or> ?S u" using ci F(4) card_below_full [of n "\<lambda>u. u = t \<or> ?S u"] by simp
    have a: "arrive t s = s\<lparr>bar := (bar s)\<lparr>count := n, times_used := 1\<rparr>, arrived := (arrived s)(t := arrived s t + 1),
        bpcs := (\<lambda>u. wake (bpcs s u))(t := Out), left := (left s)(t := left s t + 1)\<rparr>"
      using F(2) True by (simp add: arrive_def second_loop_def broadcast_def leave_def Let_def)
    have "{u. u < n \<and> ((\<lambda>u. wake (bpcs s u))(t := Out)) u = Woken2} = {u. u < n \<and> u \<noteq> t \<and> True}"
      using all by auto
    then have "draining n r (arrive t s)"
      unfolding draining_def a using F all nt t(1) card_remove_below [of t n "\<lambda>_. True"] by auto
    then show ?thesis ..
  qed
qed

lemma enter_draining:
  assumes d: "draining n r s" and t: "t < n" "bpcs s t = Out"
  shows "draining n r (enter t s) \<or> filling n (r + 1) (enter t s) \<or> draining n (r + 1) (enter t s)"
proof -
  have D: "0 < n" "n_threads (bar s) = n" "count (bar s) = n"
    "times_used (bar s) + card {t. t < n \<and> bpcs s t = Woken2} = n"
    "\<And>u. u < n \<Longrightarrow> bpcs s u = Out \<or> bpcs s u = Sleep1 \<or> bpcs s u = Woken2"
    "\<And>u. u < n \<Longrightarrow> arrived s u = r + 1" "\<And>u. u < n \<Longrightarrow> left s u = (if bpcs s u = Woken2 then r else r + 1)"
    using d unfolding draining_def by blast+
  show ?thesis
  proof (cases "times_used (bar s) = n")
    case False
    then have lt: "times_used (bar s) < n" "card {t. t < n \<and> bpcs s t = Woken2} \<noteq> 0" using D(4) by linarith+
    then have e: "enter t s = s\<lparr>bpcs := (bpcs s)(t := Sleep1)\<rparr>"
      using D(2,3) False by (simp add: enter_def first_loop_def)
    have "{u. u < n \<and> bpcs s u = Woken2} \<noteq> {}" using lt(2) by (metis card.empty)
    then obtain u where "u < n" "bpcs s u = Woken2" by blast
    then have "\<exists>u<n. ((bpcs s)(t := Sleep1)) u \<noteq> Sleep1" using t(2) by (intro exI [of _ u]) auto
    moreover have "{u. u < n \<and> ((bpcs s)(t := Sleep1)) u = Woken2} = {u. u < n \<and> bpcs s u = Woken2}" using t(2) by auto
    ultimately have "draining n r (enter t s)" unfolding draining_def e using D t by auto
    then show ?thesis ..
  next
    case True
    then have none: "\<And>u. u < n \<Longrightarrow> bpcs s u \<noteq> Woken2" using D(4) by auto
    let ?s = "broadcast (s\<lparr>bar := (bar s)\<lparr>count := 0\<rparr>\<rparr>)"
    have e: "enter t s = arrive t ?s"
      using True D(2,3) by (simp add: enter_def first_loop_def broadcast_def)
    have pc: "bpcs ?s u = Out \<or> bpcs ?s u = Woken1" if "u < n" for u
      using D(5) [OF that] none [OF that] by (auto simp: broadcast_def)
    have p0: "\<And>u. u < n \<Longrightarrow> bpcs ?s u \<noteq> Sleep2" using pc by force
    then have "{u. u < n \<and> bpcs ?s u = Sleep2} = {}" by blast
    then have "filling n (r + 1) ?s"
      unfolding filling_def using D(1,2,6,7) True pc none p0 by (simp add: broadcast_def)
    moreover have "bpcs ?s t = Out" using t(2) by (simp add: broadcast_def)
    ultimately show ?thesis unfolding e using arrive_filling t(1) by blast
  qed
qed

lemma second_draining:
  assumes d: "draining n r s" and t: "t < n" "bpcs s t = Woken2"
  shows "draining n r (second_loop t s)"
proof -
  have D: "0 < n" "n_threads (bar s) = n" "count (bar s) = n"
    "times_used (bar s) + card {t. t < n \<and> bpcs s t = Woken2} = n"
    using d unfolding draining_def by blast+
  have e: "second_loop t s = leave t s" using D(2,3) by (simp add: second_loop_def)
  have "{u. u < n \<and> ((bpcs s)(t := Out)) u = Woken2} = {u. u < n \<and> u \<noteq> t \<and> bpcs s u = Woken2}" by auto
  moreover have "\<exists>u<n. ((bpcs s)(t := Out)) u \<noteq> Sleep1" using t(1) by (intro exI [of _ t]) simp
  ultimately show ?thesis
    using d t card_remove_below [of t n "\<lambda>u. bpcs s u = Woken2"] unfolding draining_def e leave_def by auto
qed

definition bar_inv :: "nat \<Rightarrow> bstate \<Rightarrow> bool" where
  "bar_inv n s \<longleftrightarrow> (\<exists>r. filling n r s \<or> draining n r s)"

interpretation barrier: transition_system "bar_init n" "bar_step n" "bar_inv n" for n
proof unfold_locales
  fix s assume "bar_init n s"
  then have "filling n 0 s" by (auto simp: bar_init_def filling_def barrier_init_def)
  then show "bar_inv n s" by (auto simp: bar_inv_def)
next
  fix s s' assume "bar_inv n s" "bar_step n s s'"
  then obtain r where r: "filling n r s \<or> draining n r s" by (auto simp: bar_inv_def)
  from \<open>bar_step n s s'\<close> have "\<exists>r. filling n r s' \<or> draining n r s'"
  proof (cases rule: bar_step.cases)
    case (enter t)
    show ?thesis
      using r
    proof
      assume f: "filling n r s"
      then have "enter t s = arrive t s" by (auto simp: enter_def filling_def)
      then show ?thesis using arrive_filling [OF f enter(2)] enter by auto
    next
      assume "draining n r s"
      from enter_draining [OF this enter(2,3)] enter(1) show ?thesis by auto
    qed
  next
    case (first t)
    have f: "filling n r s" using r first(2,3) by (fastforce simp: draining_def)
    then have "first_loop t s = arrive t s" using first(2,3) by (fastforce simp: first_loop_def filling_def)
    then show ?thesis using arrive_filling [OF f first(2)] first by auto
  next
    case (second t)
    have "draining n r s" using r second(2,3) by (fastforce simp: filling_def)
    from second_draining [OF this second(2,3)] second(1) show ?thesis by blast
  qed
  then show "bar_inv n s'" by (simp add: bar_inv_def)
qed

section \<open>The properties\<close>

text \<open>C23: as long as no thread wakes up by itself, no thread leaves its \<open>k\<close>-th wait before every thread
  has entered its \<open>k\<close>-th, in whatever round; and never do all threads sleep.\<close>

theorem barrier_safe:
  assumes "reachable (bar_init n) (bar_step n) s"
  shows "(\<forall>t u. t < n \<longrightarrow> u < n \<longrightarrow> left s t \<le> arrived s u) \<and> (\<exists>t<n. bpcs s t \<noteq> Sleep1 \<and> bpcs s t \<noteq> Sleep2)"
proof -
  obtain r where "filling n r s \<or> draining n r s"
    using barrier.reachable_inv [OF assms] by (auto simp: bar_inv_def)
  then show ?thesis
  proof
    assume f: "filling n r s"
    then have "card {t. t < n \<and> bpcs s t = Sleep2} \<noteq> n" by (auto simp: filling_def)
    then obtain t where "t < n" "bpcs s t \<noteq> Sleep2" using card_below_full [of n "\<lambda>t. bpcs s t = Sleep2"] by blast
    moreover from this have "bpcs s t \<noteq> Sleep1" using f by (fastforce simp: filling_def)
    ultimately show ?thesis using f by (fastforce simp: filling_def)
  next
    assume "draining n r s"
    then show ?thesis by (fastforce simp: draining_def)
  qed
qed

text \<open>A state where thread 0 has arrived and sleeps.\<close>

definition start2 :: bstate where
  "start2 = \<lparr>bar = barrier_init 2, bpcs = (\<lambda>_. Out), arrived = (\<lambda>_. 0), left = (\<lambda>_. 0)\<rparr>"

lemma barrier_safe_witness:
  "bpcs (enter 0 start2) 0 = Sleep2 \<and> left (enter 0 start2) 0 \<le> arrived (enter 0 start2) 1
    \<and> (\<exists>t<2. bpcs (enter 0 start2) t \<noteq> Sleep1 \<and> bpcs (enter 0 start2) t \<noteq> Sleep2)"
proof -
  have "reachable (bar_init 2) (bar_step 2) start2" by (rule reach_init) (simp add: bar_init_def start2_def)
  moreover have "bar_step 2 start2 (enter 0 start2)" by (rule bar_step.enter) (simp_all add: start2_def)
  ultimately have "reachable (bar_init 2) (bar_step 2) (enter 0 start2)" by (rule reach_step)
  from barrier_safe [OF this] have "left (enter 0 start2) 0 \<le> arrived (enter 0 start2) 1"
    "\<exists>t<2. bpcs (enter 0 start2) t \<noteq> Sleep1 \<and> bpcs (enter 0 start2) t \<noteq> Sleep2" by simp_all
  moreover have "bpcs (enter 0 start2) 0 = Sleep2"
    by (simp add: start2_def barrier_init_def enter_def arrive_def second_loop_def)
  ultimately show ?thesis by blast
qed

text \<open>The first waiting loop does not hold against a spurious wake-up: when all have left a round
  and the count is not yet reset, a thread that wakes up there by itself passes the barrier a second
  time although the other one has entered only once.\<close>

theorem barrier_spurious_wakeup:
  "\<exists>s. reachable (bar_init 2) (bar_step_spurious 2) s \<and> left s 1 = 2 \<and> arrived s 0 = 1"
proof -
  let ?R = "reachable (bar_init 2) (bar_step_spurious 2)"
  define s1 where "s1 = enter 1 (enter 1 (enter 0 start2))"
  define s2 where "s2 = second_loop 0 s1"
  define s3 where "s3 = s2\<lparr>bpcs := (bpcs s2)(1 := wake (bpcs s2 1))\<rparr>"
  note defs = start2_def barrier_init_def enter_def arrive_def second_loop_def first_loop_def broadcast_def leave_def Let_def
  have pc: "bpcs start2 0 = Out" "bpcs (enter 0 start2) 1 = Out" "bpcs (enter 1 (enter 0 start2)) 1 = Out"
    "bpcs s1 0 = Woken2" "bpcs s2 1 = Sleep1" "bpcs s3 1 = Woken1"
    by (simp_all add: s1_def s2_def s3_def defs)
  have st: "\<And>s t. t < 2 \<Longrightarrow> bpcs s t = Out \<Longrightarrow> ?R s \<Longrightarrow> ?R (enter t s)"
    by (blast intro: reach_step bar_step_spurious.step bar_step.enter)
  have "?R start2" by (rule reach_init) (simp add: bar_init_def start2_def)
  then have "?R s1" unfolding s1_def using pc(1-3) by (intro st) simp_all
  moreover have "bar_step_spurious 2 s1 s2" unfolding s2_def using pc(4) by (intro bar_step_spurious.step bar_step.second) simp_all
  ultimately have "?R s2" by (rule reach_step)
  moreover have "bar_step_spurious 2 s2 s3" unfolding s3_def using pc(5) by (intro bar_step_spurious.spurious) simp
  ultimately have "?R s3" by (rule reach_step)
  moreover have "bar_step_spurious 2 s3 (first_loop 1 s3)" using pc(6) by (intro bar_step_spurious.step bar_step.first) simp_all
  ultimately have "?R (first_loop 1 s3)" by (rule reach_step)
  moreover have "left (first_loop 1 s3) 1 = 2 \<and> arrived (first_loop 1 s3) 0 = 1"
    by (simp add: s1_def s2_def s3_def defs)
  ultimately show ?thesis by blast
qed

end
