(* ===== verification/Rendezvous.thy ===== *)
theory Rendezvous
  imports Prelude "HOL-Library.Word"
begin

text \<open>
  The rendezvous of two threads with two semaphores (\<open>critical_concurrency/rendezvous_sol.c\<close>): each
  thread decodes one text, and prints the other text only after both are decoded. A text is the list
  of its characters before the terminating zero.
\<close>

section \<open>The program\<close>

datatype rpc = Work nat | PostSem | WaitSem | Print | Done

record rstate =
  quote_A :: "8 word list"
  quote_B :: "8 word list"
  sem_a :: nat
  sem_b :: nat
  pc1 :: rpc
  pc2 :: rpc
  printed_A :: "8 word list option"
  printed_B :: "8 word list option"

text \<open>One turn of the decoding loop at index \<open>i\<close>; \<open>None\<close> is the end of the text.\<close>

definition decode_at :: "nat \<Rightarrow> 8 word list \<Rightarrow> 8 word list option" where
  "decode_at i q = (if i < length q then Some (q[i := q ! i - 1]) else None)"

text \<open>The steps of \<open>modifyA_printB\<close>; a thread that waits on a semaphore at 0 has none.\<close>

definition modifyA_printB :: "rstate \<Rightarrow> rstate option" where
  "modifyA_printB s = (case pc1 s of
     Work i \<Rightarrow> (case decode_at i (quote_A s) of
         Some q \<Rightarrow> Some (s\<lparr>quote_A := q, pc1 := Work (i + 1)\<rparr>)
       | None \<Rightarrow> Some (s\<lparr>pc1 := PostSem\<rparr>))
   | PostSem \<Rightarrow> Some (s\<lparr>sem_a := sem_a s + 1, pc1 := WaitSem\<rparr>)
   | WaitSem \<Rightarrow> if 0 < sem_b s then Some (s\<lparr>sem_b := sem_b s - 1, pc1 := Print\<rparr>) else None
   | Print \<Rightarrow> Some (s\<lparr>printed_B := Some (quote_B s), pc1 := Done\<rparr>)
   | Done \<Rightarrow> None)"

definition modifyB_printA :: "rstate \<Rightarrow> rstate option" where
  "modifyB_printA s = (case pc2 s of
     Work i \<Rightarrow> (case decode_at i (quote_B s) of
         Some q \<Rightarrow> Some (s\<lparr>quote_B := q, pc2 := Work (i + 1)\<rparr>)
       | None \<Rightarrow> Some (s\<lparr>pc2 := PostSem\<rparr>))
   | PostSem \<Rightarrow> Some (s\<lparr>sem_b := sem_b s + 1, pc2 := WaitSem\<rparr>)
   | WaitSem \<Rightarrow> if 0 < sem_a s then Some (s\<lparr>sem_a := sem_a s - 1, pc2 := Print\<rparr>) else None
   | Print \<Rightarrow> Some (s\<lparr>printed_A := Some (quote_A s), pc2 := Done\<rparr>)
   | Done \<Rightarrow> None)"

inductive rv_step :: "rstate \<Rightarrow> rstate \<Rightarrow> bool" where
  thread1: "modifyA_printB s = Some t \<Longrightarrow> rv_step s t"
| thread2: "modifyB_printA s = Some t \<Longrightarrow> rv_step s t"

text \<open>\<open>main\<close> initialises both semaphores to 0 and starts the threads.\<close>

definition rv_main :: "8 word list \<Rightarrow> 8 word list \<Rightarrow> rstate" where
  "rv_main a b = \<lparr>quote_A = a, quote_B = b, sem_a = 0, sem_b = 0, pc1 = Work 0, pc2 = Work 0,
     printed_A = None, printed_B = None\<rparr>"

section \<open>The invariant\<close>

definition decode :: "8 word list \<Rightarrow> 8 word list" where
  "decode q = map (\<lambda>c. c - 1) q"

text \<open>The text \<open>q\<close> while the thread that decodes \<open>q0\<close> is at \<open>p\<close>.\<close>

definition decoding :: "8 word list \<Rightarrow> rpc \<Rightarrow> 8 word list \<Rightarrow> bool" where
  "decoding q0 p q \<longleftrightarrow> (case p of
     Work i \<Rightarrow> i \<le> length q0 \<and> q = decode (take i q0) @ drop i q0
   | _ \<Rightarrow> q = decode q0)"

fun posted :: "rpc \<Rightarrow> bool" where
  "posted (Work i) = False"
| "posted PostSem = False"
| "posted _ = True"

fun waited :: "rpc \<Rightarrow> bool" where
  "waited Print = True"
| "waited Done = True"
| "waited _ = False"

text \<open>The semaphore of a thread at \<open>p\<close> when the other is at \<open>q\<close>.\<close>

definition sem_value :: "rpc \<Rightarrow> rpc \<Rightarrow> nat" where
  "sem_value p q = (if posted p \<and> \<not> waited q then 1 else 0)"

definition rv_inv :: "8 word list \<Rightarrow> 8 word list \<Rightarrow> rstate \<Rightarrow> bool" where
  "rv_inv a b s \<longleftrightarrow> decoding a (pc1 s) (quote_A s) \<and> decoding b (pc2 s) (quote_B s)
     \<and> sem_a s = sem_value (pc1 s) (pc2 s) \<and> sem_b s = sem_value (pc2 s) (pc1 s)
     \<and> (waited (pc1 s) \<longrightarrow> posted (pc2 s)) \<and> (waited (pc2 s) \<longrightarrow> posted (pc1 s))
     \<and> printed_B s = (if pc1 s = Done then Some (decode b) else None)
     \<and> printed_A s = (if pc2 s = Done then Some (decode a) else None)"

lemma decode_at_step:
  assumes "decoding q0 (Work i) q"
  shows "case decode_at i q of Some q' \<Rightarrow> decoding q0 (Work (i + 1)) q' | None \<Rightarrow> decoding q0 PostSem q"
proof (cases "i < length q0")
  case True
  then have "q = decode (take i q0) @ q0 ! i # drop (Suc i) q0"
    using assms by (simp add: decoding_def Cons_nth_drop_Suc)
  then have "decode_at i q = Some (decode (take i q0) @ (q0 ! i - 1) # drop (Suc i) q0)"
    using True by (simp add: decode_at_def decode_def list_update_append nth_append)
  then show ?thesis using True by (simp add: decoding_def decode_def take_Suc_conv_app_nth)
next
  case False
  then show ?thesis using assms by (simp add: decoding_def decode_at_def decode_def)
qed

lemma posted_decoded: "decoding q0 p q \<Longrightarrow> posted p \<Longrightarrow> q = decode q0"
  by (cases p) (simp_all add: decoding_def)

lemma decoding_simps [simp]:
  "decoding q0 PostSem q \<longleftrightarrow> q = decode q0" "decoding q0 WaitSem q \<longleftrightarrow> q = decode q0"
  "decoding q0 Print q \<longleftrightarrow> q = decode q0" "decoding q0 Done q \<longleftrightarrow> q = decode q0"
  by (simp_all add: decoding_def)

lemma rv_step1:
  assumes i: "rv_inv a b s" and t: "modifyA_printB s = Some t"
  shows "rv_inv a b t"
proof (cases "pc1 s")
  case (Work i)
  then have d: "decoding a (Work i) (quote_A s)" using i by (simp add: rv_inv_def)
  show ?thesis
  proof (cases "decode_at i (quote_A s)")
    case None
    then have "t = s\<lparr>pc1 := PostSem\<rparr>" using t Work by (simp add: modifyA_printB_def)
    then show ?thesis using decode_at_step [OF d] i Work None by (simp add: rv_inv_def sem_value_def)
  next
    case (Some r)
    then have "t = s\<lparr>quote_A := r, pc1 := Work (i + 1)\<rparr>" using t Work by (simp add: modifyA_printB_def)
    then show ?thesis using decode_at_step [OF d] i Work Some by (simp add: rv_inv_def sem_value_def)
  qed
next
  case PostSem
  then have "t = s\<lparr>sem_a := sem_a s + 1, pc1 := WaitSem\<rparr>" using t by (simp add: modifyA_printB_def)
  then show ?thesis using i PostSem by (simp add: rv_inv_def sem_value_def)
next
  case WaitSem
  then have "0 < sem_b s" "t = s\<lparr>sem_b := sem_b s - 1, pc1 := Print\<rparr>" using t by (auto simp: modifyA_printB_def split: if_splits)
  then show ?thesis using i WaitSem by (simp add: rv_inv_def sem_value_def split: if_splits)
next
  case Print
  then have "posted (pc2 s)" using i by (simp add: rv_inv_def)
  then have "quote_B s = decode b" using i posted_decoded by (auto simp: rv_inv_def)
  moreover have "t = s\<lparr>printed_B := Some (quote_B s), pc1 := Done\<rparr>" using t Print by (simp add: modifyA_printB_def)
  ultimately show ?thesis using i Print by (simp add: rv_inv_def sem_value_def)
next
  case Done
  then show ?thesis using t by (simp add: modifyA_printB_def)
qed

lemma rv_step2:
  assumes i: "rv_inv a b s" and t: "modifyB_printA s = Some t"
  shows "rv_inv a b t"
proof (cases "pc2 s")
  case (Work i)
  then have d: "decoding b (Work i) (quote_B s)" using i by (simp add: rv_inv_def)
  show ?thesis
  proof (cases "decode_at i (quote_B s)")
    case None
    then have "t = s\<lparr>pc2 := PostSem\<rparr>" using t Work by (simp add: modifyB_printA_def)
    then show ?thesis using decode_at_step [OF d] i Work None by (simp add: rv_inv_def sem_value_def)
  next
    case (Some r)
    then have "t = s\<lparr>quote_B := r, pc2 := Work (i + 1)\<rparr>" using t Work by (simp add: modifyB_printA_def)
    then show ?thesis using decode_at_step [OF d] i Work Some by (simp add: rv_inv_def sem_value_def)
  qed
next
  case PostSem
  then have "t = s\<lparr>sem_b := sem_b s + 1, pc2 := WaitSem\<rparr>" using t by (simp add: modifyB_printA_def)
  then show ?thesis using i PostSem by (simp add: rv_inv_def sem_value_def)
next
  case WaitSem
  then have "0 < sem_a s" "t = s\<lparr>sem_a := sem_a s - 1, pc2 := Print\<rparr>" using t by (auto simp: modifyB_printA_def split: if_splits)
  then show ?thesis using i WaitSem by (simp add: rv_inv_def sem_value_def split: if_splits)
next
  case Print
  then have "posted (pc1 s)" using i by (simp add: rv_inv_def)
  then have "quote_A s = decode a" using i posted_decoded by (auto simp: rv_inv_def)
  moreover have "t = s\<lparr>printed_A := Some (quote_A s), pc2 := Done\<rparr>" using t Print by (simp add: modifyB_printA_def)
  ultimately show ?thesis using i Print by (simp add: rv_inv_def sem_value_def)
next
  case Done
  then show ?thesis using t by (simp add: modifyB_printA_def)
qed

interpretation rendezvous: transition_system "\<lambda>s. s = rv_main a b" rv_step "rv_inv a b" for a b
proof unfold_locales
  fix s assume "s = rv_main a b"
  then show "rv_inv a b s" by (simp add: rv_inv_def rv_main_def decoding_def decode_def sem_value_def)
next
  fix s t assume "rv_inv a b s" "rv_step s t"
  then show "rv_inv a b t" by (auto elim!: rv_step.cases intro: rv_step1 rv_step2)
qed

lemma rv_progress:
  assumes "rv_inv a b s" and "\<not> (pc1 s = Done \<and> pc2 s = Done)"
  shows "\<exists>t. rv_step s t"
proof -
  have "modifyA_printB s \<noteq> None \<or> modifyB_printA s \<noteq> None"
    using assms by (cases "pc1 s"; cases "pc2 s")
      (auto simp: modifyA_printB_def modifyB_printA_def rv_inv_def sem_value_def split: option.splits)
  then show ?thesis by (auto intro: rv_step.intros)
qed

section \<open>The property\<close>

text \<open>C24: in every interleaving, what a thread prints is the whole text decoded, and as long as not
  both threads are done, one of them can go on.\<close>

theorem rendezvous_prints_decoded:
  assumes "reachable (\<lambda>s. s = rv_main a b) rv_step s"
  shows "printed_A s \<in> {None, Some (decode a)} \<and> printed_B s \<in> {None, Some (decode b)}
    \<and> (pc1 s = Done \<and> pc2 s = Done \<or> (\<exists>t. rv_step s t))
    \<and> (pc1 s = Done \<and> pc2 s = Done \<longrightarrow> printed_A s = Some (decode a) \<and> printed_B s = Some (decode b))"
  using rendezvous.reachable_inv [OF assms] rv_progress [of a b s] by (auto simp: rv_inv_def)

lemma rendezvous_prints_decoded_witness:
  "printed_A (rv_main [74, 33] [86]) = None \<and> (\<exists>t. rv_step (rv_main [74, 33] [86]) t)"
  using rendezvous_prints_decoded [OF reach_init, of "rv_main [74, 33] [86]" "[74, 33]" "[86]"]
  by (simp add: rv_main_def)

end
