(* ===== verification/Drm.thy ===== *)
theory Drm
  imports Prelude
begin

text \<open>
  The deadlock resistant mutex (\<open>deadlock_demolition/libdrm.c\<close>): a graph with an edge from a drm to
  each thread that holds it or waits for it, guarded by one global mutex; \<open>drm_wait\<close> refuses when
  the new edge closes a cycle of the undirected graph.

  The graph library is outside the repository: a graph is its set of vertices and its set of edges,
  and the order in which \<open>graph_neighbors\<close> and \<open>graph_antineighbors\<close> list them is an argument of
  the model.
\<close>

section \<open>The program\<close>

datatype vertex = Drm nat | Thread nat

record graph_lib =
  graph_neighbors :: "(vertex \<times> vertex) set \<Rightarrow> vertex \<Rightarrow> vertex list"
  graph_antineighbors :: "(vertex \<times> vertex) set \<Rightarrow> vertex \<Rightarrow> vertex list"

text \<open>The search: \<open>visit\<close> is returned with the answer. One unit of fuel for each vertex on the path.\<close>

fun isCyclic :: "nat \<Rightarrow> graph_lib \<Rightarrow> (vertex \<times> vertex) set \<Rightarrow> vertex \<Rightarrow> vertex set \<Rightarrow> vertex
    \<Rightarrow> (nat \<times> vertex set) res"
  and cyclic_loop :: "nat \<Rightarrow> graph_lib \<Rightarrow> (vertex \<times> vertex) set \<Rightarrow> vertex list \<Rightarrow> vertex \<Rightarrow> vertex set \<Rightarrow> vertex
    \<Rightarrow> (nat \<times> vertex set) res" where
  "isCyclic 0 L E v visit prev = Inl Out_of_fuel"
| "isCyclic (Suc k) L E v visit prev =
     (if v \<in> visit then Inr (1, visit)
      else rbind (cyclic_loop k L E (graph_neighbors L E v) v (insert v visit) prev) (\<lambda>(r, visit).
        if r = 1 then Inr (1, visit)
        else cyclic_loop k L E (graph_antineighbors L E v) v visit prev))"
| "cyclic_loop k L E [] v visit prev = Inr (0, visit)"
| "cyclic_loop k L E (n # ns) v visit prev =
     (if n \<noteq> prev then
        rbind (isCyclic k L E n visit v) (\<lambda>(r, visit).
          if r = 1 then Inr (1, visit) else cyclic_loop k L E ns v visit prev)
      else cyclic_loop k L E ns v visit prev)"

text \<open>
  The state: the graph, the owner of the mutex of each drm and of the global mutex. A thread that
  is in \<open>drm_wait\<close> after the check holds the global mutex and is about to lock the drm (\<open>Locking\<close>).
\<close>

datatype dpc = Ready | Locking nat

record drm_state =
  verts :: "vertex set"
  edges :: "(vertex \<times> vertex) set"
  owner :: "nat \<Rightarrow> nat option"
  global :: "nat option"
  dpcs :: "nat \<Rightarrow> dpc"

definition drm_init :: "nat \<Rightarrow> drm_state \<Rightarrow> drm_state" where
  "drm_init drm s = s\<lparr>verts := insert (Drm drm) (verts s), owner := (owner s)(drm := None)\<rparr>"

definition drm_post :: "nat \<Rightarrow> nat \<Rightarrow> drm_state \<Rightarrow> nat \<times> drm_state" where
  "drm_post drm thread_id s =
     (if Thread thread_id \<notin> verts s \<or> Drm drm \<notin> verts s then (0, s)
      else if (Drm drm, Thread thread_id) \<in> edges s
      then (1, s\<lparr>edges := edges s - {(Drm drm, Thread thread_id)}, owner := (owner s)(drm := None)\<rparr>)
      else (0, s))"

text \<open>\<open>drm_wait\<close> up to the lock of the drm: \<open>None\<close> when it goes on to the lock, otherwise what it
  returns.\<close>

definition drm_wait :: "nat \<Rightarrow> graph_lib \<Rightarrow> nat \<Rightarrow> nat \<Rightarrow> drm_state \<Rightarrow> (nat option \<times> drm_state) res" where
  "drm_wait k L drm thread_id s =
     (let s = (if Thread thread_id \<notin> verts s then s\<lparr>verts := insert (Thread thread_id) (verts s)\<rparr> else s)
      in if (Drm drm, Thread thread_id) \<in> edges s then Inr (Some 0, s)
         else
           let s = s\<lparr>edges := insert (Drm drm, Thread thread_id) (edges s)\<rparr>
           in rbind (isCyclic k L (edges s) (Thread thread_id) {Drm drm} (Drm drm)) (\<lambda>(r, _).
                if r = 1 then Inr (Some 0, s\<lparr>edges := edges s - {(Drm drm, Thread thread_id)}\<rparr>)
                else Inr (None, s)))"

definition drm_destroy :: "nat \<Rightarrow> drm_state \<Rightarrow> drm_state" where
  "drm_destroy drm s = s\<lparr>verts := verts s - {Drm drm}, edges := {(u, v) \<in> edges s. u \<noteq> Drm drm \<and> v \<noteq> Drm drm}\<rparr>"

text \<open>
  The threads: each function runs while it holds the global mutex, so it is one step that needs the
  mutex to be free. Only the lock of the drm inside \<open>drm_wait\<close> is a step of its own, during which the
  global mutex stays locked.
\<close>

inductive drm_step :: "nat \<Rightarrow> graph_lib \<Rightarrow> drm_state \<Rightarrow> drm_state \<Rightarrow> bool" for k L where
  init: "global s = None \<Longrightarrow> dpcs s t = Ready \<Longrightarrow> Drm d \<notin> verts s \<Longrightarrow> drm_step k L s (drm_init d s)"
| post: "global s = None \<Longrightarrow> dpcs s t = Ready \<Longrightarrow> drm_step k L s (snd (drm_post d t s))"
| wait_refused: "global s = None \<Longrightarrow> dpcs s t = Ready \<Longrightarrow> Drm d \<in> verts s
    \<Longrightarrow> drm_wait k L d t s = Inr (Some r, s') \<Longrightarrow> drm_step k L s s'"
| wait: "global s = None \<Longrightarrow> dpcs s t = Ready \<Longrightarrow> Drm d \<in> verts s
    \<Longrightarrow> drm_wait k L d t s = Inr (None, s')
    \<Longrightarrow> drm_step k L s (s'\<lparr>global := Some t, dpcs := (dpcs s')(t := Locking d)\<rparr>)"
| lock: "dpcs s t = Locking d \<Longrightarrow> owner s d = None
    \<Longrightarrow> drm_step k L s (s\<lparr>owner := (owner s)(d := Some t), global := None, dpcs := (dpcs s)(t := Ready)\<rparr>)"
| destroy: "global s = None \<Longrightarrow> dpcs s t = Ready \<Longrightarrow> owner s d = None \<Longrightarrow> drm_step k L s (drm_destroy d s)"

definition drm_start :: "drm_state \<Rightarrow> bool" where
  "drm_start s \<longleftrightarrow> s = \<lparr>verts = {}, edges = {}, owner = (\<lambda>_. None), global = None, dpcs = (\<lambda>_. Ready)\<rparr>"

section \<open>The search for cycles\<close>

definition lib_ok :: "graph_lib \<Rightarrow> bool" where
  "lib_ok L \<longleftrightarrow> (\<forall>E v. finite E \<longrightarrow> set (graph_neighbors L E v) = {w. (v, w) \<in> E} \<and> set (graph_antineighbors L E v) = {w. (w, v) \<in> E})"

definition adj :: "(vertex \<times> vertex) set \<Rightarrow> vertex \<Rightarrow> vertex \<Rightarrow> bool" where
  "adj E u v \<longleftrightarrow> (u, v) \<in> E \<or> (v, u) \<in> E"

lemma drm_cyclic_mono:
  "isCyclic k L E v vis prev = Inr (r, vis') \<Longrightarrow> vis \<subseteq> vis'"
  "cyclic_loop k L E ns v vis prev = Inr (r, vis') \<Longrightarrow> vis \<subseteq> vis'"
  by (induction k L E v vis prev and k L E ns v vis prev arbitrary: r vis' and r vis'
        rule: isCyclic_cyclic_loop.induct)
    (fastforce simp: res_conv split: if_splits prod.splits)+

text \<open>When the search finds no cycle, the vertices it has visited are closed under adjacency, but for
  the edge it came along.\<close>

lemma no_cycle_closed:
  assumes "lib_ok L" and "finite E"
  shows "isCyclic k L E v vis prev = Inr (r, vis') \<Longrightarrow> r \<noteq> 1 \<Longrightarrow> v \<notin> vis \<and> v \<in> vis'
      \<and> (\<forall>x\<in>vis' - vis. \<forall>y. adj E x y \<longrightarrow> y \<in> vis' - vis \<or> x = v \<and> y = prev)"
    and "cyclic_loop k L E ns v vis prev = Inr (r, vis') \<Longrightarrow> r \<noteq> 1 \<Longrightarrow> (\<forall>n\<in>set ns. n = prev \<or> n \<in> vis' - vis)
      \<and> (\<forall>x\<in>vis' - vis. \<forall>y. adj E x y \<longrightarrow> y \<in> vis' - vis \<or> y = v)"
  using assms
proof (induction k L E v vis prev and k L E ns v vis prev arbitrary: r vis' and r vis' rule: isCyclic_cyclic_loop.induct)
  case (1 L E v visit prev)
  then show ?case by simp
next
  case (2 k L E v vis prev)
  then have v: "v \<notin> vis" by auto
  then obtain q vis1 where a: "cyclic_loop k L E (graph_neighbors L E v) v (insert v vis) prev = Inr (q, vis1)" "q \<noteq> 1"
    "cyclic_loop k L E (graph_antineighbors L E v) v vis1 prev = Inr (r, vis')"
    using 2(3,4) by (auto simp: res_conv split: if_splits)
  note i1 = 2(1) [OF v a(1,2) 2(5,6)]
  have i2: "(\<forall>n\<in>set (graph_antineighbors L E v). n = prev \<or> n \<in> vis' - vis1) \<and>
      (\<forall>x\<in>vis' - vis1. \<forall>y. adj E x y \<longrightarrow> y \<in> vis' - vis1 \<or> y = v)"
    by (rule 2(2) [OF v a(1) refl a(2) a(3) 2(4-6)])
  have m: "insert v vis \<subseteq> vis1" "vis1 \<subseteq> vis'" using drm_cyclic_mono(2) a(1,3) by blast+
  have nb: "adj E v y \<Longrightarrow> y \<in> set (graph_neighbors L E v) \<union> set (graph_antineighbors L E v)" for y
    using 2(5,6) by (auto simp: lib_ok_def adj_def)
  have "y \<in> vis' - vis \<or> x = v \<and> y = prev" if x: "x \<in> vis' - vis" and y: "adj E x y" for x y
  proof -
    consider "x = v" | "x \<in> vis1 - insert v vis" | "x \<in> vis' - vis1" using x by blast
    then show ?thesis
    proof cases
      case 1
      then have "y \<in> set (graph_neighbors L E v) \<or> y \<in> set (graph_antineighbors L E v)" using nb y by blast
      then show ?thesis using i1 i2 m 1 by blast
    next
      case 2
      then have "y \<in> vis1 - insert v vis \<or> y = v" using i1 y by blast
      then show ?thesis using m v by blast
    next
      case 3
      then have "y \<in> vis' - vis1 \<or> y = v" using i2 y by blast
      then show ?thesis using m v by blast
    qed
  qed
  then show ?case using v m by blast
next
  case (3 k L E v visit prev)
  then show ?case by simp
next
  case (4 k L E n ns v vis prev)
  show ?case
  proof (cases "n = prev")
    case True
    then show ?thesis using 4(3) [of r vis'] 4(4-7) by auto
  next
    case False
    then obtain q vis1 where a: "isCyclic k L E n vis v = Inr (q, vis1)" "q \<noteq> 1"
      "cyclic_loop k L E ns v vis1 prev = Inr (r, vis')"
      using 4(4,5) by (auto simp: res_conv split: if_splits)
    note i1 = 4(1) [OF False a(1,2) 4(6,7)]
    have i2: "(\<forall>n\<in>set ns. n = prev \<or> n \<in> vis' - vis1) \<and>
        (\<forall>x\<in>vis' - vis1. \<forall>y. adj E x y \<longrightarrow> y \<in> vis' - vis1 \<or> y = v)"
      by (rule 4(2) [OF False a(1) refl a(2) a(3) 4(5-7)])
    have m: "vis \<subseteq> vis1" "vis1 \<subseteq> vis'" using drm_cyclic_mono a(1,3) by blast+
    have "y \<in> vis' - vis \<or> y = v" if x: "x \<in> vis' - vis" and y: "adj E x y" for x y
      using i1 i2 m x y by (cases "x \<in> vis1") blast+
    moreover have "\<forall>u\<in>set (n # ns). u = prev \<or> u \<in> vis' - vis" using i1 i2 m by auto
    ultimately show ?thesis by blast
  qed
qed

text \<open>With fuel for each vertex the search returns.\<close>

lemma drm_cyclic_returns:
  assumes "finite V"
  shows "lib_ok L \<Longrightarrow> finite E \<Longrightarrow> E \<subseteq> V \<times> V \<Longrightarrow> v \<in> V \<Longrightarrow> card (V - vis) < k \<Longrightarrow> \<exists>r. isCyclic k L E v vis prev = Inr r"
    and "lib_ok L \<Longrightarrow> finite E \<Longrightarrow> E \<subseteq> V \<times> V \<Longrightarrow> set ns \<subseteq> V \<Longrightarrow> card (V - vis) < k \<Longrightarrow>
      \<exists>r. cyclic_loop k L E ns v vis prev = Inr r"
proof (induction k L E v vis prev and k L E ns v vis prev rule: isCyclic_cyclic_loop.induct)
  case (1 L E v visit prev)
  then show ?case by simp
next
  case (2 k L E v vis prev)
  show ?case
  proof (cases "v \<in> vis")
    case False
    have "card (V - insert v vis) < card (V - vis)" using False 2(6) assms by (intro psubset_card_mono) auto
    then have k: "card (V - insert v vis) < k" using 2(7) by simp
    have nb: "set (graph_neighbors L E v) \<subseteq> V" "set (graph_antineighbors L E v) \<subseteq> V"
      using 2(3-5) by (auto simp: lib_ok_def)
    obtain q vis1 where a: "cyclic_loop k L E (graph_neighbors L E v) v (insert v vis) prev = Inr (q, vis1)"
      using 2(1) [OF False 2(3-5) nb(1) k] by fastforce
    have "card (V - vis1) \<le> card (V - insert v vis)" using drm_cyclic_mono(2) [OF a] assms by (intro card_mono) auto
    then have "q \<noteq> 1 \<Longrightarrow> \<exists>r. cyclic_loop k L E (graph_antineighbors L E v) v vis1 prev = Inr r"
      using 2(2) [OF False a refl _ 2(3-5) nb(2)] k by simp
    then show ?thesis using False a by auto
  qed auto
next
  case (3 k L E v visit prev)
  then show ?case by simp
next
  case (4 k L E n ns v vis prev)
  show ?case
  proof (cases "n = prev")
    case True
    then show ?thesis using 4(3) 4(4-8) by auto
  next
    case False
    obtain q vis1 where a: "isCyclic k L E n vis v = Inr (q, vis1)" using 4(1) [OF False 4(4-6) _ 4(8)] 4(7) by fastforce
    have "card (V - vis1) \<le> card (V - vis)" using drm_cyclic_mono(1) [OF a] assms by (intro card_mono) auto
    then have "q \<noteq> 1 \<Longrightarrow> \<exists>r. cyclic_loop k L E ns v vis1 prev = Inr r"
      using 4(2) [OF False a refl _ 4(4-6)] 4(7,8) by simp
    then show ?thesis using False a by auto
  qed
qed

section \<open>The invariant of the global mutex\<close>

definition drm_inv :: "drm_state \<Rightarrow> bool" where
  "drm_inv s \<longleftrightarrow> (\<forall>t d. dpcs s t = Locking d \<longrightarrow> global s = Some t)"

lemma drm_wait_frame:
  "drm_wait k L d t s = Inr (r, s') \<Longrightarrow> dpcs s' = dpcs s \<and> global s' = global s \<and> owner s' = owner s"
  by (auto simp: drm_wait_def Let_def res_conv split: if_splits)

interpretation drm: transition_system drm_start "drm_step k L" drm_inv for k L
proof unfold_locales
  fix s assume "drm_start s"
  then show "drm_inv s" by (simp add: drm_start_def drm_inv_def)
next
  fix s s' assume i: "drm_inv s" and "drm_step k L s s'"
  from this(2) show "drm_inv s'"
  proof (cases rule: drm_step.cases)
    case (wait_refused t d r)
    then show ?thesis using i drm_wait_frame [OF wait_refused(4)] by (simp add: drm_inv_def)
  next
    case (wait t d u)
    then show ?thesis using i drm_wait_frame [OF wait(5)] by (auto simp: drm_inv_def)
  next
    case (lock t d)
    then have "global s = Some t" using i by (auto simp: drm_inv_def)
    then show ?thesis using i lock by (auto simp: drm_inv_def)
  qed (use i in \<open>auto simp: drm_inv_def drm_init_def drm_post_def drm_destroy_def\<close>)
qed

section \<open>The properties\<close>

text \<open>A thread that has no edge yet is let through.\<close>

lemma cyclic_loop_prev: "set ns \<subseteq> {prev} \<Longrightarrow> cyclic_loop k L E ns v vis prev = Inr (0, vis)"
  by (induction ns) auto

lemma fresh_thread_passes:
  assumes "lib_ok L" and "finite E" and "\<And>w. adj E v w \<Longrightarrow> w = prev" and "v \<notin> vis"
  shows "isCyclic (Suc k) L E v vis prev = Inr (0, insert v vis)"
proof -
  have "set (graph_neighbors L E v) \<subseteq> {prev}" "set (graph_antineighbors L E v) \<subseteq> {prev}"
    using assms(1-3) by (auto simp: lib_ok_def adj_def)
  then show ?thesis using assms(4) by (simp add: cyclic_loop_prev)
qed

definition sorted_lib :: graph_lib where
  "sorted_lib = \<lparr>graph_neighbors = (\<lambda>E v. map Drm (sorted_list_of_set {d. (v, Drm d) \<in> E})
       @ map Thread (sorted_list_of_set {t. (v, Thread t) \<in> E})),
     graph_antineighbors = (\<lambda>E v. map Drm (sorted_list_of_set {d. (Drm d, v) \<in> E})
       @ map Thread (sorted_list_of_set {t. (Thread t, v) \<in> E}))\<rparr>"

lemma sorted_lib_ok: "lib_ok sorted_lib"
  unfolding lib_ok_def
proof (intro allI impI)
  fix E :: "(vertex \<times> vertex) set" and v assume f: "finite E"
  have "{d. (v, Drm d) \<in> E} \<subseteq> (\<lambda>x. case x of Drm d \<Rightarrow> d | Thread d \<Rightarrow> d) ` snd ` E"
    "{d. (v, Thread d) \<in> E} \<subseteq> (\<lambda>x. case x of Drm d \<Rightarrow> d | Thread d \<Rightarrow> d) ` snd ` E"
    "{d. (Drm d, v) \<in> E} \<subseteq> (\<lambda>x. case x of Drm d \<Rightarrow> d | Thread d \<Rightarrow> d) ` fst ` E"
    "{d. (Thread d, v) \<in> E} \<subseteq> (\<lambda>x. case x of Drm d \<Rightarrow> d | Thread d \<Rightarrow> d) ` fst ` E"
    by (force simp: image_iff)+
  then have "finite {d. (v, Drm d) \<in> E}" "finite {d. (v, Thread d) \<in> E}" "finite {d. (Drm d, v) \<in> E}"
    "finite {d. (Thread d, v) \<in> E}" using f by (meson finite_imageI finite_subset)+
  moreover have "{w. (v, w) \<in> E} = Drm ` {d. (v, Drm d) \<in> E} \<union> Thread ` {t. (v, Thread t) \<in> E}"
    "{w. (w, v) \<in> E} = Drm ` {d. (Drm d, v) \<in> E} \<union> Thread ` {t. (Thread t, v) \<in> E}"
    by (auto simp: image_iff) (metis vertex.exhaust)+
  ultimately show "set (graph_neighbors sorted_lib E v) = {w. (v, w) \<in> E}
      \<and> set (graph_antineighbors sorted_lib E v) = {w. (w, v) \<in> E}"
    by (simp add: sorted_lib_def)
qed

text \<open>C22: \<open>drm_wait\<close> comes to a decision, and when it decides to take the lock, the new edge lies on
  no cycle: the drm cannot be reached from the thread over the other edges, in whatever direction.\<close>

theorem drm_wait_no_cycle:
  assumes "lib_ok L" and "finite V" and "edges s \<subseteq> V \<times> V" and "Drm d \<in> V" and "Thread t \<in> V" and "card V < k"
  shows "\<exists>r s'. drm_wait k L d t s = Inr (r, s') \<and> (r = None \<longrightarrow>
    (Thread t, Drm d) \<notin> {(x, y). adj (edges s') x y \<and> {x, y} \<noteq> {Thread t, Drm d}}\<^sup>*)"
proof -
  let ?E = "insert (Drm d, Thread t) (edges s)"
  have E: "?E \<subseteq> V \<times> V" "finite ?E" using assms(2-5) finite_subset [of "edges s" "V \<times> V"] by auto
  have "card (V - {Drm d}) < k" using assms(2,6) by (meson card_mono Diff_subset le_less_trans)
  from drm_cyclic_returns(1) [OF assms(2,1) E(2,1) assms(5) this] obtain r vis where
    c: "isCyclic k L ?E (Thread t) {Drm d} (Drm d) = Inr (r, vis)" by fastforce
  show ?thesis
  proof (cases "(Drm d, Thread t) \<in> edges s \<or> r = 1")
    case True
    then show ?thesis using c by (auto simp: drm_wait_def Let_def)
  next
    case False
    then have "\<exists>s'. drm_wait k L d t s = Inr (None, s') \<and> edges s' = ?E"
      using c by (cases "Thread t \<in> verts s") (auto simp: drm_wait_def Let_def)
    then obtain s' where w: "drm_wait k L d t s = Inr (None, s')" "edges s' = ?E" by blast
    have cl: "Thread t \<in> vis" "\<forall>x\<in>vis - {Drm d}. \<forall>y. adj ?E x y \<longrightarrow> y \<in> vis - {Drm d} \<or> x = Thread t \<and> y = Drm d"
      using no_cycle_closed(1) [OF assms(1) E(2) c] False by blast+
    have "y \<in> vis - {Drm d}" if "(Thread t, y) \<in> {(x, y). adj ?E x y \<and> {x, y} \<noteq> {Thread t, Drm d}}\<^sup>*" for y
      using that
    proof (induction rule: rtrancl_induct)
      case base
      then show ?case using cl(1) by simp
    next
      case (step x y)
      then have "adj ?E x y" "{x, y} \<noteq> {Thread t, Drm d}" by auto
      with cl(2) step.IH have "y \<in> vis - {Drm d} \<or> x = Thread t \<and> y = Drm d" by metis
      with \<open>{x, y} \<noteq> _\<close> show ?case by auto
    qed
    then have "(Thread t, Drm d) \<notin> {(x, y). adj ?E x y \<and> {x, y} \<noteq> {Thread t, Drm d}}\<^sup>*" by blast
    then show ?thesis using w by (intro exI [of _ None] exI [of _ s']) simp
  qed
qed

lemma drm_wait_no_cycle_witness:
  "\<exists>r s'. drm_wait 4 sorted_lib 1 1 \<lparr>verts = {Drm 0, Drm 1, Thread 1}, edges = {(Drm 0, Thread 1)},
      owner = (\<lambda>_. None), global = None, dpcs = (\<lambda>_. Ready)\<rparr> = Inr (r, s') \<and> (r = None \<longrightarrow>
    (Thread 1, Drm 1) \<notin> {(x, y). adj (edges s') x y \<and> {x, y} \<noteq> {Thread 1, Drm 1}}\<^sup>*)"
  by (rule drm_wait_no_cycle [OF sorted_lib_ok, where V = "{Drm 0, Drm 1, Thread 1}"]) auto

text \<open>C21: \<open>drm_wait\<close> locks the drm while it holds the global mutex. When another thread owns the drm,
  no thread can make a step any more: the owner needs the global mutex to post.\<close>

theorem drm_wait_freezes:
  assumes "reachable drm_start (drm_step k L) s" and "dpcs s t = Locking d" and "owner s d = Some u"
  shows "\<not> (\<exists>s'. drm_step k L s s')"
proof
  have i: "drm_inv s" using drm.reachable_inv [OF assms(1)] .
  then have g: "global s = Some t" using assms(2) by (auto simp: drm_inv_def)
  assume "\<exists>s'. drm_step k L s s'"
  then obtain s' where "drm_step k L s s'" ..
  then show False
  proof (cases rule: drm_step.cases)
    case (lock v e)
    then have "v = t" using i g by (auto simp: drm_inv_def)
    then show ?thesis using lock assms(2,3) by simp
  qed (use g in auto)
qed

text \<open>Two threads and one drm: the first thread holds it, the second waits.\<close>

lemma drm_wait_freezes_witness:
  "\<exists>s. reachable drm_start (drm_step 3 sorted_lib) s \<and> owner s 0 = Some 1 \<and> dpcs s 2 = Locking 0
    \<and> \<not> (\<exists>s'. drm_step 3 sorted_lib s s')"
proof -
  let ?R = "reachable drm_start (drm_step 3 sorted_lib)"
  let ?st = "\<lambda>V E w g p. \<lparr>verts = V, edges = E, owner = w, global = g, dpcs = p\<rparr>"
  let ?E1 = "{(Drm 0, Thread 1)}" and ?E2 = "{(Drm 0, Thread 2), (Drm 0, Thread 1)}"
  have c1: "isCyclic 3 sorted_lib ?E1 (Thread 1) {Drm 0} (Drm 0) = Inr (0, {Thread 1, Drm 0})"
    and c2: "isCyclic 3 sorted_lib ?E2 (Thread 2) {Drm 0} (Drm 0) = Inr (0, {Thread 2, Drm 0})"
    unfolding numeral_3_eq_3 by (rule fresh_thread_passes [OF sorted_lib_ok]; auto simp: adj_def)+
  have r0: "?R (?st {} {} (\<lambda>_. None) None (\<lambda>_. Ready))" by (rule reach_init) (simp add: drm_start_def)
  have r1: "?R (?st {Drm 0} {} ((\<lambda>_. None)(0 := None)) None (\<lambda>_. Ready))"
    by (rule reach_step [OF r0]) (use drm_step.init [of "?st {} {} (\<lambda>_. None) None (\<lambda>_. Ready)" 0 0] in \<open>simp add: drm_init_def\<close>)
  have w1: "drm_wait 3 sorted_lib 0 1 (?st {Drm 0} {} ((\<lambda>_. None)(0 := None)) None (\<lambda>_. Ready)) =
      Inr (None, ?st {Thread 1, Drm 0} ?E1 ((\<lambda>_. None)(0 := None)) None (\<lambda>_. Ready))"
    using c1 by (simp add: drm_wait_def)
  have r2: "?R (?st {Thread 1, Drm 0} ?E1 ((\<lambda>_. None)(0 := None)) (Some 1) ((\<lambda>_. Ready)(1 := Locking 0)))"
    by (rule reach_step [OF r1]) (use drm_step.wait [OF _ _ _ w1] in simp)
  have r3: "?R (?st {Thread 1, Drm 0} ?E1 ((\<lambda>_. None)(0 := Some 1)) None ((\<lambda>_. Ready)(1 := Ready)))"
    by (rule reach_step [OF r2])
      (use drm_step.lock [of "?st {Thread 1, Drm 0} ?E1 ((\<lambda>_. None)(0 := None)) (Some 1) ((\<lambda>_. Ready)(1 := Locking 0))" 1 0]
        in \<open>simp add: fun_upd_upd\<close>)
  have w2: "drm_wait 3 sorted_lib 0 2 (?st {Thread 1, Drm 0} ?E1 ((\<lambda>_. None)(0 := Some 1)) None ((\<lambda>_. Ready)(1 := Ready))) =
      Inr (None, ?st {Thread 2, Thread 1, Drm 0} ?E2 ((\<lambda>_. None)(0 := Some 1)) None ((\<lambda>_. Ready)(1 := Ready)))"
    using c2 by (simp add: drm_wait_def)
  have r4: "?R (?st {Thread 2, Thread 1, Drm 0} ?E2 ((\<lambda>_. None)(0 := Some 1)) (Some 2) ((\<lambda>_. Ready)(1 := Ready, 2 := Locking 0)))"
    by (rule reach_step [OF r3]) (use drm_step.wait [OF _ _ _ w2] in simp)
  from drm_wait_freezes [OF r4, of 2 0 1] r4 show ?thesis by auto
qed

end
