(* ===== verification/Net.thy ===== *)
theory Net
  imports Prelude "HOL-Library.While_Combinator"
begin

text \<open>
  The socket functions that client and server share (\<open>nonstop_networking/common.c\<close>).

  A socket, or a file that is read, delivers a sequence of outcomes of \<open>read\<close>: data, an
  interruption, nothing for now, an error; the end of the sequence is the end of the data. It takes
  what is written by a sequence of outcomes of \<open>write\<close>, and accepts everything when that sequence is
  used up. A character is a byte.
\<close>

section \<open>The system calls\<close>

datatype revent = Data string | RIntr | RAgain | RErr

datatype wevent = Acc nat | WIntr | WAgain | WErr

record sock =
  rd :: "revent list"
  wr :: "wevent list"
  sent :: string

datatype rresult = Got string | ReadIntr | ReadAgain | ReadErr

fun sys_read :: "revent list \<Rightarrow> nat \<Rightarrow> rresult \<times> revent list" where
  "sys_read [] n = (Got [], [])"
| "sys_read (Data bs # es) n = (Got (take n bs), if length bs \<le> n then es else Data (drop n bs) # es)"
| "sys_read (RIntr # es) n = (ReadIntr, es)"
| "sys_read (RAgain # es) n = (ReadAgain, es)"
| "sys_read (RErr # es) n = (ReadErr, es)"

datatype wresult = Wrote nat | WriteIntr | WriteAgain | WriteErr

fun sys_write :: "wevent list \<Rightarrow> nat \<Rightarrow> wresult \<times> wevent list" where
  "sys_write [] n = (Wrote n, [])"
| "sys_write (Acc m # ws) n = (Wrote (min m n), ws)"
| "sys_write (WIntr # ws) n = (WriteIntr, ws)"
| "sys_write (WAgain # ws) n = (WriteAgain, ws)"
| "sys_write (WErr # ws) n = (WriteErr, ws)"

fun revent_size :: "revent \<Rightarrow> nat" where
  "revent_size (Data bs) = Suc (length bs)"
| "revent_size _ = 1"

definition rsize :: "revent list \<Rightarrow> nat" where
  "rsize es = sum_list (map revent_size es)"

lemma rsize_simps [simp]: "rsize [] = 0" "rsize (x # es) = revent_size x + rsize es"
  by (simp_all add: rsize_def)

lemma sys_read_size: "sys_read es n = (r, es') \<Longrightarrow> rsize es' \<le> rsize es"
  by (cases "(es, n)" rule: sys_read.cases) auto

lemma sys_read_less: "sys_read es n = (r, es') \<Longrightarrow> r \<noteq> Got [] \<Longrightarrow> rsize es' < rsize es"
  by (cases "(es, n)" rule: sys_read.cases) (auto split: if_splits)

lemma sys_write_less: "sys_write ws n = (r, ws') \<Longrightarrow> ws \<noteq> [] \<Longrightarrow> length ws' < length ws"
  by (cases "(ws, n)" rule: sys_write.cases) auto

lemma sys_write_Intr: "sys_write ws n = (WriteIntr, ws') \<Longrightarrow> length ws' < length ws"
  by (cases "(ws, n)" rule: sys_write.cases) auto

section \<open>Writing and reading in full\<close>

text \<open>
  The loop of \<open>write_all_to_socket\<close>: \<open>byteswrite\<close> is an \<open>int\<close>, \<open>out\<close> is what the socket has taken.
  When the socket takes everything, one call of \<open>write\<close> ends the loop.
\<close>

function write_loop :: "wevent list \<Rightarrow> string \<Rightarrow> int \<Rightarrow> string \<Rightarrow> int \<times> string \<times> wevent list" where
  "write_loop ws buffer byteswrite out =
     (if byteswrite < int32 (int (length buffer)) then
        (case sys_write ws (length buffer - nat byteswrite) of
           (Wrote r, ws') \<Rightarrow>
             if r = 0 then (byteswrite, out, ws')
             else if ws = [] then (int32 (byteswrite + int r), out @ drop (nat byteswrite) buffer, ws')
             else write_loop ws' buffer (int32 (byteswrite + int r)) (out @ take r (drop (nat byteswrite) buffer))
         | (WriteIntr, ws') \<Rightarrow> write_loop ws' buffer byteswrite out
         | (WriteAgain, ws') \<Rightarrow> (byteswrite, out, ws')
         | (WriteErr, ws') \<Rightarrow> (-1, out, ws'))
      else (byteswrite, out, ws))"
  by auto

termination write_loop
  by (relation "measure (\<lambda>(ws, _). length ws)") (simp, auto intro: sys_write_less [OF sym] sys_write_Intr [OF sym])

definition write_all_to_socket :: "sock \<Rightarrow> string \<Rightarrow> int \<times> sock" where
  "write_all_to_socket k buffer =
     (case write_loop (wr k) buffer 0 [] of (r, out, ws) \<Rightarrow> (r, k\<lparr>wr := ws, sent := sent k @ out\<rparr>))"

text \<open>The loop of \<open>read_all_from_socket\<close>; \<open>buffer\<close> is what has been stored.\<close>

function read_loop :: "revent list \<Rightarrow> nat \<Rightarrow> int \<Rightarrow> string \<Rightarrow> int \<times> string \<times> revent list" where
  "read_loop es count bytesread buffer =
     (if bytesread < int32 (int count) then
        (case sys_read es (nat (int count - bytesread)) of
           (Got bs, es') \<Rightarrow>
             if bs = [] then (bytesread, buffer, es')
             else read_loop es' count (int32 (bytesread + int (length bs))) (buffer @ bs)
         | (ReadIntr, es') \<Rightarrow> read_loop es' count bytesread buffer
         | (ReadAgain, es') \<Rightarrow> (bytesread, buffer, es')
         | (ReadErr, es') \<Rightarrow> (-1, buffer, es'))
      else (bytesread, buffer, es))"
  by auto

termination read_loop
  by (relation "measure (\<lambda>(es, _). rsize es)") (auto dest!: sys_read_less [OF sym])

declare write_loop.simps [simp del] read_loop.simps [simp del]

definition read_all :: "revent list \<Rightarrow> nat \<Rightarrow> int \<times> string \<times> revent list" where
  "read_all es count = read_loop es count 0 []"

definition read_all_from_socket :: "sock \<Rightarrow> nat \<Rightarrow> int \<times> string \<times> sock" where
  "read_all_from_socket k count = (case read_all (rd k) count of (r, buffer, es) \<Rightarrow> (r, buffer, k\<lparr>rd := es\<rparr>))"

lemma read_loop_size: "read_loop es count b buf = (r, buf', es') \<Longrightarrow> rsize es' \<le> rsize es"
proof (induction es count b buf rule: read_loop.induct)
  case (1 es count b buf)
  show ?case
    using "1.prems" "1.IH"(1) [OF _ sym] "1.IH"(2) [OF _ sym]
    by (subst (asm) read_loop.simps)
      (fastforce split: if_splits prod.splits rresult.splits dest: sys_read_size intro: order_trans)
qed

lemma read_loop_less:
  "read_loop es count b buf = (r, buf', es') \<Longrightarrow> r \<noteq> b \<Longrightarrow> rsize es' < rsize es"
proof (induction es count b buf rule: read_loop.induct)
  case (1 es count b buf)
  show ?case
    using "1.prems" "1.IH" [OF _ sym]
    by (subst (asm) read_loop.simps)
      (fastforce split: if_splits prod.splits rresult.splits dest: sys_read_less read_loop_size)
qed

lemma read_all_less: "read_all es count = (r, buf, es') \<Longrightarrow> r \<noteq> 0 \<Longrightarrow> rsize es' < rsize es"
  unfolding read_all_def by (rule read_loop_less)

text \<open>\<open>write_to_file\<close> copies what \<open>src\<close> delivers to \<open>dst\<close>; it does not look at the result of the
  writing.\<close>

function copy_loop :: "revent list \<Rightarrow> sock \<Rightarrow> int \<Rightarrow> int \<times> revent list \<times> sock" where
  "copy_loop es dst bytes_read =
     (case read_all es 1024 of
        (count, buffer, es') \<Rightarrow>
          if count = 0 then (bytes_read, es', dst)
          else if count < 0 then (-1, es', dst)
          else copy_loop es' (snd (write_all_to_socket dst buffer)) (bytes_read + count))"
  by auto

termination copy_loop
  by (relation "measure (\<lambda>(es, _). rsize es)") (auto dest!: read_all_less [OF sym])

declare copy_loop.simps [simp del]

definition write_to_file :: "revent list \<Rightarrow> sock \<Rightarrow> int \<times> sock" where
  "write_to_file src dst = (case copy_loop src dst 0 of (r, _, dst) \<Rightarrow> (r, dst))"

section \<open>Reading a line\<close>

text \<open>
  What the caller's pointer points to: nothing, a buffer with a line, the value of \<open>*n\<close> and the size
  that was allocated, or memory that has been freed.
\<close>

datatype lineptr = NullLine | Line string nat nat | FreedLine

definition GETLINE_MINSIZE :: nat where "GETLINE_MINSIZE = 16"

text \<open>The loop that doubles \<open>*n\<close>.\<close>

definition grow :: "nat \<Rightarrow> nat \<Rightarrow> nat option" where
  "grow i n = while_option (\<lambda>n. sub64 n 2 \<le> i) (\<lambda>n. w64 (n * 2)) n"

definition newline :: char where "newline = CHR 0x0A"

text \<open>
  The loop over \<open>i\<close>, which is the length of \<open>p\<close>: the characters read so far. \<open>fresh\<close> is
  \<open>free_on_err\<close>, \<open>old\<close> the line that the buffer held at the call, \<open>alloc\<close> its size.
\<close>

function getline_loop :: "revent list \<Rightarrow> bool \<Rightarrow> int \<Rightarrow> string \<Rightarrow> nat \<Rightarrow> nat \<Rightarrow> string
    \<Rightarrow> (int \<times> lineptr \<times> revent list) res" where
  "getline_loop es fresh mx old n alloc p =
     (case read_all es 1 of
        (numread, ch, es') \<Rightarrow>
          rbind (or_diverges (grow (length p) n)) (\<lambda>n'.
            let alloc' = (if sub64 n 2 \<le> length p then n' else alloc)
            in if 0 < mx \<and> mx < int (length p) \<and> fresh then Inr (-1, NullLine, es')
               else if numread < 1 then
                 if p = [] then Inr (-1, if fresh then FreedLine else Line old n' alloc', es')
                 else rbind (guard (length p < alloc') Bad_access) (\<lambda>_.
                   Inr (int32 (int (length p)), Line p (length p) alloc', es'))
               else if ch = [newline] then
                 rbind (guard (length p + 1 < alloc') Bad_access) (\<lambda>_.
                   Inr (int32 (int (length p + 1)), Line (p @ ch) (length p + 1) alloc', es'))
               else rbind (guard (length p < alloc') Bad_access) (\<lambda>_.
                   getline_loop es' fresh mx old n' alloc' (p @ ch))))"
  by auto

termination getline_loop
  by (relation "measure (\<lambda>(es, _). rsize es)") (auto dest!: read_all_less [OF sym])

declare getline_loop.simps [simp del]

definition mygetline :: "sock \<Rightarrow> lineptr \<Rightarrow> int \<Rightarrow> (int \<times> lineptr \<times> sock) res" where
  "mygetline k lp mx =
     rbind (case lp of
         NullLine \<Rightarrow> getline_loop (rd k) True mx [] GETLINE_MINSIZE GETLINE_MINSIZE []
       | Line old n alloc \<Rightarrow> getline_loop (rd k) False mx old n alloc []
       | FreedLine \<Rightarrow> Inl Bad_access) (\<lambda>(r, lp, es). Inr (r, lp, k\<lparr>rd := es\<rparr>))"

end
