(* ===== verification/Server.thy ===== *)
theory Server
  imports Net
begin

text \<open>
  The file server (\<open>nonstop_networking/server.c\<close>): an event loop that answers LIST, GET, PUT and
  DELETE on non-blocking sockets, and keeps a record for each socket whose PUT is not finished.

  The texts of the error messages are in a header that is not part of the repository; the file
  system is a map from paths to contents, in which a new file can be made at some paths. A write to
  an open regular file is complete. Standard output and error are left out.
\<close>

section \<open>The state\<close>

datatype verb = GET | PUT | DELETE | LIST | V_UNKNOWN

record conf =
  directory :: string
  err_bad_request :: string
  err_no_such_file :: string
  err_bad_file_size :: string
  can_create :: "string \<Rightarrow> bool"

record client =
  c_state :: int
  request :: "verb option"
  c_filename :: "string option"
  filesize :: nat
  bytesfin :: nat

text \<open>\<open>closed\<close> lists the connections that have been closed.\<close>

record srv =
  files :: "string list"
  fs :: "string \<rightharpoonup> string"
  clients :: "nat \<rightharpoonup> client"
  conns :: "nat \<rightharpoonup> sock"
  closed :: "(nat \<times> sock) list"

text \<open>A C string ends at its first zero. A \<open>size_t\<close> is sent as its eight bytes in memory.\<close>

definition cstr :: "string \<Rightarrow> string" where
  "cstr s = takeWhile (\<lambda>c. c \<noteq> CHR 0x00) s"

definition size_bytes :: "nat \<Rightarrow> string" where
  "size_bytes n = map (\<lambda>i. char_of (n div 256 ^ i)) [0 ..< 8]"

primrec bytes_size :: "string \<Rightarrow> nat" where
  "bytes_size [] = 0"
| "bytes_size (c # cs) = of_char c + 256 * bytes_size cs"

definition path_of :: "conf \<Rightarrow> string \<Rightarrow> string" where
  "path_of m name = directory m @ ''/'' @ name"

definition send :: "nat \<Rightarrow> string \<Rightarrow> srv \<Rightarrow> srv" where
  "send s buffer st = st\<lparr>conns := (conns st)(s := map_option (\<lambda>k. snd (write_all_to_socket k buffer)) (conns st s))\<rparr>"

definition upd_client :: "nat \<Rightarrow> (client \<Rightarrow> client) \<Rightarrow> srv \<Rightarrow> srv" where
  "upd_client s f st = st\<lparr>clients := (clients st)(s := map_option f (clients st s))\<rparr>"

definition upd_conn :: "nat \<Rightarrow> sock \<Rightarrow> srv \<Rightarrow> srv" where
  "upd_conn s k st = st\<lparr>conns := (conns st)(s \<mapsto> k)\<rparr>"

section \<open>The verbs\<close>

definition bad_request :: "conf \<Rightarrow> nat \<Rightarrow> srv \<Rightarrow> srv" where
  "bad_request m s st = send s (err_bad_request m) (send s (''ERROR'' @ [newline]) st)"

definition no_such_file :: "conf \<Rightarrow> nat \<Rightarrow> srv \<Rightarrow> srv" where
  "no_such_file m s st = send s (err_no_such_file m) (send s (''ERROR'' @ [newline]) st)"

text \<open>The buffer starts with 1024 bytes and is doubled at most once for each name.\<close>

fun list_names :: "string list \<Rightarrow> string \<Rightarrow> nat \<Rightarrow> string res" where
  "list_names [] l buffer_size = Inr l"
| "list_names (f # fl) l buffer_size =
     (let buffer_size = (if buffer_size \<le> length l + length f then w64 (2 * buffer_size) else buffer_size)
      in rbind (guard (length l + length f + 1 < buffer_size) Bad_access) (\<lambda>_.
           list_names fl (l @ f @ [newline]) buffer_size))"

definition do_list :: "nat \<Rightarrow> srv \<Rightarrow> srv res" where
  "do_list s st =
     (let st = upd_client s (\<lambda>c. c\<lparr>request := Some LIST\<rparr>) st
      in rbind (list_names (files st) [] 1024) (\<lambda>l.
           let l = (if l = [] then l else butlast l)
           in Inr (send s l (send s (size_bytes (length l)) (send s (''OK'' @ [newline]) st)))))"

text \<open>The header of a PUT. The result is whether the request goes on.\<close>

definition put_header :: "conf \<Rightarrow> nat \<Rightarrow> string \<Rightarrow> sock \<Rightarrow> srv \<Rightarrow> bool \<times> srv" where
  "put_header m s line k st =
     (let st = upd_client s (\<lambda>c. c\<lparr>request := Some PUT\<rparr>) st; name = drop 4 (cstr line)
      in if last (cstr line) \<noteq> newline then (False, st)
         else
           let name = butlast name;
               (bytesread, buffer, k) = read_all_from_socket k 8;
               st = upd_conn s k (upd_client s (\<lambda>c. c\<lparr>c_state := 1\<rparr>) st)
           in if bytesread < 8 then (False, st)
              else
                let st = (if fs st (path_of m name) = None then st\<lparr>files := files st @ [name]\<rparr> else st)
                in (True, upd_client s (\<lambda>c. c\<lparr>filesize := bytes_size buffer, bytesfin := 0,
                            c_filename := Some (path_of m name)\<rparr>) st))"

definition do_get :: "conf \<Rightarrow> nat \<Rightarrow> string \<Rightarrow> srv \<Rightarrow> srv" where
  "do_get m s line st =
     (let st = upd_client s (\<lambda>c. c\<lparr>request := Some GET\<rparr>) st; name = drop 4 (cstr line)
      in if last (cstr line) \<noteq> newline then bad_request m s st
         else
           let st = upd_client s (\<lambda>c. c\<lparr>c_state := 1\<rparr>) st
           in (case fs st (path_of m (butlast name)) of
                 None \<Rightarrow> no_such_file m s st
               | Some content \<Rightarrow>
                   let st = send s (''OK'' @ [newline]) st;
                       st = upd_client s (\<lambda>c. c\<lparr>filesize := length content, bytesfin := 0\<rparr>) st;
                       st = send s (size_bytes (length content)) st;
                       st = st\<lparr>conns := (conns st)(s := map_option (\<lambda>k. snd (write_to_file [Data content] k)) (conns st s))\<rparr>
                   in upd_client s (\<lambda>c. c\<lparr>c_state := -1\<rparr>) st))"

definition do_delete :: "conf \<Rightarrow> nat \<Rightarrow> string \<Rightarrow> srv \<Rightarrow> srv" where
  "do_delete m s line st =
     (let st = upd_client s (\<lambda>c. c\<lparr>request := Some DELETE\<rparr>) st; name = drop 7 (cstr line)
      in if last (cstr line) \<noteq> newline then bad_request m s st
         else
           let name = butlast name
           in if name \<in> set (files st)
              then send s (''OK'' @ [newline])
                     (st\<lparr>files := remove1 name (files st), fs := (fs st)(path_of m name := None)\<rparr>)
              else no_such_file m s st)"

text \<open>Any other line: 13 bytes are sent of the message, its final zero included when it has 12.\<close>

definition do_unknown :: "conf \<Rightarrow> nat \<Rightarrow> srv \<Rightarrow> srv res" where
  "do_unknown m s st =
     rbind (guard (12 \<le> length (err_bad_request m)) Bad_access) (\<lambda>_.
       Inr (send s (take 13 (err_bad_request m @ [CHR 0x00])) (send s (''ERROR'' @ [newline]) st)))"

section \<open>The body of a PUT\<close>

definition append_file :: "string option \<Rightarrow> string \<Rightarrow> (string \<rightharpoonup> string) \<Rightarrow> (string \<rightharpoonup> string)" where
  "append_file file bs d =
     (case file of None \<Rightarrow> d | Some p \<Rightarrow> d(p := map_option (\<lambda>content. content @ bs) (d p)))"

text \<open>The reading loop: the flag is \<open>fin\<close>.\<close>

function put_loop :: "revent list \<Rightarrow> string option \<Rightarrow> (string \<rightharpoonup> string) \<Rightarrow> nat
    \<Rightarrow> bool \<times> revent list \<times> (string \<rightharpoonup> string) \<times> nat" where
  "put_loop es file d n =
     (case sys_read es 1024 of
        (ReadIntr, es') \<Rightarrow> put_loop es' file d n
      | (ReadAgain, es') \<Rightarrow> (False, es', d, n)
      | (ReadErr, es') \<Rightarrow> (True, es', d, n)
      | (Got bs, es') \<Rightarrow>
          if bs = [] then (True, es', d, n)
          else put_loop es' file (append_file file bs d) (w64 (n + length bs)))"
  by auto

termination put_loop
  by (relation "measure (\<lambda>(es, _). rsize es)") (auto dest!: sys_read_less [OF sym])

declare put_loop.simps [simp del]

text \<open>Opening the file: with \<open>O_CREAT|O_TRUNC\<close> the first time, with \<open>O_APPEND\<close> later.\<close>

definition open_put :: "conf \<Rightarrow> int \<Rightarrow> string \<Rightarrow> (string \<rightharpoonup> string) \<Rightarrow> (string option \<times> (string \<rightharpoonup> string)) res" where
  "open_put m state p d =
     (if state = 1 then
        if d p \<noteq> None \<or> can_create m p then Inr (Some p, d(p \<mapsto> [])) else Inr (None, d)
      else if state = 2 then Inr (if d p \<noteq> None then Some p else None, d)
      else Inl Bad_access)"

definition do_put :: "conf \<Rightarrow> nat \<Rightarrow> client \<Rightarrow> sock \<Rightarrow> srv \<Rightarrow> (int \<times> srv) res" where
  "do_put m s c k st =
     (case c_filename c of
        None \<Rightarrow> Inl Null_deref
      | Some p \<Rightarrow>
          rbind (open_put m (c_state c) p (fs st)) (\<lambda>(file, d).
            case put_loop (rd k) file d (bytesfin c) of
              (fin, es, d, n) \<Rightarrow>
                let st = upd_client s (\<lambda>c. c\<lparr>bytesfin := n\<rparr>) (upd_conn s (k\<lparr>rd := es\<rparr>) (st\<lparr>fs := d\<rparr>))
                in if fin then
                     let st = (if n \<noteq> filesize c
                               then send s (err_bad_file_size m) (send s (''ERROR'' @ [newline]) st)
                               else send s (''OK'' @ [newline]) st)
                     in Inr (-1, upd_client s (\<lambda>c. c\<lparr>c_state := -1\<rparr>) st)
                   else Inr (0, upd_client s (\<lambda>c. c\<lparr>c_state := 2\<rparr>) st)))"

section \<open>The event loop\<close>

text \<open>What \<open>readformserver\<close> does with the record and the connection of the socket \<open>s\<close>.\<close>

definition resume :: "conf \<Rightarrow> nat \<Rightarrow> srv \<Rightarrow> (int \<times> srv) res" where
  "resume m s st =
     (case (clients st s, conns st s) of
        (Some c, Some k) \<Rightarrow>
          if request c = Some PUT then do_put m s c k st else Inl (Exited 1)
      | _ \<Rightarrow> Inl Null_deref)"

definition FILENAME_MAX :: int where "FILENAME_MAX = 4096"

definition do_request :: "conf \<Rightarrow> nat \<Rightarrow> string \<Rightarrow> sock \<Rightarrow> srv \<Rightarrow> (int \<times> srv) res" where
  "do_request m s line k st =
     (if cstr line = ''LIST'' @ [newline] then rbind (do_list s st) (\<lambda>st. Inr (-1, st))
      else if take 4 (cstr line) = ''PUT '' then
        (case put_header m s line k st of (go, st) \<Rightarrow> if go then resume m s st else Inr (-1, st))
      else if take 4 (cstr line) = ''GET '' then Inr (-1, do_get m s line st)
      else if take 7 (cstr line) = ''DELETE '' then Inr (-1, do_delete m s line st)
      else rbind (do_unknown m s st) (\<lambda>st. Inr (-1, st)))"

definition readformserver :: "conf \<Rightarrow> nat \<Rightarrow> srv \<Rightarrow> (int \<times> srv) res" where
  "readformserver m s st =
     (case (clients st s, conns st s) of
        (Some c, Some k) \<Rightarrow>
          if c_state c = 0 then
            rbind (mygetline k NullLine (FILENAME_MAX + 1 + 1 + 6)) (\<lambda>(numread, lp, k).
              let st = upd_conn s k st
              in if numread = -1 then Inr (-1, bad_request m s st)
                 else (case lp of
                     Line line n alloc \<Rightarrow> do_request m s line k st
                   | _ \<Rightarrow> Inl Bad_access))
          else resume m s st
      | _ \<Rightarrow> Inl Null_deref)"

datatype epoll_event = Accept nat sock | Hangup nat | Ready nat

definition new_client :: client where
  "new_client = \<lparr>c_state = 0, request = None, c_filename = None, filesize = 0, bytesfin = 0\<rparr>"

definition close_conn :: "nat \<Rightarrow> srv \<Rightarrow> srv" where
  "close_conn s st = st\<lparr>conns := (conns st)(s := None),
     closed := closed st @ (case conns st s of None \<Rightarrow> [] | Some k \<Rightarrow> [(s, k)])\<rparr>"

text \<open>A socket that is in error is closed, and its record stays in the dictionary.\<close>

fun serve_event :: "conf \<Rightarrow> epoll_event \<Rightarrow> srv \<Rightarrow> srv res" where
  "serve_event m (Accept s k) st = Inr (upd_conn s k st)"
| "serve_event m (Hangup s) st = Inr (close_conn s st)"
| "serve_event m (Ready s) st =
     (let st = (if clients st s = None then st\<lparr>clients := (clients st)(s \<mapsto> new_client)\<rparr> else st)
      in rbind (readformserver m s st) (\<lambda>(fin, st).
           Inr (if fin = -1 then (close_conn s st)\<lparr>clients := (clients st)(s := None)\<rparr> else st)))"

primrec serve :: "conf \<Rightarrow> epoll_event list \<Rightarrow> srv \<Rightarrow> srv res" where
  "serve m [] st = Inr st"
| "serve m (e # es) st = rbind (serve_event m e st) (serve m es)"

section \<open>The end of the session\<close>

primrec deletefiles :: "conf \<Rightarrow> string list \<Rightarrow> (string \<rightharpoonup> string) \<Rightarrow> (string \<rightharpoonup> string)" where
  "deletefiles m [] d = d"
| "deletefiles m (f # fl) d = deletefiles m fl (d(path_of m f := None))"

definition cleanup :: "conf \<Rightarrow> srv \<Rightarrow> srv" where
  "cleanup m st = st\<lparr>fs := deletefiles m (files st) (fs st), files := [], clients := Map.empty\<rparr>"

definition srv_start :: srv where
  "srv_start = \<lparr>files = [], fs = Map.empty, clients = Map.empty, conns = Map.empty, closed = []\<rparr>"

end
