(* ===== verification/Client.thy ===== *)
theory Client
  imports Server
begin

text \<open>
  The client of the file server (\<open>nonstop_networking/client.c\<close>): the arguments, the four requests
  and the reading of the replies. The socket that \<open>connect_to_server\<close> returns and the map of local
  files are arguments; the output is a list of messages.
\<close>

section \<open>Arguments\<close>

text \<open>\<open>toupper\<close> and \<open>strtok\<close> of the C library; \<open>strtok\<close> gives the token and the rest.\<close>

definition toupper :: "char \<Rightarrow> char" where
  "toupper c = (if 97 \<le> (of_char c :: nat) \<and> (of_char c :: nat) \<le> 122 then char_of ((of_char c :: nat) - 32) else c)"

definition strtok :: "string \<Rightarrow> char \<Rightarrow> (string \<times> string) option" where
  "strtok s d =
     (let s = dropWhile (\<lambda>c. c = d) s
      in if s = [] then None else Some (takeWhile (\<lambda>c. c \<noteq> d) s, drop 1 (dropWhile (\<lambda>c. c \<noteq> d) s)))"

record args =
  host :: string
  port :: string
  verb_word :: string
  remotefile :: "string option"
  localfile :: "string option"

definition parse_args :: "string list \<Rightarrow> args option" where
  "parse_args argv =
     (if length argv < 3 then None
      else case strtok (argv ! 1) CHR '':'' of
        None \<Rightarrow> None
      | Some (h, rest) \<Rightarrow>
          (case strtok rest CHR '':'' of
             None \<Rightarrow> None
           | Some (p, _) \<Rightarrow> Some \<lparr>host = h, port = p, verb_word = map toupper (argv ! 2),
               remotefile = (if 3 < length argv then Some (argv ! 3) else None),
               localfile = (if 4 < length argv then Some (argv ! 4) else None)\<rparr>))"

definition check_args :: "args option \<Rightarrow> verb res" where
  "check_args args =
     (case args of
        None \<Rightarrow> Inl (Exited 1)
      | Some a \<Rightarrow>
          if verb_word a = ''LIST'' then Inr LIST
          else if verb_word a = ''GET'' then
            if remotefile a \<noteq> None \<and> localfile a \<noteq> None then Inr GET else Inl (Exited 1)
          else if verb_word a = ''DELETE'' then
            if remotefile a \<noteq> None then Inr DELETE else Inl (Exited 1)
          else if verb_word a = ''PUT'' then
            if remotefile a = None \<or> localfile a = None then Inl (Exited 1) else Inr PUT
          else Inl (Exited 1))"

section \<open>Replies\<close>

datatype message =
    Invalid_response
  | Error_message string
  | Success
  | Too_little_data
  | Too_much_data
  | Text string
  | Connection_closed

text \<open>\<open>free(line)\<close>: freeing what has been freed already is an error.\<close>

fun free_line :: "lineptr \<Rightarrow> unit res" where
  "free_line FreedLine = Inl Bad_access"
| "free_line _ = Inr ()"

text \<open>
  Every request reads the first line of the reply, goes on with \<open>ok\<close> when it is \<open>OK\<close>, and reads a
  second line into the same buffer when it is \<open>ERROR\<close>.
\<close>

definition read_reply :: "(sock \<Rightarrow> 'd \<Rightarrow> message list \<times> 'd) \<Rightarrow> sock \<Rightarrow> 'd \<Rightarrow> (message list \<times> 'd) res" where
  "read_reply ok k d =
     rbind (mygetline k NullLine (-1)) (\<lambda>(numread, lp, k).
       if numread = -1 then rbind (free_line lp) (\<lambda>_. Inr ([Invalid_response], d))
       else (case lp of
           Line line n alloc \<Rightarrow>
             if cstr line = ''OK'' @ [newline] then Inr (ok k d)
             else if cstr line = ''ERROR'' @ [newline] then
               rbind (mygetline k lp (-1)) (\<lambda>(numread, lp, k).
                 rbind (free_line lp) (\<lambda>_.
                   Inr (if numread = -1 then [Invalid_response]
                        else (case lp of Line line n alloc \<Rightarrow> [Error_message (cstr line)] | _ \<Rightarrow> []), d)))
             else Inr ([Invalid_response], d)
         | _ \<Rightarrow> Inl Bad_access))"

section \<open>The requests\<close>

definition list_ok :: "sock \<Rightarrow> 'd \<Rightarrow> message list \<times> 'd" where
  "list_ok k d =
     (case read_all_from_socket k 8 of (r, buffer, k) \<Rightarrow>
        if r < 8 then ([Invalid_response], d)
        else (case read_all_from_socket k (bytes_size buffer) of (r, l, k) \<Rightarrow>
          if r \<noteq> signed64 (bytes_size buffer) then ([], d) else ([Text (cstr l)], d)))"

function get_loop :: "revent list \<Rightarrow> string \<Rightarrow> nat \<Rightarrow> string \<times> nat" where
  "get_loop es content n =
     (case read_all es 1024 of
        (r, buffer, es') \<Rightarrow>
          if r = 0 then (content, n)
          else if r = -1 then (content, n)
          else get_loop es' (content @ buffer) (w64 (n + nat r)))"
  by auto

termination get_loop
  by (relation "measure (\<lambda>(es, _). rsize es)") (auto dest!: read_all_less [OF sym])

declare get_loop.simps [simp del]

text \<open>When the local file cannot be opened the data is dropped.\<close>

definition get_ok :: "(string \<Rightarrow> bool) \<Rightarrow> string \<Rightarrow> sock \<Rightarrow> (string \<rightharpoonup> string) \<Rightarrow> message list \<times> (string \<rightharpoonup> string)" where
  "get_ok creat local k d =
     (case read_all_from_socket k 8 of (r, buffer, k) \<Rightarrow>
        if r < 8 then ([Invalid_response], d)
        else (case get_loop (rd k) [] 0 of (content, n) \<Rightarrow>
          ((if n < bytes_size buffer then [Too_little_data] else [])
           @ (if bytes_size buffer < n then [Too_much_data] else []),
           if creat local \<or> d local \<noteq> None then d(local \<mapsto> content) else d)))"

definition done_ok :: "sock \<Rightarrow> 'd \<Rightarrow> message list \<times> 'd" where
  "done_ok k d = ([Success], d)"

text \<open>The loop that sends the local file.\<close>

function send_loop :: "revent list \<Rightarrow> sock \<Rightarrow> sock" where
  "send_loop es k =
     (case read_all es 1024 of
        (r, buffer, es') \<Rightarrow>
          if r = 0 then k
          else if r = -1 then k
          else send_loop es' (snd (write_all_to_socket k buffer)))"
  by auto

termination send_loop
  by (relation "measure (\<lambda>(es, _). rsize es)") (auto dest!: read_all_less [OF sym])

declare send_loop.simps [simp del]

text \<open>The requests as they are sent.\<close>

definition list_request :: "sock \<Rightarrow> sock" where
  "list_request k = snd (write_all_to_socket k (''LIST'' @ [newline]))"

definition get_request :: "string \<Rightarrow> sock \<Rightarrow> sock" where
  "get_request remote k = snd (write_all_to_socket k (''GET '' @ remote @ [newline]))"

definition put_request :: "string \<Rightarrow> string \<Rightarrow> sock \<Rightarrow> sock" where
  "put_request remote content k =
     send_loop [Data content]
       (snd (write_all_to_socket k (''PUT '' @ remote @ [newline] @ size_bytes (length content))))"

definition delete_request :: "string \<Rightarrow> sock \<Rightarrow> sock" where
  "delete_request remote k = snd (write_all_to_socket k (''DELETE '' @ remote @ [newline]))"

text \<open>\<open>main\<close>: the socket as it is after the request, then the replies, for the verb that
  \<open>check_args\<close> has returned. A PUT exits when the local file does not exist.\<close>

definition client_request :: "verb \<Rightarrow> args \<Rightarrow> (string \<rightharpoonup> string) \<Rightarrow> sock \<Rightarrow> sock res" where
  "client_request v a d k =
     (case v of
        LIST \<Rightarrow> Inr (list_request k)
      | GET \<Rightarrow> Inr (get_request (the (remotefile a)) k)
      | PUT \<Rightarrow> (case d (the (localfile a)) of
                 None \<Rightarrow> Inl (Exited 1)
               | Some content \<Rightarrow> Inr (put_request (the (remotefile a)) content k))
      | DELETE \<Rightarrow> Inr (delete_request (the (remotefile a)) k)
      | V_UNKNOWN \<Rightarrow> Inr k)"

text \<open>The replies to PUT and to DELETE, which say no more than that it is done.\<close>

definition put_answer :: "sock \<Rightarrow> 'd \<Rightarrow> (message list \<times> 'd) res" where
  "put_answer k d = read_reply done_ok k d"

definition delete_answer :: "sock \<Rightarrow> 'd \<Rightarrow> (message list \<times> 'd) res" where
  "delete_answer k d = read_reply done_ok k d"

definition client_reply :: "(string \<Rightarrow> bool) \<Rightarrow> verb \<Rightarrow> args \<Rightarrow> (string \<rightharpoonup> string) \<Rightarrow> sock
    \<Rightarrow> (message list \<times> (string \<rightharpoonup> string)) res" where
  "client_reply creat v a d k =
     rbind (case v of
         LIST \<Rightarrow> read_reply list_ok k d
       | GET \<Rightarrow> read_reply (get_ok creat (the (localfile a))) k d
       | PUT \<Rightarrow> put_answer k d
       | DELETE \<Rightarrow> delete_answer k d
       | V_UNKNOWN \<Rightarrow> Inr ([], d)) (\<lambda>(ms, d). Inr (ms @ [Connection_closed], d))"

definition client_main :: "(string \<Rightarrow> bool) \<Rightarrow> string list \<Rightarrow> (string \<rightharpoonup> string) \<Rightarrow> sock
    \<Rightarrow> (message list \<times> (string \<rightharpoonup> string)) res" where
  "client_main creat argv d k =
     (let a = parse_args argv
      in rbind (check_args a) (\<lambda>v.
           rbind (client_request v (the a) d k) (\<lambda>k. client_reply creat v (the a) d k)))"

end
