(* ===== verification/Net_Correct.thy ===== *)
theory Net_Correct
  imports Client
begin

text \<open>
  What the functions on sockets do to the stream of bytes. A stretch of the stream is \<open>calm\<close> when
  data arrives in non-empty pieces with interruptions only, \<open>quiet\<close> when the socket can also run dry.
\<close>

section \<open>Streams\<close>

fun data_of :: "revent \<Rightarrow> string" where
  "data_of (Data bs) = bs"
| "data_of _ = []"

definition bytes_of :: "revent list \<Rightarrow> string" where
  "bytes_of es = concat (map data_of es)"

lemma bytes_of_simps [simp]:
  "bytes_of [] = []" "bytes_of (e # es) = data_of e @ bytes_of es" "bytes_of (xs @ ys) = bytes_of xs @ bytes_of ys"
  by (simp_all add: bytes_of_def)

fun calm_event :: "revent \<Rightarrow> bool" where
  "calm_event (Data bs) \<longleftrightarrow> bs \<noteq> []"
| "calm_event RIntr \<longleftrightarrow> True"
| "calm_event _ \<longleftrightarrow> False"

definition calm :: "revent list \<Rightarrow> bool" where
  "calm es \<longleftrightarrow> list_all calm_event es"

definition quiet :: "revent list \<Rightarrow> bool" where
  "quiet es \<longleftrightarrow> list_all (\<lambda>e. calm_event e \<or> e = RAgain) es"

lemma calm_simps [simp]:
  "calm []" "calm (e # es) \<longleftrightarrow> calm_event e \<and> calm es" "calm (xs @ ys) \<longleftrightarrow> calm xs \<and> calm ys"
  by (simp_all add: calm_def)

lemma quiet_simps [simp]:
  "quiet []" "quiet (e # es) \<longleftrightarrow> (calm_event e \<or> e = RAgain) \<and> quiet es" "quiet (xs @ ys) \<longleftrightarrow> quiet xs \<and> quiet ys"
  by (simp_all add: quiet_def)

lemma calm_quiet: "calm es \<Longrightarrow> quiet es"
  by (induction es) auto

lemma calm_event_cases [consumes 1]:
  assumes "calm_event e"
  obtains (intr) "e = RIntr" | (data) bs where "e = Data bs" "bs \<noteq> []"
  using assms by (cases e) auto

text \<open>A quiet stream is made of calm stretches with \<open>RAgain\<close> between them.\<close>

lemma quiet_split:
  assumes "quiet es"
  obtains (calm) "calm es" | (again) as bs where "es = as @ RAgain # bs" "calm as" "quiet bs"
proof (cases "RAgain \<in> set es")
  case True
  then obtain as bs where "es = as @ RAgain # bs" "RAgain \<notin> set as"
    by (meson split_list_first)
  moreover from this assms have "calm as" by (auto simp: quiet_def calm_def list_all_iff)
  ultimately show ?thesis using assms by (intro again) auto
next
  case False
  with assms have "calm es" by (auto simp: quiet_def calm_def list_all_iff)
  then show ?thesis by (rule calm)
qed

definition agains :: "revent list \<Rightarrow> nat" where
  "agains es = length (filter (\<lambda>e. e = RAgain) es)"

lemma agains_simps [simp]:
  "agains [] = 0" "agains (RAgain # es) = Suc (agains es)" "agains (xs @ ys) = agains xs + agains ys"
  "calm es \<Longrightarrow> agains es = 0"
  by (induction es) (auto simp: agains_def)

lemma agains_other [simp]: "e \<noteq> RAgain \<Longrightarrow> agains (e # es) = agains es"
  by (simp add: agains_def)

section \<open>Reading a number of bytes\<close>

lemma read_loop_calm:
  "calm as \<Longrightarrow> 0 \<le> b \<Longrightarrow> b \<le> int count \<Longrightarrow> count < 2 ^ 31 \<Longrightarrow> count \<le> nat b + length (bytes_of as)
   \<Longrightarrow> \<exists>as'. calm as' \<and> bytes_of as' = drop (count - nat b) (bytes_of as)
      \<and> read_loop (as @ bs) count b buf = (int count, buf @ take (count - nat b) (bytes_of as), as' @ bs)"
proof (induction "rsize as" arbitrary: as b buf rule: less_induct)
  case less
  show ?case
  proof (cases "b = int count")
    case True
    then show ?thesis using less.prems by (subst read_loop.simps) (auto simp: int32_id intro!: exI [of _ as])
  next
    case False
    then have lt: "b < int32 (int count)" using less.prems by (simp add: int32_id)
    from False less.prems have "as \<noteq> []" by auto
    then obtain e as1 where as: "as = e # as1" by (cases as) auto
    have "calm_event e" using less.prems(1) as by simp
    then show ?thesis
    proof (cases rule: calm_event_cases)
      case intr
      then show ?thesis using less.hyps [of as1 b buf] less.prems lt as by (subst read_loop.simps) simp
    next
      case (data d)
      define c where "c = count - nat b"
      have c: "nat (int count - b) = c" "0 < c" using less.prems False by (auto simp: c_def)
      define as2 where "as2 = (if length d \<le> c then as1 else Data (drop c d) # as1)"
      let ?b = "int32 (b + int (length (take c d)))"
      have b: "?b = b + int (length (take c d))"
        using less.prems c by (intro int32_id) (auto simp: c_def)
      have "rsize as2 < rsize as" using data as c by (auto simp: as2_def)
      moreover have "calm as2" using data as less.prems by (auto simp: as2_def)
      moreover have "count \<le> nat ?b + length (bytes_of as2)" "0 \<le> ?b" "?b \<le> int count"
        using less.prems data as c unfolding b by (auto simp: as2_def c_def)
      ultimately obtain as' where as': "calm as'" "bytes_of as' = drop (count - nat ?b) (bytes_of as2)"
        "read_loop (as2 @ bs) count ?b (buf @ take c d)
           = (int count, (buf @ take c d) @ take (count - nat ?b) (bytes_of as2), as' @ bs)"
        using less.hyps [of as2 ?b "buf @ take c d"] less.prems by blast
      have cb: "count - nat ?b = c - length (take c d)" using less.prems unfolding b by (auto simp: c_def nat_add_distrib)
      have "read_loop (as @ bs) count b buf = read_loop (as2 @ bs) count ?b (buf @ take c d)"
        using lt data as c by (subst read_loop.simps) (auto simp: as2_def)
      moreover have "drop (count - nat ?b) (bytes_of as2) = drop c (bytes_of as)"
        "take c d @ take (count - nat ?b) (bytes_of as2) = take c (bytes_of as)"
        unfolding cb using data as by (auto simp: as2_def)
      ultimately show ?thesis using as' by (auto simp: c_def)
    qed
  qed
qed

lemma read_all_calm:
  assumes "calm as" "count < 2 ^ 31" "count \<le> length (bytes_of as)"
  obtains as' where "calm as'" "bytes_of as' = drop count (bytes_of as)"
    "read_all (as @ bs) count = (int count, take count (bytes_of as), as' @ bs)"
  using read_loop_calm [of as 0 count bs "[]"] assms unfolding read_all_def by auto

text \<open>When less than the number has arrived, the loop goes on behind it.\<close>

lemma read_loop_pass:
  "calm as \<Longrightarrow> 0 \<le> b \<Longrightarrow> count < 2 ^ 31 \<Longrightarrow> nat b + length (bytes_of as) < count
   \<Longrightarrow> read_loop (as @ es) count b buf = read_loop es count (b + int (length (bytes_of as))) (buf @ bytes_of as)"
proof (induction as arbitrary: b buf)
  case (Cons e as)
  have lt: "b < int32 (int count)" using Cons.prems by (simp add: int32_id)
  have "calm_event e" using Cons.prems(1) by simp
  then show ?case
  proof (cases rule: calm_event_cases)
    case intr
    then show ?thesis using Cons.IH [of b buf] Cons.prems lt by (subst read_loop.simps) simp
  next
    case (data d)
    have b: "int32 (b + int (length d)) = b + int (length d)"
      using Cons.prems data by (intro int32_id) auto
    show ?thesis using data Cons.IH [of "b + int (length d)" "buf @ d"] Cons.prems lt b
      by (subst read_loop.simps) (auto simp: nat_add_distrib add_ac)
  qed
qed simp

lemma read_all_short:
  "calm as \<Longrightarrow> count < 2 ^ 31 \<Longrightarrow> length (bytes_of as) < count
   \<Longrightarrow> read_all as count = (int (length (bytes_of as)), bytes_of as, [])"
  using read_loop_pass [of as 0 count "[]" "[]"] unfolding read_all_def
  by (simp add: read_loop.simps [of "[]"] int32_id)

lemma read_all_again:
  "calm as \<Longrightarrow> count < 2 ^ 31 \<Longrightarrow> length (bytes_of as) < count
   \<Longrightarrow> read_all (as @ RAgain # bs) count = (int (length (bytes_of as)), bytes_of as, bs)"
  using read_loop_pass [of as 0 count "RAgain # bs" "[]"] unfolding read_all_def
  by (simp add: read_loop.simps [of "RAgain # bs"] int32_id)

section \<open>Reading a line\<close>

lemma grow_Some:
  assumes "i \<le> n - 2" "3 \<le> n" "n < 2 ^ 40"
  shows "grow i n = Some (if i = n - 2 then 2 * n else n)"
proof -
  have 1: "sub64 n 2 = n - 2" using assms by (intro sub64_id) auto
  have 2: "w64 (n * 2) = 2 * n" using assms by (subst w64_id) auto
  have 3: "sub64 (2 * n) 2 = 2 * n - 2" using assms by (intro sub64_id) auto
  show ?thesis
    unfolding grow_def using assms 1 2 3
    by (subst while_option_unfold) (auto simp: while_option_unfold [of _ _ "2 * n"])
qed

text \<open>A buffer in order: before the loop doubles it, \<open>i\<close> is at most two below its size.\<close>

definition buffer_ok :: "nat \<Rightarrow> nat \<Rightarrow> nat \<Rightarrow> bool" where
  "buffer_ok i n alloc \<longleftrightarrow> 3 \<le> n \<and> i \<le> n - 2 \<and> n \<le> alloc \<and> n < 2 ^ 40"

text \<open>One turn of the loop: the buffer has room for the character and the zero.\<close>

lemma getline_grown:
  assumes "buffer_ok i n alloc" and "i < 2 ^ 32"
  obtains n' alloc' where "grow i n = Some n'" "(if sub64 n 2 \<le> i then n' else alloc) = alloc'"
    "buffer_ok (Suc i) n' alloc'" "i + 1 < alloc'"
proof -
  define n' where "n' = (if i = n - 2 then 2 * n else n)"
  define alloc' where "alloc' = (if i = n - 2 then n' else alloc)"
  have n: "3 \<le> n" "i \<le> n - 2" "n \<le> alloc" "n < 2 ^ 40" using assms(1) by (auto simp: buffer_ok_def)
  have "sub64 n 2 = n - 2" using n by (intro sub64_id) auto
  then have "(if sub64 n 2 \<le> i then n' else alloc) = alloc'" using n by (auto simp: alloc'_def)
  moreover have "buffer_ok (Suc i) n' alloc'" "i + 1 < alloc'"
    using n assms(2) unfolding buffer_ok_def n'_def alloc'_def by (simp_all, linarith+)
  ultimately show ?thesis using grow_Some [of i n] n that [of n' alloc'] by (simp add: n'_def)
qed

lemma getline_turn_newline:
  assumes "buffer_ok (length p) n alloc" and "length p + 1 < 2 ^ 31" and "mx \<le> 0 \<or> int (length p) \<le> mx"
    and "read_all es 1 = (1, [newline], es')"
  shows "\<exists>alloc'. length p + 1 < alloc' \<and> getline_loop es fresh mx old n alloc p
     = Inr (int (length p + 1), Line (p @ [newline]) (length p + 1) alloc', es')"
proof -
  have le: "length p < 2 ^ 32" and "int32 (int (length p + 1)) = int (length p + 1)"
    using assms(2) by (auto intro: int32_id)
  moreover obtain n' alloc' where "grow (length p) n = Some n'"
    "(if sub64 n 2 \<le> length p then n' else alloc) = alloc'" "length p + 1 < alloc'"
    by (rule getline_grown [OF assms(1) le])
  ultimately show ?thesis using assms(3,4) by (simp only: getline_loop.simps [of es fresh mx old n alloc p]) auto
qed

lemma getline_turn_char:
  assumes "buffer_ok (length p) n alloc" and "length p < 2 ^ 32" and "mx \<le> 0 \<or> int (length p) \<le> mx"
    and "read_all es 1 = (1, [c], es')" and "c \<noteq> newline"
  shows "\<exists>n' alloc'. buffer_ok (Suc (length p)) n' alloc'
     \<and> getline_loop es fresh mx old n alloc p = getline_loop es' fresh mx old n' alloc' (p @ [c])"
proof -
  obtain n' alloc' where "grow (length p) n = Some n'" "(if sub64 n 2 \<le> length p then n' else alloc) = alloc'"
    "buffer_ok (Suc (length p)) n' alloc'" "length p + 1 < alloc'"
    by (rule getline_grown [OF assms(1,2)])
  then show ?thesis using assms(3-5)
    by (intro exI [of _ n'] exI [of _ alloc'], simp only: getline_loop.simps [of es fresh mx old n alloc p]) auto
qed

lemma getline_turn_end:
  assumes "buffer_ok (length p) n alloc" and "length p < 2 ^ 31" and "mx \<le> 0 \<or> int (length p) \<le> mx"
    and "read_all es 1 = (r, ch, es')" and "r < 1"
  shows "\<exists>n' alloc'. length p < alloc' \<and> getline_loop es fresh mx old n alloc p =
     (if p = [] then Inr (-1, if fresh then FreedLine else Line old n' alloc', es')
      else Inr (int (length p), Line p (length p) alloc', es'))"
proof -
  have le: "length p < 2 ^ 32" and "int32 (int (length p)) = int (length p)"
    using assms(2) by (auto intro: int32_id)
  moreover obtain n' alloc' where "grow (length p) n = Some n'"
    "(if sub64 n 2 \<le> length p then n' else alloc) = alloc'" "length p + 1 < alloc'"
    by (rule getline_grown [OF assms(1) le])
  ultimately show ?thesis using assms(3-5)
    by (intro exI [of _ n'] exI [of _ alloc'], simp only: getline_loop.simps [of es fresh mx old n alloc p]) auto
qed

text \<open>A line that is there in full, and one that ends early.\<close>

lemma read_char:
  assumes "calm as" and "bytes_of as = c # rest"
  obtains as' where "calm as'" "bytes_of as' = rest" "read_all (as @ bs) 1 = (1, [c], as' @ bs)"
  using read_all_calm [of as 1 bs thesis] assms by auto

lemma getline_loop_line:
  "calm as \<Longrightarrow> bytes_of as = l @ newline # rest \<Longrightarrow> newline \<notin> set l \<Longrightarrow> buffer_ok (length p) n alloc
   \<Longrightarrow> length p + length l + 1 < 2 ^ 31 \<Longrightarrow> mx \<le> 0 \<or> int (length p + length l) \<le> mx
   \<Longrightarrow> \<exists>as' alloc'. calm as' \<and> bytes_of as' = rest \<and> length p + length l + 1 < alloc'
      \<and> getline_loop (as @ bs) fresh mx old n alloc p
        = Inr (int (length p + length l + 1), Line (p @ l @ [newline]) (length p + length l + 1) alloc', as' @ bs)"
proof (induction l arbitrary: as p n alloc)
  case Nil
  obtain as' where as': "calm as'" "bytes_of as' = rest" "read_all (as @ bs) 1 = (1, [newline], as' @ bs)"
    using read_char [of as newline rest bs] Nil.prems by auto
  then show ?case using getline_turn_newline [OF Nil.prems(4), of mx "as @ bs" "as' @ bs" fresh old] Nil.prems
    by auto
next
  case (Cons c l)
  obtain as1 where as1: "calm as1" "bytes_of as1 = l @ newline # rest" "read_all (as @ bs) 1 = (1, [c], as1 @ bs)"
    using read_char [of as c "l @ newline # rest" bs] Cons.prems by auto
  obtain n1 alloc1 where 1: "buffer_ok (Suc (length p)) n1 alloc1"
    "getline_loop (as @ bs) fresh mx old n alloc p = getline_loop (as1 @ bs) fresh mx old n1 alloc1 (p @ [c])"
    using getline_turn_char [OF Cons.prems(4), of mx "as @ bs" c "as1 @ bs" fresh old] as1 Cons.prems by auto
  show ?case using Cons.IH [of as1 "p @ [c]" n1 alloc1] as1 1 Cons.prems by auto
qed

lemma getline_loop_end:
  "calm as \<Longrightarrow> newline \<notin> set (bytes_of as) \<Longrightarrow> buffer_ok (length p) n alloc
   \<Longrightarrow> length p + length (bytes_of as) < 2 ^ 31 \<Longrightarrow> mx \<le> 0 \<or> int (length p + length (bytes_of as)) \<le> mx
   \<Longrightarrow> ts = [] \<and> ts' = [] \<or> ts = RAgain # ts'
   \<Longrightarrow> \<exists>n' alloc'. getline_loop (as @ ts) fresh mx old n alloc p
        = (if p @ bytes_of as = [] then Inr (-1, if fresh then FreedLine else Line old n' alloc', ts')
           else Inr (int (length p + length (bytes_of as)), Line (p @ bytes_of as) (length p + length (bytes_of as)) alloc', ts'))"
proof (induction "bytes_of as" arbitrary: as p n alloc)
  case Nil
  have "read_all (as @ ts) 1 = (0, [], ts')"
    using Nil.hyps Nil.prems read_all_short [of as 1] read_all_again [of as 1 ts'] by auto
  moreover have "length p < 2 ^ 31" "mx \<le> 0 \<or> int (length p) \<le> mx" using Nil.prems Nil.hyps [symmetric] by auto
  ultimately obtain n' alloc' where "getline_loop (as @ ts) fresh mx old n alloc p =
     (if p = [] then Inr (-1, if fresh then FreedLine else Line old n' alloc', ts')
      else Inr (int (length p), Line p (length p) alloc', ts'))"
    using getline_turn_end [OF Nil.prems(3), of mx "as @ ts" 0 "[]" ts' fresh old] by auto
  then show ?case using Nil.hyps [symmetric] by (intro exI [of _ n'] exI [of _ alloc']) simp
next
  case (Cons c l)
  obtain as1 where as1: "calm as1" "bytes_of as1 = l" "read_all (as @ ts) 1 = (1, [c], as1 @ ts)"
    using read_char [of as c l ts] Cons.prems Cons.hyps(2) by auto
  obtain n1 alloc1 where 1: "buffer_ok (Suc (length p)) n1 alloc1"
    "getline_loop (as @ ts) fresh mx old n alloc p = getline_loop (as1 @ ts) fresh mx old n1 alloc1 (p @ [c])"
    using getline_turn_char [OF Cons.prems(3), of mx "as @ ts" c "as1 @ ts" fresh old] as1 Cons.prems
      Cons.hyps(2) [symmetric] by auto
  show ?case using Cons.hyps(1) [of as1 "p @ [c]" n1 alloc1] as1 1 Cons.prems Cons.hyps(2) [symmetric] by auto
qed

lemma mygetline_line:
  assumes "calm as" "bytes_of as = l @ newline # rest" "newline \<notin> set l" "length l + 1 < 2 ^ 31"
    and "mx \<le> 0 \<or> int (length l) \<le> mx" and "rd k = as @ bs"
  obtains as' n alloc where "calm as'" "bytes_of as' = rest"
    "mygetline k NullLine mx = Inr (int (length l + 1), Line (l @ [newline]) n alloc, k\<lparr>rd := as' @ bs\<rparr>)"
    "n = length l + 1" "n < alloc"
  using getline_loop_line [of as l rest "[]" GETLINE_MINSIZE GETLINE_MINSIZE mx bs True "[]"] assms that
  unfolding mygetline_def by (auto simp: buffer_ok_def GETLINE_MINSIZE_def)

section \<open>Writing, and the copying loops\<close>

lemma write_all_open:
  assumes "wr k = []" and "length b < 2 ^ 31"
  shows "write_all_to_socket k b = (int (length b), k\<lparr>sent := sent k @ b\<rparr>)"
proof -
  have "int32 (int (length b)) = int (length b)" using assms(2) by (intro int32_id) auto
  then show ?thesis using assms(1)
    by (cases b) (auto simp: write_all_to_socket_def write_loop.simps [of "[]"])
qed

text \<open>A turn of a copying loop reads 1024 bytes, or what is left.\<close>

lemma read_block:
  assumes "calm as"
  obtains (none) "bytes_of as = []" "read_all as 1024 = (0, [], [])"
  | (some) as' where "calm as'" "bytes_of as \<noteq> []" "bytes_of as' = drop 1024 (bytes_of as)"
      "read_all as 1024 = (int (min 1024 (length (bytes_of as))), take 1024 (bytes_of as), as')"
proof (cases "length (bytes_of as) < 1024")
  case True
  then have "read_all as 1024 = (int (length (bytes_of as)), bytes_of as, [])"
    using assms by (intro read_all_short) auto
  then show ?thesis using True by (cases "bytes_of as = []") (auto intro: none some [of "[]"])
next
  case False
  then obtain as' where "calm as'" "bytes_of as' = drop 1024 (bytes_of as)"
    "read_all (as @ []) 1024 = (int 1024, take 1024 (bytes_of as), as' @ [])"
    using assms read_all_calm [of as 1024 "[]"] by auto
  with False show ?thesis by (intro some [of as']) auto
qed

lemma copy_loop_calm:
  "calm as \<Longrightarrow> wr k = [] \<Longrightarrow>
   copy_loop as k r = (r + int (length (bytes_of as)), [], k\<lparr>sent := sent k @ bytes_of as\<rparr>)"
proof (induction "length (bytes_of as)" arbitrary: as k r rule: less_induct)
  case less
  from less.prems(1) show ?case
  proof (cases rule: read_block)
    case none
    then show ?thesis by (subst copy_loop.simps) simp
  next
    case (some as')
    then have "length (bytes_of as') < length (bytes_of as)" by (cases "bytes_of as") auto
    from less.hyps [OF this some(1), of "k\<lparr>sent := sent k @ take 1024 (bytes_of as)\<rparr>"] some less.prems(2)
    show ?thesis by (subst copy_loop.simps) (auto simp: write_all_open min_def)
  qed
qed

lemma write_to_file_sent:
  "wr k = [] \<Longrightarrow> snd (write_to_file [Data content] k) = k\<lparr>sent := sent k @ content\<rparr>"
proof (cases "content = []")
  case True
  then show "wr k = [] \<Longrightarrow> ?thesis"
    unfolding write_to_file_def
    by (subst copy_loop.simps) (simp add: read_all_def read_loop.simps [of "[Data []]"] int32_id)
next
  case False
  then show "wr k = [] \<Longrightarrow> ?thesis"
    using copy_loop_calm [of "[Data content]" k 0] by (simp add: write_to_file_def)
qed

lemma send_loop_calm:
  "calm as \<Longrightarrow> wr k = [] \<Longrightarrow> send_loop as k = k\<lparr>sent := sent k @ bytes_of as\<rparr>"
proof (induction "length (bytes_of as)" arbitrary: as k rule: less_induct)
  case less
  from less.prems(1) show ?case
  proof (cases rule: read_block)
    case none
    then show ?thesis by (subst send_loop.simps) simp
  next
    case (some as')
    then have "length (bytes_of as') < length (bytes_of as)" by (cases "bytes_of as") auto
    from less.hyps [OF this some(1), of "k\<lparr>sent := sent k @ take 1024 (bytes_of as)\<rparr>"] some less.prems(2)
    show ?thesis by (subst send_loop.simps) (auto simp: write_all_open)
  qed
qed

lemma send_loop_sent:
  "wr k = [] \<Longrightarrow> send_loop [Data content] k = k\<lparr>sent := sent k @ content\<rparr>"
proof (cases "content = []")
  case True
  then show "wr k = [] \<Longrightarrow> ?thesis"
    by (subst send_loop.simps) (simp add: read_all_def read_loop.simps [of "[Data []]"] int32_id)
next
  case False
  then show "wr k = [] \<Longrightarrow> ?thesis" using send_loop_calm [of "[Data content]" k] by simp
qed

lemma get_loop_calm:
  "calm as \<Longrightarrow> n < 2 ^ 64 \<Longrightarrow> get_loop as content n = (content @ bytes_of as, w64 (n + length (bytes_of as)))"
proof (induction "length (bytes_of as)" arbitrary: as content n rule: less_induct)
  case less
  from less.prems(1) show ?case
  proof (cases rule: read_block)
    case none
    then show ?thesis using less.prems(2) by (subst get_loop.simps) (simp add: w64_id)
  next
    case (some as')
    then have "length (bytes_of as') < length (bytes_of as)" by (cases "bytes_of as") auto
    from less.hyps [OF this some(1) w64_less, of "content @ take 1024 (bytes_of as)"
        "n + min 1024 (length (bytes_of as))"] some
    show ?thesis by (subst get_loop.simps) (auto simp: w64_add_left min_def nat_int_add)
  qed
qed

end
