(* ===== verification/Server_Correct.thy ===== *)
theory Server_Correct
  imports Net_Correct
begin

text \<open>
  The protocol: a PUT stores the body whatever the pieces it arrives in and whatever other sockets
  do in between, and a GET sends back what is stored.
\<close>

section \<open>Encoding\<close>

lemma length_size_bytes [simp]: "length (size_bytes n) = 8"
  by (simp add: size_bytes_def)

lemma bytes_size_digits: "bytes_size (map (\<lambda>i. char_of (n div 256 ^ i)) [0 ..< k]) = n mod 256 ^ k"
proof (induction k arbitrary: n)
  case (Suc k)
  have "map (\<lambda>i. char_of (n div 256 ^ i)) [0 ..< Suc k]
      = char_of n # map (\<lambda>i. char_of (n div 256 div 256 ^ i)) [0 ..< k]"
    by (simp add: upt_conv_Cons map_Suc_upt [symmetric] div_mult2_eq del: upt_Suc)
  then have "bytes_size (map (\<lambda>i. char_of (n div 256 ^ i)) [0 ..< Suc k]) = n mod 256 + 256 * (n div 256 mod 256 ^ k)"
    using Suc.IH [of "n div 256"] by simp
  also have "\<dots> = n mod 256 ^ Suc k" by (simp add: mod_mult2_eq)
  finally show ?case .
qed simp

lemma bytes_size_bytes: "n < 2 ^ 64 \<Longrightarrow> bytes_size (size_bytes n) = n"
  unfolding size_bytes_def by (subst bytes_size_digits) simp

text \<open>A name that can stand in a request.\<close>

definition plain :: "string \<Rightarrow> bool" where
  "plain s \<longleftrightarrow> newline \<notin> set s \<and> CHR 0x00 \<notin> set s"

lemma cstr_plain: "CHR 0x00 \<notin> set s \<Longrightarrow> cstr s = s"
  unfolding cstr_def by (induction s) auto

lemma plain_simps [simp]: "plain [] " "plain (c # s) \<longleftrightarrow> c \<noteq> newline \<and> c \<noteq> CHR 0x00 \<and> plain s"
  "plain (s @ t) \<longleftrightarrow> plain s \<and> plain t"
  by (auto simp: plain_def)

lemma plain_newline: "plain s \<Longrightarrow> newline \<notin> set s" by (simp add: plain_def)

lemma cstr_line: "plain s \<Longrightarrow> cstr (s @ [newline]) = s @ [newline]"
  by (rule cstr_plain) (simp add: plain_def newline_def)

section \<open>The parts of the state\<close>

lemma parts_simps [simp]:
  "fs (send s b st) = fs st" "files (send s b st) = files st" "clients (send s b st) = clients st"
  "closed (send s b st) = closed st"
  "fs (upd_client s f st) = fs st" "files (upd_client s f st) = files st" "conns (upd_client s f st) = conns st"
  "closed (upd_client s f st) = closed st"
  "fs (upd_conn s k st) = fs st" "files (upd_conn s k st) = files st" "clients (upd_conn s k st) = clients st"
  "closed (upd_conn s k st) = closed st" "conns (upd_conn s k st) = (conns st)(s \<mapsto> k)"
  "clients (upd_client s f st) = (clients st)(s := map_option f (clients st s))"
  "conns (send s b st) = (conns st)(s := map_option (\<lambda>k. snd (write_all_to_socket k b)) (conns st s))"
  by (simp_all add: send_def upd_client_def upd_conn_def)

lemma close_conn_simps [simp]:
  "fs (close_conn s st) = fs st" "files (close_conn s st) = files st" "clients (close_conn s st) = clients st"
  "conns (close_conn s st) = (conns st)(s := None)"
  by (simp_all add: close_conn_def)

section \<open>The body of a PUT\<close>

lemma append_file_simps [simp]:
  "append_file file [] d = d" "append_file file ys (append_file file xs d) = append_file file (xs @ ys) d"
  by (auto simp: append_file_def map_option.compositionality comp_def option.map_ident split: option.split)

lemma put_loop_pass:
  "calm as \<Longrightarrow> n < 2 ^ 64 \<Longrightarrow>
   put_loop (as @ es) file d n = put_loop es file (append_file file (bytes_of as) d) (w64 (n + length (bytes_of as)))"
proof (induction "rsize as" arbitrary: as d n rule: less_induct)
  case less
  show ?case
  proof (cases as)
    case (Cons e as1)
    then have "calm_event e" using less.prems(1) by simp
    then show ?thesis
    proof (cases rule: calm_event_cases)
      case intr
      then show ?thesis using less.hyps [of as1] less.prems Cons by (subst put_loop.simps) simp
    next
      case (data bs)
      define as2 where "as2 = (if length bs \<le> 1024 then as1 else Data (drop 1024 bs) # as1)"
      have 2: "rsize as2 < rsize as" "calm as2" "bytes_of as = take 1024 bs @ bytes_of as2"
        using data Cons less.prems by (auto simp: as2_def)
      have "put_loop (as @ es) file d n
          = put_loop (as2 @ es) file (append_file file (take 1024 bs) d) (w64 (n + length (take 1024 bs)))"
        using data Cons by (subst put_loop.simps) (auto simp: as2_def)
      also have "\<dots> = put_loop es file (append_file file (bytes_of as) d) (w64 (n + length (bytes_of as)))"
        using less.hyps [OF 2(1,2) w64_less] 2(3) by (simp add: w64_add_left add.assoc)
      finally show ?thesis .
    qed
  qed (use less.prems in \<open>simp add: w64_id\<close>)
qed

lemma put_loop_fin:
  "calm as \<Longrightarrow> n < 2 ^ 64 \<Longrightarrow>
   put_loop as file d n = (True, [], append_file file (bytes_of as) d, w64 (n + length (bytes_of as)))"
  using put_loop_pass [of as n "[]"] by (simp add: put_loop.simps [of "[]"])

lemma put_loop_dry:
  "calm as \<Longrightarrow> n < 2 ^ 64 \<Longrightarrow>
   put_loop (as @ RAgain # bs) file d n = (False, bs, append_file file (bytes_of as) d, w64 (n + length (bytes_of as)))"
  using put_loop_pass [of as n "RAgain # bs"] by (simp add: put_loop.simps [of "RAgain # bs"])

definition put_reply :: "conf \<Rightarrow> nat \<Rightarrow> string \<Rightarrow> string" where
  "put_reply m n body = (if n = length body then ''OK'' @ [newline] else ''ERROR'' @ [newline] @ err_bad_file_size m)"

text \<open>Where a PUT of \<open>body\<close> to \<open>p\<close> stands that has stored the part before the stream \<open>es\<close>.\<close>

definition putting :: "nat \<Rightarrow> string \<Rightarrow> nat \<Rightarrow> string \<Rightarrow> revent list \<Rightarrow> srv \<Rightarrow> bool" where
  "putting s p n body es st \<longleftrightarrow> quiet es \<and> (\<exists>got c. body = got @ bytes_of es
     \<and> clients st s = Some c \<and> request c = Some PUT \<and> c_filename c = Some p \<and> filesize c = n
     \<and> bytesfin c = length got \<and> conns st s = Some \<lparr>rd = es, wr = [], sent = []\<rparr>
     \<and> (c_state c = 2 \<and> fs st p = Some got \<or> c_state c = 1 \<and> got = []))"

definition put_over :: "conf \<Rightarrow> nat \<Rightarrow> string \<Rightarrow> nat \<Rightarrow> string \<Rightarrow> srv \<Rightarrow> bool" where
  "put_over m s p n body st \<longleftrightarrow> fs st p = Some body \<and> clients st s = None \<and> conns st s = None
     \<and> (s, \<lparr>rd = [], wr = [], sent = put_reply m n body\<rparr>) \<in> set (closed st)"

definition msg_ok :: "conf \<Rightarrow> bool" where
  "msg_ok m \<longleftrightarrow> length (err_bad_request m) < 2 ^ 31 \<and> length (err_no_such_file m) < 2 ^ 31
     \<and> length (err_bad_file_size m) < 2 ^ 31"

lemma resume_put:
  assumes "putting s p n body es st" and "length body < 2 ^ 64" and "msg_ok m"
    and "fs st p \<noteq> None \<or> can_create m p"
  shows "(calm es \<and> (\<exists>st'. resume m s st = Inr (-1, st') \<and> fs st' = (fs st)(p \<mapsto> body)
            \<and> conns st' = (conns st)(s \<mapsto> \<lparr>rd = [], wr = [], sent = put_reply m n body\<rparr>)))
       \<or> (\<exists>as bs st'. es = as @ RAgain # bs \<and> quiet bs \<and> resume m s st = Inr (0, st') \<and> putting s p n body bs st' \<and> fs st' p \<noteq> None
            \<and> agains es = Suc (agains bs))"
proof -
  from assms(1) obtain got c where c: "quiet es" "body = got @ bytes_of es" "clients st s = Some c"
    "request c = Some PUT" "c_filename c = Some p" "filesize c = n" "bytesfin c = length got"
    "conns st s = Some \<lparr>rd = es, wr = [], sent = []\<rparr>"
    "c_state c = 2 \<and> fs st p = Some got \<or> c_state c = 1 \<and> got = []"
    unfolding putting_def by blast
  define d where "d = (fs st)(p \<mapsto> got)"
  have open_file: "open_put m (c_state c) p (fs st) = Inr (Some p, d)"
    using c(9) assms(4) by (auto simp: open_put_def d_def fun_upd_idem)
  have got: "length got < 2 ^ 64" using assms(2) c(2) by simp
  have resume: "resume m s st = do_put m s c \<lparr>rd = es, wr = [], sent = []\<rparr> st" using c by (simp add: resume_def)
  have app: "append_file (Some p) xs d = (fs st)(p \<mapsto> got @ xs)" for xs
    by (simp add: append_file_def d_def)
  from c(1) show ?thesis
  proof (cases rule: quiet_split)
    case calm
    have "w64 (length got + length (bytes_of es)) = length body" using assms(2) c(2) by (simp add: w64_id)
    then show ?thesis using calm got c assms(3) unfolding resume do_put_def
      by (auto simp: open_file put_loop_fin app Let_def put_reply_def write_all_open msg_ok_def)
  next
    case (again as bs)
    have "w64 (length got + length (bytes_of as)) = length (got @ bytes_of as)"
      using assms(2) c(2) again by (simp add: w64_id)
    moreover have "agains es = Suc (agains bs)" "body = (got @ bytes_of as) @ bytes_of bs" using again c(2) by auto
    ultimately show ?thesis using again got c unfolding resume do_put_def
      by (intro disjI2 exI [of _ as] exI [of _ bs])
        (auto simp: open_file put_loop_dry app Let_def putting_def)
  qed
qed

text \<open>A turn of the event loop after \<open>resume\<close> has run.\<close>

lemma serve_resumed:
  assumes "readformserver m s st0 = resume m s st" and "putting s p n body es st" and "length body < 2 ^ 64"
    and "msg_ok m" and "fs st p \<noteq> None \<or> can_create m p" and "clients st1 s = None \<and> st0 = st1\<lparr>clients := (clients st1)(s \<mapsto> new_client)\<rparr>
      \<or> clients st1 s \<noteq> None \<and> st0 = st1"
  shows "(agains es = 0 \<and> (\<exists>st'. serve_event m (Ready s) st1 = Inr st' \<and> put_over m s p n body st'))
       \<or> (\<exists>bs st'. agains es = Suc (agains bs) \<and> serve_event m (Ready s) st1 = Inr st'
            \<and> putting s p n body bs st' \<and> fs st' p \<noteq> None)"
proof -
  have ev: "serve_event m (Ready s) st1 = rbind (resume m s st) (\<lambda>(fin, st).
      Inr (if fin = -1 then (close_conn s st)\<lparr>clients := (clients st)(s := None)\<rparr> else st))"
    using assms(1,6) by (auto simp: Let_def)
  from resume_put [OF assms(2-5)] show ?thesis
    by (elim disjE) (auto simp: ev put_over_def close_conn_def simp del: serve_event.simps)
qed

lemma serve_put:
  assumes "putting s p n body es st" and "length body < 2 ^ 64" and "msg_ok m" and "fs st p \<noteq> None \<or> can_create m p"
  shows "(agains es = 0 \<and> (\<exists>st'. serve_event m (Ready s) st = Inr st' \<and> put_over m s p n body st'))
       \<or> (\<exists>bs st'. agains es = Suc (agains bs) \<and> serve_event m (Ready s) st = Inr st'
            \<and> putting s p n body bs st' \<and> fs st' p \<noteq> None)"
proof (rule serve_resumed [OF _ assms])
  show "readformserver m s st = resume m s st"
    using assms(1) by (auto simp: readformserver_def putting_def)
qed (use assms(1) in \<open>auto simp: putting_def\<close>)

section \<open>The header\<close>

text \<open>A socket at which a PUT arrives: the header comes before the socket runs dry.\<close>

definition put_arrives :: "nat \<Rightarrow> string \<Rightarrow> nat \<Rightarrow> string \<Rightarrow> revent list \<Rightarrow> srv \<Rightarrow> bool" where
  "put_arrives s name n body bs st \<longleftrightarrow> clients st s = None \<and> quiet bs
     \<and> (\<exists>as b. conns st s = Some \<lparr>rd = as @ bs, wr = [], sent = []\<rparr> \<and> calm as
         \<and> bytes_of as = ''PUT '' @ name @ newline # size_bytes n @ b \<and> body = b @ bytes_of bs)"

text \<open>The first turn for a socket, when its request line has arrived.\<close>

lemma first_turn:
  assumes "clients st s = None" and "conns st s = Some k" and "rd k = as @ bs" and "calm as"
    and "bytes_of as = q @ newline # rest" and "plain q" and "length q \<le> 4104"
  obtains as1 k1 st0 where "st0 = st\<lparr>clients := (clients st)(s \<mapsto> new_client)\<rparr>" "k1 = k\<lparr>rd := as1 @ bs\<rparr>"
    "calm as1" "bytes_of as1 = rest" "readformserver m s st0 = do_request m s (q @ [newline]) k1 (upd_conn s k1 st0)"
proof -
  obtain as1 n alloc where 1: "calm as1" "bytes_of as1 = rest"
    "mygetline k NullLine (FILENAME_MAX + 1 + 1 + 6)
       = Inr (int (length q + 1), Line (q @ [newline]) n alloc, k\<lparr>rd := as1 @ bs\<rparr>)"
    by (rule mygetline_line [of as q rest "FILENAME_MAX + 1 + 1 + 6" k bs])
      (use assms in \<open>auto simp: plain_def FILENAME_MAX_def\<close>)
  show ?thesis
  proof (rule that [OF refl refl 1(1,2)])
    show "readformserver m s (st\<lparr>clients := (clients st)(s \<mapsto> new_client)\<rparr>)
      = do_request m s (q @ [newline]) (k\<lparr>rd := as1 @ bs\<rparr>)
          (upd_conn s (k\<lparr>rd := as1 @ bs\<rparr>) (st\<lparr>clients := (clients st)(s \<mapsto> new_client)\<rparr>))"
      using 1(3) assms(2) by (simp add: readformserver_def new_client_def)
  qed
qed

lemma put_header_plain:
  assumes "plain name" and "calm as" and "bytes_of as = size_bytes n @ b" and "n < 2 ^ 64" and "rd k = as @ bs"
    and "clients st s = Some c" and "c_filename c = None"
  obtains as2 st' where "put_header m s ((''PUT '' @ name) @ [newline]) k st = (True, st')" "calm as2" "bytes_of as2 = b"
    "fs st' = fs st" "conns st' s = Some (k\<lparr>rd := as2 @ bs\<rparr>)"
    "clients st' s = Some \<lparr>c_state = 1, request = Some PUT, c_filename = Some (path_of m name), filesize = n, bytesfin = 0\<rparr>"
proof -
  have pl: "plain (''PUT '' @ name)" using assms(1) by (simp add: newline_def)
  obtain as2 where 2: "calm as2" "bytes_of as2 = b" "read_all (as @ bs) 8 = (8, size_bytes n, as2 @ bs)"
    by (rule read_all_calm [OF assms(2), of 8 bs]) (use assms(3) in auto)
  have "read_all_from_socket k 8 = (8, size_bytes n, k\<lparr>rd := as2 @ bs\<rparr>)"
    using 2(3) assms(5) by (simp add: read_all_from_socket_def)
  then show ?thesis
    by (intro that [of "snd (put_header m s ((''PUT '' @ name) @ [newline]) k st)" as2])
      (use 2(1,2) assms(4,6) in \<open>auto simp: Let_def put_header_def cstr_line [OF pl] bytes_size_bytes butlast_append
        cstr_line [OF pl, simplified]\<close>)
qed

lemma serve_header:
  assumes "put_arrives s name n body bs st" and "plain name" and "length name \<le> 4100" and "n < 2 ^ 64"
    and "length body < 2 ^ 64" and "msg_ok m" and "fs st (path_of m name) \<noteq> None \<or> can_create m (path_of m name)"
  shows "(agains bs = 0 \<and> (\<exists>st'. serve_event m (Ready s) st = Inr st' \<and> put_over m s (path_of m name) n body st'))
       \<or> (\<exists>es st'. agains bs = Suc (agains es) \<and> serve_event m (Ready s) st = Inr st'
            \<and> putting s (path_of m name) n body es st' \<and> fs st' (path_of m name) \<noteq> None)"
proof -
  from assms(1) obtain as b where ar: "clients st s = None" "quiet bs"
    "conns st s = Some \<lparr>rd = as @ bs, wr = [], sent = []\<rparr>" "calm as"
    "bytes_of as = (''PUT '' @ name) @ newline # size_bytes n @ b" "body = b @ bytes_of bs"
    unfolding put_arrives_def by auto
  have pl: "plain (''PUT '' @ name)" using assms(2) by (simp add: newline_def)
  obtain as1 k1 st0 where 1: "st0 = st\<lparr>clients := (clients st)(s \<mapsto> new_client)\<rparr>"
    "k1 = \<lparr>rd = as @ bs, wr = [], sent = []\<rparr>\<lparr>rd := as1 @ bs\<rparr>" "calm as1" "bytes_of as1 = size_bytes n @ b"
    "readformserver m s st0 = do_request m s ((''PUT '' @ name) @ [newline]) k1 (upd_conn s k1 st0)"
    by (rule first_turn [OF ar(1,3) _ ar(4,5) pl]) (use assms(3) in auto)
  obtain as2 st1 where 2: "put_header m s ((''PUT '' @ name) @ [newline]) k1 (upd_conn s k1 st0) = (True, st1)"
    "calm as2" "bytes_of as2 = b" "fs st1 = fs (upd_conn s k1 st0)" "conns st1 s = Some (k1\<lparr>rd := as2 @ bs\<rparr>)"
    "clients st1 s = Some \<lparr>c_state = 1, request = Some PUT, c_filename = Some (path_of m name), filesize = n, bytesfin = 0\<rparr>"
    by (rule put_header_plain [OF assms(2) 1(3,4) assms(4), of k1 bs "upd_conn s k1 st0" s new_client])
      (auto simp: 1(1,2) new_client_def)
  have "putting s (path_of m name) n body (as2 @ bs) st1"
    unfolding putting_def using 2 ar(2,6) 1(2) calm_quiet [OF 2(2)] by auto
  moreover have "readformserver m s st0 = resume m s st1"
    unfolding 1(5) using 2(1) by (simp add: do_request_def cstr_line [OF pl, simplified])
  ultimately show ?thesis
    using serve_resumed [of m s st0 st1 _ n body "as2 @ bs" st] 1(1) 2(2,4) ar(1) assms(5-7)
    by (auto simp del: serve_event.simps)
qed

section \<open>Other sockets\<close>

text \<open>The socket \<open>s\<close> has seen nothing between two states.\<close>

definition apart :: "nat \<Rightarrow> srv \<Rightarrow> srv \<Rightarrow> bool" where
  "apart s st st' \<longleftrightarrow> conns st' s = conns st s \<and> clients st' s = clients st s \<and> set (closed st) \<subseteq> set (closed st')"

lemma apart_refl [simp]: "apart s st st"
  by (simp add: apart_def)

lemma apart_trans [trans]: "apart s st st1 \<Longrightarrow> apart s st1 st2 \<Longrightarrow> apart s st st2"
  by (auto simp: apart_def)

lemma apart_parts:
  "t \<noteq> s \<Longrightarrow> apart s st (send t b st1) \<longleftrightarrow> apart s st st1"
  "t \<noteq> s \<Longrightarrow> apart s st (upd_client t f st1) \<longleftrightarrow> apart s st st1"
  "t \<noteq> s \<Longrightarrow> apart s st (upd_conn t k st1) \<longleftrightarrow> apart s st st1"
  "apart s st (st1\<lparr>fs := d\<rparr>) \<longleftrightarrow> apart s st st1"
  "apart s st (st1\<lparr>files := fl\<rparr>) \<longleftrightarrow> apart s st st1"
  "t \<noteq> s \<Longrightarrow> apart s st (st1\<lparr>conns := (conns st1)(t := x)\<rparr>) \<longleftrightarrow> apart s st st1"
  "t \<noteq> s \<Longrightarrow> apart s st (st1\<lparr>clients := (clients st1)(t := y)\<rparr>) \<longleftrightarrow> apart s st st1"
  by (auto simp: apart_def)

lemma apart_close: "t \<noteq> s \<Longrightarrow> apart s st st1 \<Longrightarrow> apart s st (close_conn t st1)"
  by (auto simp: apart_def close_conn_def)

lemmas apart_simps = apart_parts bad_request_def no_such_file_def Let_def

lemma apart_resume: "t \<noteq> s \<Longrightarrow> resume m t st = Inr (r, st') \<Longrightarrow> apart s st st'"
  by (auto simp: resume_def do_put_def res_conv apart_simps case_prod_beta split: option.splits if_splits)

lemma apart_put_header: "t \<noteq> s \<Longrightarrow> put_header m t line k st = (go, st') \<Longrightarrow> apart s st st'"
  by (auto simp: put_header_def apart_simps split: if_splits prod.splits)

lemma apart_do_get: "t \<noteq> s \<Longrightarrow> apart s st (do_get m t line st)"
  by (simp add: do_get_def apart_def bad_request_def no_such_file_def Let_def split: option.split)

lemma apart_do_delete: "t \<noteq> s \<Longrightarrow> apart s st (do_delete m t line st)"
  by (auto simp: do_delete_def apart_simps)

lemma apart_do_request: "t \<noteq> s \<Longrightarrow> do_request m t line k st = Inr (r, st') \<Longrightarrow> apart s st st'"
proof -
  assume t: "t \<noteq> s" and r: "do_request m t line k st = Inr (r, st')"
  obtain go st1 where h: "put_header m t line k st = (go, st1)" by fastforce
  have "apart s st st1" using apart_put_header [OF t h] .
  moreover have "do_list t st = Inr st' \<Longrightarrow> apart s st st'" "do_unknown m t st = Inr st' \<Longrightarrow> apart s st st'" for st'
    using t by (auto simp: do_list_def do_unknown_def res_conv apart_simps)
  moreover have "resume m t st1 = Inr (r, st') \<Longrightarrow> apart s st st'"
    using apart_trans [OF \<open>apart s st st1\<close>] apart_resume [OF t] by blast
  moreover have "apart s st (do_get m t line st)" "apart s st (do_delete m t line st)"
    using t by (auto intro: apart_do_get apart_do_delete)
  ultimately show "apart s st st'"
    using r unfolding do_request_def h by (simp split: if_splits add: res_conv)
qed

lemma apart_readformserver: "t \<noteq> s \<Longrightarrow> readformserver m t st = Inr (r, st') \<Longrightarrow> apart s st st'"
proof -
  assume t: "t \<noteq> s" and r: "readformserver m t st = Inr (r, st')"
  have conn: "apart s st (upd_conn t k st)" for k using t by (simp add: apart_parts)
  show "apart s st st'"
    using r t apart_trans [OF conn apart_do_request [OF t]] apart_resume [OF t]
    by (auto simp: readformserver_def res_conv apart_simps split: option.splits if_splits lineptr.splits)
qed

lemma apart_serve_event:
  assumes "serve_event m e st = Inr st'" and "case e of Accept t k \<Rightarrow> t \<noteq> s | Hangup t \<Rightarrow> t \<noteq> s | Ready t \<Rightarrow> t \<noteq> s"
  shows "apart s st st'"
proof (cases e)
  case (Ready t)
  with assms(2) have t: "t \<noteq> s" by simp
  define st0 where "st0 = (if clients st t = None then st\<lparr>clients := (clients st)(t \<mapsto> new_client)\<rparr> else st)"
  have 0: "apart s st st0" using t by (simp add: st0_def apart_parts)
  from assms(1) Ready obtain r st1 where 1: "readformserver m t st0 = Inr (r, st1)"
    and st': "st' = (if r = -1 then (close_conn t st1)\<lparr>clients := (clients st1)(t := None)\<rparr> else st1)"
    by (auto simp: res_conv st0_def Let_def)
  from t 1 have "apart s st0 st1" by (rule apart_readformserver)
  then have "apart s st0 (close_conn t st1)" "apart s st0 st1" using apart_close t by auto
  then show ?thesis using apart_trans [OF 0] t
    by (auto simp: st' apart_def)
qed (use assms in \<open>auto simp: apart_parts intro: apart_close\<close>)

text \<open>
  In the run over \<open>evs\<close> the socket \<open>s\<close> gets only readiness events, and those of the other sockets
  succeed and leave the file \<open>p\<close> alone.
\<close>

primrec undisturbed :: "conf \<Rightarrow> nat \<Rightarrow> string \<Rightarrow> epoll_event list \<Rightarrow> srv \<Rightarrow> bool" where
  "undisturbed m s p [] st \<longleftrightarrow> True"
| "undisturbed m s p (e # evs) st \<longleftrightarrow>
     (case e of Accept t k \<Rightarrow> t \<noteq> s | Hangup t \<Rightarrow> t \<noteq> s | Ready t \<Rightarrow> True)
     \<and> (case serve_event m e st of
          Inl x \<Rightarrow> e = Ready s
        | Inr st' \<Rightarrow> (e = Ready s \<or> fs st' p = fs st p) \<and> undisturbed m s p evs st')"

lemma undisturbed_other:
  assumes "undisturbed m s p (e # evs) st" and "e \<noteq> Ready s"
  obtains st' where "serve_event m e st = Inr st'" "apart s st st'" "fs st' p = fs st p" "undisturbed m s p evs st'"
proof (cases "serve_event m e st")
  case (Inr st')
  moreover have "apart s st st'"
    using apart_serve_event [OF Inr, of s] assms by (auto split: epoll_event.splits)
  ultimately show ?thesis using assms that by auto
qed (use assms in auto)

lemma put_over_apart: "put_over m s p n body st \<Longrightarrow> apart s st st' \<Longrightarrow> fs st' p = fs st p \<Longrightarrow> put_over m s p n body st'"
  by (auto simp: put_over_def apart_def)

lemma putting_apart: "putting s p n body es st \<Longrightarrow> apart s st st' \<Longrightarrow> fs st' p = fs st p \<Longrightarrow> putting s p n body es st'"
  by (simp add: putting_def apart_def)

lemma put_arrives_apart: "put_arrives s name n body bs st \<Longrightarrow> apart s st st' \<Longrightarrow> put_arrives s name n body bs st'"
  by (simp add: put_arrives_def apart_def)

definition own :: "nat \<Rightarrow> epoll_event list \<Rightarrow> nat" where
  "own s evs = length (filter (\<lambda>e. e = Ready s) evs)"

lemma own_simps [simp]: "own s [] = 0" "own s (Ready s # evs) = Suc (own s evs)" "e \<noteq> Ready s \<Longrightarrow> own s (e # evs) = own s evs"
  by (simp_all add: own_def)

lemma serve_over:
  "put_over m s p n body st \<Longrightarrow> undisturbed m s p evs st \<Longrightarrow> own s evs = 0
   \<Longrightarrow> \<exists>st'. serve m evs st = Inr st' \<and> put_over m s p n body st'"
proof (induction evs arbitrary: st)
  case (Cons e evs)
  then have "e \<noteq> Ready s" by auto
  with Cons.prems(2) obtain st' where "serve_event m e st = Inr st'" "apart s st st'" "fs st' p = fs st p"
    "undisturbed m s p evs st'" by (rule undisturbed_other)
  with Cons.IH [of st'] Cons.prems \<open>e \<noteq> Ready s\<close> show ?case by (auto intro: put_over_apart)
qed simp

lemma serve_putting:
  assumes "length body < 2 ^ 64" and "msg_ok m"
  shows "putting s p n body es st \<Longrightarrow> fs st p \<noteq> None \<or> can_create m p \<Longrightarrow> undisturbed m s p evs st
    \<Longrightarrow> own s evs = Suc (agains es) \<Longrightarrow> \<exists>st'. serve m evs st = Inr st' \<and> put_over m s p n body st'"
proof (induction evs arbitrary: st es)
  case (Cons e evs)
  show ?case
  proof (cases "e = Ready s")
    case True
    from serve_put [OF Cons.prems(1) assms Cons.prems(2)] show ?thesis
    proof (elim disjE conjE exE)
      fix st1 assume "agains es = 0" "serve_event m (Ready s) st = Inr st1" "put_over m s p n body st1"
      then show ?thesis using serve_over [of m s p n body st1 evs] Cons.prems True by auto
    next
      fix bs st1 assume 1: "agains es = Suc (agains bs)" "serve_event m (Ready s) st = Inr st1"
        "putting s p n body bs st1" "fs st1 p \<noteq> None"
      then show ?thesis using Cons.IH [of bs st1] 1 Cons.prems True by auto
    qed
  next
    case False
    with Cons.prems(3) obtain st' where "serve_event m e st = Inr st'" "apart s st st'" "fs st' p = fs st p"
      "undisturbed m s p evs st'" by (rule undisturbed_other)
    with Cons.IH [of es st'] Cons.prems False show ?thesis by (auto intro: putting_apart)
  qed
qed simp


lemma serve_arriving:
  assumes "plain name" and "length name \<le> 4100" and "n < 2 ^ 64" and "length body < 2 ^ 64" and "msg_ok m"
    and "can_create m (path_of m name)"
  shows "put_arrives s name n body bs st \<Longrightarrow> undisturbed m s (path_of m name) evs st
    \<Longrightarrow> own s evs = Suc (agains bs) \<Longrightarrow> \<exists>st'. serve m evs st = Inr st' \<and> put_over m s (path_of m name) n body st'"
proof (induction evs arbitrary: st)
  case (Cons e evs)
  show ?case
  proof (cases "e = Ready s")
    case True
    from serve_header [OF Cons.prems(1) assms(1-5)] assms(6)
    consider st1 where "agains bs = 0" "serve_event m (Ready s) st = Inr st1" "put_over m s (path_of m name) n body st1"
      | es st1 where "agains bs = Suc (agains es)" "serve_event m (Ready s) st = Inr st1"
          "putting s (path_of m name) n body es st1" by blast
    then show ?thesis
    proof cases
      case 1
      then show ?thesis using serve_over [OF 1(3), of evs] Cons.prems True by auto
    next
      case 2
      then show ?thesis using serve_putting [OF assms(4,5) 2(3), of evs] Cons.prems True assms(6) by auto
    qed
  next
    case False
    with Cons.prems(2) obtain st' where "serve_event m e st = Inr st'" "apart s st st'"
      "undisturbed m s (path_of m name) evs st'" by (rule undisturbed_other)
    with Cons.IH [of st'] Cons.prems False show ?thesis by (auto intro: put_arrives_apart)
  qed
qed simp


lemma undisturbed_accepts:
  "list_all (\<lambda>e. case e of Accept t k \<Rightarrow> t \<noteq> s | Hangup t \<Rightarrow> False | Ready t \<Rightarrow> t = s) evs \<Longrightarrow> undisturbed m s p evs st"
  by (induction evs arbitrary: st) (auto simp del: serve_event.simps(3) split: epoll_event.splits sum.splits)

definition demo_conf :: conf where
  "demo_conf = \<lparr>directory = ''dir'', err_bad_request = ''Bad request'' @ [newline],
     err_no_such_file = ''No such file'' @ [newline], err_bad_file_size = ''Bad file size'' @ [newline],
     can_create = (\<lambda>_. True)\<rparr>"

lemma demo_conf_simps [simp]: "msg_ok demo_conf" "can_create demo_conf p"
  by (simp_all add: msg_ok_def demo_conf_def)


section \<open>GET\<close>

lemma do_get_reply:
  assumes "plain name" and "conns st s = Some k" and "wr k = []" and "fs st (path_of m name) = Some content"
  shows "fs (do_get m s ((''GET '' @ name) @ [newline]) st) = fs st"
    "closed (do_get m s ((''GET '' @ name) @ [newline]) st) = closed st"
    "conns (do_get m s ((''GET '' @ name) @ [newline]) st) s
       = Some (k\<lparr>sent := sent k @ ''OK'' @ [newline] @ size_bytes (length content) @ content\<rparr>)"
proof -
  have pl: "plain (''GET '' @ name)" using assms(1) by (simp add: newline_def)
  show "fs (do_get m s ((''GET '' @ name) @ [newline]) st) = fs st"
    "closed (do_get m s ((''GET '' @ name) @ [newline]) st) = closed st"
    "conns (do_get m s ((''GET '' @ name) @ [newline]) st) s
       = Some (k\<lparr>sent := sent k @ ''OK'' @ [newline] @ size_bytes (length content) @ content\<rparr>)"
    using assms(2-4)
    by (simp_all add: do_get_def Let_def cstr_line [OF pl, simplified] write_all_open write_to_file_sent butlast_append)
qed

lemma serve_get:
  assumes "clients st s = None" and "conns st s = Some \<lparr>rd = as, wr = [], sent = []\<rparr>" and "calm as"
    and "bytes_of as = ''GET '' @ name @ [newline]" and "plain name" and "length name \<le> 4100"
    and "fs st (path_of m name) = Some content"
  shows "\<exists>st' es. serve_event m (Ready s) st = Inr st' \<and> fs st' = fs st
     \<and> closed st' = closed st @ [(s, \<lparr>rd = es, wr = [], sent = ''OK'' @ [newline] @ size_bytes (length content) @ content\<rparr>)]"
proof -
  have pl: "plain (''GET '' @ name)" using assms(5) by (simp add: newline_def)
  obtain as1 k1 st0 where 1: "st0 = st\<lparr>clients := (clients st)(s \<mapsto> new_client)\<rparr>"
    "k1 = \<lparr>rd = as, wr = [], sent = []\<rparr>\<lparr>rd := as1 @ []\<rparr>" "calm as1" "bytes_of as1 = []"
    "readformserver m s st0 = do_request m s ((''GET '' @ name) @ [newline]) k1 (upd_conn s k1 st0)"
    by (rule first_turn [OF assms(1,2), of as "[]" "''GET '' @ name" "[]" m]) (use assms pl in auto)
  have "readformserver m s st0 = Inr (-1, do_get m s ((''GET '' @ name) @ [newline]) (upd_conn s k1 st0))"
    unfolding 1(5) by (simp add: do_request_def cstr_line [OF pl, simplified])
  moreover have "conns (upd_conn s k1 st0) s = Some k1" "wr k1 = []" "fs (upd_conn s k1 st0) (path_of m name) = Some content"
    using 1(1,2) assms(7) by auto
  note do_get_reply [OF assms(5) this]
  ultimately show ?thesis using 1(1,2) assms(1) by (auto simp: close_conn_def)
qed

section \<open>The client\<close>

text \<open>The peer sends \<open>b\<close>, in any pieces.\<close>

definition delivers :: "revent list \<Rightarrow> string \<Rightarrow> bool" where
  "delivers es b \<longleftrightarrow> calm es \<and> bytes_of es = b"

definition conn :: "revent list \<Rightarrow> sock" where
  "conn es = \<lparr>rd = es, wr = [], sent = []\<rparr>"

lemma conn_simps [simp]: "rd (conn es) = es" "wr (conn es) = []" "sent (conn es) = []"
  by (simp_all add: conn_def)

lemma put_request_sent:
  "length remote < 2 ^ 30 \<Longrightarrow> sent (put_request remote content (conn es))
     = ''PUT '' @ remote @ newline # size_bytes (length content) @ content"
  by (simp add: put_request_def write_all_open send_loop_sent)

lemma get_request_sent:
  "length remote < 2 ^ 30 \<Longrightarrow> sent (get_request remote (conn es)) = ''GET '' @ remote @ [newline]"
  by (simp add: get_request_def write_all_open)

lemma read_reply_ok:
  assumes "delivers es (''OK'' @ newline # rest)"
  obtains es' where "delivers es' rest" "read_reply ok (conn es) d = Inr (ok (conn es') d)"
proof -
  have "calm es" "bytes_of es = ''OK'' @ newline # rest" using assms by (auto simp: delivers_def)
  then obtain es' n alloc where "calm es'" "bytes_of es' = rest"
    "mygetline (conn es) NullLine (-1) = Inr (int (length ''OK'' + 1), Line (''OK'' @ [newline]) n alloc, (conn es)\<lparr>rd := es' @ []\<rparr>)"
    by (rule mygetline_line [of es "''OK''" rest "-1" "conn es" "[]"]) (auto simp: newline_def)
  moreover have "cstr (''OK'' @ [newline]) = ''OK'' @ [newline]" by (rule cstr_line) (simp add: newline_def)
  ultimately show ?thesis
    by (intro that [of es']) (simp_all add: delivers_def read_reply_def conn_def)
qed

lemma client_put_reply:
  assumes "delivers es (put_reply m (length content) content)"
  shows "client_reply creat PUT a d (conn es) = Inr ([Success, Connection_closed], d)"
proof -
  have "delivers es (''OK'' @ newline # [])" using assms by (simp add: put_reply_def)
  then obtain es' where "read_reply done_ok (conn es) d = Inr (done_ok (conn es') d)"
    by (rule read_reply_ok)
  then show ?thesis by (simp add: client_reply_def put_answer_def delete_answer_def done_ok_def)
qed

lemma client_get_reply:
  assumes "delivers es (''OK'' @ newline # size_bytes (length content) @ content)" and "length content < 2 ^ 64"
    and "creat (the (localfile a))"
  shows "client_reply creat GET a d (conn es) = Inr ([Connection_closed], d(the (localfile a) \<mapsto> content))"
proof -
  obtain es' where es': "delivers es' (size_bytes (length content) @ content)"
    "read_reply (get_ok creat (the (localfile a))) (conn es) d = Inr (get_ok creat (the (localfile a)) (conn es') d)"
    by (rule read_reply_ok [OF assms(1)])
  obtain es2 where 2: "calm es2" "bytes_of es2 = content" "read_all es' 8 = (8, size_bytes (length content), es2)"
    by (rule read_all_calm [of es' 8 "[]"]) (use es'(1) in \<open>auto simp: delivers_def\<close>)
  have "get_loop es2 [] 0 = (content, length content)"
    using get_loop_calm [OF 2(1), of 0 "[]"] 2(2) assms(2) by (simp add: w64_id)
  then show ?thesis using es'(2) 2(3) assms(2,3)
    by (simp add: client_reply_def get_ok_def read_all_from_socket_def bytes_size_bytes conn_def)
qed


text \<open>Delivery byte by byte.\<close>

definition bytewise :: "string \<Rightarrow> revent list" where
  "bytewise b = map (\<lambda>c. Data [c]) b"

lemma delivers_bytewise: "delivers (bytewise b) b"
  by (induction b) (auto simp: delivers_def bytewise_def)

definition demo_args :: args where
  "demo_args = \<lparr>host = ''h'', port = ''1'', verb_word = ''PUT'', remotefile = Some ''a'', localfile = Some ''f''\<rparr>"


end
