(* ===== verification/Server_Props.thy ===== *)
theory Server_Props
  imports Server_Correct
begin

text \<open>
  What the server sends in any run, and where it fails: requests that arrive in the wrong pieces,
  the buffer of LIST, and records of sockets that are gone.
\<close>

section \<open>Replies\<close>

text \<open>A reply of the protocol: \<open>OK\<close> alone, \<open>ERROR\<close> with one of the messages, or \<open>OK\<close> with a size and
  that many bytes (or, when the size is negative as an \<open>int\<close>, no byte). It is never empty.\<close>

definition is_reply :: "conf \<Rightarrow> string \<Rightarrow> bool" where
  "is_reply m b \<longleftrightarrow> b = ''OK'' @ [newline]
     \<or> b \<in> (\<lambda>e. ''ERROR'' @ newline # e) ` {err_bad_request m, take 13 (err_bad_request m @ [CHR 0x00]),
           err_no_such_file m, err_bad_file_size m}
     \<or> (\<exists>c. b = ''OK'' @ newline # size_bytes (length c) @ c \<or> b = ''OK'' @ newline # size_bytes (length c))"

text \<open>A socket that takes everything gets the buffer, or nothing when its length is negative as an
  \<open>int\<close>.\<close>

lemma write_all_cases:
  assumes "wr k = []"
  obtains (all) "snd (write_all_to_socket k b) = k\<lparr>sent := sent k @ b\<rparr>" | (none) "snd (write_all_to_socket k b) = k"
proof (cases "0 < int32 (int (length b))")
  case True
  moreover have "write_loop [] [] 0 [] = (0, [], [])" by (subst write_loop.simps) simp
  ultimately show ?thesis using assms all none unfolding write_all_to_socket_def
    by (cases b) (auto simp: write_loop.simps [of "[]"])
next
  case False
  then show ?thesis using assms by (intro none) (simp add: write_all_to_socket_def write_loop.simps [of "[]"])
qed

definition fresh_conn :: "nat \<Rightarrow> srv \<Rightarrow> bool" where
  "fresh_conn s st \<longleftrightarrow> (\<exists>k. conns st s = Some k \<and> wr k = [] \<and> sent k = [])"

definition replied :: "conf \<Rightarrow> nat \<Rightarrow> srv \<Rightarrow> bool" where
  "replied m s st \<longleftrightarrow> (\<exists>k. conns st s = Some k \<and> wr k = [] \<and> is_reply m (sent k))"

text \<open>The request line and the socket behind it when a PUT is dropped without a reply: the line has
  no end, or fewer than the eight bytes of the size can be read behind it.\<close>

definition put_cut :: "string \<Rightarrow> sock \<Rightarrow> bool" where
  "put_cut line k \<longleftrightarrow> take 4 (cstr line) = ''PUT '' \<and>
     (last (cstr line) \<noteq> newline \<or> fst (read_all_from_socket k 8) < 8)"

text \<open>A new request on the socket \<open>s\<close> is such a PUT.\<close>

definition header_cut :: "nat \<Rightarrow> srv \<Rightarrow> bool" where
  "header_cut s st \<longleftrightarrow> (\<forall>c. clients st s = Some c \<longrightarrow> c_state c = 0) \<and>
     (\<exists>k numread line n alloc k'. conns st s = Some k \<and> numread \<noteq> -1 \<and> put_cut line k'
        \<and> mygetline k NullLine (FILENAME_MAX + 1 + 1 + 6) = Inr (numread, Line line n alloc, k'))"

lemma replied_errors:
  assumes "msg_ok m" and "fresh_conn s st"
  shows "replied m s (bad_request m s st)" "replied m s (no_such_file m s st)"
    "replied m s (send s (''OK'' @ [newline]) st)"
    "do_unknown m s st = Inr st' \<Longrightarrow> replied m s st'"
    "replied m s (send s (err_bad_file_size m) (send s (''ERROR'' @ [newline]) st))"
  using assms unfolding fresh_conn_def msg_ok_def
  by (auto simp: replied_def is_reply_def bad_request_def no_such_file_def do_unknown_def write_all_open res_conv)

lemma resume_reply:
  assumes "msg_ok m" and "fresh_conn s st" and "resume m s st = Inr (r, st')"
  shows "closed st' = closed st \<and> (if r = -1 then replied m s st' else fresh_conn s st')"
proof -
  from assms(3) obtain c k p where 0: "clients st s = Some c" "conns st s = Some k" "c_filename c = Some p"
    "do_put m s c k st = Inr (r, st')"
    unfolding resume_def by (auto split: option.splits if_splits simp: do_put_def)
  then obtain f d where 2: "open_put m (c_state c) p (fs st) = Inr (f, d)"
    by (auto simp: do_put_def res_conv)
  obtain fin es d' n where 3: "put_loop (rd k) f d (bytesfin c) = (fin, es, d', n)"
    by (metis prod_cases4)
  note 1 = 0 2 3
  define st1 where "st1 = upd_client s (\<lambda>c. c\<lparr>bytesfin := n\<rparr>) (upd_conn s (k\<lparr>rd := es\<rparr>) (st\<lparr>fs := d'\<rparr>))"
  have "fresh_conn s st1" using assms(2) 1(2) by (auto simp: st1_def fresh_conn_def)
  note replied = replied_errors [OF assms(1) this]
  from 1 have r: "(r, st') = (if fin then (-1, upd_client s (\<lambda>c. c\<lparr>c_state := -1\<rparr>)
      (if n \<noteq> filesize c then send s (err_bad_file_size m) (send s (''ERROR'' @ [newline]) st1)
       else send s (''OK'' @ [newline]) st1)) else (0, upd_client s (\<lambda>c. c\<lparr>c_state := 2\<rparr>) st1))"
    by (auto simp: do_put_def st1_def Let_def)
  have upd: "replied m s (upd_client s f st) = replied m s st" "fresh_conn s (upd_client s f st) = fresh_conn s st" for f st
    by (simp_all add: replied_def fresh_conn_def)
  show ?thesis using r replied(3,5) \<open>fresh_conn s st1\<close> by (auto simp: upd st1_def [symmetric] split: if_splits)
     (auto simp: st1_def)
qed

lemma do_list_reply:
  assumes "fresh_conn s st" and "do_list s st = Inr st'"
  shows "closed st' = closed st \<and> replied m s st'"
proof -
  from assms(2) obtain l where st': "st' = send s l (send s (size_bytes (length l)) (send s (''OK'' @ [newline])
      (upd_client s (\<lambda>c. c\<lparr>request := Some LIST\<rparr>) st)))"
    by (auto simp: do_list_def res_conv Let_def)
  from assms(1) obtain k where k: "conns st s = Some k" "wr k = []" "sent k = []" unfolding fresh_conn_def by blast
  define k1 where "k1 = k\<lparr>sent := ''OK'' @ newline # size_bytes (length l)\<rparr>"
  have "conns st' s = Some (snd (write_all_to_socket k1 l))"
    using k by (simp add: st' write_all_open k1_def)
  moreover have "wr k1 = []" by (simp add: k1_def k)
  then have "wr (snd (write_all_to_socket k1 l)) = [] \<and> is_reply m (sent (snd (write_all_to_socket k1 l)))"
    by (rule write_all_cases [where b = l]) (auto simp: k1_def k is_reply_def)
  ultimately have "replied m s st'" unfolding replied_def by blast
  then show ?thesis by (simp add: st')
qed

lemma do_get_closed: "closed (do_get m s line st) = closed st" "closed (do_delete m s line st) = closed st"
  by (auto simp: do_get_def do_delete_def bad_request_def no_such_file_def Let_def split: option.split)

lemma replied_upd:
  "replied m s (upd_client s f st) \<longleftrightarrow> replied m s st" "fresh_conn s (upd_client s f st) \<longleftrightarrow> fresh_conn s st"
  "fresh_conn s (st\<lparr>files := fl, fs := d\<rparr>) \<longleftrightarrow> fresh_conn s st" "fresh_conn s (st\<lparr>clients := cl\<rparr>) \<longleftrightarrow> fresh_conn s st"
  "fresh_conn s (st\<lparr>files := fl\<rparr>) \<longleftrightarrow> fresh_conn s st"
  by (simp_all add: replied_def fresh_conn_def)

lemma do_get_reply_ok:
  assumes "msg_ok m" and "fresh_conn s st"
  shows "replied m s (do_get m s line st)"
proof -
  have "fresh_conn s (upd_client s (\<lambda>c. c\<lparr>request := Some GET\<rparr>) st)"
    "fresh_conn s (upd_client s (\<lambda>c. c\<lparr>c_state := 1\<rparr>) (upd_client s (\<lambda>c. c\<lparr>request := Some GET\<rparr>) st))"
    using assms(2) by (simp_all add: replied_upd)
  note errors = replied_errors(1) [OF assms(1) this(1)] replied_errors(2) [OF assms(1) this(2)]
  from assms(2) obtain k where "conns st s = Some k" "wr k = []" "sent k = []" unfolding fresh_conn_def by blast
  with errors show ?thesis unfolding do_get_def
    by (auto simp: Let_def write_all_open write_to_file_sent replied_def is_reply_def split: option.split)
qed

lemma do_delete_reply:
  assumes "msg_ok m" and "fresh_conn s st"
  shows "replied m s (do_delete m s line st)"
proof -
  have 1: "fresh_conn s (upd_client s (\<lambda>c. c\<lparr>request := Some DELETE\<rparr>) st)"
    using assms(2) by (simp add: replied_upd)
  then have "fresh_conn s ((upd_client s (\<lambda>c. c\<lparr>request := Some DELETE\<rparr>) st)\<lparr>files := fl, fs := d\<rparr>)" for fl d
    by (simp add: replied_upd)
  from replied_errors [OF assms(1) 1] replied_errors(3) [OF assms(1) this] show ?thesis
    by (simp add: do_delete_def Let_def)
qed

lemma put_header_fresh:
  "fresh_conn s st \<Longrightarrow> wr k = [] \<Longrightarrow> sent k = [] \<Longrightarrow> put_header m s line k st = (go, st')
    \<Longrightarrow> fresh_conn s st' \<and> closed st' = closed st
      \<and> (go \<or> last (cstr line) \<noteq> newline \<or> fst (read_all_from_socket k 8) < 8)"
  by (auto simp: put_header_def Let_def read_all_from_socket_def case_prod_beta replied_upd split: if_splits)
    (auto simp: fresh_conn_def)

lemma do_request_reply:
  assumes "msg_ok m" and "fresh_conn s st" and "wr k = []" "sent k = []" and "do_request m s line k st = Inr (r, st')"
  shows "closed st' = closed st
    \<and> (if r = -1 then replied m s st' \<or> fresh_conn s st' \<and> put_cut line k else fresh_conn s st')"
proof -
  obtain go st1 where h: "put_header m s line k st = (go, st1)" by fastforce
  have 1: "fresh_conn s st1" "closed st1 = closed st"
    "take 4 (cstr line) = ''PUT '' \<Longrightarrow> \<not> go \<Longrightarrow> put_cut line k"
    using put_header_fresh [OF assms(2-4) h] by (auto simp: put_cut_def)
  have "do_unknown m s st = Inr st2 \<Longrightarrow> closed st2 = closed st" for st2
    by (auto simp: do_unknown_def res_conv)
  with assms(5) show ?thesis
    unfolding do_request_def h
    using resume_reply [OF assms(1) 1(1)] 1 do_list_reply [OF assms(2), of _ m] do_get_reply_ok [OF assms(1,2)]
      do_delete_reply [OF assms(1,2)] replied_errors(4) [OF assms(1,2)]
    by (simp split: if_splits add: res_conv do_get_closed) (auto simp: do_get_closed)
qed

lemma readformserver_reply:
  assumes "msg_ok m" and "fresh_conn s st" and "readformserver m s st = Inr (r, st')"
  shows "closed st' = closed st
    \<and> (if r = -1 then replied m s st' \<or> fresh_conn s st' \<and> header_cut s st else fresh_conn s st')"
proof -
  have conn: "fresh_conn s (upd_conn s (k\<lparr>rd := es\<rparr>) st) \<and> wr k = [] \<and> sent k = []" if "conns st s = Some k" for k es
    using assms(2) that by (auto simp: fresh_conn_def)
  show ?thesis
  proof (cases "clients st s")
    case (Some c)
    from assms(2) obtain k where k: "conns st s = Some k" by (auto simp: fresh_conn_def)
    show ?thesis
    proof (cases "c_state c = 0")
      case True
      then obtain numread lp k' where g: "mygetline k NullLine (FILENAME_MAX + 1 + 1 + 6) = Inr (numread, lp, k')"
        using assms(3) Some k by (auto simp: readformserver_def res_conv)
      then obtain es where k': "k' = k\<lparr>rd := es\<rparr>" by (auto simp: mygetline_def res_conv)
      define st1 where "st1 = upd_conn s k' st"
      have 1: "fresh_conn s st1" "wr k' = []" "sent k' = []" "closed st1 = closed st"
        using conn [OF k, of es] by (simp_all add: k' st1_def)
      note replied_errors(1) [OF assms(1) 1(1)]
      moreover have "closed (bad_request m s st1) = closed st" by (simp add: bad_request_def 1(4))
      moreover have "do_request m s line k' st1 = Inr (r, st')
          \<Longrightarrow> closed st' = closed st
            \<and> (if r = -1 then replied m s st' \<or> fresh_conn s st' \<and> put_cut line k' else fresh_conn s st')" for line
        using do_request_reply [OF assms(1) 1(1-3)] 1(4) by simp
      moreover have "(if numread = -1 then Inr (-1, bad_request m s st1)
          else case lp of Line line n alloc \<Rightarrow> do_request m s line k' st1 | _ \<Rightarrow> Inl Bad_access) = Inr (r, st')"
        unfolding st1_def using assms(3) Some k True g by (simp add: readformserver_def Let_def)
      moreover have "header_cut s st" if "numread \<noteq> -1" "lp = Line line n alloc" "put_cut line k'" for line n alloc
        unfolding header_cut_def using k True Some that g by auto
      ultimately show ?thesis by (auto split: if_splits lineptr.splits)
    next
      case False
      then show ?thesis using assms Some k resume_reply [OF assms(1,2)] by (simp add: readformserver_def)
    qed
  qed (use assms(3) in \<open>simp add: readformserver_def\<close>)
qed

section \<open>All runs\<close>

definition tidy :: "srv \<Rightarrow> bool" where
  "tidy st \<longleftrightarrow> (\<forall>s k. conns st s = Some k \<longrightarrow> wr k = [] \<and> sent k = [])"

text \<open>New connections are open for writing and take what is written, and nothing has been sent on them.\<close>

fun accept_ok :: "epoll_event \<Rightarrow> bool" where
  "accept_ok (Accept s k) \<longleftrightarrow> wr k = [] \<and> sent k = []"
| "accept_ok _ \<longleftrightarrow> True"

text \<open>How an event ends a connection.\<close>

definition ends_conn :: "conf \<Rightarrow> epoll_event \<Rightarrow> srv \<Rightarrow> nat \<Rightarrow> sock \<Rightarrow> bool" where
  "ends_conn m e st s k \<longleftrightarrow> e = Hangup s \<and> sent k = []
     \<or> e = Ready s \<and> (is_reply m (sent k) \<or> sent k = [] \<and> header_cut s st)"

lemma header_cut_new: "header_cut s (if clients st s = None then st\<lparr>clients := (clients st)(s \<mapsto> new_client)\<rparr> else st)
    \<Longrightarrow> header_cut s st"
  by (auto simp: header_cut_def new_client_def split: if_splits)

lemma event_closes:
  assumes "msg_ok m" and "tidy st" and "accept_ok e" and "serve_event m e st = Inr st'"
  shows "tidy st' \<and> (closed st' = closed st \<or> (\<exists>s k. closed st' = closed st @ [(s, k)] \<and> ends_conn m e st s k))"
proof (cases e)
  case (Accept s k)
  then show ?thesis using assms by (auto simp: tidy_def split: if_splits)
next
  case (Hangup s)
  then have "st' = close_conn s st" using assms(4) by simp
  then show ?thesis
    using assms(2) Hangup by (auto simp: tidy_def close_conn_def ends_conn_def split: option.splits if_splits)
next
  case (Ready s)
  define st0 where "st0 = (if clients st s = None then st\<lparr>clients := (clients st)(s \<mapsto> new_client)\<rparr> else st)"
  have 0: "conns st0 = conns st" "closed st0 = closed st" by (simp_all add: st0_def)
  from assms(4) Ready obtain r st1 where 1: "readformserver m s st0 = Inr (r, st1)"
    and st': "st' = (if r = -1 then (close_conn s st1)\<lparr>clients := (clients st1)(s := None)\<rparr> else st1)"
    by (auto simp: res_conv st0_def Let_def)
  have "conns st0 s \<noteq> None" using 1 by (auto simp: readformserver_def split: option.splits)
  then have "fresh_conn s st0" using assms(2) 0 by (auto simp: tidy_def fresh_conn_def)
  from readformserver_reply [OF assms(1) this 1] have r: "closed st1 = closed st"
    "if r = -1 then replied m s st1 \<or> fresh_conn s st1 \<and> header_cut s st0 else fresh_conn s st1" using 0 by auto
  have others: "conns st1 t = conns st t" if "t \<noteq> s" for t
    using apart_readformserver [OF that [symmetric] 1] 0 by (simp add: apart_def)
  show ?thesis
  proof (cases "r = -1")
    case True
    then have "conns st' t = Some k \<Longrightarrow> wr k = [] \<and> sent k = []" for t k
      using others [of t] assms(2) by (auto simp: st' close_conn_def tidy_def split: if_splits)
    then have "tidy st'" by (simp add: tidy_def)
    moreover obtain k where k: "conns st1 s = Some k" "is_reply m (sent k) \<or> sent k = [] \<and> header_cut s st0"
      using r(2) True by (auto simp: replied_def fresh_conn_def)
    then have "ends_conn m e st s k" using header_cut_new [of s st] Ready unfolding ends_conn_def st0_def by blast
    moreover have "closed st' = closed st @ [(s, k)]" using True r(1) k(1) by (simp add: st' close_conn_def)
    ultimately show ?thesis by blast
  next
    case False
    then have "conns st1 t = Some k \<Longrightarrow> wr k = [] \<and> sent k = []" for t k
      using r(2) others [of t] assms(2) by (cases "t = s") (auto simp: fresh_conn_def tidy_def)
    then show ?thesis using False r(1) by (simp add: st' tidy_def)
  qed
qed

lemma tidy_serve:
  "msg_ok m \<Longrightarrow> tidy st \<Longrightarrow> list_all accept_ok evs \<Longrightarrow> serve m evs st = Inr st' \<Longrightarrow> tidy st'"
proof (induction evs arbitrary: st)
  case (Cons e evs)
  then obtain st1 where "serve_event m e st = Inr st1" "serve m evs st1 = Inr st'"
    by (auto simp: res_conv simp del: serve_event.simps)
  moreover from this(1) have "tidy st1" using Cons.prems event_closes [of m st e st1] by simp
  ultimately show ?case using Cons.prems by (intro Cons.IH [of st1]) simp_all
qed simp



section \<open>A header in pieces\<close>

text \<open>The client reads from a connection that is closed without a reply.\<close>

lemma mygetline_empty: "mygetline (conn []) NullLine mx = Inr (-1, FreedLine, conn [])" if "mx \<le> 0"
  using getline_loop_end [of "[]" "[]" GETLINE_MINSIZE GETLINE_MINSIZE mx "[]" "[]" True "[]"] that
  by (auto simp: mygetline_def buffer_ok_def GETLINE_MINSIZE_def conn_def)

lemma client_no_reply: "v \<noteq> V_UNKNOWN \<Longrightarrow> client_reply creat v a d (conn []) = Inl Bad_access"
  by (cases v) (simp_all add: client_reply_def put_answer_def delete_answer_def read_reply_def mygetline_empty)

text \<open>A request line that the socket has delivered only in part.\<close>

lemma mygetline_partial:
  assumes "calm as" "newline \<notin> set (bytes_of as)" "bytes_of as \<noteq> []" "length (bytes_of as) < 2 ^ 31"
    and "mx \<le> 0 \<or> int (length (bytes_of as)) \<le> mx" and "rd k = as @ RAgain # bs"
  obtains n alloc where "mygetline k NullLine mx
     = Inr (int (length (bytes_of as)), Line (bytes_of as) n alloc, k\<lparr>rd := bs\<rparr>)"
  using getline_loop_end [of as "[]" GETLINE_MINSIZE GETLINE_MINSIZE mx "RAgain # bs" bs True "[]"] assms that
  by (auto simp: mygetline_def buffer_ok_def GETLINE_MINSIZE_def)

lemma dropped_request:
  assumes "readformserver m s (st\<lparr>clients := (clients st)(s \<mapsto> new_client)\<rparr>) = Inr (-1, st1)" and "clients st s = None"
    and "fs st1 = fs st" "files st1 = files st" "closed st1 = closed st" "conns st1 s = Some k"
  shows "\<exists>st'. serve_event m (Ready s) st = Inr st' \<and> fs st' = fs st \<and> files st' = files st
     \<and> closed st' = closed st @ [(s, k)]"
  using assms by (simp add: close_conn_def)

text \<open>When the socket runs dry inside the header of a PUT, the request is dropped: the server
  closes the connection without a word and stores nothing, and a client that waits for the reply
  to any request on such a connection frees its line buffer twice.\<close>

theorem put_split_header:
  assumes "plain name" and "length name \<le> 4100" and "clients st s = None"
    and "conns st s = Some \<lparr>rd = as @ RAgain # bs, wr = [], sent = []\<rparr>" and "calm as"
    and "bytes_of as = take j (''PUT '' @ name @ newline # size_bytes n)" and "4 \<le> j" and "j < length name + 13"
    and "v \<noteq> V_UNKNOWN"
  shows "(\<exists>st' es. serve_event m (Ready s) st = Inr st' \<and> fs st' = fs st \<and> files st' = files st
       \<and> closed st' = closed st @ [(s, \<lparr>rd = es, wr = [], sent = []\<rparr>)])
     \<and> client_reply creat v a d (conn []) = Inl Bad_access"
proof -
  let ?st0 = "st\<lparr>clients := (clients st)(s \<mapsto> new_client)\<rparr>" and ?k = "\<lparr>rd = as @ RAgain # bs, wr = [], sent = []\<rparr>"
  have "\<exists>st1 es. readformserver m s ?st0 = Inr (-1, st1) \<and> fs st1 = fs st \<and> files st1 = files st
      \<and> closed st1 = closed st \<and> conns st1 s = Some \<lparr>rd = es, wr = [], sent = []\<rparr>"
  proof (cases "j \<le> length name + 4")
    case True
    define q where "q = take (j - 4) name"
    have b: "bytes_of as = ''PUT '' @ q" using assms(6,7) True by (simp add: q_def take_Cons' eval_nat_numeral)
    have q: "plain q" "length q \<le> 4100"
      using assms(1,2) by (auto simp: q_def plain_def dest: in_set_takeD)
    then have pl: "plain (''PUT '' @ q)" by (simp add: newline_def)
    obtain l alloc where g: "mygetline ?k NullLine (FILENAME_MAX + 1 + 1 + 6)
        = Inr (int (length (bytes_of as)), Line (bytes_of as) l alloc, ?k\<lparr>rd := bs\<rparr>)"
      by (rule mygetline_partial [of as "FILENAME_MAX + 1 + 1 + 6" ?k bs])
        (use assms(5) b q(2) pl in \<open>auto simp: FILENAME_MAX_def plain_def\<close>)
    have c: "cstr (bytes_of as) = ''PUT '' @ q" unfolding b using pl by (intro cstr_plain) (simp add: plain_def)
    moreover have "last (''PUT '' @ q) \<noteq> newline"
      using pl unfolding plain_def by (metis append_is_Nil_conv last_in_set list.discI)
    ultimately show ?thesis using g assms(4)
      by (auto simp: readformserver_def new_client_def Let_def do_request_def put_header_def)
  next
    case False
    have pl: "plain (''PUT '' @ name)" using assms(1) by (simp add: newline_def)
    have b: "bytes_of as = (''PUT '' @ name) @ newline # take (j - (length name + 5)) (size_bytes n)"
      using assms(6) False by (simp add: take_Cons' eval_nat_numeral)
    obtain as1 k1 st0 where 1: "st0 = ?st0" "k1 = ?k\<lparr>rd := as1 @ RAgain # bs\<rparr>" "calm as1"
      "bytes_of as1 = take (j - (length name + 5)) (size_bytes n)"
      "readformserver m s st0 = do_request m s ((''PUT '' @ name) @ [newline]) k1 (upd_conn s k1 st0)"
      by (rule first_turn [OF assms(3,4) _ assms(5) b pl]) (use assms(2) in auto)
    have "read_all (as1 @ RAgain # bs) 8 = (int (length (bytes_of as1)), bytes_of as1, bs)"
      using 1(3,4) assms(8) by (intro read_all_again) auto
    then have "read_all_from_socket k1 8 = (int (length (bytes_of as1)), bytes_of as1, k1\<lparr>rd := bs\<rparr>)"
      by (simp add: read_all_from_socket_def 1(2))
    moreover have "length (bytes_of as1) < 8" using 1(4) assms(8) by auto
    ultimately show ?thesis using 1(1,2,5)
      by (auto simp: do_request_def put_header_def Let_def cstr_line [OF pl, simplified])
  qed
  then show ?thesis
    using dropped_request [of m s st] assms(3) client_no_reply [OF assms(9)] by blast
qed

lemma put_split_header_witness:
  "(\<exists>st' es. serve_event demo_conf (Ready 1) (upd_conn 1 \<lparr>rd = [Data ''PUT ''] @ RAgain # [Data ''a''], wr = [], sent = []\<rparr> srv_start) = Inr st'
       \<and> fs st' = fs (upd_conn 1 \<lparr>rd = [Data ''PUT ''] @ RAgain # [Data ''a''], wr = [], sent = []\<rparr> srv_start)
       \<and> files st' = files (upd_conn 1 \<lparr>rd = [Data ''PUT ''] @ RAgain # [Data ''a''], wr = [], sent = []\<rparr> srv_start)
       \<and> closed st' = closed (upd_conn 1 \<lparr>rd = [Data ''PUT ''] @ RAgain # [Data ''a''], wr = [], sent = []\<rparr> srv_start)
          @ [(1, \<lparr>rd = es, wr = [], sent = []\<rparr>)])
     \<and> client_reply (\<lambda>_. True) PUT demo_args Map.empty (conn []) = Inl Bad_access"
  by (rule put_split_header [where name = "''a''" and j = 4 and n = 0 and as = "[Data ''PUT '']" and bs = "[Data ''a'']"])
    (simp_all add: newline_def srv_start_def eval_nat_numeral)

section \<open>The buffer of LIST\<close>

text \<open>A name that leaves no room for its line end, as the fourth of four names of 255 characters.\<close>

lemma list_four_names:
  assumes "length a = 255" "length b = 255" "length c = 255" "length d = 255"
  shows "list_names [a, b, c, d] [] 1024 = Inl Bad_access"
  using assms by simp

text \<open>When LIST gets through, it lists the names.\<close>

lemma list_names_Inr: "list_names fl l n = Inr r \<Longrightarrow> r = l @ concat (map (\<lambda>f. f @ [newline]) fl)"
  by (induction fl l n rule: list_names.induct) (auto simp: Let_def res_conv)

section \<open>Records of dead connections\<close>

text \<open>A record whose socket has been closed after an error is used for the next connection with that
  number: its request line is appended to the file of the old one.\<close>

lemma hangup_leaves_record:
  assumes "serve_event m (Hangup s) st = Inr st1" and "serve_event m (Accept s k) st1 = Inr st2"
  shows "clients st2 s = clients st s"
  using assms by auto

lemma stale_record:
  assumes "clients st s = Some c" and "c_state c = 2" and "request c = Some PUT" and "c_filename c = Some p"
    and "fs st p = Some content" and "calm es" and "conns st s = Some \<lparr>rd = es, wr = [], sent = []\<rparr>" and "bytesfin c < 2 ^ 64"
  shows "\<exists>st'. serve_event m (Ready s) st = Inr st' \<and> fs st' p = Some (content @ bytes_of es)"
  using assms put_loop_fin [OF assms(6,8)]
  by (simp add: readformserver_def resume_def do_put_def open_put_def append_file_def Let_def)

end
