(* ===== verification/Shell.thy ===== *)
theory Shell
  imports SString_Correct
begin

text \<open>
  The shell (\<open>shell/shell.c\<close>): history, redirection, the operators \<open>;\<close>, \<open>&&\<close> and \<open>||\<close>, background
  commands and signals.

  The operating system is an argument: what \<open>fork\<close>, \<open>waitpid\<close>, \<open>chdir\<close>, \<open>kill\<close> and the opening of
  files return, and how they change the world \<open>'w\<close>. A child process is the action that it takes
  after the redirections are set up. The vector of commands is a list and \<open>sstring_split\<close> gives
  the \<open>pieces\<close>, as the theories on them show; the structs of the processes live in memory and can be
  freed. What \<open>ps\<close> reads from \<open>/proc\<close> is left out.
\<close>

section \<open>The state\<close>

datatype redirect = Truncate string | Append string | Input string

datatype action = Exec "string list" "redirect option" | Fail | Crash

datatype status = Exit_status int | Killed_by int | Wait_failed

datatype sig = SIGKILL | SIGSTOP | SIGCONT

record process =
  command :: string
  pid :: int

record 'w os =
  fork :: "'w \<Rightarrow> int \<times> 'w"
  run_child :: "int \<Rightarrow> action \<Rightarrow> 'w \<Rightarrow> 'w"
  waitpid :: "int \<Rightarrow> 'w \<Rightarrow> status \<times> 'w"
  zombies :: "'w \<Rightarrow> int list \<times> 'w"
  can_open :: "redirect \<Rightarrow> 'w \<Rightarrow> bool"
  chdir :: "string \<Rightarrow> 'w \<Rightarrow> bool \<times> 'w"
  getcwd :: "'w \<Rightarrow> string"
  home :: "string option"
  send_signal :: "int \<Rightarrow> sig \<Rightarrow> 'w \<Rightarrow> bool \<times> 'w"
  new_process :: "(nat \<rightharpoonup> process) \<Rightarrow> nat"

datatype line_out =
    Prompt string int | Command_line string | History_line nat string | Ps_line int string
  | Invalid_index | No_history_match | Invalid_command string | No_process int
  | Signalled int string | No_directory string | Wait_failed_message

record 'w sh =
  commands :: "string list"
  processes :: "nat list"
  proc_mem :: "nat \<rightharpoonup> process"
  this :: nat
  cwd :: string
  world :: 'w
  outlog :: "line_out list"
  hfile :: string

record shconf =
  keep :: bool
  from_stdin :: bool

definition newline :: char where "newline = CHR 0x0A"

definition print :: "line_out \<Rightarrow> 'w sh \<Rightarrow> 'w sh" where
  "print x s = s\<lparr>outlog := outlog s @ [x]\<rparr>"

definition ld_proc :: "(nat \<rightharpoonup> process) \<Rightarrow> nat \<Rightarrow> process res" where
  "ld_proc m p = (case m p of None \<Rightarrow> Inl Bad_access | Some x \<Rightarrow> Inr x)"

section \<open>Arguments\<close>

text \<open>
  \<open>toarguments\<close>: the trimming loop reads the character before the buffer when nothing is left. That
  character is the zero that ends the first part when the input is the second part of an operator
  (\<open>second\<close>), and outside of the buffer otherwise.
\<close>

definition rstrip :: "string \<Rightarrow> string" where
  "rstrip s = rev (dropWhile (\<lambda>c. c = CHR '' '') (rev s))"

definition trim :: "string \<Rightarrow> string" where
  "trim input = rstrip (if input \<noteq> [] \<and> last input = newline then butlast input else input)"

definition toarguments :: "bool \<Rightarrow> string \<Rightarrow> string list res" where
  "toarguments second input =
     (let input = trim input
      in rbind (guard (input \<noteq> [] \<or> second) Bad_access) (\<lambda>_.
           Inr (pieces CHR '' '' (dropWhile (\<lambda>c. c = CHR '' '') input))))"

text \<open>\<open>atoi\<close> of the C library.\<close>

definition digit :: "char \<Rightarrow> bool" where
  "digit c \<longleftrightarrow> 48 \<le> (of_char c :: nat) \<and> (of_char c :: nat) \<le> 57"

definition digits_value :: "string \<Rightarrow> int" where
  "digits_value s = foldl (\<lambda>n c. 10 * n + (of_char c - 48)) 0 (takeWhile digit s)"

definition atoi :: "string \<Rightarrow> int" where
  "atoi s =
     (let s = dropWhile (\<lambda>c. c = CHR '' '' \<or> 9 \<le> (of_char c :: nat) \<and> (of_char c :: nat) \<le> 13) s
      in case s of
        [] \<Rightarrow> 0
      | c # r \<Rightarrow> int32 (if c = CHR ''-'' then - digits_value r
          else if c = CHR ''+'' then digits_value r else digits_value s))"

section \<open>Child processes\<close>

text \<open>The loop over the first \<open>size - 1\<close> arguments, for the first redirection.\<close>

fun find_redirect :: "nat \<Rightarrow> string list \<Rightarrow> (nat \<times> (string \<Rightarrow> redirect)) option" where
  "find_redirect i [] = None"
| "find_redirect i (a # as) =
     (if a = ''>'' then Some (i, Truncate)
      else if a = ''>>'' then Some (i, Append)
      else if a = ''<'' then Some (i, Input)
      else find_redirect (i + 1) as)"

text \<open>
  What the child does. \<open>open\<close> fails on the null pointer behind the last argument. When the first
  argument is the redirection, the name of the command has been freed before \<open>execvp\<close>.
\<close>

definition child_action :: "'w os \<Rightarrow> 'w \<Rightarrow> nat \<Rightarrow> string list \<Rightarrow> action" where
  "child_action os w sz args =
     (case (if 2 < sz then find_redirect 0 (take (sz - 1) args) else None) of
        None \<Rightarrow> if args = [] then Crash else Exec args None
      | Some (i, r) \<Rightarrow>
          if length args \<le> i + 1 then Fail
          else if \<not> can_open os (r (args ! (i + 1))) w then Fail
          else if i = 0 then Crash
          else Exec (take i args) (Some (r (args ! (i + 1)))))"

definition external :: "'w os \<Rightarrow> string list \<Rightarrow> 'w sh \<Rightarrow> (int \<times> 'w sh) res" where
  "external os args s =
     (case fork os (world s) of (child_pid, w) \<Rightarrow>
        rbind (guard (child_pid \<noteq> -1) (Exited 1)) (\<lambda>_.
          case waitpid os child_pid (run_child os child_pid (child_action os w (length args) args) w) of
            (st, w) \<Rightarrow>
              let s = s\<lparr>world := w\<rparr>
              in (case st of
                    Exit_status n \<Rightarrow> Inr (n, s)
                  | Killed_by n \<Rightarrow> Inr (0, s)
                  | Wait_failed \<Rightarrow> Inr (0, print Wait_failed_message s))))"

text \<open>The last argument is the \<open>&\<close>. The struct of the new process is allocated with the size of a
  pointer; it is taken to have the room that the allocator rounds the size up to.\<close>

definition background :: "'w os \<Rightarrow> string list \<Rightarrow> string \<Rightarrow> 'w sh \<Rightarrow> 'w sh res" where
  "background os args cmd s =
     (case fork os (world s) of (child_pid, w) \<Rightarrow>
        rbind (guard (child_pid \<noteq> -1) (Exited 1)) (\<lambda>_.
          let w = run_child os child_pid (child_action os w (length args) (butlast args)) w;
              p = new_process os (proc_mem s)
          in Inr (s\<lparr>world := w, proc_mem := (proc_mem s)(p \<mapsto> \<lparr>command = cmd, pid = child_pid\<rparr>),
                    processes := processes s @ [p]\<rparr>)))"

definition PATH_MAX :: nat where "PATH_MAX = 4096"

definition cd :: "'w os \<Rightarrow> string list \<Rightarrow> 'w sh \<Rightarrow> (int \<times> 'w sh) res" where
  "cd os args s =
     rbind (case drop 1 args of
         [] \<Rightarrow> (case home os of None \<Rightarrow> Inl Null_deref | Some h \<Rightarrow> Inr h)
       | str # _ \<Rightarrow> Inr (if take 1 str = ''/'' then str else cwd s @ ''/'' @ str)) (\<lambda>path.
       rbind (guard (length path < PATH_MAX) Bad_access) (\<lambda>_.
         case chdir os path (world s) of (ok, w) \<Rightarrow>
           let s' = (if ok then s else print (No_directory path) s)
           in Inr (if ok then 0 else 1, s'\<lparr>world := w, cwd := getcwd os w\<rparr>)))"

definition run :: "'w os \<Rightarrow> string list \<Rightarrow> 'w sh \<Rightarrow> (int \<times> 'w sh) res" where
  "run os args s = (if hd args = ''cd'' then cd os args s else external os args s)"

section \<open>Commands of the shell\<close>

primrec find_proc :: "(nat \<rightharpoonup> process) \<Rightarrow> int \<Rightarrow> nat list \<Rightarrow> process option res" where
  "find_proc m n [] = Inr None"
| "find_proc m n (p # ps) = rbind (ld_proc m p) (\<lambda>x. if pid x = n then Inr (Some x) else find_proc m n ps)"

definition signal_command :: "'w os \<Rightarrow> sig \<Rightarrow> string \<Rightarrow> string list \<Rightarrow> 'w sh \<Rightarrow> 'w sh res" where
  "signal_command os sg cmd args s =
     (case drop 1 args of
        [] \<Rightarrow> Inr (print (Invalid_command cmd) s)
      | a # _ \<Rightarrow>
          rbind (find_proc (proc_mem s) (atoi a) (processes s)) (\<lambda>found.
            case found of
              None \<Rightarrow> Inr (print (No_process (atoi a)) s)
            | Some x \<Rightarrow>
                (case send_signal os (pid x) sg (world s) of (ok, w) \<Rightarrow>
                   let s = s\<lparr>world := w\<rparr>
                   in Inr (if ok then print (Signalled (pid x) (command x)) s else s))))"

primrec ps_lines :: "(nat \<rightharpoonup> process) \<Rightarrow> nat list \<Rightarrow> 'w sh \<Rightarrow> 'w sh res" where
  "ps_lines m [] s = Inr s"
| "ps_lines m (p # ps) s = rbind (ld_proc m p) (\<lambda>x. ps_lines m ps (print (Ps_line (pid x) (command x)) s))"

definition history :: "'w sh \<Rightarrow> 'w sh" where
  "history s = s\<lparr>outlog := outlog s @ map (\<lambda>i. History_line i (commands s ! i)) [0 ..< length (commands s)]\<rparr>"

definition write_history :: "shconf \<Rightarrow> 'w sh \<Rightarrow> 'w sh" where
  "write_history cf s =
     (if keep cf then s\<lparr>hfile := hfile s @ concat (map (\<lambda>c. c @ [newline]) (commands s))\<rparr> else s)"

definition add_command :: "string \<Rightarrow> 'w sh \<Rightarrow> 'w sh" where
  "add_command c s = s\<lparr>commands := commands s @ [c]\<rparr>"

text \<open>The loop that looks for an operator: its index, its length and its kind.\<close>

datatype logical = Both | And | Or

fun find_logical :: "nat \<Rightarrow> string \<Rightarrow> (nat \<times> nat \<times> logical) option" where
  "find_logical i [] = None"
| "find_logical i (c # cs) =
     (if c = CHR '';'' then Some (i, 1, Both)
      else if c = CHR ''&'' \<and> take 1 cs = ''&'' then Some (i, 2, And)
      else if c = CHR ''|'' \<and> take 1 cs = ''|'' then Some (i, 2, Or)
      else find_logical (i + 1) cs)"

definition goes_on :: "logical \<Rightarrow> int \<Rightarrow> bool" where
  "goes_on l r = (case l of Both \<Rightarrow> True | And \<Rightarrow> r = 0 | Or \<Rightarrow> r \<noteq> 0)"

definition run_logical :: "'w os \<Rightarrow> string \<Rightarrow> nat \<Rightarrow> nat \<Rightarrow> logical \<Rightarrow> 'w sh \<Rightarrow> 'w sh res" where
  "run_logical os cmd i n l s =
     (let s = add_command cmd s
      in rbind (toarguments False (take i cmd)) (\<lambda>args1.
         rbind (run os args1 s) (\<lambda>(success1, s).
         rbind (toarguments True (drop (i + n) cmd)) (\<lambda>args2.
           if goes_on l success1 then rbind (run os args2 s) (\<lambda>(_, s). Inr s) else Inr s))))"

text \<open>A command without an operator: \<open>toarguments\<close> has trimmed it.\<close>

definition run_single :: "'w os \<Rightarrow> string \<Rightarrow> 'w sh \<Rightarrow> 'w sh res" where
  "run_single os cmd s =
     rbind (toarguments False cmd) (\<lambda>args.
       let cmd = trim cmd
       in if hd args = ''kill'' then signal_command os SIGKILL cmd args s
          else if hd args = ''stop'' then signal_command os SIGSTOP cmd args s
          else if hd args = ''cont'' then signal_command os SIGCONT cmd args s
          else if last args = ''&'' then background os args cmd (add_command cmd s)
          else rbind (run os args (add_command cmd s)) (\<lambda>(_, s). Inr s))"

text \<open>
  \<open>firstn\<close> and \<open>prefix\<close> run a command of the history; \<open>again\<close> is \<open>runcommand\<close>. \<open>vector_get\<close> gives
  \<open>NULL\<close> for an index that is not below the size, which \<open>strdup\<close> dereferences.
\<close>

definition firstn :: "(string \<Rightarrow> 'w sh \<Rightarrow> (bool \<times> 'w sh) res) \<Rightarrow> string \<Rightarrow> 'w sh \<Rightarrow> (bool \<times> 'w sh) res" where
  "firstn again num s =
     (let number = atoi num
      in if number < 0 \<or> int (length (commands s)) < number then Inr (False, print Invalid_index s)
         else rbind (guard (nat number < length (commands s)) Null_deref) (\<lambda>_.
           let input = commands s ! nat number
           in again input (print (Command_line input) s)))"

definition prefix_command :: "(string \<Rightarrow> 'w sh \<Rightarrow> (bool \<times> 'w sh) res) \<Rightarrow> string \<Rightarrow> 'w sh \<Rightarrow> (bool \<times> 'w sh) res" where
  "prefix_command again pre s =
     (if pre = [] then
        rbind (guard (commands s \<noteq> []) Null_deref) (\<lambda>_.
          let input = last (commands s)
          in again input (print (Command_line input) s))
      else (case find (\<lambda>c. take (length pre) c = pre) (rev (commands s)) of
          None \<Rightarrow> Inr (False, print No_history_match s)
        | Some input \<Rightarrow> again input (print (Command_line input) s)))"

text \<open>
  \<open>runcommand\<close>: the flag is whether the shell exits. The command runs itself again through the
  history: the fuel bounds the depth.
\<close>

primrec runcommand :: "nat \<Rightarrow> 'w os \<Rightarrow> shconf \<Rightarrow> string \<Rightarrow> 'w sh \<Rightarrow> (bool \<times> 'w sh) res" where
  "runcommand 0 os cf input s = Inl Out_of_fuel"
| "runcommand (Suc k) os cf input s =
     rbind (guard (input \<noteq> []) Bad_access) (\<lambda>_.
       let cmd = (if last input = newline then butlast input else input)
       in if cmd = [] then Inr (False, s)
          else if cmd = ''exit'' then Inr (True, write_history cf s)
          else if cmd = ''!history'' then Inr (False, history s)
          else if cmd = ''ps'' then
            let s = add_command cmd s
            in rbind (ps_lines (proc_mem s) (processes s) s) (\<lambda>s. Inr (False, s))
          else if hd cmd = CHR ''#'' then firstn (runcommand k os cf) (tl cmd) s
          else if hd cmd = CHR ''!'' then prefix_command (runcommand k os cf) (tl cmd) s
          else rbind (case find_logical 0 cmd of
                 Some (i, n, l) \<Rightarrow> run_logical os cmd i n l s
               | None \<Rightarrow> run_single os cmd s) (\<lambda>s. Inr (False, s)))"

section \<open>The main loop\<close>

text \<open>\<open>reapchildren\<close>, for one process that has ended: the loop frees every struct that it passes.\<close>

fun reap :: "int \<Rightarrow> nat list \<Rightarrow> (nat \<rightharpoonup> process) \<Rightarrow> (nat list \<times> (nat \<rightharpoonup> process)) res" where
  "reap z [] m = Inr ([], m)"
| "reap z (p # ps) m =
     rbind (ld_proc m p) (\<lambda>x.
       if pid x = z then Inr (ps, m)
       else rbind (reap z ps (m(p := None))) (\<lambda>(qs, m). Inr (p # qs, m)))"

primrec reap_all :: "int list \<Rightarrow> nat list \<Rightarrow> (nat \<rightharpoonup> process) \<Rightarrow> (nat list \<times> (nat \<rightharpoonup> process)) res" where
  "reap_all [] ps m = Inr (ps, m)"
| "reap_all (z # zs) ps m = rbind (reap z ps m) (\<lambda>(ps, m). reap_all zs ps m)"

definition reapchildren :: "'w os \<Rightarrow> 'w sh \<Rightarrow> 'w sh res" where
  "reapchildren os s =
     (case zombies os (world s) of (zs, w) \<Rightarrow>
        rbind (reap_all zs (processes s) (proc_mem s)) (\<lambda>(ps, m).
          Inr (s\<lparr>world := w, processes := ps, proc_mem := m\<rparr>)))"

text \<open>One turn of the loop in \<open>execute\<close> up to the reading of the line.\<close>

definition prompt :: "'w os \<Rightarrow> 'w sh \<Rightarrow> 'w sh res" where
  "prompt os s =
     rbind (reapchildren os s) (\<lambda>s.
       let s = s\<lparr>cwd := getcwd os (world s)\<rparr>
       in rbind (ld_proc (proc_mem s) (this s)) (\<lambda>x. Inr (print (Prompt (cwd s) (pid x)) s)))"

primrec execute :: "'w os \<Rightarrow> shconf \<Rightarrow> string list \<Rightarrow> 'w sh \<Rightarrow> 'w sh res" where
  "execute os cf [] s = rbind (prompt os s) (\<lambda>s. Inr (write_history cf s))"
| "execute os cf (l # ls) s =
     rbind (prompt os s) (\<lambda>s.
       let l = (if \<not> from_stdin cf \<and> l \<noteq> [] \<and> last l = newline then butlast l else l);
           s = (if from_stdin cf then s else print (Command_line l) s)
       in rbind (runcommand 2 os cf l s) (\<lambda>(stop, s). if stop then Inr s else execute os cf ls s))"

text \<open>\<open>shell\<close>: the options are the names of the history file and of the script, \<open>open_hist\<close> and
  \<open>script\<close> open them.\<close>

definition start_sh :: "string \<Rightarrow> int \<Rightarrow> nat \<Rightarrow> string \<Rightarrow> 'w \<Rightarrow> 'w sh" where
  "start_sh cmd self p hist w = \<lparr>commands = [], processes = [p], proc_mem = [p \<mapsto> \<lparr>command = cmd, pid = self\<rparr>],
     this = p, cwd = [], world = w, outlog = [], hfile = hist\<rparr>"

definition shell :: "'w os \<Rightarrow> (string \<Rightarrow> string option) \<Rightarrow> (string \<Rightarrow> string list option) \<Rightarrow> string option
    \<Rightarrow> string option \<Rightarrow> string list \<Rightarrow> string \<Rightarrow> int \<Rightarrow> nat \<Rightarrow> 'w \<Rightarrow> 'w sh res" where
  "shell os open_hist script h f stdin_lines cmd self p w =
     rbind (case f of
         None \<Rightarrow> Inr stdin_lines
       | Some name \<Rightarrow> (case script name of None \<Rightarrow> Inl (Exited 1) | Some ls \<Rightarrow> Inr ls)) (\<lambda>ls.
     rbind (case h of
         None \<Rightarrow> Inr []
       | Some name \<Rightarrow> (case open_hist name of None \<Rightarrow> Inl (Exited 1) | Some c \<Rightarrow> Inr c)) (\<lambda>hist.
       execute os \<lparr>keep = (h \<noteq> None), from_stdin = (f = None)\<rparr> ls (start_sh cmd self p hist w)))"

end
