(* ===== verification/Shell_Correct.thy ===== *)
theory Shell_Correct
  imports Shell
begin

text \<open>
  The shell always comes back from a command, runs the commands of its history as if they were
  typed, splits command lines into their words, and dies after its first background command.
\<close>

section \<open>The depth of the history\<close>

text \<open>No command of the history is itself a command on the history.\<close>

definition plain_command :: "string \<Rightarrow> bool" where
  "plain_command c \<longleftrightarrow> c \<noteq> [] \<and> hd c \<noteq> CHR ''#'' \<and> hd c \<noteq> CHR ''!''"

definition hist_ok :: "'w sh \<Rightarrow> bool" where
  "hist_ok s \<longleftrightarrow> list_all plain_command (commands s)"

text \<open>Results without the outcome that the fuel ran out, whose states satisfy \<open>P\<close>.\<close>

definition comes_back :: "('a \<Rightarrow> bool) \<Rightarrow> 'a res \<Rightarrow> bool" where
  "comes_back P r \<longleftrightarrow> r \<noteq> Inl Out_of_fuel \<and> (\<forall>x. r = Inr x \<longrightarrow> P x)"

lemma comes_back_Inr [simp]: "comes_back P (Inr x) \<longleftrightarrow> P x"
  by (simp add: comes_back_def)

lemma comes_back_Inl [simp]: "comes_back P (Inl e) \<longleftrightarrow> e \<noteq> Out_of_fuel"
  by (simp add: comes_back_def)

lemma comes_back_bind:
  "comes_back Q m \<Longrightarrow> (\<And>x. Q x \<Longrightarrow> comes_back P (f x)) \<Longrightarrow> comes_back P (rbind m f)"
  by (cases m) auto

lemma comes_back_guard [simp]: "comes_back P (guard b e) \<longleftrightarrow> (if b then P () else e \<noteq> Out_of_fuel)"
  by (cases b) auto

lemma comes_back_weaken: "comes_back Q m \<Longrightarrow> (\<And>x. Q x \<Longrightarrow> P x) \<Longrightarrow> comes_back P m"
  by (auto simp: comes_back_def)

lemma hist_ok_simps [simp]:
  "hist_ok (print x s) = hist_ok s" "hist_ok (s\<lparr>world := w\<rparr>) = hist_ok s" "hist_ok (s\<lparr>cwd := d\<rparr>) = hist_ok s"
  "hist_ok (s\<lparr>outlog := o'\<rparr>) = hist_ok s" "hist_ok (s\<lparr>hfile := h\<rparr>) = hist_ok s"
  "hist_ok (s\<lparr>processes := ps\<rparr>) = hist_ok s" "hist_ok (s\<lparr>proc_mem := m\<rparr>) = hist_ok s"
  "hist_ok (add_command c s) \<longleftrightarrow> hist_ok s \<and> plain_command c" "hist_ok (write_history cf s) = hist_ok s"
  "hist_ok (history s) = hist_ok s"
  by (auto simp: hist_ok_def print_def add_command_def write_history_def history_def)

lemma external_back: "hist_ok s \<Longrightarrow> comes_back (\<lambda>(_, s). hist_ok s) (external os args s)"
  unfolding external_def by (auto simp: comes_back_def res_conv guard_def Let_def split: prod.splits status.splits)

lemma cd_back: "hist_ok s \<Longrightarrow> comes_back (\<lambda>(_, s). hist_ok s) (cd os args s)"
  unfolding cd_def by (auto simp: comes_back_def guard_def Let_def split: prod.splits list.splits option.splits)

lemma run_back: "hist_ok s \<Longrightarrow> comes_back (\<lambda>(_, s). hist_ok s) (run os args s)"
  by (simp add: run_def cd_back external_back)

lemma toarguments_back: "comes_back (\<lambda>_. second \<or> trim c \<noteq> []) (toarguments second c)"
  by (auto simp: toarguments_def Let_def guard_def)

lemma background_back: "hist_ok s \<Longrightarrow> comes_back hist_ok (background os args c s)"
  unfolding background_def by (auto simp: comes_back_def guard_def Let_def split: prod.splits)

lemma ld_proc_back [simp]: "comes_back (\<lambda>_. True) (ld_proc m p)"
  by (auto simp: ld_proc_def split: option.split)

lemma find_proc_back: "comes_back (\<lambda>_. True) (find_proc m n ps)"
  by (induction ps) (auto intro!: comes_back_bind [OF ld_proc_back])

lemma signal_back: "hist_ok s \<Longrightarrow> comes_back hist_ok (signal_command os sg c args s)"
  unfolding signal_command_def
  by (auto split: list.split intro!: comes_back_bind [OF find_proc_back] simp: Let_def split: option.split prod.split)

lemma ps_back: "hist_ok s \<Longrightarrow> comes_back hist_ok (ps_lines m ps s)"
  by (induction ps arbitrary: s) (auto intro!: comes_back_bind [OF ld_proc_back])

lemma trim_hd: "trim c \<noteq> [] \<Longrightarrow> plain_command c \<Longrightarrow> plain_command (trim c)"
proof -
  have take: "\<exists>n. rstrip x = take n x" for x
    unfolding rstrip_def by (metis append_eq_conv_conj rev_append rev_rev_ident takeWhile_dropWhile_id)
  then obtain n where "trim c = take n (if c \<noteq> [] \<and> last c = newline then butlast c else c)"
    unfolding trim_def by blast
  then have "\<exists>k. trim c = take k c" by (auto simp: butlast_conv_take split: if_splits)
  then show "trim c \<noteq> [] \<Longrightarrow> plain_command c \<Longrightarrow> plain_command (trim c)"
    by (auto simp: plain_command_def)
qed

lemma logical_back:
  assumes "hist_ok s" and "plain_command cmd"
  shows "comes_back hist_ok (run_logical os cmd i n l s)"
  unfolding run_logical_def Let_def
  by (intro comes_back_bind [OF toarguments_back] comes_back_bind [OF run_back])
    (use assms in \<open>auto intro!: comes_back_bind [OF toarguments_back] comes_back_bind [OF run_back]\<close>)

lemma single_back:
  assumes "hist_ok s" and "plain_command cmd"
  shows "comes_back hist_ok (run_single os cmd s)"
proof -
  have "comes_back hist_ok (rbind (run os args (add_command (trim cmd) s)) (\<lambda>(_, s). Inr s))" if "trim cmd \<noteq> []" for args
    using that assms by (auto intro!: comes_back_bind [OF run_back] trim_hd)
  then show ?thesis
    unfolding run_single_def Let_def
    by (intro comes_back_bind [OF toarguments_back])
      (use assms in \<open>auto intro!: signal_back background_back trim_hd\<close>)
qed

lemma find_last: "find P xs = Some x \<Longrightarrow> x \<in> set xs"
  by (auto simp: find_Some_iff)

lemma runcommand_back_step:
  assumes "hist_ok s" and "\<And>c s. plain_command c \<Longrightarrow> hist_ok s \<Longrightarrow> comes_back (\<lambda>(_, s). hist_ok s) (runcommand k os cf c s)"
  shows "comes_back (\<lambda>(_, s). hist_ok s) (runcommand (Suc k) os cf input s)"
proof -
  have hist: "c \<in> set (commands s) \<Longrightarrow> plain_command c" for c using assms(1) by (auto simp: hist_ok_def list_all_iff)
  have "comes_back (\<lambda>(_, s). hist_ok s) (firstn (runcommand k os cf) num s)" for num
    unfolding firstn_def using assms hist by (auto simp: Let_def guard_def)
  moreover have "comes_back (\<lambda>(_, s). hist_ok s) (prefix_command (runcommand k os cf) pre s)" for pre
    unfolding prefix_command_def using assms hist
    by (auto simp: Let_def guard_def split: option.split dest!: find_last)
  moreover have "comes_back (\<lambda>(_, s). hist_ok s) (rbind (run_logical os cmd i n l s) (\<lambda>s. Inr (False, s)))"
    "comes_back (\<lambda>(_, s). hist_ok s) (rbind (run_single os cmd s) (\<lambda>s. Inr (False, s)))"
    if "plain_command cmd" for cmd i n l
    using assms(1) that by (auto intro!: comes_back_bind [OF logical_back] comes_back_bind [OF single_back])
  moreover have "comes_back (\<lambda>(_, s). hist_ok s)
      (rbind (ps_lines m ps (add_command ''ps'' s)) (\<lambda>s. Inr (False, s)))" for m ps
    using assms(1) by (intro comes_back_bind [OF ps_back]) (auto simp: plain_command_def)
  ultimately show ?thesis
    using assms(1) by (auto simp: Let_def guard_def plain_command_def split: option.split)
qed

lemma plain_butlast: "plain_command c \<Longrightarrow> butlast c \<noteq> [] \<Longrightarrow> plain_command (butlast c)"
  by (cases c) (auto simp: plain_command_def)

text \<open>A plain command needs no fuel beyond its own turn.\<close>

lemma runcommand_plain:
  assumes "plain_command c" and "hist_ok s"
  shows "comes_back (\<lambda>(_, s). hist_ok s) (runcommand (Suc k) os cf c s)"
proof -
  define cmd where "cmd = (if last c = newline then butlast c else c)"
  have cmd: "cmd = [] \<or> plain_command cmd" using assms(1) plain_butlast unfolding cmd_def by auto
  have "comes_back (\<lambda>(_, s). hist_ok s) (rbind (run_logical os cmd i n l s) (\<lambda>s. Inr (False, s)))"
    "comes_back (\<lambda>(_, s). hist_ok s) (rbind (run_single os cmd s) (\<lambda>s. Inr (False, s)))"
    if "plain_command cmd" for i n l
    using assms(2) that by (auto intro!: comes_back_bind [OF logical_back] comes_back_bind [OF single_back])
  moreover have "comes_back (\<lambda>(_, s). hist_ok s)
      (rbind (ps_lines m ps (add_command ''ps'' s)) (\<lambda>s. Inr (False, s)))" for m ps
    using assms(2) by (intro comes_back_bind [OF ps_back]) (auto simp: plain_command_def)
  ultimately show ?thesis
    using assms(2) cmd by (auto simp: Let_def guard_def plain_command_def cmd_def [symmetric] split: option.split)
qed

lemma runcommand_back: "hist_ok s \<Longrightarrow> comes_back (\<lambda>(_, s). hist_ok s) (runcommand (Suc (Suc k)) os cf input s)"
  by (rule runcommand_back_step) (assumption, rule runcommand_plain)

lemma reap_back: "comes_back (\<lambda>_. True) (reap z ps m)"
  by (induction ps arbitrary: m) (auto intro!: comes_back_bind [OF ld_proc_back] comes_back_bind [where Q = "\<lambda>_. True"])

lemma reap_all_back: "comes_back (\<lambda>_. True) (reap_all zs ps m)"
  by (induction zs arbitrary: ps m) (auto intro!: comes_back_bind [OF reap_back])

lemma prompt_back: "hist_ok s \<Longrightarrow> comes_back hist_ok (prompt os s)"
  unfolding prompt_def reapchildren_def
  by (auto simp: Let_def split: prod.split intro!: comes_back_bind [where Q = hist_ok] comes_back_bind [OF reap_all_back]
      comes_back_bind [OF ld_proc_back])

lemma execute_back: "hist_ok s \<Longrightarrow> comes_back hist_ok (execute os cf ls s)"
proof (induction ls arbitrary: s)
  case Nil
  then show ?case by (auto intro!: comes_back_bind [OF prompt_back])
next
  case (Cons l ls)
  have two: "comes_back (\<lambda>(_, s). hist_ok s) (runcommand 2 os cf c s)" if "hist_ok s" for c s
    using runcommand_back [OF that, of 0 os cf c] by (simp only: numeral_2_eq_2)
  have "comes_back hist_ok (rbind (runcommand 2 os cf c s) (\<lambda>(stop, s). if stop then Inr s else execute os cf ls s))"
    if "hist_ok s" for c s
    by (rule comes_back_bind [OF two [OF that]])
      (auto simp del: execute.simps runcommand.simps intro: Cons.IH split: prod.splits)
  then show ?case
    by (simp only: execute.simps Let_def) (rule comes_back_bind [OF prompt_back [OF Cons.prems]], simp)
qed

text \<open>C28: the shell never runs away into its own history: for every script and whatever the
  operating system does, two levels of \<open>runcommand\<close> are enough, because a command on the history is
  never put into the history.\<close>

theorem shell_terminates:
  "shell os open_hist script h f stdin_lines cmd self p w \<noteq> Inl Out_of_fuel"
proof -
  have "comes_back hist_ok (execute os cf ls (start_sh cmd self p hist w))" for cf ls hist
    by (rule execute_back) (simp add: hist_ok_def start_sh_def)
  moreover have "comes_back (\<lambda>_. True) (case f of None \<Rightarrow> Inr stdin_lines
      | Some name \<Rightarrow> (case script name of None \<Rightarrow> Inl (Exited 1) | Some ls \<Rightarrow> Inr ls))"
    "comes_back (\<lambda>_. True) (case h of None \<Rightarrow> Inr [] | Some name \<Rightarrow> (case open_hist name of None \<Rightarrow> Inl (Exited 1) | Some c \<Rightarrow> Inr c))"
    by (auto split: option.split)
  ultimately have "comes_back hist_ok (shell os open_hist script h f stdin_lines cmd self p w)"
    unfolding shell_def by (intro comes_back_bind) auto
  then show ?thesis by (simp add: comes_back_def)
qed

section \<open>Running the history\<close>

lemma find_latest:
  assumes "i < length xs" and "P (xs ! i)" and "\<And>j. i < j \<Longrightarrow> j < length xs \<Longrightarrow> \<not> P (xs ! j)"
  shows "find P (rev xs) = Some (xs ! i)"
  unfolding find_Some_iff using assms
  by (intro exI [of _ "length xs - Suc i"]) (auto simp: rev_nth)

text \<open>\<open>#n\<close> runs the command with that number and \<open>!p\<close> the latest command that starts with \<open>p\<close>,
  just as if its text had been typed, after it has been printed.\<close>

theorem history_replays:
  assumes "i < length (commands s)"
    and "c = ''#'' @ num \<and> atoi num = int i
       \<or> c = ''!'' @ pre \<and> pre \<noteq> [] \<and> pre \<noteq> ''history'' \<and> take (length pre) (commands s ! i) = pre
         \<and> (\<forall>j. i < j \<and> j < length (commands s) \<longrightarrow> take (length pre) (commands s ! j) \<noteq> pre)"
  shows "runcommand (Suc k) os cf (c @ [newline]) s
    = runcommand k os cf (commands s ! i) (print (Command_line (commands s ! i)) s)"
  using assms(2)
proof (elim disjE conjE)
  assume "c = ''#'' @ num" "atoi num = int i"
  then show ?thesis using assms(1) by (simp add: firstn_def Let_def newline_def)
next
  assume c: "c = ''!'' @ pre" "pre \<noteq> []" "pre \<noteq> ''history''" "take (length pre) (commands s ! i) = pre"
    and later: "\<forall>j. i < j \<and> j < length (commands s) \<longrightarrow> take (length pre) (commands s ! j) \<noteq> pre"
  have "find (\<lambda>c. take (length pre) c = pre) (rev (commands s)) = Some (commands s ! i)"
    using assms(1) c(4) later by (intro find_latest) auto
  then show ?thesis using c by (simp add: prefix_command_def Let_def newline_def)
qed

section \<open>The words of a command\<close>

definition word_ok :: "string \<Rightarrow> bool" where
  "word_ok v \<longleftrightarrow> v \<noteq> [] \<and> CHR '' '' \<notin> set v \<and> newline \<notin> set v"

fun unwords :: "string list \<Rightarrow> string" where
  "unwords [] = []"
| "unwords [v] = v"
| "unwords (v # vs) = v @ CHR '' '' # unwords vs"

lemma word_ends: "word_ok v \<Longrightarrow> hd v \<noteq> CHR '' '' \<and> last v \<noteq> CHR '' ''"
  unfolding word_ok_def by (metis hd_in_set last_in_set)

lemma word_okD: "word_ok v \<Longrightarrow> v \<noteq> [] \<and> newline \<notin> set v"
  by (simp add: word_ok_def)

lemma newline_not_space: "newline \<noteq> CHR '' ''"
  by (simp add: newline_def)

lemma pieces_word: "d \<notin> set v \<Longrightarrow> pieces d v = [v]"
  by (induction v) auto

lemma pieces_append: "d \<notin> set v \<Longrightarrow> pieces d (v @ d # r) = v # pieces d r"
  by (induction v) auto

lemma pieces_unwords: "vs \<noteq> [] \<Longrightarrow> list_all word_ok vs \<Longrightarrow> pieces CHR '' '' (unwords vs) = vs"
  by (induction vs rule: unwords.induct) (auto simp: pieces_word pieces_append word_ok_def)

lemma unwords_ends:
  assumes "vs \<noteq> []" and "list_all word_ok vs"
  shows "unwords vs \<noteq> []" "hd (unwords vs) \<noteq> CHR '' ''" "last (unwords vs) \<noteq> CHR '' ''" "newline \<notin> set (unwords vs)"
  using assms
  by (induction vs rule: unwords.induct)
    (auto simp: word_ends hd_append newline_not_space dest: word_okD)

lemma trim_unwords:
  assumes "vs \<noteq> []" and "list_all word_ok vs" and "nl = [] \<or> nl = [newline]"
  shows "trim (replicate m CHR '' '' @ unwords vs @ replicate n CHR '' '' @ nl) = replicate m CHR '' '' @ unwords vs"
proof -
  let ?u = "replicate m CHR '' '' @ unwords vs"
  have u: "?u \<noteq> []" "last ?u \<noteq> CHR '' ''" using unwords_ends [OF assms(1,2)] by auto
  have "dropWhile (\<lambda>c. c = CHR '' '') (rev (?u @ replicate n CHR '' '')) = rev ?u"
  proof -
    have "dropWhile (\<lambda>c. c = CHR '' '') (rev ?u) = rev ?u"
      using u by (subst dropWhile_eq_self_iff) (simp add: hd_rev del: rev_append)
    moreover have "rev (?u @ replicate n CHR '' '') = replicate n CHR '' '' @ rev ?u" by simp
    ultimately show ?thesis by (simp only:) (subst dropWhile_append2, auto)
  qed
  then have r: "rstrip (?u @ replicate n CHR '' '') = ?u" unfolding rstrip_def by simp
  have "last (?u @ replicate n CHR '' '') \<noteq> newline"
    using unwords_ends [OF assms(1,2)] by (cases n) (auto simp: newline_def dest: last_in_set)
  then show ?thesis using assms(3) r u(1) unfolding trim_def by (auto simp: butlast_append)
qed


lemma toarguments_words:
  assumes "vs \<noteq> []" and "list_all word_ok vs" and "nl = [] \<or> nl = [newline]"
  shows "toarguments second (replicate m CHR '' '' @ unwords vs @ replicate n CHR '' '' @ nl) = Inr vs"
proof -
  have "dropWhile (\<lambda>c. c = CHR '' '') (replicate m CHR '' '' @ unwords vs) = unwords vs"
    using unwords_ends [OF assms(1,2)] by (subst dropWhile_append2) (auto simp: dropWhile_eq_self_iff)
  then show ?thesis
    using unwords_ends(1) [OF assms(1,2)] pieces_unwords [OF assms(1,2)]
    unfolding toarguments_def Let_def trim_unwords [OF assms] by (simp add: guard_def)
qed

definition plain_word :: "string \<Rightarrow> bool" where
  "plain_word v \<longleftrightarrow> v \<noteq> ''>'' \<and> v \<noteq> ''>>'' \<and> v \<noteq> ''<''"

lemma find_redirect_plain:
  "list_all plain_word vs \<Longrightarrow> find_redirect i (vs @ as) = find_redirect (i + length vs) as"
  by (induction vs arbitrary: i) (auto simp: plain_word_def)

text \<open>C29: typing a command with a redirection at its end, with any spaces around it, makes the child
  run exactly the words of the command with exactly that redirection, and nothing else when the command has
  none.\<close>

theorem command_line_roundtrip:
  assumes "vs \<noteq> []" and "list_all word_ok (vs @ [op, f])" and "list_all plain_word vs"
    and "(op, r) \<in> {(''>'', Truncate), (''>>'', Append), (''<'', Input)}" and "can_open os (r f) w"
    and "nl = [] \<or> nl = [newline]"
  shows "rbind (toarguments second (replicate m CHR '' '' @ unwords (vs @ [op, f]) @ replicate n CHR '' '' @ nl))
       (\<lambda>args. Inr (child_action os w (length args) args)) = Inr (Exec vs (Some (r f)))
    \<and> rbind (toarguments second (replicate m CHR '' '' @ unwords vs @ replicate n CHR '' '' @ nl))
       (\<lambda>args. Inr (child_action os w (length args) args)) = Inr (Exec vs None)"
proof (rule conjI)
  have "find_redirect 0 (take (length (vs @ [op, f]) - 1) (vs @ [op, f])) = Some (length vs, r)"
    using find_redirect_plain [OF assms(3), of 0 "[op]"] assms(4) by auto
  then show "rbind (toarguments second (replicate m CHR '' '' @ unwords (vs @ [op, f]) @ replicate n CHR '' '' @ nl))
       (\<lambda>args. Inr (child_action os w (length args) args)) = Inr (Exec vs (Some (r f)))"
    using assms(1,5) by (subst toarguments_words [OF _ assms(2,6)]) (auto simp: child_action_def nth_append)
next
  have "list_all plain_word (take (length vs - 1) vs)"
    using assms(3) by (auto simp: list_all_iff dest: in_set_takeD)
  then have "find_redirect 0 (take (length vs - 1) vs) = None"
    using find_redirect_plain [of "take (length vs - 1) vs" 0 "[]"] by simp
  then show "rbind (toarguments second (replicate m CHR '' '' @ unwords vs @ replicate n CHR '' '' @ nl))
       (\<lambda>args. Inr (child_action os w (length args) args)) = Inr (Exec vs None)"
    using assms(1,2) by (subst toarguments_words [OF _ _ assms(6)]) (auto simp: child_action_def)
qed

section \<open>Reaping\<close>

lemma reap_freed: "m p = None \<Longrightarrow> case reap z ps m of Inl e \<Rightarrow> e = Bad_access | Inr (_, m') \<Rightarrow> m' p = None"
proof (induction z ps m rule: reap.induct)
  case (2 z q ps m)
  show ?case
  proof (cases "m q")
    case (Some x)
    have "case reap z ps (m(q := None)) of Inl e \<Rightarrow> e = Bad_access | Inr (_, m') \<Rightarrow> m' p = None" if "pid x \<noteq> z"
      using 2 Some that by (simp add: ld_proc_def fun_upd_def)
    with Some 2(2) show ?thesis
      by (cases "reap z ps (m(q := None))") (auto simp: ld_proc_def)
  qed (simp add: ld_proc_def)
qed simp

lemma reap_all_freed:
  "m p = None \<Longrightarrow> case reap_all zs (p # ps) m of
     Inl e \<Rightarrow> e = Bad_access | Inr (qs, m') \<Rightarrow> m' p = None"
  by (cases zs) (auto simp: ld_proc_def)

text \<open>C30: when children that ended are reaped while the struct of the shell itself is at the head of
  the list, where \<open>execute\<close> puts it, that struct is freed and the next prompt reads freed memory.\<close>

theorem reaping_frees_the_shell:
  assumes "processes s = this s # ps" and "proc_mem s (this s) = Some x"
    and "zombies os (world s) = (z # zs, w)" and "z \<noteq> pid x"
  shows "prompt os s = Inl Bad_access"
proof -
  let ?m = "(proc_mem s)(this s := None)"
  have reaped: "reap_all (z # zs) (this s # ps) (proc_mem s)
      = rbind (reap z ps ?m) (\<lambda>(qs, m). reap_all zs (this s # qs) m)"
    using assms(2,4) by (cases "reap z ps ?m") (auto simp: ld_proc_def)
  show ?thesis
  proof (cases "reap z ps ?m")
    case (Inl e)
    then show ?thesis
      using reap_freed [of ?m "this s" z ps] assms(1,3) reaped
      by (simp add: prompt_def reapchildren_def del: reap_all.simps)
  next
    case (Inr r)
    then have none: "snd r (this s) = None" using reap_freed [of ?m "this s" z ps] by (auto split: prod.splits)
    then show ?thesis
      using reap_all_freed [of "snd r" "this s" zs "fst r", OF none] assms(1,3) reaped Inr
      by (cases "reap_all zs (this s # fst r) (snd r)")
        (auto simp: prompt_def reapchildren_def case_prod_beta ld_proc_def Let_def simp del: reap_all.simps)
  qed
qed

section \<open>Sample runs\<close>

text \<open>A world of one counter: every child ends at once with status 0 and stays unreaped.\<close>

definition sample_os :: "int list os" where
  "sample_os = \<lparr>fork = (\<lambda>w. (int (length w) + 2, w)), run_child = (\<lambda>p _ w. p # w), waitpid = (\<lambda>p w. (Exit_status 0, tl w)),
     zombies = (\<lambda>w. (w, [])), can_open = (\<lambda>_ _. True), chdir = (\<lambda>_ w. (True, w)), getcwd = (\<lambda>_. ''/''),
     home = None, send_signal = (\<lambda>_ _ w. (True, w)), new_process = (\<lambda>_. 7)\<rparr>"

definition sample_sh :: "int list sh" where
  "sample_sh = add_command ''ls'' (add_command ''cd /'' (start_sh ''shell'' 1 5 [] [9]))"

definition sample_conf :: shconf where "sample_conf = \<lparr>keep = False, from_stdin = True\<rparr>"

lemma history_replays_witness:
  "runcommand 2 sample_os sample_conf (''#0'' @ [newline]) sample_sh
    = runcommand 1 sample_os sample_conf ''cd /'' (print (Command_line ''cd /'') sample_sh)"
  using history_replays [of 0 sample_sh "''#0''" "''0''" "[]" 1 sample_os sample_conf]
  by (simp add: sample_sh_def add_command_def start_sh_def numeral_2_eq_2 atoi_def digits_value_def digit_def int32_def
      del: runcommand.simps)

lemma reaping_frees_the_shell_witness: "prompt sample_os sample_sh = Inl Bad_access"
  by (rule reaping_frees_the_shell [of _ "[]" "\<lparr>command = ''shell'', pid = 1\<rparr>" _ 9 "[]" "[]"])
    (simp_all add: sample_os_def sample_sh_def add_command_def start_sh_def)

lemma command_line_roundtrip_witness:
  "rbind (toarguments False (replicate 1 CHR '' '' @ unwords ([''echo'', ''hi''] @ [''>'', ''out'']) @ replicate 2 CHR '' '' @ [newline]))
       (\<lambda>args. Inr (child_action sample_os [] (length args) args)) = Inr (Exec [''echo'', ''hi''] (Some (Truncate ''out'')))"
  by (rule command_line_roundtrip [THEN conjunct1]) (simp_all add: word_ok_def plain_word_def newline_def sample_os_def)

end
