(* ===== verification/Chat.thy ===== *)
theory Chat
  imports Net_Correct
begin

text \<open>
  The chat room (\<open>charming_chatroom\<close>): the framing of messages in \<open>utils.c\<close>, the server in
  \<open>server.c\<close> and the two threads of the client in \<open>client.c\<close>. A socket is the sequence of outcomes of
  its reads and writes, as for the file server. The window of the client and the setting up of sockets
  are left out.
\<close>

section \<open>utils.c\<close>

definition zero :: char where "zero = CHR 0x00"

text \<open>The loops differ from those of the file server in that a socket that would block is an error.\<close>

function chat_read_loop :: "revent list \<Rightarrow> nat \<Rightarrow> int \<Rightarrow> string \<Rightarrow> int \<times> string \<times> revent list" where
  "chat_read_loop es count bytesread buffer =
     (if bytesread < int32 (int count) then
        (case sys_read es (nat (int count - bytesread)) of
           (Got bs, es') \<Rightarrow>
             if bs = [] then (bytesread, buffer, es')
             else chat_read_loop es' count (int32 (bytesread + int (length bs))) (buffer @ bs)
         | (ReadIntr, es') \<Rightarrow> chat_read_loop es' count bytesread buffer
         | (_, es') \<Rightarrow> (-1, buffer, es'))
      else (bytesread, buffer, es))"
  by auto

termination chat_read_loop
  by (relation "measure (\<lambda>(es, _). rsize es)") (auto dest!: sys_read_less [OF sym])

function chat_write_loop :: "wevent list \<Rightarrow> string \<Rightarrow> int \<Rightarrow> string \<Rightarrow> int \<times> string \<times> wevent list" where
  "chat_write_loop ws buffer byteswrite out =
     (if byteswrite < int32 (int (length buffer)) then
        (case sys_write ws (length buffer - nat byteswrite) of
           (Wrote r, ws') \<Rightarrow>
             if r = 0 then (byteswrite, out, ws')
             else if ws = [] then (int32 (byteswrite + int r), out @ drop (nat byteswrite) buffer, ws')
             else chat_write_loop ws' buffer (int32 (byteswrite + int r)) (out @ take r (drop (nat byteswrite) buffer))
         | (WriteIntr, ws') \<Rightarrow> chat_write_loop ws' buffer byteswrite out
         | (_, ws') \<Rightarrow> (-1, out, ws'))
      else (byteswrite, out, ws))"
  by auto

termination chat_write_loop
  by (relation "measure (\<lambda>(ws, _). length ws)") (simp, auto intro: sys_write_less [OF sym] sys_write_Intr [OF sym])

declare chat_read_loop.simps [simp del] chat_write_loop.simps [simp del]

definition chat_read :: "sock \<Rightarrow> nat \<Rightarrow> int \<times> string \<times> sock" where
  "chat_read k count = (case chat_read_loop (rd k) count 0 [] of (r, buffer, es) \<Rightarrow> (r, buffer, k\<lparr>rd := es\<rparr>))"

definition chat_write :: "sock \<Rightarrow> string \<Rightarrow> int \<times> sock" where
  "chat_write k buffer =
     (case chat_write_loop (wr k) buffer 0 [] of (r, out, ws) \<Rightarrow> (r, k\<lparr>wr := ws, sent := sent k @ out\<rparr>))"

definition create_message :: "string \<Rightarrow> string \<Rightarrow> string" where
  "create_message name message = name @ '': '' @ message"

text \<open>\<open>htonl\<close> and \<open>ntohl\<close>: four bytes, the highest first.\<close>

definition net32 :: "nat \<Rightarrow> string" where
  "net32 n = map char_of [n div 256 div 256 div 256, n div 256 div 256, n div 256, n]"

definition host32 :: "string \<Rightarrow> nat" where
  "host32 s = foldl (\<lambda>v c. 256 * v + of_char c) 0 s"

definition write_message_size :: "nat \<Rightarrow> sock \<Rightarrow> int \<times> sock" where
  "write_message_size n k = chat_write k (net32 n)"

text \<open>When the socket ends inside of the four bytes, the others are read without a value.\<close>

definition get_message_size :: "sock \<Rightarrow> (int \<times> sock) res" where
  "get_message_size k =
     (case chat_read k 4 of (r, buffer, k) \<Rightarrow>
        if r = 0 \<or> r = -1 then Inr (r, k)
        else rbind (guard (length buffer = 4) Bad_access) (\<lambda>_. Inr (int (host32 buffer), k)))"

text \<open>Reading one message, as the loops of server and client do: what \<open>retval\<close> is after it, and the buffer.\<close>

definition read_message :: "sock \<Rightarrow> (int \<times> string \<times> sock) res" where
  "read_message k =
     rbind (get_message_size k) (\<lambda>(retval, k).
       Inr (if 0 < retval then chat_read k (nat retval) else (retval, [], k)))"

text \<open>Writing one message.\<close>

definition write_message :: "string \<Rightarrow> sock \<Rightarrow> int \<times> sock" where
  "write_message message k =
     (case write_message_size (length message) k of (retval, k) \<Rightarrow>
        if 0 < retval then chat_write k message else (retval, k))"

section \<open>The client\<close>

text \<open>\<open>write_to_server\<close>: \<open>None\<close> is what \<open>read_message_from_screen\<close> gives at the end. The zero behind the
  message is sent too.\<close>

primrec write_to_server :: "string \<Rightarrow> string option list \<Rightarrow> sock \<Rightarrow> sock" where
  "write_to_server name [] k = k"
| "write_to_server name (x # xs) k =
     (case x of
        None \<Rightarrow> k
      | Some buffer \<Rightarrow>
          (case write_message (create_message name buffer @ [zero]) k of (retval, k) \<Rightarrow>
             if 0 < retval then write_to_server name xs k else k))"

text \<open>One turn of \<open>read_from_server\<close>: what is shown, by the format for a C string.\<close>

definition show_turn :: "sock \<Rightarrow> (int \<times> string list \<times> sock) res" where
  "show_turn k =
     rbind (read_message k) (\<lambda>(retval, buffer, k).
       Inr (retval, if 0 < retval then [takeWhile (\<lambda>c. c \<noteq> zero) buffer] else [], k))"

section \<open>The server\<close>

definition MAX_CLIENTS :: nat where "MAX_CLIENTS = 8"

datatype slot = Idle | Serving | Closed

record chat =
  clients :: "int list"
  clientsCount :: int
  endSession :: bool
  accepting :: bool
  slots :: "slot list"
  conns :: "int \<Rightarrow> sock"

definition run_server :: chat where
  "run_server = \<lparr>clients = replicate MAX_CLIENTS (-1), clientsCount = 0, endSession = False, accepting = True,
     slots = replicate MAX_CLIENTS Idle, conns = (\<lambda>_. \<lparr>rd = [], wr = [], sent = []\<rparr>)\<rparr>"

text \<open>The first slot that holds \<open>-1\<close>.\<close>

fun first_free :: "nat \<Rightarrow> int list \<Rightarrow> nat option" where
  "first_free i [] = None"
| "first_free i (c # cs) = (if c = -1 then Some i else first_free (i + 1) cs)"

text \<open>A turn of the loop in \<open>run_server\<close>: \<open>accept\<close> gives the number \<open>client\<close> of the connection \<open>k\<close>. A
  connection that is turned away is closed. The thread of a slot is its entry in \<open>slots\<close>.\<close>

definition accept_client :: "int \<Rightarrow> sock \<Rightarrow> chat \<Rightarrow> chat res" where
  "accept_client client k s =
     (if endSession s then Inr (s\<lparr>accepting := False\<rparr>)
      else if clientsCount s = int MAX_CLIENTS then Inr s
      else (case first_free 0 (clients s) of
          None \<Rightarrow> Inl Bad_access
        | Some idx \<Rightarrow> Inr (s\<lparr>clients := (clients s)[idx := client], clientsCount := clientsCount s + 1,
            slots := (slots s)[idx := Serving], conns := (conns s)(client := k)\<rparr>)))"

definition send_client :: "string \<Rightarrow> int \<Rightarrow> (int \<Rightarrow> sock) \<Rightarrow> (int \<Rightarrow> sock)" where
  "send_client message c ks = (if c \<noteq> -1 then ks(c := snd (write_message message (ks c))) else ks)"

definition write_to_clients :: "string \<Rightarrow> chat \<Rightarrow> chat" where
  "write_to_clients message s = s\<lparr>conns := fold (send_client message) (clients s) (conns s)\<rparr>"

text \<open>\<open>process_client\<close>: a turn of its loop, after whose end the socket is closed, and the critical section
  at the end.\<close>

definition client_turn :: "nat \<Rightarrow> chat \<Rightarrow> chat res" where
  "client_turn clientId s =
     (if endSession s then Inr (s\<lparr>slots := (slots s)[clientId := Closed]\<rparr>)
      else let c = clients s ! clientId
           in rbind (read_message (conns s c)) (\<lambda>(retval, buffer, k).
                let s = s\<lparr>conns := (conns s)(c := k)\<rparr>
                in Inr (if 0 < retval then write_to_clients buffer s
                        else s\<lparr>slots := (slots s)[clientId := Closed]\<rparr>)))"

definition client_left :: "nat \<Rightarrow> chat \<Rightarrow> chat" where
  "client_left clientId s = s\<lparr>clients := (clients s)[clientId := -1], clientsCount := clientsCount s - 1,
     slots := (slots s)[clientId := Idle]\<rparr>"

definition close_server :: "chat \<Rightarrow> chat" where
  "close_server s = s\<lparr>endSession := True\<rparr>"

text \<open>\<open>cleanup\<close>: the connections that it shuts down and closes.\<close>

definition cleanup_closes :: "chat \<Rightarrow> int list" where
  "cleanup_closes s = filter (\<lambda>c. c \<noteq> -1) (clients s)"

datatype chat_event = Connect int sock | Turn nat | Left_room nat | Interrupt

fun chat_do :: "chat_event \<Rightarrow> chat \<Rightarrow> chat res option" where
  "chat_do (Connect c k) s = (if accepting s then Some (accept_client c k s) else None)"
| "chat_do (Turn i) s = (if i < length (slots s) \<and> slots s ! i = Serving then Some (client_turn i s) else None)"
| "chat_do (Left_room i) s = (if i < length (slots s) \<and> slots s ! i = Closed then Some (Inr (client_left i s)) else None)"
| "chat_do Interrupt s = Some (Inr (close_server s))"

end
