(* ===== verification/Chat_Correct.thy ===== *)
theory Chat_Correct
  imports Chat
begin

text \<open>
  The chat room keeps its slots and its count in step, and what one client writes is what every client
  is shown. The samples at the end show a message that is sent twice and a count that is wrong for good.
\<close>

section \<open>The framing of messages\<close>

text \<open>A read of the file server that gets all that it asks for is a read of the chat.\<close>

lemma chat_read_loop_full:
  "read_loop es count b buf = (int count, buf', es') \<Longrightarrow> 0 \<le> b \<Longrightarrow> b \<le> int count \<Longrightarrow> count < 2 ^ 31
   \<Longrightarrow> chat_read_loop es count b buf = (int count, buf', es')"
proof (induction es count b buf rule: chat_read_loop.induct)
  case (1 es count b buf)
  have c: "int32 (int count) = int count" using 1(6) by (simp add: int32_id)
  obtain r es1 where r: "sys_read es (nat (int count - b)) = (r, es1)" by fastforce
  show ?case
  proof (cases "b < int count")
    case False
    then show ?thesis using 1(3) c by (auto simp: read_loop.simps [of es] chat_read_loop.simps [of es'])
  next
    case lt: True
    show ?thesis
    proof (cases r)
      case (Got bs)
      have "length bs \<le> nat (int count - b)"
        using r Got by (cases "(es, nat (int count - b))" rule: sys_read.cases) (auto split: if_splits)
      then have le: "b + int (length bs) \<le> int count" using lt by simp
      then have id: "int32 (b + int (length bs)) = b + int (length bs)" using 1(4,6) by (intro int32_id) auto
      show ?thesis
      proof (cases "bs = []")
        case True
        then show ?thesis using 1(3) r Got lt c
          by (simp add: read_loop.simps [of es] chat_read_loop.simps [of es])
      next
        case False
        then have "read_loop es1 count (b + int (length bs)) (buf @ bs) = (int count, buf', es')"
          using 1(3) r Got lt c id by (simp add: read_loop.simps [of es])
        then have "chat_read_loop es1 count (b + int (length bs)) (buf @ bs) = (int count, buf', es')"
          using "1.IH"(1) [OF _ r [symmetric] Got] lt c id le False 1(4,6) by simp
        then show ?thesis using r Got lt c id False by (simp add: chat_read_loop.simps [of es])
      qed
    next
      case ReadIntr
      then show ?thesis using "1.IH"(2) [OF _ r [symmetric]] 1(3-6) r lt c
        by (simp add: read_loop.simps [of es] chat_read_loop.simps [of es])
    qed (use 1(3) r lt c in \<open>simp_all add: read_loop.simps [of es]\<close>)
  qed
qed

lemma chat_read_calm:
  assumes "calm (rd k)" "n < 2 ^ 31" "n \<le> length (bytes_of (rd k))"
  obtains es where "calm es" "bytes_of es = drop n (bytes_of (rd k))"
    "chat_read k n = (int n, take n (bytes_of (rd k)), k\<lparr>rd := es\<rparr>)"
proof (rule read_all_calm [OF assms, of "[]"])
  fix es
  assume es: "calm es" "bytes_of es = drop n (bytes_of (rd k))"
    "read_all (rd k @ []) n = (int n, take n (bytes_of (rd k)), es @ [])"
  have "chat_read_loop (rd k) n 0 [] = (int n, take n (bytes_of (rd k)), es)"
    using es(3) assms(2) by (intro chat_read_loop_full) (simp_all add: read_all_def)
  then show thesis using that [OF es(1,2)] by (simp add: chat_read_def)
qed

lemma length_net32 [simp]: "length (net32 n) = 4"
  by (simp add: net32_def)

lemma host32_net32: "n < 2 ^ 32 \<Longrightarrow> host32 (net32 n) = n"
proof -
  let ?a = "n div 256" and ?b = "n div 256 div 256" and ?c = "n div 256 div 256 div 256"
  assume "n < 2 ^ 32"
  then have "?c mod 256 = ?c" by (simp add: div_mult2_eq [symmetric] less_mult_imp_div_less)
  moreover have "256 * ?c + ?b mod 256 = ?b" "256 * ?b + ?a mod 256 = ?a" "256 * ?a + n mod 256 = n"
    by (rule mult_div_mod_eq)+
  ultimately show "host32 (net32 n) = n" unfolding host32_def net32_def by simp
qed


text \<open>A peer to which everything can be written, if in pieces and with interruptions.\<close>

fun wcalm_event :: "wevent \<Rightarrow> bool" where
  "wcalm_event (Acc n) \<longleftrightarrow> 0 < n"
| "wcalm_event WIntr \<longleftrightarrow> True"
| "wcalm_event _ \<longleftrightarrow> False"

abbreviation wcalm :: "sock \<Rightarrow> bool" where
  "wcalm k \<equiv> list_all wcalm_event (wr k)"

lemma chat_write_loop_calm:
  "\<lbrakk>list_all wcalm_event ws; n \<le> length b; length b < 2 ^ 31\<rbrakk> \<Longrightarrow> \<exists>ws'. list_all wcalm_event ws'
    \<and> chat_write_loop ws b (int n) out = (int (length b), out @ drop n b, ws')"
proof (induction ws arbitrary: n out)
  case Nil
  then have "int32 (int (length b)) = int (length b)" by (intro int32_id) auto
  then show ?case using Nil by (auto simp: chat_write_loop.simps [of "[]"] of_nat_diff)
next
  case (Cons w ws)
  have c: "int32 (int (length b)) = int (length b)" using Cons.prems(3) by (intro int32_id) auto
  show ?case
  proof (cases "n < length b")
    case False
    then show ?thesis using Cons.prems c by (auto simp: chat_write_loop.simps [of "w # ws"])
  next
    case True
    show ?thesis
    proof (cases w)
      case WIntr
      then show ?thesis using Cons.IH [of n out] Cons.prems True c
        by (simp add: chat_write_loop.simps [of "WIntr # ws"])
    next
      case (Acc m)
      define r where "r = min m (length b - n)"
      have r: "0 < r" "n + r \<le> length b" using Acc Cons.prems(1) True by (auto simp: r_def)
      then have "int32 (int n + int r) = int (n + r)" using Cons.prems(3) by (subst int32_id) auto
      then have "chat_write_loop (w # ws) b (int n) out
          = chat_write_loop ws b (int (n + r)) (out @ take r (drop n b))"
        using Acc True c r(1) by (simp add: chat_write_loop.simps [of "Acc m # ws"] r_def [symmetric] Let_def)
      moreover have "take r (drop n b) @ drop (n + r) b = drop n b"
        using append_take_drop_id [of r "drop n b"] by (simp add: add.commute)
      ultimately show ?thesis
        using Cons.IH [of "n + r" "out @ take r (drop n b)"] Cons.prems r(2) by simp
    qed (use Cons.prems(1) in simp_all)
  qed
qed

lemma chat_write_calm:
  assumes "wcalm k" and "length b < 2 ^ 31"
  obtains ws where "list_all wcalm_event ws" "chat_write k b = (int (length b), k\<lparr>wr := ws, sent := sent k @ b\<rparr>)"
  using chat_write_loop_calm [of "wr k" 0 b "[]"] assms that by (auto simp: chat_write_def)

definition frame :: "string \<Rightarrow> string" where
  "frame m = net32 (length m) @ m"

lemma write_message_calm:
  assumes "wcalm k" and "length m < 2 ^ 31"
  obtains ws where "list_all wcalm_event ws" "write_message m k = (int (length m), k\<lparr>wr := ws, sent := sent k @ frame m\<rparr>)"
proof -
  have "length (net32 (length m)) < 2 ^ 31" by simp
  with assms(1) obtain ws where ws: "list_all wcalm_event ws"
    "chat_write k (net32 (length m)) = (int (length (net32 (length m))), k\<lparr>wr := ws, sent := sent k @ net32 (length m)\<rparr>)"
    by (rule chat_write_calm)
  then have "wcalm (k\<lparr>wr := ws, sent := sent k @ net32 (length m)\<rparr>)" by simp
  from chat_write_calm [OF this assms(2)] obtain ws' where "list_all wcalm_event ws'"
    "chat_write (k\<lparr>wr := ws, sent := sent k @ net32 (length m)\<rparr>) m
       = (int (length m), k\<lparr>wr := ws', sent := sent k @ net32 (length m) @ m\<rparr>)" by auto
  with ws show thesis
    by (intro that [of ws']) (simp_all add: write_message_def write_message_size_def frame_def)
qed

lemma read_message_frame:
  assumes "calm (rd k)" and "bytes_of (rd k) = frame m @ rest" and "m \<noteq> []" and "length m < 2 ^ 31"
  obtains es where "calm es" "bytes_of es = rest" "read_message k = Inr (int (length m), m, k\<lparr>rd := es\<rparr>)"
proof -
  have "4 \<le> length (bytes_of (rd k))" using assms(2) by (simp add: frame_def)
  from chat_read_calm [OF assms(1) _ this] obtain es where es: "calm es" "bytes_of es = m @ rest"
    "chat_read k 4 = (4, net32 (length m), k\<lparr>rd := es\<rparr>)"
    using assms(2) by (auto simp: frame_def)
  have n: "length m \<le> length (bytes_of (rd (k\<lparr>rd := es\<rparr>)))" "calm (rd (k\<lparr>rd := es\<rparr>))" using es by simp_all
  from chat_read_calm [OF n(2) assms(4) n(1)] obtain es' where es': "calm es'" "bytes_of es' = rest"
    "chat_read (k\<lparr>rd := es\<rparr>) (length m) = (int (length m), m, k\<lparr>rd := es'\<rparr>)"
    using es by auto
  have "read_message k = Inr (int (length m), m, k\<lparr>rd := es'\<rparr>)"
    using es es' assms(3,4) by (simp add: read_message_def get_message_size_def host32_net32)
  then show thesis using that es' by blast
qed

section \<open>From one client to all\<close>

definition no_zero :: "string \<Rightarrow> bool" where
  "no_zero s \<longleftrightarrow> zero \<notin> set s"

lemma takeWhile_zero: "no_zero m \<Longrightarrow> takeWhile (\<lambda>c. c \<noteq> zero) (m @ [zero]) = m"
  by (induction m) (auto simp: no_zero_def)

lemma create_message_no_zero: "no_zero name \<Longrightarrow> no_zero text \<Longrightarrow> no_zero (create_message name text)"
  by (auto simp: no_zero_def create_message_def zero_def)

lemma show_turn_frame:
  assumes "calm (rd k)" and "bytes_of (rd k) = frame (m @ [zero]) @ rest" and "no_zero m" and "length m + 1 < 2 ^ 31"
  obtains k' where "calm (rd k')" "bytes_of (rd k') = rest" "show_turn k = Inr (int (length m) + 1, [m], k')"
proof (rule read_message_frame [OF assms(1,2)])
  fix es
  assume "calm es" "bytes_of es = rest" "read_message k = Inr (int (length (m @ [zero])), m @ [zero], k\<lparr>rd := es\<rparr>)"
  then show thesis
    using that [of "k\<lparr>rd := es\<rparr>"] takeWhile_zero [OF assms(3)] by (simp add: show_turn_def)
qed (use assms(4) in simp_all)

lemma chat_write_grows: "\<exists>rest. sent (snd (chat_write k b)) = sent k @ rest"
  by (simp add: chat_write_def split: prod.split)

lemma write_message_grows: "\<exists>rest. sent (snd (write_message m k)) = sent k @ rest"
proof -
  obtain r k1 where w: "chat_write k (net32 (length m)) = (r, k1)" by fastforce
  then show ?thesis
    using chat_write_grows [of k "net32 (length m)"] chat_write_grows [of k1 m]
    by (auto simp: write_message_def write_message_size_def)
qed

lemma write_to_server_grows: "\<exists>rest. sent (write_to_server name xs k) = sent k @ rest"
proof (induction xs arbitrary: k)
  case (Cons x xs)
  show ?case
  proof (cases x)
    case (Some buffer)
    obtain r k1 where w: "write_message (create_message name buffer @ [zero]) k = (r, k1)" by fastforce
    then show ?thesis
      using write_message_grows [of "create_message name buffer @ [zero]" k] Cons [of k1] Some by auto
  qed simp
qed simp

lemma write_to_server_sends:
  assumes "wcalm k" and "length (create_message name text) + 1 < 2 ^ 31"
  shows "\<exists>rest. sent (write_to_server name (Some text # xs) k)
     = sent k @ frame (create_message name text @ [zero]) @ rest"
proof -
  let ?m = "create_message name text @ [zero]"
  have "length ?m < 2 ^ 31" using assms(2) by simp
  with assms(1) obtain ws where "write_message ?m k = (int (length ?m), k\<lparr>wr := ws, sent := sent k @ frame ?m\<rparr>)"
    by (rule write_message_calm)
  then show ?thesis using write_to_server_grows [of name xs "k\<lparr>wr := ws, sent := sent k @ frame ?m\<rparr>"] by auto
qed

text \<open>Each connection gets the message once for every slot that holds its number.\<close>

lemma fold_send:
  assumes "\<And>c. c \<in> set cs \<Longrightarrow> c \<noteq> -1 \<Longrightarrow> wcalm (ks c)" and "length m < 2 ^ 31" and "c \<noteq> -1"
  shows "sent (fold (send_client m) cs ks c) = sent (ks c) @ concat (replicate (count_list cs c) (frame m))"
  using assms(1)
proof (induction cs arbitrary: ks)
  case (Cons d cs)
  show ?case
  proof (cases "d = -1")
    case True
    then have "send_client m d ks = ks" by (simp add: send_client_def)
    then show ?thesis using Cons True assms(3) by simp
  next
    case False
    then obtain ws where ws: "list_all wcalm_event ws"
      "write_message m (ks d) = (int (length m), (ks d)\<lparr>wr := ws, sent := sent (ks d) @ frame m\<rparr>)"
      using Cons.prems [of d] assms(2) write_message_calm by (metis list.set_intros(1))
    let ?ks = "ks(d := (ks d)\<lparr>wr := ws, sent := sent (ks d) @ frame m\<rparr>)"
    have "sent (fold (send_client m) cs ?ks c) = sent (?ks c) @ concat (replicate (count_list cs c) (frame m))"
      using Cons.prems ws(1) by (intro Cons.IH) auto
    moreover have "send_client m d ks = ?ks" using False ws(2) by (simp add: send_client_def)
    ultimately show ?thesis by auto
  qed
qed simp


section \<open>The slots of the server\<close>

definition used :: "int list \<Rightarrow> int" where
  "used cs = int (length (filter (\<lambda>c. c \<noteq> -1) cs))"

definition chat_ok :: "chat \<Rightarrow> bool" where
  "chat_ok s \<longleftrightarrow> length (clients s) = MAX_CLIENTS \<and> length (slots s) = MAX_CLIENTS
     \<and> (\<forall>i < MAX_CLIENTS. (clients s ! i = -1) = (slots s ! i = Idle)) \<and> clientsCount s = used (clients s)"

text \<open>The steps of the server when \<open>accept\<close> does not fail.\<close>

definition chat_step :: "chat \<Rightarrow> chat \<Rightarrow> bool" where
  "chat_step s t \<longleftrightarrow> (\<exists>e. (\<forall>c k. e = Connect c k \<longrightarrow> c \<noteq> -1) \<and> chat_do e s = Some (Inr t))"

lemma used_slots_simps [simp]: "used [] = 0" "used (c # cs) = (if c = -1 then 0 else 1) + used cs"
  by (simp_all add: used_def)

lemma used_upd: "i < length cs \<Longrightarrow> used (cs[i := x]) = used cs - (if cs ! i = -1 then 0 else 1) + (if x = -1 then 0 else 1)"
proof (induction cs arbitrary: i)
  case (Cons c cs)
  then show ?case by (cases i) auto
qed simp

lemma used_le: "used cs \<le> int (length cs)"
  by (simp add: used_def)

lemma first_free_Some:
  "first_free i cs = Some j \<Longrightarrow> i \<le> j \<and> j - i < length cs \<and> cs ! (j - i) = -1"
proof (induction cs arbitrary: i)
  case (Cons c cs)
  show ?case
  proof (cases "c = -1")
    case False
    then have "Suc i \<le> j \<and> j - Suc i < length cs \<and> cs ! (j - Suc i) = -1" using Cons by simp
    moreover from this have "j - i = Suc (j - Suc i)" by arith
    ultimately show ?thesis by simp
  qed (use Cons in simp)
qed simp

lemma first_free_None: "first_free i cs = None \<Longrightarrow> used cs = int (length cs)"
  by (induction cs arbitrary: i) (auto simp: used_def split: if_splits)

lemma accept_ok:
  assumes "chat_ok s" and "c \<noteq> -1"
  shows "\<exists>t. accept_client c k s = Inr t \<and> chat_ok t"
proof (cases "endSession s \<or> clientsCount s = int MAX_CLIENTS")
  case True
  then show ?thesis using assms by (auto simp: accept_client_def chat_ok_def)
next
  case False
  then have "first_free 0 (clients s) \<noteq> None"
    using first_free_None [of 0 "clients s"] assms(1) by (auto simp: chat_ok_def)
  then obtain j where j: "first_free 0 (clients s) = Some j" by blast
  then have "j < length (clients s)" "clients s ! j = -1" using first_free_Some by fastforce+
  then show ?thesis
    using False j assms used_upd [of j "clients s" c]
    by (auto simp: accept_client_def chat_ok_def nth_list_update)
qed

lemma close_ok: "chat_ok s \<Longrightarrow> slots s ! i = Serving \<Longrightarrow> i < length (slots s) \<Longrightarrow> chat_ok (s\<lparr>slots := (slots s)[i := Closed]\<rparr>)"
  by (auto simp: chat_ok_def nth_list_update)

lemma chat_ok_conns [simp]: "chat_ok (s\<lparr>conns := ks\<rparr>) = chat_ok s"
  by (simp add: chat_ok_def)

lemma turn_ok:
  assumes "chat_ok s" and "slots s ! i = Serving" and "i < length (slots s)" and "client_turn i s = Inr t"
  shows "chat_ok t"
proof (cases "endSession s")
  case True
  then show ?thesis using assms close_ok by (auto simp: client_turn_def)
next
  case False
  let ?s = "\<lambda>k. s\<lparr>conns := (conns s)(clients s ! i := k)\<rparr>"
  obtain r b k where "read_message (conns s (clients s ! i)) = Inr (r, b, k)"
    using assms(4) False by (auto simp: client_turn_def Let_def res_conv)
  then have "t = (if 0 < r then write_to_clients b (?s k) else (?s k)\<lparr>slots := (slots (?s k))[i := Closed]\<rparr>)"
    using assms(4) False by (auto simp: client_turn_def Let_def)
  then show ?thesis
    using assms(1-3) close_ok [of "?s k" i] by (auto simp: write_to_clients_def)
qed

lemma left_ok:
  assumes "chat_ok s" and "slots s ! i = Closed" and "i < length (slots s)"
  shows "chat_ok (client_left i s)"
proof -
  have "clients s ! i \<noteq> -1" using assms by (auto simp: chat_ok_def)
  then show ?thesis
    using assms used_upd [of i "clients s" "-1"] by (auto simp: client_left_def chat_ok_def nth_list_update)
qed

lemma chat_step_ok: "chat_ok s \<Longrightarrow> chat_step s t \<Longrightarrow> chat_ok t"
proof -
  assume ok: "chat_ok s" and "chat_step s t"
  then obtain e where e: "\<forall>c k. e = Connect c k \<longrightarrow> c \<noteq> -1" "chat_do e s = Some (Inr t)" by (auto simp: chat_step_def)
  then show "chat_ok t"
  proof (cases e)
    case (Connect c k)
    then show ?thesis using accept_ok [OF ok, of c k] e by (auto split: if_splits)
  next
    case (Turn i)
    then show ?thesis using turn_ok [OF ok] e(2) by (auto split: if_splits)
  next
    case (Left_room i)
    then show ?thesis using left_ok [OF ok] e(2) by (auto split: if_splits)
  next
    case Interrupt
    then show ?thesis using ok e(2) by (auto simp: close_server_def chat_ok_def)
  qed
qed

interpretation chat: transition_system "\<lambda>s. s = run_server" chat_step chat_ok
proof
  show "chat_ok s" if "s = run_server" for s
    using that by (auto simp: run_server_def chat_ok_def used_def)
qed (rule chat_step_ok)

text \<open>As long as \<open>accept\<close> succeeds, the count is the number of used slots, at most eight, and a
  connection that is let in always finds a free one.\<close>

theorem chat_slots:
  assumes "reachable (\<lambda>s. s = run_server) chat_step s" and "c \<noteq> -1"
  shows "clientsCount s = int (length (filter (\<lambda>c. c \<noteq> -1) (clients s))) \<and> clientsCount s \<le> 8
    \<and> (\<exists>t. accept_client c k s = Inr t)"
proof -
  have ok: "chat_ok s" using assms(1) by (rule chat.reachable_inv)
  then have "clientsCount s = int (length (filter (\<lambda>c. c \<noteq> -1) (clients s)))" "clientsCount s \<le> 8"
    using used_le [of "clients s"] by (auto simp: chat_ok_def used_def MAX_CLIENTS_def)
  then show ?thesis using accept_ok [OF ok assms(2)] by blast
qed

section \<open>Samples\<close>

definition sample_sock :: "string \<Rightarrow> sock" where
  "sample_sock b = \<lparr>rd = (if b = [] then [] else [Data b]), wr = [], sent = []\<rparr>"

definition chat_act :: "chat_event \<Rightarrow> chat \<Rightarrow> chat option" where
  "chat_act e s = (case chat_do e s of Some (Inr t) \<Rightarrow> Some t | _ \<Rightarrow> None)"

text \<open>The connection 5 ends; before its thread has freed its slot, a new connection gets the number 5
  again. A message of connection 6 is then written to the new one twice.\<close>

lemma sample_reads:
  "read_message (sample_sock (frame ''hi'')) = Inr (2, ''hi'', sample_sock [])"
  "read_message (sample_sock []) = Inr (0, [], sample_sock [])"
  by code_simp+

lemma chat_message_twice:
  "map_option (\<lambda>s. (clientsCount s, sent (conns s 5)))
     (run_schedule chat_act [Connect 5 (sample_sock []), Connect 6 (sample_sock (frame ''hi'')), Turn 0, Connect 5 (sample_sock []), Turn 1]
       run_server) = Some (3, frame ''hi'' @ frame ''hi'')"
proof -
  have w: "write_message ''hi'' k = (2, k\<lparr>sent := sent k @ frame ''hi''\<rparr>)" if "wr k = []" for k
    using that by (simp add: write_message_def write_message_size_def chat_write_def chat_write_loop.simps [of "[]"]
        int32_id frame_def)
  have wr: "wr (sample_sock b) = []" "sent (sample_sock b) = []" for b by (simp_all add: sample_sock_def)
  show ?thesis
    by (simp add: chat_act_def run_server_def accept_client_def client_turn_def write_to_clients_def send_client_def MAX_CLIENTS_def
        sample_reads w wr Let_def eval_nat_numeral)
qed

text \<open>A failed \<open>accept\<close> takes a slot without using it: the count is 2 for one client.\<close>

lemma chat_failed_accept:
  "map_option (\<lambda>s. (clientsCount s, clients s))
     (run_schedule chat_act [Connect (-1) (sample_sock []), Connect 5 (sample_sock [])] run_server)
    = Some (2, 5 # replicate 7 (-1))"
  by code_simp

lemma chat_slots_witness: "\<exists>t. accept_client 5 (sample_sock []) run_server = Inr t"
  using chat_slots [of run_server 5 "sample_sock []"] by (auto simp: reach_init)

text \<open>Two clients; the bytes of the first arrive in two pieces, and writes take one byte, are
  interrupted, and take the rest.\<close>

definition sample_room :: chat where
  "sample_room = run_server\<lparr>clients := [5, 6] @ replicate 6 (-1), clientsCount := 2, slots := [Serving, Serving] @ replicate 6 Idle,
     conns := (\<lambda>_. \<lparr>rd = [Data (take 2 (frame (''ann: hi'' @ [zero]))), RIntr, Data (drop 2 (frame (''ann: hi'' @ [zero])))],
       wr = [Acc 1, WIntr], sent = []\<rparr>)\<rparr>"


end
