(* ===== verification/Hooks.thy ===== *)
theory Hooks
  imports Chat_Correct
begin

text \<open>
  The reads that fail now and then in the tests of the chat room (\<open>charming_chatroom/user_hooks.c\<close>):
  every tenth call of \<open>my_read\<close> asks for fewer bytes or is interrupted. \<open>rand\<close> is an argument: its
  \<open>n\<close>-th call gives \<open>rand n\<close>.
\<close>

section \<open>The hook\<close>

definition READ_FAIL_NUM :: nat where "READ_FAIL_NUM = 10"

record hook =
  read_counter :: nat
  rands :: nat

text \<open>The counter goes back to 0 when it is 10, so its addition does not wrap around.\<close>

definition my_read :: "(nat \<Rightarrow> nat) \<Rightarrow> hook \<Rightarrow> revent list \<Rightarrow> nat \<Rightarrow> (rresult \<times> revent list) \<times> hook" where
  "my_read rand h es count =
     (let h = h\<lparr>read_counter := read_counter h + 1\<rparr>
      in if read_counter h = READ_FAIL_NUM then
           (let h' = h\<lparr>read_counter := 0, rands := rands h + 1\<rparr>
            in if rand (rands h) mod 2 > 0 then (sys_read es (count div 2 + 1), h') else ((ReadIntr, es), h'))
         else (sys_read es count, h))"

text \<open>What is left to do: two interruptions by the hook are never next to each other.\<close>

definition hook_measure :: "revent list \<Rightarrow> hook \<Rightarrow> nat" where
  "hook_measure es h = 2 * rsize es + (if read_counter h = 9 then 1 else 0)"

lemma my_read_less:
  "my_read rand h es n = ((r, es'), h') \<Longrightarrow> r \<noteq> Got [] \<Longrightarrow> hook_measure es' h' < hook_measure es h"
  by (auto simp: my_read_def READ_FAIL_NUM_def hook_measure_def Let_def split: if_splits dest!: sys_read_less)

text \<open>\<open>read_all_from_socket\<close> of \<open>utils.c\<close> with this function in the place of \<open>read\<close>.\<close>

function hooked_loop :: "(nat \<Rightarrow> nat) \<Rightarrow> hook \<Rightarrow> revent list \<Rightarrow> nat \<Rightarrow> int \<Rightarrow> string \<Rightarrow> int \<times> string \<times> revent list \<times> hook" where
  "hooked_loop rand h es count bytesread buffer =
     (if bytesread < int32 (int count) then
        (case my_read rand h es (nat (int count - bytesread)) of
           ((Got bs, es'), h') \<Rightarrow>
             if bs = [] then (bytesread, buffer, es', h')
             else hooked_loop rand h' es' count (int32 (bytesread + int (length bs))) (buffer @ bs)
         | ((ReadIntr, es'), h') \<Rightarrow> hooked_loop rand h' es' count bytesread buffer
         | ((_, es'), h') \<Rightarrow> (-1, buffer, es', h'))
      else (bytesread, buffer, es, h))"
  by auto

termination hooked_loop
  by (relation "measure (\<lambda>(_, h, es, _). hook_measure es h)") (auto dest!: my_read_less [OF sym])

declare hooked_loop.simps [simp del]

section \<open>The hook cannot be seen\<close>

lemma sys_read_calm:
  assumes "calm es" and "0 < n" and "bytes_of es \<noteq> []"
  obtains (intr) es' where "sys_read es n = (ReadIntr, es')" "calm es'" "bytes_of es' = bytes_of es"
  | (got) bs es' where "sys_read es n = (Got bs, es')" "calm es'" "bs \<noteq> []" "length bs \<le> n" "bytes_of es = bs @ bytes_of es'"
proof (cases es)
  case (Cons e es1)
  with assms(1) have "calm_event e" by simp
  then show thesis
  proof (cases rule: calm_event_cases)
    case intr
    then show thesis using that(1) [of es1] Cons assms(1) by simp
  next
    case (data d)
    then show thesis using that(2) [of "take n d" "if length d \<le> n then es1 else Data (drop n d) # es1"] Cons assms(1,2)
      by auto
  qed
qed (use assms(3) in simp)

lemma my_read_calm:
  assumes "calm es" and "0 < n" and "bytes_of es \<noteq> []"
  obtains (intr) es' h' where "my_read rand h es n = ((ReadIntr, es'), h')" "calm es'" "bytes_of es' = bytes_of es"
  | (got) bs es' h' where "my_read rand h es n = ((Got bs, es'), h')" "calm es'" "bs \<noteq> []" "length bs \<le> n"
      "bytes_of es = bs @ bytes_of es'"
proof -
  let ?h = "h\<lparr>read_counter := read_counter h + 1\<rparr>"
  let ?g = "h\<lparr>read_counter := 0, rands := rands h + 1\<rparr>"
  have half: "length bs \<le> n" if "length bs \<le> n div 2 + 1" for bs :: string using that assms(2) by linarith
  consider "read_counter h \<noteq> 9" | "read_counter h = 9" "rand (rands h) mod 2 > 0" | "read_counter h = 9" "rand (rands h) mod 2 = 0"
    by (metis gr0I)
  then show thesis
  proof cases
    case 1
    then have m: "my_read rand h es n = (sys_read es n, ?h)"
      by (simp only: my_read_def READ_FAIL_NUM_def Let_def) (simp cong: if_cong)
    from assms show thesis
      by (cases rule: sys_read_calm) (use m that in \<open>metis+\<close>)
  next
    case 2
    then have m: "my_read rand h es n = (sys_read es (n div 2 + 1), ?g)" by (simp add: my_read_def READ_FAIL_NUM_def Let_def)
    have "0 < n div 2 + 1" by simp
    from assms(1) this assms(3) show thesis
      by (cases rule: sys_read_calm) (use m that half in \<open>metis+\<close>)
  next
    case 3
    then have "my_read rand h es n = ((ReadIntr, es), ?g)" by (simp add: my_read_def READ_FAIL_NUM_def Let_def)
    then show thesis using that(1) assms(1) by blast
  qed
qed

lemma hooked_loop_calm:
  "calm es \<Longrightarrow> 0 \<le> b \<Longrightarrow> b \<le> int count \<Longrightarrow> count < 2 ^ 31 \<Longrightarrow> count \<le> nat b + length (bytes_of es)
   \<Longrightarrow> \<exists>es' h'. calm es' \<and> bytes_of es' = drop (count - nat b) (bytes_of es)
      \<and> hooked_loop rand h es count b buf = (int count, buf @ take (count - nat b) (bytes_of es), es', h')"
proof (induction "hook_measure es h" arbitrary: h es b buf rule: less_induct)
  case less
  show ?case
  proof (cases "b = int count")
    case True
    then show ?thesis using less.prems by (subst hooked_loop.simps) (auto simp: int32_id intro!: exI [of _ es])
  next
    case False
    then have lt: "b < int32 (int count)" using less.prems by (simp add: int32_id)
    have "0 < nat (int count - b)" "bytes_of es \<noteq> []" using False less.prems by auto
    from less.prems(1) this show ?thesis
    proof (cases rule: my_read_calm [where rand = rand and h = h])
      case (intr es1 h1)
      have "hook_measure es1 h1 < hook_measure es h" using my_read_less [OF intr(1)] by simp
      from less.hyps [OF this intr(2), of b buf] less.prems intr lt show ?thesis by (subst hooked_loop.simps) simp
    next
      case (got bs es1 h1)
      let ?b = "b + int (length bs)"
      have le: "?b \<le> int count" using got(4) less.prems(3) by simp
      have id: "int32 ?b = ?b" using le less.prems by (intro int32_id) auto
      have nb: "count - nat b = length bs + (count - nat ?b)" using le less.prems(2) by auto
      have "hook_measure es1 h1 < hook_measure es h" using my_read_less [OF got(1)] got(3) by simp
      from less.hyps [OF this got(2), of ?b "buf @ bs"] less.prems got(5) le obtain es' h' where
        "calm es'" "bytes_of es' = drop (count - nat ?b) (bytes_of es1)"
        "hooked_loop rand h1 es1 count ?b (buf @ bs) = (int count, (buf @ bs) @ take (count - nat ?b) (bytes_of es1), es', h')"
        by (auto simp: nat_add_distrib)
      then show ?thesis using got lt id nb by (subst hooked_loop.simps) auto
    qed
  qed
qed

text \<open>\<open>read_all_from_socket\<close> with the failing reads returns the same number and the same bytes as
  without them, and leaves the same bytes to be read, whatever \<open>rand\<close> gives and however the bytes arrive.\<close>

theorem hooks_transparent:
  assumes "calm (rd k)" and "n < 2 ^ 31" and "n \<le> length (bytes_of (rd k))"
  shows "\<exists>es h' buf k'. hooked_loop rand h (rd k) n 0 [] = (int n, buf, es, h') \<and> chat_read k n = (int n, buf, k')
    \<and> bytes_of es = bytes_of (rd k')"
proof (rule chat_read_calm [OF assms])
  fix es
  assume "bytes_of es = drop n (bytes_of (rd k))" "chat_read k n = (int n, take n (bytes_of (rd k)), k\<lparr>rd := es\<rparr>)"
  with hooked_loop_calm [OF assms(1), of 0 n rand h "[]"] assms(2,3) show ?thesis by auto
qed

lemma hooks_transparent_witness:
  "\<exists>es h' buf k'. hooked_loop (\<lambda>n. n) \<lparr>read_counter = 9, rands = 0\<rparr> [Data ''ab'', RIntr, Data ''cd''] 3 0 [] = (3, buf, es, h')
    \<and> chat_read \<lparr>rd = [Data ''ab'', RIntr, Data ''cd''], wr = [], sent = []\<rparr> 3 = (3, buf, k')
    \<and> bytes_of es = bytes_of (rd k')"
  using hooks_transparent [of "\<lparr>rd = [Data ''ab'', RIntr, Data ''cd''], wr = [], sent = []\<rparr>" 3 "\<lambda>n. n" "\<lparr>read_counter = 9, rands = 0\<rparr>"]
  by simp

end
