(* ===== verification/Sockets.thy ===== *)
theory Sockets
  imports Prelude
begin

text \<open>
  The setting up of sockets: \<open>connect_to_server\<close> of the two clients, \<open>run_server\<close> of the chat server up to
  its loop and \<open>main\<close> of the file server up to its loop.

  A call of the operating system is an event; what each call returns is an argument. The trace of the
  calls is the state, so that the theorems speak of which calls are made, in which order, and with what
  outcome. Signal masks, the fields of \<open>hints\<close> and the messages that are printed are left out.
\<close>

section \<open>Calls\<close>

datatype oscall =
    Sigaction
  | Ignore_sigpipe
  | Mkdtemp
  | Socket
  | Fcntl_getfl
  | Fcntl_setfl
  | Getaddrinfo
  | Set_reuseaddr
  | Set_reuseport
  | Bind
  | Listen
  | Connect
  | Freeaddrinfo
  | Epoll_create
  | Epoll_add
  | Create_windows
  | Create_writer
  | Create_reader
  | Cancel_writer
  | Cancel_reader
  | Close_chat
  | Shutdown
  | Close

type_synonym 'a calls = "oscall list \<Rightarrow> 'a res \<times> oscall list"

definition ret :: "'a \<Rightarrow> 'a calls" where
  "ret x = (\<lambda>tr. (Inr x, tr))"

definition stop :: "fault \<Rightarrow> 'a calls" where
  "stop f = (\<lambda>tr. (Inl f, tr))"

definition bind :: "'a calls \<Rightarrow> ('a \<Rightarrow> 'b calls) \<Rightarrow> 'b calls" where
  "bind m k = (\<lambda>tr. case m tr of (Inl f, tr') \<Rightarrow> (Inl f, tr') | (Inr x, tr') \<Rightarrow> k x tr')"

text \<open>One call, and a call whose failure ends the program after \<open>freeaddrinfo\<close>.\<close>

definition syscall :: "(oscall \<Rightarrow> int) \<Rightarrow> oscall \<Rightarrow> int calls" where
  "syscall os c = (\<lambda>tr. (Inr (os c), tr @ [c]))"

definition or_exit :: "bool \<Rightarrow> unit calls" where
  "or_exit bad = (if bad then stop (Exited 1) else ret ())"

definition or_free_exit :: "(oscall \<Rightarrow> int) \<Rightarrow> bool \<Rightarrow> unit calls" where
  "or_free_exit os bad =
     (if bad then bind (syscall os Freeaddrinfo) (\<lambda>_. stop (Exited 1)) else ret ())"

section \<open>The clients\<close>

text \<open>\<open>connect_to_server\<close> of the chat client: the socket it returns.\<close>

definition chat_connect :: "(oscall \<Rightarrow> int) \<Rightarrow> int calls" where
  "chat_connect os =
     bind (syscall os Getaddrinfo) (\<lambda>s.
     bind (or_exit (s \<noteq> 0)) (\<lambda>_.
     bind (syscall os Socket) (\<lambda>sock.
     bind (syscall os Connect) (\<lambda>ok.
     bind (or_free_exit os (ok = -1)) (\<lambda>_.
     bind (syscall os Freeaddrinfo) (\<lambda>_. ret sock))))))"

text \<open>\<open>connect_to_server\<close> of the client of the file server.\<close>

definition file_connect :: "(oscall \<Rightarrow> int) \<Rightarrow> int calls" where
  "file_connect os =
     bind (syscall os Getaddrinfo) (\<lambda>s.
     bind (or_exit (s \<noteq> 0)) (\<lambda>_.
     bind (syscall os Socket) (\<lambda>sock.
     bind (syscall os Connect) (\<lambda>ok.
     bind (or_free_exit os (ok = -1)) (\<lambda>_.
     bind (syscall os Freeaddrinfo) (\<lambda>_. ret sock))))))"

text \<open>\<open>main\<close> of the chat client up to the joins: an address, a port, a name, and the name of a file for the
  output if there is one.\<close>

definition chat_client_main :: "(oscall \<Rightarrow> int) \<Rightarrow> string list \<Rightarrow> (int \<times> string option) calls" where
  "chat_client_main os argv =
     (if length argv < 4 \<or> length argv > 5 then stop (Exited 1)
      else
        bind (syscall os Create_windows) (\<lambda>_.
        bind (chat_connect os) (\<lambda>sock.
        bind (syscall os Create_writer) (\<lambda>_.
        bind (syscall os Create_reader) (\<lambda>_.
          ret (sock, if length argv = 5 then Some (argv ! 4) else None))))))"

text \<open>The handler of SIGINT, which closes the connection whether it can be shut down or not.\<close>

definition SIGINT :: int where "SIGINT = 2"

definition close_server_connection :: "(oscall \<Rightarrow> int) \<Rightarrow> int calls" where
  "close_server_connection os = bind (syscall os Shutdown) (\<lambda>_. syscall os Close)"

definition close_program :: "(oscall \<Rightarrow> int) \<Rightarrow> int \<Rightarrow> unit calls" where
  "close_program os sig =
     (if sig = SIGINT then
        bind (syscall os Cancel_writer) (\<lambda>_.
        bind (syscall os Cancel_reader) (\<lambda>_.
        bind (syscall os Close_chat) (\<lambda>_.
        bind (close_server_connection os) (\<lambda>_. ret ()))))
      else ret ())"

text \<open>The variables of a thread that is cancelled; the reader has no \<open>msg\<close>. \<open>m\<close> is what is allocated.\<close>

record thread_vars =
  buffer :: "nat option"
  msg :: "nat option option"

definition free_ptr :: "nat option \<Rightarrow> nat set \<Rightarrow> nat set res" where
  "free_ptr p m = (case p of None \<Rightarrow> Inr m | Some a \<Rightarrow> rbind (guard (a \<in> m) Bad_access) (\<lambda>_. Inr (m - {a})))"

definition thread_cancellation_handler :: "thread_vars \<Rightarrow> nat set \<Rightarrow> (thread_vars \<times> nat set) res" where
  "thread_cancellation_handler a m =
     rbind (free_ptr (buffer a) m) (\<lambda>m.
       let a = a\<lparr>buffer := None\<rparr>
       in case msg a of
            None \<Rightarrow> Inr (a, m)
          | Some p \<Rightarrow> rbind (free_ptr p m) (\<lambda>m. Inr (a\<lparr>msg := Some None\<rparr>, m)))"

text \<open>A cancelled thread frees exactly what its variables hold, wherever it was in its loop.\<close>

definition held_by :: "thread_vars \<Rightarrow> nat set" where
  "held_by a = set_option (buffer a) \<union> (case msg a of None \<Rightarrow> {} | Some p \<Rightarrow> set_option p)"

theorem cancellation_frees:
  assumes "held_by a \<subseteq> m" and "\<forall>p. msg a = Some (Some p) \<longrightarrow> buffer a \<noteq> Some p"
  shows "\<exists>a'. thread_cancellation_handler a m = Inr (a', m - held_by a) \<and> held_by a' = {}"
  using assms
  by (cases "buffer a"; cases "msg a") (auto simp: thread_cancellation_handler_def free_ptr_def held_by_def split: option.splits)

section \<open>The servers\<close>

text \<open>What both servers do between \<open>socket\<close> and their loops.\<close>

definition chat_listen :: "(oscall \<Rightarrow> int) \<Rightarrow> int calls" where
  "chat_listen os =
     bind (syscall os Socket) (\<lambda>sock.
     bind (syscall os Getaddrinfo) (\<lambda>s.
     bind (or_exit (s \<noteq> 0)) (\<lambda>_.
     bind (syscall os Set_reuseaddr) (\<lambda>retval.
     bind (or_free_exit os (retval = -1)) (\<lambda>_.
     bind (syscall os Set_reuseport) (\<lambda>retval.
     bind (or_free_exit os (retval = -1)) (\<lambda>_.
     bind (syscall os Bind) (\<lambda>r.
     bind (or_free_exit os (r \<noteq> 0)) (\<lambda>_.
     bind (syscall os Listen) (\<lambda>r.
     bind (or_free_exit os (r \<noteq> 0)) (\<lambda>_.
     bind (syscall os Freeaddrinfo) (\<lambda>_. ret sock))))))))))))"

text \<open>\<open>main\<close> of the chat server up to the loop: \<open>argc\<close> and the handler. Its return values are not those of
  \<open>exit\<close>, but end the program in the same way.\<close>

definition chat_server_main :: "(oscall \<Rightarrow> int) \<Rightarrow> nat \<Rightarrow> int calls" where
  "chat_server_main os argc =
     (if argc \<noteq> 2 then stop (Exited (-1))
      else
        bind (syscall os Sigaction) (\<lambda>r.
        bind (or_exit (r < 0)) (\<lambda>_. chat_listen os)))"

definition file_server_main :: "(oscall \<Rightarrow> int) \<Rightarrow> nat \<Rightarrow> (int \<times> int) calls" where
  "file_server_main os argc =
     (if argc < 2 then stop (Exited 1)
      else
        bind (syscall os Mkdtemp) (\<lambda>_.
        bind (syscall os Sigaction) (\<lambda>r.
        bind (or_exit (r < 0)) (\<lambda>_.
        bind (syscall os Ignore_sigpipe) (\<lambda>_.
        bind (syscall os Socket) (\<lambda>sock.
        bind (syscall os Fcntl_getfl) (\<lambda>_.
        bind (syscall os Fcntl_setfl) (\<lambda>_.
        bind (syscall os Getaddrinfo) (\<lambda>s.
        bind (or_exit (s \<noteq> 0)) (\<lambda>_.
        bind (syscall os Set_reuseaddr) (\<lambda>retval.
        bind (or_free_exit os (retval = -1)) (\<lambda>_.
        bind (syscall os Set_reuseport) (\<lambda>retval.
        bind (or_free_exit os (retval = -1)) (\<lambda>_.
        bind (syscall os Bind) (\<lambda>r.
        bind (or_free_exit os (r \<noteq> 0)) (\<lambda>_.
        bind (syscall os Listen) (\<lambda>r.
        bind (or_free_exit os (r \<noteq> 0)) (\<lambda>_.
        bind (syscall os Freeaddrinfo) (\<lambda>_.
        bind (syscall os Epoll_create) (\<lambda>epollfd.
        bind (or_exit (epollfd = -1)) (\<lambda>_.
        bind (syscall os Epoll_add) (\<lambda>r.
        bind (or_exit (r = -1)) (\<lambda>_. ret (sock, epollfd))))))))))))))))))))))))"

lemmas calls_defs = bind_def syscall_def ret_def stop_def or_exit_def or_free_exit_def

section \<open>The address list\<close>

text \<open>What the trace says of the list that \<open>getaddrinfo\<close> returns: calls that read it come between the call
  that made it and the one \<open>freeaddrinfo\<close>.\<close>

fun list_use :: "bool \<Rightarrow> (oscall \<Rightarrow> int) \<Rightarrow> oscall list \<Rightarrow> bool option" where
  "list_use held os [] = Some held"
| "list_use held os (c # cs) =
     (if c = Getaddrinfo then (if held then None else list_use (os c = 0) os cs)
      else if c = Freeaddrinfo then (if held then list_use False os cs else None)
      else if (c = Bind \<or> c = Connect) \<and> \<not> held then None
      else list_use held os cs)"

definition addr_ok :: "(oscall \<Rightarrow> int) \<Rightarrow> oscall list \<Rightarrow> bool" where
  "addr_ok os tr \<longleftrightarrow> list_use False os tr = Some False"

text \<open>Whatever the system answers, the list of addresses is used only while it is there, and is freed
  exactly once if it was made: on success and on every way to \<open>exit\<close>, in both clients and both servers.\<close>

theorem address_list_freed:
  "addr_ok os (snd (chat_connect os [])) \<and> addr_ok os (snd (file_connect os []))
   \<and> addr_ok os (snd (chat_server_main os argc [])) \<and> addr_ok os (snd (file_server_main os argc []))"
  by (intro conjI; simp add: chat_connect_def file_connect_def chat_server_main_def chat_listen_def
      file_server_main_def calls_defs addr_ok_def)

text \<open>The servers come to their loops exactly when all calls have succeeded that they look at, and exit
  otherwise.\<close>

theorem servers_listen:
  "(\<exists>r. fst (chat_server_main os argc []) = Inr r) \<longleftrightarrow>
     argc = 2 \<and> 0 \<le> os Sigaction \<and> os Getaddrinfo = 0 \<and> os Set_reuseaddr \<noteq> -1 \<and> os Set_reuseport \<noteq> -1
     \<and> os Bind = 0 \<and> os Listen = 0"
  "(\<exists>r. fst (file_server_main os argc []) = Inr r) \<longleftrightarrow>
     2 \<le> argc \<and> 0 \<le> os Sigaction \<and> os Getaddrinfo = 0 \<and> os Set_reuseaddr \<noteq> -1 \<and> os Set_reuseport \<noteq> -1
     \<and> os Bind = 0 \<and> os Listen = 0 \<and> os Epoll_create \<noteq> -1 \<and> os Epoll_add \<noteq> -1"
  by (auto simp: chat_server_main_def chat_listen_def file_server_main_def calls_defs)

text \<open>The failure of \<open>socket\<close> is not looked at: a client whose \<open>socket\<close> fails goes on to connect with -1.\<close>

theorem socket_unchecked:
  assumes "os Getaddrinfo = 0" and "os Socket = -1"
  shows "Connect \<in> set (snd (chat_connect os []))"
  using assms by (simp add: chat_connect_def calls_defs)

text \<open>The directory of the file server is made before anything can fail, and stays behind when something
  does: the way to \<open>exit\<close> has no call that removes it.\<close>

theorem directory_left_behind:
  assumes "2 \<le> argc" and "os Getaddrinfo \<noteq> 0"
  shows "Mkdtemp \<in> set (snd (file_server_main os argc [])) \<and> fst (file_server_main os argc []) = Inl (Exited 1)"
  using assms by (simp add: file_server_main_def calls_defs)

end
