(* ===== verification/Camel.thy ===== *)
theory Camel
  imports Prelude
begin

text \<open>
  The camel caser (\<open>extreme_edge_cases/camelCaser.c\<close>). A string is a list of characters without the
  terminating zero. The character classes are those of the C locale, in which no byte from 128 on
  belongs to a class. What \<open>malloc\<close> gives and \<open>destroy\<close> frees is left out.
\<close>

section \<open>Character classes\<close>

definition between :: "nat \<Rightarrow> nat \<Rightarrow> char \<Rightarrow> bool" where
  "between a b c \<longleftrightarrow> a \<le> of_char c \<and> of_char c \<le> b"

definition isupper :: "char \<Rightarrow> bool" where "isupper = between 65 90"
definition islower :: "char \<Rightarrow> bool" where "islower = between 97 122"
definition isalpha :: "char \<Rightarrow> bool" where "isalpha c \<longleftrightarrow> isupper c \<or> islower c"
definition isspace :: "char \<Rightarrow> bool" where "isspace c \<longleftrightarrow> between 9 13 c \<or> c = CHR '' ''"
definition ispunct :: "char \<Rightarrow> bool" where
  "ispunct c \<longleftrightarrow> between 33 47 c \<or> between 58 64 c \<or> between 91 96 c \<or> between 123 126 c"
definition toupper :: "char \<Rightarrow> char" where
  "toupper c = (if islower c then char_of (of_char c - 32 :: nat) else c)"
definition tolower :: "char \<Rightarrow> char" where
  "tolower c = (if isupper c then char_of (of_char c + 32 :: nat) else c)"

section \<open>The code\<close>

text \<open>The loop that looks for the next punctuation mark does not look for the end of the string.\<close>

primrec count_loop :: "string \<Rightarrow> nat res" where
  "count_loop [] = Inl Bad_access"
| "count_loop (c # cs) = (if ispunct c then Inr 0 else rbind (count_loop cs) (\<lambda>n. Inr (n + 1)))"

primrec copy_chars :: "bool \<Rightarrow> string \<Rightarrow> string" where
  "copy_chars upper [] = []"
| "copy_chars upper (c # cs) =
     (if isspace c then copy_chars True cs
      else if \<not> (ispunct c \<or> isalpha c \<or> isspace c) then c # copy_chars upper cs
      else if upper then toupper c # copy_chars False cs
      else tolower c # copy_chars upper cs)"

definition lower_first :: "string \<Rightarrow> string" where
  "lower_first s = (case s of [] \<Rightarrow> [] | c # cs \<Rightarrow> tolower c # cs)"

primrec sentences_loop :: "nat \<Rightarrow> string \<Rightarrow> string list res" where
  "sentences_loop 0 input_s = Inr []"
| "sentences_loop (Suc n) input_s =
     rbind (count_loop input_s) (\<lambda>count.
     rbind (sentences_loop n (drop (count + 1) input_s)) (\<lambda>output_str.
       Inr (lower_first (copy_chars False (take count input_s)) # output_str)))"

definition camel_caser :: "string option \<Rightarrow> string list option res" where
  "camel_caser input_str =
     (case input_str of
        None \<Rightarrow> Inr None
      | Some s \<Rightarrow> rbind (sentences_loop (length (filter ispunct s)) s) (\<lambda>r. Inr (Some r)))"

section \<open>What camel case is\<close>

text \<open>The sentences of a text end in a punctuation mark; what follows the last mark is dropped.\<close>

function sentences :: "string \<Rightarrow> string list" where
  "sentences s =
     (case dropWhile (\<lambda>c. \<not> ispunct c) s of
        [] \<Rightarrow> []
      | _ # r \<Rightarrow> takeWhile (\<lambda>c. \<not> ispunct c) s # sentences r)"
  by auto
termination
proof (relation "measure length")
  fix s c r
  assume "dropWhile (\<lambda>c. \<not> ispunct c) s = c # r"
  then have "Suc (length r) \<le> length s" by (metis length_Cons length_dropWhile_le)
  then show "(r, s) \<in> measure length" by simp
qed simp

function words :: "string \<Rightarrow> string list" where
  "words s =
     (case dropWhile isspace s of
        [] \<Rightarrow> []
      | c # r \<Rightarrow> takeWhile (\<lambda>c. \<not> isspace c) (c # r) # words (dropWhile (\<lambda>c. \<not> isspace c) r))"
  by auto
termination
proof (relation "measure length")
  fix s c r
  assume "dropWhile isspace s = c # r"
  then have "Suc (length r) \<le> length s" by (metis length_Cons length_dropWhile_le)
  then show "(dropWhile (\<lambda>c. \<not> isspace c) r, s) \<in> measure length"
    using length_dropWhile_le [of "\<lambda>c. \<not> isspace c" r] by simp
qed simp

declare sentences.simps [simp del] words.simps [simp del]

text \<open>Capitals: the first letter of a word, also behind digits.\<close>

definition capital :: "string \<Rightarrow> string" where
  "capital w = takeWhile (\<lambda>c. \<not> isalpha c) w
     @ (case dropWhile (\<lambda>c. \<not> isalpha c) w of [] \<Rightarrow> [] | c # cs \<Rightarrow> toupper c # map tolower cs)"

text \<open>The first word is lower case, unless the sentence starts with a space: then only its first
  character is.\<close>

definition camel :: "string \<Rightarrow> string" where
  "camel s =
     (if s = [] \<or> isspace (hd s) then lower_first (concat (map capital (words s)))
      else map tolower (hd (words s)) @ concat (map capital (tl (words s))))"

section \<open>The code gives camel case\<close>

lemma tolower_other [simp]: "\<not> isalpha c \<Longrightarrow> tolower c = c"
  by (simp add: isalpha_def tolower_def)

lemma tolower_tolower [simp]: "tolower (tolower c) = tolower c"
  by (auto simp: tolower_def isupper_def between_def)

lemma copy_lower:
  "list_all (\<lambda>c. \<not> isspace c \<and> \<not> ispunct c) w \<Longrightarrow> copy_chars False (w @ r) = map tolower w @ copy_chars False r"
  by (induction w) auto

lemma copy_capital:
  "list_all (\<lambda>c. \<not> isspace c \<and> \<not> ispunct c) w \<Longrightarrow>
     copy_chars True (w @ r) = capital w @ copy_chars (list_all (\<lambda>c. \<not> isalpha c) w) r"
  by (induction w) (auto simp: copy_lower capital_def)

lemma copy_restart: "r = [] \<or> isspace (hd r) \<Longrightarrow> copy_chars u r = copy_chars True r"
  by (cases r) auto

definition no_punct :: "string \<Rightarrow> bool" where
  "no_punct s \<longleftrightarrow> list_all (\<lambda>c. \<not> ispunct c) s"

text \<open>A word and what comes after it.\<close>

lemma word_split:
  assumes "no_punct s"
  shows "list_all (\<lambda>c. \<not> isspace c \<and> \<not> ispunct c) (takeWhile (\<lambda>c. \<not> isspace c) s)"
    and "no_punct (dropWhile (\<lambda>c. \<not> isspace c) s)"
    and "dropWhile (\<lambda>c. \<not> isspace c) s = [] \<or> isspace (hd (dropWhile (\<lambda>c. \<not> isspace c) s))"
  using assms hd_dropWhile [of "\<lambda>c. \<not> isspace c" s]
  by (auto simp: no_punct_def list_all_iff dest: set_takeWhileD set_dropWhileD)

lemma copy_word:
  assumes "no_punct s"
  shows "copy_chars True s = capital (takeWhile (\<lambda>c. \<not> isspace c) s) @ copy_chars True (dropWhile (\<lambda>c. \<not> isspace c) s)"
    and "copy_chars False s = map tolower (takeWhile (\<lambda>c. \<not> isspace c) s) @ copy_chars True (dropWhile (\<lambda>c. \<not> isspace c) s)"
  using copy_capital [OF word_split(1) [OF assms], of "dropWhile (\<lambda>c. \<not> isspace c) s"]
    copy_lower [OF word_split(1) [OF assms], of "dropWhile (\<lambda>c. \<not> isspace c) s"]
    copy_restart [OF word_split(3) [OF assms]] by simp_all

lemma copy_dropWhile: "copy_chars True (dropWhile isspace s) = copy_chars True s"
  by (induction s) auto

lemma words_Nil [simp]: "words [] = []"
  by (simp add: words.simps)

lemma words_Cons: "\<not> isspace c \<Longrightarrow> words (c # r)
    = takeWhile (\<lambda>c. \<not> isspace c) (c # r) # words (dropWhile (\<lambda>c. \<not> isspace c) (c # r))"
  by (subst words.simps) simp

lemma copy_words: "no_punct s \<Longrightarrow> copy_chars True s = concat (map capital (words s))"
proof (induction s rule: words.induct)
  case (1 s)
  show ?case
  proof (cases "dropWhile isspace s")
    case Nil
    have "words s = []" by (subst words.simps) (simp only: Nil list.case)
    then show ?thesis using copy_dropWhile [of s, unfolded Nil] by simp
  next
    case (Cons c r)
    have "no_punct (c # r)" using 1(2) Cons by (metis list_all_iff no_punct_def set_dropWhileD)
    moreover have "\<not> isspace c" using Cons hd_dropWhile [of isspace s] by simp
    moreover have "words s = words (c # r)"
      using Cons \<open>\<not> isspace c\<close> by (subst words.simps) (simp add: words_Cons)
    ultimately show ?thesis
      using copy_dropWhile [of s] copy_word(1) [of "c # r"] 1(1) [OF Cons] word_split(2) [of "c # r"]
      by (simp add: Cons words_Cons)
  qed
qed

lemma copy_camel: "no_punct s \<Longrightarrow> lower_first (copy_chars False s) = camel s"
proof -
  assume s: "no_punct s"
  have low: "lower_first (map tolower w @ r) = map tolower w @ r" if "w \<noteq> []" for w r
    using that tolower_tolower by (cases w) (auto simp: lower_first_def)
  show ?thesis
  proof (cases "s = [] \<or> isspace (hd s)")
    case True
    then show ?thesis using copy_words [OF s] copy_restart [of s False] by (auto simp: camel_def)
  next
    case False
    then obtain c r where c: "s = c # r" "\<not> isspace c" by (cases s) auto
    then show ?thesis
      using copy_word(2) [OF s] copy_words [OF word_split(2) [OF s]] low
      by (simp add: camel_def words_Cons lower_first_def)
  qed
qed

lemma count_loop_ok: "no_punct t \<Longrightarrow> ispunct c \<Longrightarrow> count_loop (t @ c # r) = Inr (length t)"
  by (induction t) (auto simp: no_punct_def)

lemma sentences_split:
  assumes "dropWhile (\<lambda>c. \<not> ispunct c) s = c # r"
  obtains t where "s = t @ c # r" "no_punct t" "ispunct c" "sentences s = t # sentences r"
proof
  let ?t = "takeWhile (\<lambda>c. \<not> ispunct c) s"
  show "s = ?t @ c # r" using assms by (metis takeWhile_dropWhile_id)
  show "no_punct ?t" by (auto simp: no_punct_def list_all_iff dest: set_takeWhileD)
  show "ispunct c" using assms hd_dropWhile [of "\<lambda>c. \<not> ispunct c" s] by simp
  show "sentences s = ?t # sentences r" by (subst sentences.simps) (simp only: assms list.case)
qed

lemma sentences_loop_ok: "sentences_loop (length (filter ispunct s)) s = Inr (map camel (sentences s))"
proof (induction s rule: sentences.induct)
  case (1 s)
  show ?case
  proof (cases "dropWhile (\<lambda>c. \<not> ispunct c) s")
    case Nil
    have "sentences s = []" by (subst sentences.simps) (simp only: Nil list.case)
    moreover have "filter ispunct s = []" using Nil by (auto simp: filter_empty_conv dropWhile_eq_Nil_conv)
    ultimately show ?thesis by simp
  next
    case (Cons c r)
    then show ?thesis
    proof (rule sentences_split)
      fix t
      assume s: "s = t @ c # r" and t: "no_punct t" and c: "ispunct c" and split: "sentences s = t # sentences r"
      have "filter ispunct t = []" using t by (auto simp: no_punct_def list_all_iff filter_empty_conv)
      then show ?thesis
        using 1 [OF Cons] c count_loop_ok [OF t c] copy_camel [OF t] unfolding split by (simp add: s)
    qed
  qed
qed

text \<open>C40: \<open>camel_caser\<close> never reads behind its input and turns exactly the sentences that end in a
  punctuation mark into camel case; \<open>NULL\<close> gives \<open>NULL\<close>.\<close>

theorem camel_caser_spec: "camel_caser input = Inr (map_option (\<lambda>s. map camel (sentences s)) input)"
  by (cases input) (simp_all add: camel_caser_def sentences_loop_ok)

text \<open>A digit at the start of a sentence is followed by a capital when there is a space before it, and by
  a small letter when there is none.\<close>

lemma leading_space_capital:
  "camel_caser (Some ''4you.'') = Inr (Some [''4you''])"
  "camel_caser (Some '' 4you.'') = Inr (Some [''4You''])"
  by code_simp+

section \<open>Freeing the result\<close>

text \<open>\<open>destroy\<close> on the array at \<open>a\<close> with its pointers; \<open>m\<close> is what is allocated. The loop ends at the
  first \<open>NULL\<close>.\<close>

fun destroy_loop :: "nat option list \<Rightarrow> nat set \<Rightarrow> nat set res" where
  "destroy_loop [] m = Inl Bad_access"
| "destroy_loop (None # ps) m = Inr m"
| "destroy_loop (Some p # ps) m = rbind (guard (p \<in> m) Bad_access) (\<lambda>_. destroy_loop ps (m - {p}))"

definition destroy :: "nat \<Rightarrow> nat option list \<Rightarrow> nat set \<Rightarrow> nat set res" where
  "destroy a ps m =
     rbind (destroy_loop ps m) (\<lambda>m. rbind (guard (a \<in> m) Bad_access) (\<lambda>_. Inr (m - {a})))"

text \<open>An array of distinct strings with \<open>NULL\<close> at its end is freed with all of them, and nothing else.\<close>

theorem destroy_frees:
  assumes "distinct (a # ps)" and "insert a (set ps) \<subseteq> m"
  shows "destroy a (map Some ps @ [None]) m = Inr (m - insert a (set ps))"
proof -
  have "distinct ps \<Longrightarrow> set ps \<subseteq> m \<Longrightarrow> destroy_loop (map Some ps @ [None]) m = Inr (m - set ps)" for m
  proof (induction ps arbitrary: m)
    case (Cons p ps)
    from Cons.prems have "distinct ps" "set ps \<subseteq> m - {p}" by auto
    moreover have "m - {p} - set ps = m - set (p # ps)" by auto
    ultimately show ?case using Cons.IH [of "m - {p}"] Cons.prems by (simp del: Diff_insert0 Diff_insert)
  qed simp
  from this [of m] assms show ?thesis by (auto simp: destroy_def)
qed

end
