(* ===== verification/Cracker.thy ===== *)
theory Cracker
  imports Camel "HOL-Library.Multiset"
begin

text \<open>
  The password cracker with one thread for each password (\<open>password_cracker/cracker1.c\<close>). The hash
  function (\<open>crypt_r\<close> with its salt) and the helper \<open>getPrefixLength\<close> are arguments. The queue of
  jobs is the first-in first-out queue that \<open>Cqueue\<close> proves \<open>queue.c\<close> to be, here without a bound.
\<close>

section \<open>The search of one password\<close>

definition letters :: string where
  "letters = ''abcdefghijklmnopqrstuvwxyz''"

text \<open>The loop over the letters; the password is an array that the calls write to. The result is 0 when
  the password was found, with the array and the number of hashes.\<close>

primrec try_letters :: "(string \<Rightarrow> int \<Rightarrow> int \<times> string \<times> int) \<Rightarrow> nat \<Rightarrow> string \<Rightarrow> string \<Rightarrow> int \<Rightarrow> int \<times> string \<times> int" where
  "try_letters tst idx [] pwd numhash = (1, pwd, numhash)"
| "try_letters tst idx (c # cs) pwd numhash =
     (case tst (pwd[idx := c]) numhash of (found, pwd, numhash) \<Rightarrow>
        if found = 0 then (0, pwd, numhash) else try_letters tst idx cs pwd numhash)"

text \<open>\<open>test\<close>, where the number is what \<open>idx\<close> is below \<open>len\<close>.\<close>

primrec test :: "(string \<Rightarrow> string) \<Rightarrow> string \<Rightarrow> nat \<Rightarrow> nat \<Rightarrow> string \<Rightarrow> int \<Rightarrow> int \<times> string \<times> int" where
  "test crypt hash 0 idx pwd numhash = (if crypt pwd = hash then 0 else 1, pwd, int32 (numhash + 1))"
| "test crypt hash (Suc n) idx pwd numhash =
     try_letters (test crypt hash n (idx + 1)) idx letters pwd numhash"

text \<open>\<open>sscanf\<close> splits the line at white space into arrays of 9, 14 and 9 bytes. With fewer fields the
  arrays are read without a value.\<close>

definition parse_job :: "string \<Rightarrow> (string \<times> string \<times> string) res" where
  "parse_job line =
     (case words line of
        user # hash # pwd # _ \<Rightarrow>
          rbind (guard (length user < 9 \<and> length hash < 14 \<and> length pwd < 9) Bad_access) (\<lambda>_. Inr (user, hash, pwd))
      | _ \<Rightarrow> Inl Bad_access)"

definition work :: "(string \<Rightarrow> nat) \<Rightarrow> (string \<Rightarrow> string) \<Rightarrow> string \<Rightarrow> (string \<times> int \<times> string \<times> int) res" where
  "work prefix_length crypt command =
     rbind (parse_job command) (\<lambda>(user, hash, pwd).
       let idx = prefix_length pwd
       in rbind (guard (idx \<le> length pwd) Bad_access) (\<lambda>_.
            Inr (user, test crypt hash (length pwd - idx) idx pwd 0)))"

section \<open>The threads\<close>

datatype cpc = Pulling | Testing string | Ending | Gone

record crack =
  unread :: "string list"
  total :: int
  jobs :: "string list"
  pcs :: "nat \<Rightarrow> cpc"
  success :: int
  results :: "(string \<times> int) list"
  at_end :: bool
  summary :: "(int \<times> int) option"

definition start_crack :: "string list \<Rightarrow> crack" where
  "start_crack lines = \<lparr>unread = lines, total = 0, jobs = [], pcs = (\<lambda>_. Pulling), success = 0,
     results = [], at_end = False, summary = None\<rparr>"

text \<open>One turn of a worker: it pulls a job, pushes the end marker back, or adds its result under the
  mutex. A turn that is not possible is \<open>None\<close>.\<close>

definition worker :: "(string \<Rightarrow> nat) \<Rightarrow> (string \<Rightarrow> string) \<Rightarrow> nat \<Rightarrow> crack \<Rightarrow> crack option" where
  "worker prefix_length crypt i s =
     (case pcs s i of
        Pulling \<Rightarrow>
          (case jobs s of
             [] \<Rightarrow> None
           | c # cs \<Rightarrow> Some (s\<lparr>jobs := cs, pcs := (pcs s)(i := if c = ''end'' then Ending else Testing c)\<rparr>))
      | Ending \<Rightarrow> Some (s\<lparr>jobs := jobs s @ [''end''], pcs := (pcs s)(i := Gone)\<rparr>)
      | Testing c \<Rightarrow>
          (case work prefix_length crypt c of
             Inl _ \<Rightarrow> None
           | Inr (_, r, _) \<Rightarrow>
               Some (s\<lparr>success := success s + (1 - r), results := results s @ [(c, r)], pcs := (pcs s)(i := Pulling)\<rparr>))
      | Gone \<Rightarrow> None)"

text \<open>A turn of \<open>start\<close> with its threads: it reads a line, notices the end, or prints the summary when all
  threads are joined.\<close>

definition start_turn :: "nat \<Rightarrow> crack \<Rightarrow> crack option" where
  "start_turn thread_count s =
     (if \<not> at_end s then
        (case unread s of
           [] \<Rightarrow> Some (s\<lparr>jobs := jobs s @ [''end''], at_end := True\<rparr>)
         | l # ls \<Rightarrow> Some (s\<lparr>unread := ls, total := total s + 1, jobs := jobs s @ [l]\<rparr>))
      else if summary s = None \<and> list_all (\<lambda>i. pcs s i = Gone) [0 ..< thread_count] \<and> jobs s \<noteq> [] then
        Some (s\<lparr>jobs := tl (jobs s), summary := Some (success s, total s - success s)\<rparr>)
      else None)"

definition crack_step :: "(string \<Rightarrow> nat) \<Rightarrow> (string \<Rightarrow> string) \<Rightarrow> nat \<Rightarrow> crack \<Rightarrow> crack \<Rightarrow> bool" where
  "crack_step prefix_length crypt thread_count s t \<longleftrightarrow>
     start_turn thread_count s = Some t \<or> (\<exists>i < thread_count. worker prefix_length crypt i s = Some t)"

section \<open>The search finds the first match\<close>

text \<open>All strings of \<open>n\<close> letters in the order of a dictionary.\<close>

primrec strings :: "nat \<Rightarrow> string list" where
  "strings 0 = [[]]"
| "strings (Suc n) = concat (map (\<lambda>c. map ((#) c) (strings n)) letters)"

definition candidates :: "nat \<Rightarrow> string \<Rightarrow> string list" where
  "candidates idx pwd = map ((@) (take idx pwd)) (strings (length pwd - idx))"

primrec hash_all :: "(string \<Rightarrow> string) \<Rightarrow> string \<Rightarrow> string list \<Rightarrow> int \<Rightarrow> string option \<times> int" where
  "hash_all crypt hash [] n = (None, n)"
| "hash_all crypt hash (w # ws) n =
     (if crypt w = hash then (Some w, int32 (n + 1)) else hash_all crypt hash ws (int32 (n + 1)))"

definition outcome :: "string \<Rightarrow> string option \<times> int \<Rightarrow> int \<times> string \<times> int" where
  "outcome pwd r = (case r of (None, k) \<Rightarrow> (1, pwd, k) | (Some w, k) \<Rightarrow> (0, w, k))"

lemma hash_all_append:
  "hash_all crypt hash (xs @ ys) n =
     (case hash_all crypt hash xs n of (None, k) \<Rightarrow> hash_all crypt hash ys k | r \<Rightarrow> r)"
  by (induction xs arbitrary: n) auto

lemma try_letters_hash_all:
  assumes "\<And>pwd n. length pwd = len \<Longrightarrow>
      tst (pwd :: string) n = outcome (take (idx + 1) pwd @ z) (hash_all crypt hash (map ((@) (take (idx + 1) pwd)) ws) n)"
    and "idx < len" and "length z = len - (idx + 1)"
  shows "length pwd = len \<Longrightarrow> try_letters tst idx cs pwd n
    = outcome (if cs = [] then pwd else take idx pwd @ last cs # z)
        (hash_all crypt hash (concat (map (\<lambda>c. map (\<lambda>w. take idx pwd @ c # w) ws) cs)) n)"
proof (induction cs arbitrary: pwd n)
  case (Cons c cs)
  have pre: "take (Suc idx) (pwd[idx := c]) = take idx pwd @ [c]"
    using Cons.prems assms(2) by (simp add: take_Suc_conv_app_nth)
  have comp: "(@) (take idx pwd @ [c]) = (\<lambda>w. take idx pwd @ c # w)" by auto
  let ?r = "hash_all crypt hash (map (\<lambda>w. take idx pwd @ c # w) ws) n"
  have t: "tst (pwd[idx := c]) n = outcome (take idx pwd @ c # z) ?r"
    using assms(1) [of "pwd[idx := c]" n] Cons.prems pre comp by simp
  show ?case
  proof (cases "fst ?r")
    case None
    then obtain k where r: "?r = (None, k)" by (metis prod.collapse)
    have len: "length (take idx pwd @ c # z) = len" using Cons.prems assms(2,3) by simp
    have same: "take idx (take idx pwd @ c # z) = take idx pwd" using Cons.prems assms(2) by simp
    show ?thesis
      using t Cons.IH [OF len, of k, unfolded same] by (simp add: r outcome_def hash_all_append)
  next
    case (Some w)
    then obtain k where r: "?r = (Some w, k)" by (metis prod.collapse)
    then show ?thesis using t by (simp add: outcome_def hash_all_append)
  qed
qed (simp add: outcome_def)

lemma test_hash_all:
  "idx + n = length pwd \<Longrightarrow>
     test crypt hash n idx pwd k = outcome (take idx pwd @ replicate n CHR ''z'')
       (hash_all crypt hash (map ((@) (take idx pwd)) (strings n)) k)"
proof (induction n arbitrary: idx pwd k)
  case (Suc n)
  have "try_letters (test crypt hash n (idx + 1)) idx letters pwd k
      = outcome (if letters = [] then pwd else take idx pwd @ last letters # replicate n CHR ''z'')
          (hash_all crypt hash (concat (map (\<lambda>c. map (\<lambda>w. take idx pwd @ c # w) (strings n)) letters)) k)"
    using Suc.prems by (intro try_letters_hash_all [where len = "length pwd"] Suc.IH) auto
  moreover have "last letters = CHR ''z''" "letters \<noteq> []" by (simp_all add: letters_def)
  ultimately show ?case by (simp add: map_concat comp_def)
qed (auto simp: outcome_def)

lemma int32_add_left [simp]: "int32 (int32 a + b) = int32 (a + b)"
  by (simp add: int32_def mod_simps algebra_simps)

lemma hash_all_first:
  "int32 n = n \<Longrightarrow> hash_all crypt hash ws n =
     (case find (\<lambda>w. crypt w = hash) ws of
        None \<Rightarrow> (None, int32 (n + int (length ws)))
      | Some w \<Rightarrow> (Some w, int32 (n + int (length (takeWhile (\<lambda>w. crypt w \<noteq> hash) ws)) + 1)))"
proof (induction ws arbitrary: n)
  case (Cons w ws)
  have "int32 (int32 (n + 1)) = int32 (n + 1)" using int32_add_left [of "n + 1" 0] by simp
  from Cons.IH [OF this] show ?case by (auto simp: add.assoc split: option.split)
qed simp

text \<open>The search tries the candidates for the unknown letters in the order of the dictionary and
  stops at the first whose hash matches: it fails only when there is none, and counts its hashes modulo the
  range of an \<open>int\<close>.\<close>

theorem test_finds_first:
  assumes "idx \<le> length pwd"
  shows "test crypt hash (length pwd - idx) idx pwd 0 =
    (let ws = candidates idx pwd; tried = takeWhile (\<lambda>w. crypt w \<noteq> hash) ws
     in case find (\<lambda>w. crypt w = hash) ws of
          None \<Rightarrow> (1, take idx pwd @ replicate (length pwd - idx) CHR ''z'', int32 (int (length ws)))
        | Some w \<Rightarrow> (0, w, int32 (int (length tried) + 1)))"
  using assms test_hash_all [of idx "length pwd - idx" pwd crypt hash 0]
    hash_all_first [of 0 crypt hash "candidates idx pwd"]
  by (auto simp: candidates_def outcome_def Let_def int32_id add.commute split: option.split)

lemma length_strings: "length (strings n) = 26 ^ n"
  by (induction n) (simp_all add: letters_def length_concat)

lemma set_strings: "set (strings n) = {w. length w = n \<and> set w \<subseteq> set letters}"
proof (induction n)
  case (Suc n)
  have "w \<in> set (strings (Suc n)) \<longleftrightarrow> length w = Suc n \<and> set w \<subseteq> set letters" for w
    by (cases w) (auto simp: Suc)
  then show ?case by blast
qed auto

section \<open>Every password is tried once\<close>

definition held :: "cpc \<Rightarrow> string multiset" where
  "held p = (case p of Testing c \<Rightarrow> {#c#} | _ \<Rightarrow> {#})"

definition all_held :: "nat \<Rightarrow> (nat \<Rightarrow> cpc) \<Rightarrow> string multiset" where
  "all_held n f = (\<Sum>i < n. held (f i))"

lemma all_held_upd: "i < n \<Longrightarrow> all_held n (f(i := x)) + held (f i) = all_held n f + held x"
  unfolding all_held_def by (rule sum_upd)

definition cracked :: "(string \<times> int) list \<Rightarrow> int" where
  "cracked rs = sum_list (map (\<lambda>(c, r). 1 - r) rs)"

text \<open>Where the end marker is, once it has been pushed.\<close>

definition end_ok :: "nat \<Rightarrow> crack \<Rightarrow> bool" where
  "end_ok n s \<longleftrightarrow>
     (if at_end s then
        unread s = [] \<and>
        ((\<exists>js. jobs s = js @ [''end''] \<and> ''end'' \<notin> set js \<and> (\<forall>i < n. pcs s i \<noteq> Ending)
            \<and> ((\<exists>i < n. pcs s i = Gone) \<longrightarrow> js = []))
         \<or> (jobs s = [] \<and> (\<exists>i < n. pcs s i = Ending \<and> (\<forall>j < n. j \<noteq> i \<longrightarrow> pcs s j \<noteq> Ending))))
      else ''end'' \<notin> set (jobs s) \<and> (\<forall>i < n. pcs s i \<noteq> Ending \<and> pcs s i \<noteq> Gone))"

definition results_ok :: "(string \<Rightarrow> nat) \<Rightarrow> (string \<Rightarrow> string) \<Rightarrow> (string \<times> int) list \<Rightarrow> bool" where
  "results_ok prefix_length crypt rs \<longleftrightarrow>
     list_all (\<lambda>(c, r). \<exists>u x. work prefix_length crypt c = Inr (u, r, x)) rs"

definition crack_inv :: "(string \<Rightarrow> nat) \<Rightarrow> (string \<Rightarrow> string) \<Rightarrow> nat \<Rightarrow> string list \<Rightarrow> crack \<Rightarrow> bool" where
  "crack_inv prefix_length crypt n lines s \<longleftrightarrow>
     ''end'' \<notin> set (unread s) \<and> total s = int (length lines) - int (length (unread s))
     \<and> success s = cracked (results s) \<and> results_ok prefix_length crypt (results s)
     \<and> mset lines = mset (unread s) + filter_mset (\<lambda>c. c \<noteq> ''end'') (mset (jobs s)) + all_held n (pcs s)
         + mset (map fst (results s))
     \<and> (case summary s of
          None \<Rightarrow> end_ok n s
        | Some (a, b) \<Rightarrow> at_end s \<and> unread s = [] \<and> jobs s = [] \<and> (\<forall>i < n. pcs s i = Gone)
            \<and> a = success s \<and> b = total s - success s)"

lemma all_held_none: "(\<And>i. i < n \<Longrightarrow> held (f i) = {#}) \<Longrightarrow> all_held n f = {#}"
  by (simp add: all_held_def)

lemma all_held_same: "i < n \<Longrightarrow> held x = held (f i) \<Longrightarrow> all_held n (f(i := x)) = all_held n f"
  using all_held_upd [of i n f x] by simp

lemma held_simps [simp]: "held Pulling = {#}" "held Ending = {#}" "held Gone = {#}" "held (Testing c) = {#c#}"
  by (simp_all add: held_def)

lemma results_ok_snoc [simp]:
  "results_ok p h (rs @ [(c, r)]) \<longleftrightarrow> results_ok p h rs \<and> (\<exists>u x. work p h c = Inr (u, r, x))"
  by (auto simp: results_ok_def)

lemma cracked_snoc [simp]: "cracked (rs @ [(c, r)]) = cracked rs + (1 - r)"
  by (simp add: cracked_def)

lemma end_ok_same:
  assumes "jobs t = jobs s" "unread t = unread s" "at_end t = at_end s"
    and "\<And>j. j < n \<Longrightarrow> (pcs t j = Ending) = (pcs s j = Ending) \<and> (pcs t j = Gone) = (pcs s j = Gone)"
  shows "end_ok n t = end_ok n s"
  unfolding end_ok_def using assms by (simp cong: conj_cong)

lemma start_turn_inv:
  assumes "crack_inv p h n lines s" and "start_turn n s = Some t" and "0 < n"
  shows "crack_inv p h n lines t"
proof (cases "at_end s")
  case False
  then have "summary s = None" using assms(1) by (auto simp: crack_inv_def split: option.splits)
  then show ?thesis using assms False
    by (auto simp: crack_inv_def start_turn_def end_ok_def split: list.splits)
next
  case True
  then have fin: "summary s = None" "\<forall>i < n. pcs s i = Gone" "jobs s \<noteq> []" and
    t: "t = s\<lparr>jobs := tl (jobs s), summary := Some (success s, total s - success s)\<rparr>"
    using assms(2) by (auto simp: start_turn_def list_all_iff split: if_splits)
  then obtain js where "jobs s = js @ [''end'']" "0 < n \<longrightarrow> js = []" "unread s = []" "''end'' \<notin> set js"
    using assms(1) True by (auto simp: crack_inv_def end_ok_def)
  then show ?thesis using assms(1,3) True fin unfolding t
    by (auto simp: crack_inv_def)
qed

lemma worker_inv:
  assumes "crack_inv p h n lines s" and "worker p h i s = Some t" and "i < n"
  shows "crack_inv p h n lines t"
proof (cases "pcs s i")
  case Pulling
  then have none: "summary s = None"
    using assms(1,3) by (auto simp: crack_inv_def split: option.splits)
  obtain c cs where jobs: "jobs s = c # cs" and t: "t = s\<lparr>jobs := cs, pcs := (pcs s)(i := if c = ''end'' then Ending else Testing c)\<rparr>"
    using assms(2) Pulling by (auto simp: worker_def split: list.splits)
  have "all_held n (pcs t) = all_held n (pcs s) + (if c = ''end'' then {#} else {#c#})"
    using all_held_upd [OF assms(3), of "pcs s" "if c = ''end'' then Ending else Testing c"] Pulling unfolding t by simp
  moreover have "end_ok n t"
    using assms(1,3) none Pulling jobs unfolding t crack_inv_def end_ok_def
    by (auto simp: Cons_eq_append_conv split: if_splits)
  ultimately show ?thesis
    using assms(1) none jobs unfolding crack_inv_def by (auto simp: t)
next
  case (Testing c)
  then have none: "summary s = None"
    using assms(1,3) by (auto simp: crack_inv_def split: option.splits)
  obtain u r x where w: "work p h c = Inr (u, r, x)"
    and t: "t = s\<lparr>success := success s + (1 - r), results := results s @ [(c, r)], pcs := (pcs s)(i := Pulling)\<rparr>"
    using assms(2) Testing by (auto simp: worker_def split: sum.splits)
  have "all_held n (pcs t) + {#c#} = all_held n (pcs s)"
    using all_held_upd [OF assms(3), of "pcs s" Pulling] Testing unfolding t by simp
  then have "mset lines = mset (unread s) + filter_mset (\<lambda>c. c \<noteq> ''end'') (mset (jobs s)) + (all_held n (pcs t) + {#c#})
      + mset (map fst (results s))"
    using assms(1) by (simp add: crack_inv_def)
  moreover have "end_ok n t"
    using assms(1) none Testing end_ok_same [of t s n] by (auto simp: crack_inv_def t)
  ultimately show ?thesis
    using assms(1) none w unfolding crack_inv_def by (auto simp: t)
next
  case Ending
  then have none: "summary s = None"
    using assms(1,3) by (auto simp: crack_inv_def split: option.splits)
  have t: "t = s\<lparr>jobs := jobs s @ [''end''], pcs := (pcs s)(i := Gone)\<rparr>"
    using assms(2) Ending by (simp add: worker_def)
  have "all_held n (pcs t) = all_held n (pcs s)"
    using all_held_same [OF assms(3), of Gone "pcs s"] Ending unfolding t by simp
  moreover have "end_ok n t"
    using assms(1,3) none Ending unfolding t crack_inv_def end_ok_def by (auto split: if_splits)
  ultimately show ?thesis
    using assms(1) none unfolding crack_inv_def by (auto simp: t)
next
  case Gone
  then show ?thesis using assms(2) by (simp add: worker_def)
qed

lemma start_inv: "''end'' \<notin> set lines \<Longrightarrow> crack_inv p h n lines (start_crack lines)"
  by (auto simp: crack_inv_def start_crack_def end_ok_def results_ok_def cracked_def intro: all_held_none)

text \<open>The transition system of one run, for a number of threads that is not zero.\<close>

definition crack_init :: "nat \<Rightarrow> string list \<Rightarrow> crack \<Rightarrow> bool" where
  "crack_init n lines s \<longleftrightarrow> s = start_crack lines \<and> 0 < n \<and> ''end'' \<notin> set lines"

interpretation crack: transition_system "crack_init n lines" "crack_step p h n" "\<lambda>s. crack_inv p h n lines s \<and> 0 < n"
  for p h n lines
  by unfold_locales (auto simp: crack_init_def crack_step_def start_inv intro: start_turn_inv worker_inv)

lemma crack_reachable_inv:
  assumes "reachable (\<lambda>s. s = start_crack lines) (crack_step p h n) s" and "0 < n" and "''end'' \<notin> set lines"
  shows "crack_inv p h n lines s"
proof -
  from assms(1) have "reachable (crack_init n lines) (crack_step p h n) s"
    by (rule reachable_weaken) (simp add: crack_init_def assms(2,3))
  then show ?thesis using crack.reachable_inv by blast
qed


definition cracks :: "(string \<Rightarrow> nat) \<Rightarrow> (string \<Rightarrow> string) \<Rightarrow> string \<Rightarrow> bool" where
  "cracks p h c \<longleftrightarrow> (case work p h c of Inl _ \<Rightarrow> False | Inr (_, r, _) \<Rightarrow> r = 0)"

lemma try_letters_result:
  assumes "\<And>w k. fst (tst w k) = 0 \<or> fst (tst w k) = 1"
  shows "fst (try_letters tst idx cs pwd n) = 0 \<or> fst (try_letters tst idx cs pwd n) = 1"
  using assms by (induction cs arbitrary: pwd n) (auto split: prod.splits)

lemma test_result: "fst (test h hash n idx pwd k) = 0 \<or> fst (test h hash n idx pwd k) = 1"
proof (induction n arbitrary: idx pwd k)
  case (Suc n)
  show ?case unfolding test.simps by (rule try_letters_result) (rule Suc)
qed auto

lemma work_result: "work p h c = Inr (u, r, x) \<Longrightarrow> r = 0 \<or> r = 1"
  using test_result by (auto simp: work_def res_conv Let_def) (metis fst_conv)

lemma cracked_counts:
  "results_ok p h rs \<Longrightarrow> cracked rs = int (length (filter (cracks p h) (map fst rs)))"
  by (induction rs) (auto simp: results_ok_def cracked_def cracks_def dest: work_result)

text \<open>C32: however the threads interleave, when the summary is printed every line was tried exactly
  once, and the summary has the number of lines whose password was found and the number of the others.\<close>

theorem crack_summary:
  assumes "reachable (\<lambda>s. s = start_crack lines) (crack_step p h n) s" and "0 < n" and "''end'' \<notin> set lines"
    and "summary s = Some (found, missed)"
  shows "mset (map fst (results s)) = mset lines \<and> found = int (length (filter (cracks p h) lines))
    \<and> missed = int (length (filter (\<lambda>c. \<not> cracks p h c) lines))"
proof -
  have inv: "crack_inv p h n lines s" using crack_reachable_inv assms(1-3) by blast
  have "all_held n (pcs s) = {#}"
    using inv assms(4) by (intro all_held_none) (auto simp: crack_inv_def)
  then have ms: "mset (map fst (results s)) = mset lines"
    using inv assms(4) by (auto simp: crack_inv_def)
  have "length (filter P xs) = size (filter_mset P (mset xs))" for P and xs :: "string list"
    by (metis mset_filter size_mset)
  then have "length (filter (cracks p h) (map fst (results s))) = length (filter (cracks p h) lines)"
    using ms by metis
  then have "found = int (length (filter (cracks p h) lines))"
    using inv assms(4) cracked_counts [of p h "results s"] by (simp add: crack_inv_def)
  moreover have "missed = int (length lines) - found"
    using inv assms(4) by (auto simp: crack_inv_def)
  ultimately show ?thesis
    using ms sum_length_filter_compl [of "cracks p h" lines] by linarith
qed

text \<open>When every line can be parsed, the program is never stuck before it has printed the
  summary.\<close>

theorem crack_progress:
  assumes "reachable (\<lambda>s. s = start_crack lines) (crack_step p h n) s" and "0 < n" and "''end'' \<notin> set lines"
    and "list_all (\<lambda>c. case work p h c of Inl _ \<Rightarrow> False | Inr _ \<Rightarrow> True) lines" and "summary s = None"
  shows "\<exists>t. crack_step p h n s t"
proof -
  have inv: "crack_inv p h n lines s" using crack_reachable_inv assms(1-3) by blast
  then have ok: "end_ok n s" using assms(5) by (simp add: crack_inv_def)
  have testing: "worker p h i s \<noteq> None" if "i < n" "pcs s i = Testing c" for i c
  proof -
    have "all_held n ((pcs s)(i := Pulling)) + {#c#} = all_held n (pcs s)"
      using all_held_upd [OF that(1), of "pcs s" Pulling] that(2) by simp
    then have "c \<in># all_held n (pcs s)" by (metis union_iff union_single_eq_member add_mset_add_single)
    then have "c \<in># mset lines" using inv by (simp add: crack_inv_def)
    then show ?thesis using assms(4) that by (auto simp: list_all_iff worker_def split: sum.split)
  qed
  consider "\<not> at_end s" | i c where "i < n" "pcs s i = Testing c" | i where "i < n" "pcs s i = Ending"
    | "at_end s" "\<forall>i < n. pcs s i = Pulling \<or> pcs s i = Gone"
    by (metis cpc.exhaust)
  then show ?thesis
  proof cases
    case 1
    then show ?thesis by (auto simp: crack_step_def start_turn_def split: list.split)
  next
    case 2
    then obtain t where "worker p h i s = Some t" using testing by blast
    then show ?thesis using 2 unfolding crack_step_def by blast
  next
    case 3
    then have "worker p h i s \<noteq> None" by (simp add: worker_def)
    then show ?thesis using 3 unfolding crack_step_def by blast
  next
    case 4
    then have "jobs s \<noteq> []" using ok by (auto simp: end_ok_def)
    show ?thesis
    proof (cases "\<forall>i < n. pcs s i = Gone")
      case True
      then show ?thesis using 4 \<open>jobs s \<noteq> []\<close> assms(5)
        by (auto simp: crack_step_def start_turn_def list_all_iff)
    next
      case False
      then obtain i where "i < n" "pcs s i = Pulling" using 4 by blast
      then have "worker p h i s \<noteq> None" using \<open>jobs s \<noteq> []\<close> by (auto simp: worker_def neq_Nil_conv)
      then show ?thesis using \<open>i < n\<close> unfolding crack_step_def by blast
    qed
  qed
qed

section \<open>A sample run\<close>

text \<open>A schedule: \<open>None\<close> is a turn of \<open>start\<close>, \<open>Some i\<close> one of worker \<open>i\<close>.\<close>

definition crack_act :: "(string \<Rightarrow> nat) \<Rightarrow> (string \<Rightarrow> string) \<Rightarrow> nat \<Rightarrow> nat option \<Rightarrow> crack \<Rightarrow> crack option" where
  "crack_act p h n x s = (case x of None \<Rightarrow> start_turn n s | Some i \<Rightarrow> if i < n then worker p h i s else None)"

lemma crack_act_step: "crack_act p h n x s = Some t \<Longrightarrow> crack_step p h n s t"
  by (auto simp: crack_act_def crack_step_def split: option.splits if_splits)

definition dots :: "string \<Rightarrow> nat" where "dots w = length (takeWhile (\<lambda>c. c \<noteq> CHR ''.'') w)"

definition sample_lines :: "string list" where "sample_lines = [''ann ba a.'', ''bob x1 x.'']"

lemma sample_run:
  "map_option summary (run_schedule (crack_act dots rev 2)
     [None, None, Some 1, Some 0, None, Some 0, Some 1, Some 1, Some 1, Some 0, Some 0, None]
     (start_crack sample_lines)) = Some (Some (1, 1))"
  by code_simp

lemma sample_reachable:
  "\<exists>s. reachable (\<lambda>s. s = start_crack sample_lines) (crack_step dots rev 2) s \<and> summary s = Some (1, 1)"
proof -
  obtain s where run: "run_schedule (crack_act dots rev 2)
      [None, None, Some 1, Some 0, None, Some 0, Some 1, Some 1, Some 1, Some 0, Some 0, None] (start_crack sample_lines) = Some s"
    and "summary s = Some (1, 1)"
    using sample_run by (auto simp del: run_schedule.simps)
  then show ?thesis by (intro exI [of _ s] conjI run_schedule_reachable [OF run]) (auto intro: reach_init crack_act_step)
qed

lemma crack_summary_witness:
  "\<exists>s :: crack. summary s = Some (1, 1) \<and> mset (map fst (results s)) = mset sample_lines
    \<and> (1::int) = int (length (filter (cracks dots rev) sample_lines))"
proof -
  obtain s where s: "reachable (\<lambda>s. s = start_crack sample_lines) (crack_step dots rev 2) s" "summary s = Some (1, 1)"
    using sample_reachable by blast
  have "''end'' \<notin> set sample_lines" by (simp add: sample_lines_def)
  from crack_summary [OF s(1) _ this s(2)] s(2) show ?thesis by (intro exI [of _ s]) simp
qed

lemma crack_progress_witness: "\<exists>t. crack_step dots rev 2 (start_crack sample_lines) t"
proof (rule crack_progress)
  show "reachable (\<lambda>s. s = start_crack sample_lines) (crack_step dots rev 2) (start_crack sample_lines)"
    by (rule reach_init) simp
  show "list_all (\<lambda>c. case work dots rev c of Inl _ \<Rightarrow> False | Inr _ \<Rightarrow> True) sample_lines" by code_simp
qed (simp_all add: sample_lines_def start_crack_def)

lemma test_finds_first_witness:
  "test rev ''ca'' (length ''a.'' - 1) 1 ''a.'' 0 =
    (let ws = candidates 1 ''a.''; tried = takeWhile (\<lambda>w. rev w \<noteq> ''ca'') ws
     in case find (\<lambda>w. rev w = ''ca'') ws of
          None \<Rightarrow> (1, take 1 ''a.'' @ replicate (length ''a.'' - 1) CHR ''z'', int32 (int (length ws)))
        | Some w \<Rightarrow> (0, w, int32 (int (length tried) + 1)))
   \<and> find (\<lambda>w. rev w = ''ca'') (candidates 1 ''a.'') = Some ''ac''"
proof (rule conjI)
  show "find (\<lambda>w. rev w = ''ca'') (candidates 1 ''a.'') = Some ''ac''" by code_simp
qed (rule test_finds_first, simp)

end
