(* ===== verification/Cracker2.thy ===== *)
theory Cracker2
  imports Cracker
begin

text \<open>
  The password cracker whose threads share each password (\<open>password_cracker/cracker2.c\<close>).

  A thread takes a token, searches its subrange, meets the others at a barrier and tells \<open>start\<close>. The
  conditions that are waited for become true under the mutex, in the critical section that wakes the
  waiting threads, so a wait is a step that is possible when its condition holds. The step of a thread
  is the code between two points at which it holds the mutex. Arguments of the model are the hash
  function and the helpers \<open>getPrefixLength\<close>, \<open>getSubrange\<close> and \<open>incrementString\<close>, which are not in the
  repository.
\<close>

section \<open>The code\<close>

record utils =
  prefix_length :: "string \<Rightarrow> nat"
  subrange :: "nat \<Rightarrow> nat \<Rightarrow> nat \<Rightarrow> nat \<times> nat"
  increment :: "string \<Rightarrow> string option"
  crypt_r :: "string \<Rightarrow> string"

text \<open>The loop that sets the first password of a thread.\<close>

primrec start_loop :: "nat \<Rightarrow> nat \<Rightarrow> string \<Rightarrow> nat \<Rightarrow> string res" where
  "start_loop i 0 pwd remain = Inr pwd"
| "start_loop i (Suc n) pwd remain =
     (let divisor = 26 ^ n; numshift = remain div divisor
      in rbind (guard (numshift < 26) Assert_failed) (\<lambda>_.
           start_loop (i + 1) n (pwd[i := char_of (97 + numshift)]) (remain mod divisor)))"

datatype tpc =
    Wait_push
  | Ready
  | Check string nat int
  | Hash string nat int
  | Report string int
  | Finish int
  | At_barrier
  | Exited_thread

datatype mpc = Reading | Awaiting string | Joining | Done

record crack2 =
  lines_left :: "string list"
  push :: nat
  eof :: bool
  finishthread :: nat
  found :: bool
  passwordfound :: "string option"
  info :: "(string \<times> string \<times> string) option"
  totalcount :: int
  threadexit :: nat
  tpcs :: "nat \<Rightarrow> tpc"
  main_pc :: mpc
  printed :: "(string \<times> string option \<times> int) list"

definition init2 :: "string list \<Rightarrow> crack2" where
  "init2 lines = \<lparr>lines_left = lines, push = 0, eof = False, finishthread = 0, found = False, passwordfound = None,
     info = None, totalcount = 0, threadexit = 0, tpcs = (\<lambda>_. Wait_push), main_pc = Reading, printed = []\<rparr>"

definition go :: "nat \<Rightarrow> tpc \<Rightarrow> crack2 \<Rightarrow> crack2" where
  "go i p s = s\<lparr>tpcs := (tpcs s)(i := p)\<rparr>"

text \<open>The first password and the number of passwords of thread \<open>i\<close>, whose id is \<open>i + 1\<close>.\<close>

definition prepare :: "utils \<Rightarrow> nat \<Rightarrow> nat \<Rightarrow> string \<Rightarrow> (string \<times> nat) res" where
  "prepare u threadcount i pwd =
     (let idx = prefix_length u pwd; len = length pwd
      in rbind (guard (idx \<le> len) Bad_access) (\<lambda>_.
           case subrange u (len - idx) threadcount (i + 1) of (startidx, amount) \<Rightarrow>
             rbind (start_loop idx (len - idx) pwd startidx) (\<lambda>pwd. Inr (pwd, amount))))"

text \<open>The end of a turn: the barrier, behind which the last thread goes on at once.\<close>

definition leave_barrier :: "nat \<Rightarrow> crack2 \<Rightarrow> crack2" where
  "leave_barrier i s = go i Wait_push (s\<lparr>threadexit := threadexit s + 1\<rparr>)"

definition finish_turn :: "nat \<Rightarrow> nat \<Rightarrow> int \<Rightarrow> crack2 \<Rightarrow> crack2" where
  "finish_turn threadcount i hashcount s =
     (let s = s\<lparr>totalcount := totalcount s + hashcount, finishthread := finishthread s + 1\<rparr>
      in if finishthread s < threadcount then go i At_barrier s else leave_barrier i s)"

definition worker2 :: "utils \<Rightarrow> nat \<Rightarrow> nat \<Rightarrow> crack2 \<Rightarrow> crack2 option" where
  "worker2 u threadcount i s =
     (case tpcs s i of
        Wait_push \<Rightarrow>
          if push s = 0 then None
          else Some (go i (if eof s then Exited_thread else Ready) (s\<lparr>push := push s - 1\<rparr>))
      | Ready \<Rightarrow>
          (case info s of
             None \<Rightarrow> None
           | Some (user, hash, pwd) \<Rightarrow>
               (case prepare u threadcount i pwd of
                  Inl _ \<Rightarrow> None
                | Inr (w, amount) \<Rightarrow> Some (go i (Check w amount 0) s)))
      | Check w left hashcount \<Rightarrow>
          Some (go i (if left = 0 \<or> found s then Finish hashcount else Hash w left (int32 (hashcount + 1))) s)
      | Hash w left hashcount \<Rightarrow>
          (case info s of
             None \<Rightarrow> None
           | Some (user, hash, pwd) \<Rightarrow>
               if crypt_r u w = hash then Some (go i (Report w hashcount) s)
               else (case increment u w of
                  None \<Rightarrow> None
                | Some v \<Rightarrow> Some (go i (Check v (left - 1) hashcount) s)))
      | Report w hashcount \<Rightarrow> Some (go i (Finish hashcount) (s\<lparr>found := True, passwordfound := Some w\<rparr>))
      | Finish hashcount \<Rightarrow> Some (finish_turn threadcount i hashcount s)
      | At_barrier \<Rightarrow> if finishthread s < threadcount then None else Some (leave_barrier i s)
      | Exited_thread \<Rightarrow> None)"

text \<open>\<open>start\<close>: reading a line, printing the summary, and joining the threads.\<close>

definition main2 :: "nat \<Rightarrow> crack2 \<Rightarrow> crack2 option" where
  "main2 thread_count s =
     (case main_pc s of
        Reading \<Rightarrow>
          (case lines_left s of
             [] \<Rightarrow> Some (s\<lparr>push := thread_count, eof := True, main_pc := Joining\<rparr>)
           | l # ls \<Rightarrow>
               (case parse_job l of
                  Inl _ \<Rightarrow> None
                | Inr job \<Rightarrow> Some (s\<lparr>lines_left := ls, info := Some job, finishthread := 0, push := thread_count,
                    found := False, totalcount := 0, threadexit := 0, main_pc := Awaiting l\<rparr>)))
      | Awaiting l \<Rightarrow>
          if threadexit s < thread_count then None
          else Some (s\<lparr>printed := printed s @ [(l, passwordfound s, 1 - (if found s then 1 else 0))],
                 passwordfound := None, info := None, main_pc := Reading\<rparr>)
      | Joining \<Rightarrow>
          if list_all (\<lambda>i. tpcs s i = Exited_thread) [0 ..< thread_count] then Some (s\<lparr>main_pc := Done\<rparr>) else None
      | Done \<Rightarrow> None)"

definition step2 :: "utils \<Rightarrow> nat \<Rightarrow> crack2 \<Rightarrow> crack2 \<Rightarrow> bool" where
  "step2 u thread_count s t \<longleftrightarrow> main2 thread_count s = Some t \<or> (\<exists>i < thread_count. worker2 u thread_count i s = Some t)"

section \<open>The numbering of the passwords\<close>

lemma concat_map_nth:
  assumes "\<And>x. x \<in> set xs \<Longrightarrow> length (f x) = m" and "q < length xs" and "r < m"
  shows "concat (map f xs) ! (q * m + r) = f (xs ! q) ! r"
  using assms
proof (induction xs arbitrary: q)
  case (Cons x xs)
  show ?case
  proof (cases q)
    case 0
    then show ?thesis using Cons.prems by (simp add: nth_append)
  next
    case (Suc p)
    then show ?thesis using Cons.IH [of p] Cons.prems by (simp add: nth_append)
  qed
qed simp

lemma strings_nth:
  "k < 26 ^ Suc n \<Longrightarrow> strings (Suc n) ! k = letters ! (k div 26 ^ n) # strings n ! (k mod 26 ^ n)"
proof -
  assume "k < 26 ^ Suc n"
  then have q: "k div 26 ^ n < 26" by (simp add: less_mult_imp_div_less)
  have "concat (map (\<lambda>c. map ((#) c) (strings n)) letters) ! (k div 26 ^ n * 26 ^ n + k mod 26 ^ n)
      = map ((#) (letters ! (k div 26 ^ n))) (strings n) ! (k mod 26 ^ n)"
    using q by (intro concat_map_nth) (simp_all add: length_strings letters_def)
  then show ?thesis unfolding div_mult_mod_eq by (simp add: length_strings)
qed

lemma letters_char: "i < 26 \<Longrightarrow> char_of (97 + i) = letters ! i"
proof -
  have "list_all (\<lambda>i. char_of (97 + i :: nat) = letters ! i) [0 ..< 26]" by code_simp
  then show "i < 26 \<Longrightarrow> char_of (97 + i) = letters ! i" by (simp add: list_all_iff)
qed

text \<open>The first password of a thread is the one with the number that its subrange starts with.\<close>

lemma start_loop_nth:
  "k < 26 ^ n \<Longrightarrow> i + n = length pwd \<Longrightarrow> start_loop i n pwd k = Inr (take i pwd @ strings n ! k)"
proof (induction n arbitrary: i pwd k)
  case (Suc n)
  have q: "k div 26 ^ n < 26" using Suc.prems(1) by (simp add: less_mult_imp_div_less)
  have "k mod 26 ^ n < 26 ^ n" by simp
  moreover have "take (i + 1) (pwd[i := c]) = take i pwd @ [c]" for c
    using Suc.prems(2) by (simp add: take_Suc_conv_app_nth)
  ultimately show ?case
    using Suc.IH [of "k mod 26 ^ n" "i + 1" "pwd[i := letters ! (k div 26 ^ n)]"] Suc.prems q
    by (simp add: Let_def letters_char strings_nth del: strings.simps)
qed simp

section \<open>What the helpers promise\<close>

text \<open>The subranges are within the passwords and cover them.\<close>

definition covers :: "utils \<Rightarrow> nat \<Rightarrow> bool" where
  "covers u n \<longleftrightarrow> (\<forall>m. (\<forall>i < n. fst (subrange u m n (i + 1)) + snd (subrange u m n (i + 1)) \<le> 26 ^ m)
     \<and> (\<forall>k < 26 ^ m. \<exists>i < n. fst (subrange u m n (i + 1)) \<le> k
           \<and> k < fst (subrange u m n (i + 1)) + snd (subrange u m n (i + 1))))"

text \<open>The next password in the order of the dictionary.\<close>

definition increments :: "utils \<Rightarrow> bool" where
  "increments u \<longleftrightarrow> (\<forall>pre m k. k + 1 < 26 ^ m \<longrightarrow> increment u (pre @ strings m ! k) = Some (pre @ strings m ! (k + 1)))"

section \<open>One round\<close>

text \<open>The password with the number \<open>k\<close>; the first \<open>m\<close> passwords of thread \<open>i\<close> do not match.\<close>

definition cand :: "utils \<Rightarrow> string \<Rightarrow> nat \<Rightarrow> string" where
  "cand u pwd k = take (prefix_length u pwd) pwd @ strings (length pwd - prefix_length u pwd) ! k"

definition range_of :: "utils \<Rightarrow> nat \<Rightarrow> string \<Rightarrow> nat \<Rightarrow> nat \<times> nat" where
  "range_of u n pwd i = subrange u (length pwd - prefix_length u pwd) n (i + 1)"

definition clear :: "utils \<Rightarrow> nat \<Rightarrow> string \<times> string \<Rightarrow> nat \<Rightarrow> nat \<Rightarrow> bool" where
  "clear u n job i m \<longleftrightarrow> (case job of (hash, pwd) \<Rightarrow>
     \<forall>j < m. crypt_r u (cand u pwd (fst (range_of u n pwd i) + j)) \<noteq> hash)"

definition all_clear :: "utils \<Rightarrow> nat \<Rightarrow> string \<times> string \<Rightarrow> nat \<Rightarrow> bool" where
  "all_clear u n job i \<longleftrightarrow> clear u n job i (snd (range_of u n (snd job) i))"

text \<open>The password \<open>w\<close> is the next one of thread \<open>i\<close>, which has \<open>left\<close> passwords left.\<close>

definition at_password :: "utils \<Rightarrow> nat \<Rightarrow> string \<times> string \<Rightarrow> nat \<Rightarrow> string \<Rightarrow> nat \<Rightarrow> bool" where
  "at_password u n job i w left \<longleftrightarrow> (case range_of u n (snd job) i of (start, amount) \<Rightarrow>
     left \<le> amount \<and> (0 < left \<longrightarrow> w = cand u (snd job) (start + (amount - left)))
     \<and> clear u n job i (amount - left))"

fun thread_ok :: "utils \<Rightarrow> nat \<Rightarrow> string \<times> string \<Rightarrow> crack2 \<Rightarrow> nat \<Rightarrow> tpc \<Rightarrow> bool" where
  "thread_ok u n job s i Wait_push = (push s = 0 \<longrightarrow> \<not> found s \<longrightarrow> all_clear u n job i)"
| "thread_ok u n job s i Ready = True"
| "thread_ok u n job s i (Check w left k) = at_password u n job i w left"
| "thread_ok u n job s i (Hash w left k) = (0 < left \<and> at_password u n job i w left)"
| "thread_ok u n job s i (Report w k) = (crypt_r u w = fst job \<and> w \<in> set (candidates (prefix_length u (snd job)) (snd job)))"
| "thread_ok u n job s i (Finish k) = (\<not> found s \<longrightarrow> all_clear u n job i)"
| "thread_ok u n job s i At_barrier = (\<not> found s \<longrightarrow> all_clear u n job i)"
| "thread_ok u n job s i Exited_thread = False"

definition one :: "bool \<Rightarrow> nat" where "one b = (if b then 1 else 0)"

definition waiting :: "nat \<Rightarrow> (nat \<Rightarrow> tpc) \<Rightarrow> nat" where
  "waiting n f = (\<Sum>i < n. one (f i = Wait_push))"

definition at_barrier :: "nat \<Rightarrow> (nat \<Rightarrow> tpc) \<Rightarrow> nat" where
  "at_barrier n f = (\<Sum>i < n. one (f i = At_barrier))"

lemma waiting_upd: "i < n \<Longrightarrow> waiting n (f(i := x)) + one (f i = Wait_push) = waiting n f + one (x = Wait_push)"
  unfolding waiting_def by (rule sum_upd)

lemma at_barrier_upd: "i < n \<Longrightarrow> at_barrier n (f(i := x)) + one (f i = At_barrier) = at_barrier n f + one (x = At_barrier)"
  unfolding at_barrier_def by (rule sum_upd)

text \<open>When every thread waits for a token or is at the barrier, no other thread is left.\<close>

lemma waiting_barrier_less:
  assumes "i < n" and "f i \<noteq> Wait_push" and "f i \<noteq> At_barrier"
  shows "waiting n f + at_barrier n f < n"
proof -
  have "waiting n f + at_barrier n f = (\<Sum>j < n. one (f j = Wait_push) + one (f j = At_barrier))"
    by (simp add: waiting_def at_barrier_def sum.distrib)
  also have "\<dots> < (\<Sum>j < n. 1)"
    by (rule sum_strict_mono_ex1) (use assms in \<open>auto simp: one_def intro!: bexI [of _ i]\<close>)
  finally show ?thesis by simp
qed

lemma waiting_all: "waiting n f = n \<Longrightarrow> i < n \<Longrightarrow> f i = Wait_push"
proof (rule ccontr)
  assume all: "waiting n f = n" and i: "i < n" "f i \<noteq> Wait_push"
  have "waiting n f < (\<Sum>j < n. 1)"
    unfolding waiting_def by (rule sum_strict_mono_ex1) (use i in \<open>auto simp: one_def intro!: bexI [of _ i]\<close>)
  with all show False by simp
qed

section \<open>The invariant\<close>

definition right_answer :: "utils \<Rightarrow> string \<times> string option \<times> int \<Rightarrow> bool" where
  "right_answer u x \<longleftrightarrow> (case x of (line, answer, failed) \<Rightarrow>
     (case parse_job line of
        Inl _ \<Rightarrow> False
      | Inr (user, hash, pwd) \<Rightarrow>
          let ws = candidates (prefix_length u pwd) pwd
          in case answer of
               Some w \<Rightarrow> failed = 0 \<and> w \<in> set ws \<and> crypt_r u w = hash
             | None \<Rightarrow> failed = 1 \<and> (\<forall>w \<in> set ws. crypt_r u w \<noteq> hash)))"

definition round_job :: "utils \<Rightarrow> nat \<Rightarrow> string \<times> string \<Rightarrow> crack2 \<Rightarrow> bool" where
  "round_job u n job s \<longleftrightarrow> \<not> eof s
     \<and> waiting n (tpcs s) = push s + threadexit s
     \<and> finishthread s = at_barrier n (tpcs s) + threadexit s
     \<and> (0 < threadexit s \<longrightarrow> finishthread s = n)
     \<and> (\<forall>i < n. thread_ok u n job s i (tpcs s i))
     \<and> found s = (passwordfound s \<noteq> None)
     \<and> (\<forall>w. passwordfound s = Some w \<longrightarrow>
          crypt_r u w = fst job \<and> w \<in> set (candidates (prefix_length u (snd job)) (snd job)))"

definition round_ok :: "utils \<Rightarrow> nat \<Rightarrow> string \<Rightarrow> crack2 \<Rightarrow> bool" where
  "round_ok u n l s \<longleftrightarrow> (\<exists>user hash pwd. parse_job l = Inr (user, hash, pwd) \<and> info s = Some (user, hash, pwd)
     \<and> round_job u n (hash, pwd) s)"

definition inv2 :: "utils \<Rightarrow> nat \<Rightarrow> string list \<Rightarrow> crack2 \<Rightarrow> bool" where
  "inv2 u n lines s \<longleftrightarrow>
     lines = map fst (printed s) @ (case main_pc s of Awaiting l \<Rightarrow> [l] | _ \<Rightarrow> []) @ lines_left s
     \<and> list_all (right_answer u) (printed s)
     \<and> (case main_pc s of
          Reading \<Rightarrow> waiting n (tpcs s) = n \<and> push s = 0 \<and> \<not> eof s \<and> passwordfound s = None
        | Awaiting l \<Rightarrow> round_ok u n l s
        | _ \<Rightarrow> eof s \<and> (\<forall>i < n. tpcs s i = Wait_push \<or> tpcs s i = Exited_thread) \<and> waiting n (tpcs s) = push s
            \<and> lines_left s = [])"

lemma candidates_cand:
  "set (candidates (prefix_length u pwd) pwd) = {cand u pwd k | k. k < 26 ^ (length pwd - prefix_length u pwd)}"
proof -
  have "set (strings m) = {strings m ! k | k. k < 26 ^ m}" for m
    by (auto simp: set_conv_nth length_strings)
  then show ?thesis unfolding candidates_def set_map cand_def by auto
qed

lemma clear_Suc:
  "clear u n (hash, pwd) i (Suc m) \<longleftrightarrow> clear u n (hash, pwd) i m
     \<and> crypt_r u (cand u pwd (fst (range_of u n pwd i) + m)) \<noteq> hash"
  by (auto simp: clear_def less_Suc_eq)

lemma prepare_at:
  assumes "covers u n" and "i < n" and "prepare u n i pwd = Inr (w, amount)"
  shows "at_password u n (hash, pwd) i w amount"
proof -
  obtain start where r: "range_of u n pwd i = (start, amount)"
    and len: "prefix_length u pwd \<le> length pwd"
    and loop: "start_loop (prefix_length u pwd) (length pwd - prefix_length u pwd) pwd start = Inr w"
    using assms(3) by (auto simp: prepare_def range_of_def Let_def res_conv split: prod.splits)
  have "start + amount \<le> 26 ^ (length pwd - prefix_length u pwd)"
    using assms(1,2) r unfolding covers_def range_of_def by (metis fst_conv snd_conv)
  then have "w = cand u pwd start" if "0 < amount"
    using start_loop_nth [of start "length pwd - prefix_length u pwd" "prefix_length u pwd" pwd] that len loop
    by (simp add: cand_def)
  then show ?thesis using r by (simp add: at_password_def clear_def)
qed

lemma at_password_in:
  assumes "covers u n" and "i < n" and "at_password u n (hash, pwd) i w left" and "0 < left"
  shows "w \<in> set (candidates (prefix_length u pwd) pwd)"
proof -
  obtain start amount where r: "range_of u n pwd i = (start, amount)" by (cases "range_of u n pwd i")
  have "start + amount \<le> 26 ^ (length pwd - prefix_length u pwd)"
    using assms(1,2) r unfolding covers_def range_of_def by (metis fst_conv snd_conv)
  then show ?thesis
    using assms(3,4) r unfolding candidates_cand
    by (auto simp: at_password_def intro!: exI [of _ "start + (amount - left)"])
qed

lemma at_password_next:
  assumes "covers u n" and "increments u" and "i < n" and "at_password u n (hash, pwd) i w left" and "0 < left"
    and "crypt_r u w \<noteq> hash" and "increment u w = Some v"
  shows "at_password u n (hash, pwd) i v (left - 1)"
proof -
  obtain start amount where r: "range_of u n pwd i = (start, amount)" by (cases "range_of u n pwd i")
  let ?k = "start + (amount - left)"
  have le: "left \<le> amount" and w: "w = cand u pwd ?k" and clear: "clear u n (hash, pwd) i (amount - left)"
    using assms(4,5) r by (auto simp: at_password_def)
  have "start + amount \<le> 26 ^ (length pwd - prefix_length u pwd)"
    using assms(1,3) r unfolding covers_def range_of_def by (metis fst_conv snd_conv)
  then have "increment u w = Some (cand u pwd (?k + 1))" if "1 < left"
    using assms(2) that le unfolding w cand_def increments_def by auto
  moreover have "amount - (left - 1) = Suc (amount - left)" using le assms(5) by simp
  ultimately show ?thesis
    using r le clear assms(5-7) w by (auto simp: at_password_def clear_Suc)
qed

lemma at_password_done: "at_password u n job i w 0 \<Longrightarrow> all_clear u n job i"
  by (auto simp: at_password_def all_clear_def split: prod.splits)

lemma thread_ok_more:
  "thread_ok u n job s i p \<Longrightarrow> push t = push s \<Longrightarrow> found s \<longrightarrow> found t \<Longrightarrow> thread_ok u n job t i p"
  by (cases p) auto

lemma go_simps [simp]:
  "push (go i p s) = push s" "threadexit (go i p s) = threadexit s" "finishthread (go i p s) = finishthread s"
  "found (go i p s) = found s" "passwordfound (go i p s) = passwordfound s" "eof (go i p s) = eof s"
  "info (go i p s) = info s" "main_pc (go i p s) = main_pc s" "printed (go i p s) = printed s"
  "lines_left (go i p s) = lines_left s" "tpcs (go i p s) = (tpcs s)(i := p)"
  by (simp_all add: go_def)

text \<open>A thread goes from one of its own steps to another.\<close>

lemma round_go:
  assumes "round_job u n job s" and "i < n" and "tpcs s i \<notin> {Wait_push, At_barrier}" and "p \<notin> {Wait_push, At_barrier}"
    and "thread_ok u n job s i p"
  shows "round_job u n job (go i p s)"
proof -
  have "waiting n ((tpcs s)(i := p)) = waiting n (tpcs s)" "at_barrier n ((tpcs s)(i := p)) = at_barrier n (tpcs s)"
    using waiting_upd [OF assms(2), of "tpcs s" p] at_barrier_upd [OF assms(2), of "tpcs s" p] assms(3,4)
    by (auto simp: one_def)
  moreover have "thread_ok u n job (go i p s) j (((tpcs s)(i := p)) j)" if "j < n" for j
    using assms(1,5) that thread_ok_more [of u n job s _ _ "go i p s"] by (cases "j = i") (auto simp: round_job_def)
  ultimately show ?thesis
    using assms(1) by (auto simp: round_job_def simp del: fun_upd_apply)
qed

lemma round_token:
  assumes "round_job u n job s" and "i < n" and "tpcs s i = Wait_push" and "push s \<noteq> 0"
  shows "round_job u n job (go i Ready (s\<lparr>push := push s - 1\<rparr>))"
proof -
  let ?f = "(tpcs s)(i := Ready)"
  have w: "waiting n ?f + 1 = waiting n (tpcs s)"
    using waiting_upd [OF assms(2), of "tpcs s" Ready] assms(3) by (simp add: one_def)
  have b: "at_barrier n ?f = at_barrier n (tpcs s)"
    using at_barrier_upd [OF assms(2), of "tpcs s" Ready] assms(3) by (simp add: one_def)
  have "waiting n ?f + at_barrier n ?f < n"
    using waiting_barrier_less [OF assms(2), of ?f] by simp
  then have none: "threadexit s = 0" using w b assms(1,4) by (auto simp: round_job_def)
  have "thread_ok u n job (go i Ready (s\<lparr>push := push s - 1\<rparr>)) j (?f j)" if "j < n" for j
  proof (cases "j = i \<or> tpcs s j \<noteq> Wait_push \<or> push s \<noteq> 1")
    case True
    then show ?thesis using assms(1,4) that by (cases "tpcs s j") (auto simp: round_job_def)
  next
    case False
    then have "waiting n ?f = 0" using assms(1) none w by (simp add: round_job_def)
    moreover have "waiting n (?f(j := Ready)) + 1 = waiting n ?f"
      using waiting_upd [OF that, of ?f Ready] False by (simp add: one_def)
    ultimately show ?thesis by simp
  qed
  then show ?thesis
    using assms(1,4) w b none by (auto simp: round_job_def)
qed

text \<open>A thread that has nothing left to try passes the barrier or waits at it.\<close>

lemma round_finish:
  assumes "round_job u n job s" and "i < n" and "tpcs s i = Finish k"
  shows "round_job u n job (finish_turn n i k s)"
proof -
  have mine: "\<not> found s \<longrightarrow> all_clear u n job i"
    using assms unfolding round_job_def by (metis thread_ok.simps(6))
  have w: "waiting n ((tpcs s)(i := p)) = waiting n (tpcs s) + one (p = Wait_push)"
    and b: "at_barrier n ((tpcs s)(i := p)) = at_barrier n (tpcs s) + one (p = At_barrier)" for p
    using waiting_upd [OF assms(2), of "tpcs s" p] at_barrier_upd [OF assms(2), of "tpcs s" p] assms(3)
    by (auto simp: one_def)
  have less: "waiting n (tpcs s) + at_barrier n (tpcs s) < n"
    using waiting_barrier_less [OF assms(2), of "tpcs s"] assms(3) by simp
  then have none: "threadexit s = 0" using assms(1) by (auto simp: round_job_def)
  have others: "thread_ok u n job t j (((tpcs s)(i := p)) j)"
    if "j < n" "push t = push s" "found t = found s" "p = At_barrier \<or> p = Wait_push" for j t p
    using assms(1) mine that thread_ok_more [of u n job s j "tpcs s j" t]
    by (cases "j = i") (auto simp: round_job_def)
  show ?thesis
  proof (cases "finishthread s + 1 < n")
    case True
    then show ?thesis
      using assms(1) w [of At_barrier] b [of At_barrier] others [of _ _ At_barrier] none
      by (auto simp: finish_turn_def Let_def round_job_def one_def simp del: fun_upd_apply)
  next
    case False
    then show ?thesis
      using assms(1) w [of Wait_push] b [of Wait_push] others [of _ _ Wait_push] none less
      by (auto simp: finish_turn_def leave_barrier_def Let_def round_job_def one_def simp del: fun_upd_apply)
  qed
qed

lemma round_leave:
  assumes "round_job u n job s" and "i < n" and "tpcs s i = At_barrier" and "\<not> finishthread s < n"
  shows "round_job u n job (leave_barrier i s)"
proof -
  have mine: "\<not> found s \<longrightarrow> all_clear u n job i"
    using assms(1-3) unfolding round_job_def by (metis thread_ok.simps(7))
  have w: "waiting n ((tpcs s)(i := Wait_push)) = waiting n (tpcs s) + 1"
    and b: "at_barrier n ((tpcs s)(i := Wait_push)) + 1 = at_barrier n (tpcs s)"
    using waiting_upd [OF assms(2), of "tpcs s" Wait_push] at_barrier_upd [OF assms(2), of "tpcs s" Wait_push] assms(3)
    by (auto simp: one_def)
  have le: "waiting n (tpcs s) + at_barrier n (tpcs s) \<le> n"
    unfolding waiting_def at_barrier_def sum.distrib [symmetric]
    using sum_bounded_above [of "{..<n}" "\<lambda>j. one (tpcs s j = Wait_push) + one (tpcs s j = At_barrier)" 1]
    by (auto simp: one_def)
  have others: "thread_ok u n job t j (((tpcs s)(i := Wait_push)) j)"
    if "j < n" "push t = push s" "found t = found s" for j t
    using assms(1) mine that thread_ok_more [of u n job s j "tpcs s j" t]
    by (cases "j = i") (auto simp: round_job_def)
  show ?thesis
    using assms(1,4) w b le others
    by (auto simp: leave_barrier_def round_job_def simp del: fun_upd_apply)
qed

lemma worker_round:
  assumes "covers u n" and "increments u" and "i < n" and "worker2 u n i s = Some t"
    and "info s = Some (user, hash, pwd)" and "round_job u n (hash, pwd) s"
  shows "round_job u n (hash, pwd) t"
proof (cases "tpcs s i")
  case Wait_push
  then show ?thesis
    using round_token [OF assms(6,3)] assms(4,6) by (auto simp: worker2_def round_job_def split: if_splits)
next
  case Ready
  then obtain w amount where "prepare u n i pwd = Inr (w, amount)" "t = go i (Check w amount 0) s"
    using assms(4,5) by (auto simp: worker2_def split: sum.splits)
  then show ?thesis
    using Ready round_go [OF assms(6,3)] prepare_at [OF assms(1,3)] by simp
next
  case (Check w left k)
  then have ok: "at_password u n (hash, pwd) i w left" using assms(3,6) by (auto simp: round_job_def)
  have "t = go i (if left = 0 \<or> found s then Finish k else Hash w left (int32 (k + 1))) s"
    using assms(4) Check by (simp add: worker2_def)
  then show ?thesis
    using Check ok round_go [OF assms(6,3)] at_password_done by auto
next
  case (Hash w left k)
  then have ok: "at_password u n (hash, pwd) i w left" "0 < left" using assms(3,6) by (auto simp: round_job_def)
  show ?thesis
  proof (cases "crypt_r u w = hash")
    case True
    then have "t = go i (Report w k) s" using assms(4,5) Hash by (simp add: worker2_def)
    then show ?thesis
      using Hash True round_go [OF assms(6,3)] at_password_in [OF assms(1,3) ok] by simp
  next
    case False
    then obtain v where "increment u w = Some v" "t = go i (Check v (left - 1) k) s"
      using assms(4,5) Hash by (auto simp: worker2_def split: option.splits)
    then show ?thesis
      using Hash round_go [OF assms(6,3)] at_password_next [OF assms(1-3) ok False] by simp
  qed
next
  case (Report w k)
  then have ok: "crypt_r u w = hash" "w \<in> set (candidates (prefix_length u pwd) pwd)"
    using assms(3,6) by (auto simp: round_job_def)
  let ?s = "s\<lparr>found := True, passwordfound := Some w\<rparr>"
  have "t = go i (Finish k) ?s" using assms(4) Report by (simp add: worker2_def)
  moreover have "round_job u n (hash, pwd) ?s"
    using assms(6) ok thread_ok_more [of u n "(hash, pwd)" s _ _ ?s] by (auto simp: round_job_def)
  ultimately show ?thesis
    using Report round_go [of u n "(hash, pwd)" ?s i "Finish k"] assms(3) by simp
next
  case (Finish k)
  then show ?thesis using assms(4) round_finish [OF assms(6,3)] by (simp add: worker2_def)
next
  case At_barrier
  then show ?thesis using assms(4) round_leave [OF assms(6,3)] by (auto simp: worker2_def split: if_splits)
next
  case Exited_thread
  then show ?thesis using assms(4) by (simp add: worker2_def)
qed

lemma worker2_frame:
  "worker2 u n i s = Some t \<Longrightarrow> main_pc t = main_pc s \<and> lines_left t = lines_left s \<and> printed t = printed s
     \<and> info t = info s \<and> eof t = eof s"
  by (auto simp: worker2_def finish_turn_def leave_barrier_def Let_def go_def
      split: tpc.splits option.splits sum.splits if_splits prod.splits)

lemma worker2_inv:
  assumes "covers u n" and "increments u" and "inv2 u n lines s" and "i < n" and "worker2 u n i s = Some t"
  shows "inv2 u n lines t"
proof (cases "main_pc s")
  case Reading
  then have "waiting n (tpcs s) = n" "push s = 0" using assms(3) by (auto simp: inv2_def)
  moreover have "tpcs s i = Wait_push" using waiting_all [OF calculation(1) assms(4)] .
  ultimately have "worker2 u n i s = None" by (simp add: worker2_def)
  then show ?thesis using assms(5) by simp
next
  case (Awaiting l)
  then obtain user hash pwd where "parse_job l = Inr (user, hash, pwd)" "info s = Some (user, hash, pwd)"
    "round_job u n (hash, pwd) s"
    using assms(3) by (auto simp: inv2_def round_ok_def)
  then have "round_ok u n l t"
    using worker_round [OF assms(1,2,4,5)] worker2_frame [OF assms(5)] by (auto simp: round_ok_def)
  then show ?thesis
    using assms(3) worker2_frame [OF assms(5)] Awaiting by (auto simp: inv2_def)
next
  case Joining
  then have s: "eof s" "tpcs s i = Wait_push \<or> tpcs s i = Exited_thread" using assms(3,4) by (auto simp: inv2_def)
  then have "tpcs s i = Wait_push" "push s \<noteq> 0" "t = go i Exited_thread (s\<lparr>push := push s - 1\<rparr>)"
    using assms(5) by (auto simp: worker2_def split: if_splits)
  then show ?thesis
    using assms(3) s(1) Joining waiting_upd [OF assms(4), of "tpcs s" Exited_thread]
    by (auto simp: inv2_def one_def)
next
  case Done
  then have s: "eof s" "tpcs s i = Wait_push \<or> tpcs s i = Exited_thread" using assms(3,4) by (auto simp: inv2_def)
  then have "tpcs s i = Wait_push" "push s \<noteq> 0" "t = go i Exited_thread (s\<lparr>push := push s - 1\<rparr>)"
    using assms(5) by (auto simp: worker2_def split: if_splits)
  then show ?thesis
    using assms(3) s(1) Done waiting_upd [OF assms(4), of "tpcs s" Exited_thread]
    by (auto simp: inv2_def one_def)
qed

text \<open>The end of a round: all threads have gone back to waiting and what they tried covers everything.\<close>

lemma round_answer:
  assumes "covers u n" and "round_ok u n l s" and "\<not> threadexit s < n" and "0 < n"
  shows "right_answer u (l, passwordfound s, 1 - (if found s then 1 else 0)) \<and> waiting n (tpcs s) = n \<and> push s = 0"
proof -
  obtain user hash pwd where r: "parse_job l = Inr (user, hash, pwd)" "round_job u n (hash, pwd) s"
    using assms(2) by (auto simp: round_ok_def)
  have "waiting n (tpcs s) \<le> n"
    unfolding waiting_def using sum_bounded_above [of "{..<n}" "\<lambda>j. one (tpcs s j = Wait_push)" 1] by (auto simp: one_def)
  then have w: "waiting n (tpcs s) = n" "push s = 0" using r(2) assms(3) by (auto simp: round_job_def)
  have "crypt_r u v \<noteq> hash" if nf: "\<not> found s" and mem: "v \<in> set (candidates (prefix_length u pwd) pwd)" for v
  proof -
    obtain k where v: "v = cand u pwd k" "k < 26 ^ (length pwd - prefix_length u pwd)"
      using mem unfolding candidates_cand by auto
    then obtain i where i: "i < n" "fst (range_of u n pwd i) \<le> k"
      "k < fst (range_of u n pwd i) + snd (range_of u n pwd i)"
      using assms(1) unfolding covers_def range_of_def by blast
    have "thread_ok u n (hash, pwd) s i Wait_push"
      using r(2) i(1) waiting_all [OF w(1) i(1)] by (metis round_job_def)
    then have "all_clear u n (hash, pwd) i" using w(2) nf by simp
    moreover have "k - fst (range_of u n pwd i) < snd (range_of u n pwd i)" using i by simp
    ultimately have "crypt_r u (cand u pwd (fst (range_of u n pwd i) + (k - fst (range_of u n pwd i)))) \<noteq> hash"
      unfolding all_clear_def clear_def by simp
    then show ?thesis using v(1) i(2) by simp
  qed
  then show ?thesis
    using r w by (auto simp: right_answer_def Let_def round_job_def split: option.split)
qed

lemma main2_inv:
  assumes "covers u n" and "0 < n" and "inv2 u n lines s" and "main2 n s = Some t"
  shows "inv2 u n lines t"
proof (cases "main_pc s")
  case Reading
  then have s: "waiting n (tpcs s) = n" "push s = 0" "\<not> eof s" "passwordfound s = None"
    using assms(3) by (auto simp: inv2_def)
  show ?thesis
  proof (cases "lines_left s")
    case Nil
    then have "t = s\<lparr>push := n, eof := True, main_pc := Joining\<rparr>" using assms(4) Reading by (simp add: main2_def)
    then show ?thesis using assms(3) s Nil Reading waiting_all [OF s(1)] by (auto simp: inv2_def)
  next
    case (Cons l ls)
    then obtain user hash pwd where p: "parse_job l = Inr (user, hash, pwd)"
      and t: "t = s\<lparr>lines_left := ls, info := Some (user, hash, pwd), finishthread := 0, push := n, found := False,
        totalcount := 0, threadexit := 0, main_pc := Awaiting l\<rparr>"
      using assms(4) Reading by (auto simp: main2_def split: sum.splits)
    have "at_barrier n (tpcs s) = 0"
      using waiting_all [OF s(1)] by (auto simp: at_barrier_def one_def)
    moreover have "thread_ok u n (hash, pwd) t i (tpcs s i)" if "i < n" for i
      using waiting_all [OF s(1) that] assms(2) by (simp add: t)
    ultimately have "round_job u n (hash, pwd) t" using s by (auto simp: round_job_def t)
    then show ?thesis using assms(3) Cons Reading p by (auto simp: inv2_def round_ok_def t)
  qed
next
  case (Awaiting l)
  then have r: "round_ok u n l s" "\<not> threadexit s < n"
    and t: "t = s\<lparr>printed := printed s @ [(l, passwordfound s, 1 - (if found s then 1 else 0))],
      passwordfound := None, info := None, main_pc := Reading\<rparr>"
    using assms(3,4) by (auto simp: inv2_def main2_def split: if_splits)
  show ?thesis
    using assms(3) round_answer [OF assms(1) r assms(2)] r(1) Awaiting
    by (auto simp: inv2_def t round_ok_def round_job_def)
next
  case Joining
  then show ?thesis using assms(3,4) by (auto simp: inv2_def main2_def split: if_splits)
next
  case Done
  then show ?thesis using assms(4) by (simp add: main2_def)
qed

definition crack2_init :: "utils \<Rightarrow> nat \<Rightarrow> string list \<Rightarrow> crack2 \<Rightarrow> bool" where
  "crack2_init u n lines s \<longleftrightarrow> s = init2 lines \<and> covers u n \<and> increments u \<and> 0 < n"

definition crack2_inv :: "utils \<Rightarrow> nat \<Rightarrow> string list \<Rightarrow> crack2 \<Rightarrow> bool" where
  "crack2_inv u n lines s \<longleftrightarrow> inv2 u n lines s \<and> covers u n \<and> increments u \<and> 0 < n"

interpretation crack2: transition_system "crack2_init u n lines" "step2 u n" "crack2_inv u n lines" for u n lines
proof unfold_locales
  fix s assume "crack2_init u n lines s"
  then show "crack2_inv u n lines s" by (auto simp: crack2_init_def crack2_inv_def inv2_def init2_def waiting_def one_def)
next
  fix s t assume i: "crack2_inv u n lines s" and "step2 u n s t"
  then consider "main2 n s = Some t" | i where "i < n" "worker2 u n i s = Some t" unfolding step2_def by blast
  then show "crack2_inv u n lines t"
    using i main2_inv [of u n lines s t] worker2_inv [of u n lines s] unfolding crack2_inv_def by cases blast+
qed

text \<open>C31: however the threads interleave, the summaries are printed in the order of the lines, and
  each has a password with the right hash, or says that there is none when no password matches.\<close>

theorem crack2_answers:
  assumes "reachable (\<lambda>s. s = init2 lines) (step2 u n) s" and "covers u n" and "increments u" and "0 < n"
  shows "list_all (right_answer u) (printed s) \<and> (\<exists>rest. lines = map fst (printed s) @ rest)"
proof -
  from assms(1) have "reachable (crack2_init u n lines) (step2 u n) s"
    by (rule reachable_weaken) (simp add: crack2_init_def assms(2-4))
  from crack2.reachable_inv [OF this] show ?thesis by (auto simp: crack2_inv_def inv2_def)
qed

section \<open>A sample run\<close>

text \<open>An instance of the helpers for one thread: the successor of a string in the dictionary.\<close>

primrec successor :: "string \<Rightarrow> string option" where
  "successor [] = None"
| "successor (c # cs) =
     (case successor cs of
        Some ds \<Rightarrow> Some (c # ds)
      | None \<Rightarrow> if c = CHR ''z'' then None
               else Some (char_of (of_char c + 1 :: nat) # replicate (length cs) CHR ''a''))"

lemma successor_append: "successor s = Some t \<Longrightarrow> successor (pre @ s) = Some (pre @ t)"
  by (induction pre) auto

lemma length_strings_nth: "k < 26 ^ m \<Longrightarrow> length (strings m ! k) = m"
  using set_strings [of m] nth_mem [of k "strings m"] by (auto simp: length_strings)

lemma strings_first: "strings m ! 0 = replicate m CHR ''a''"
proof (induction m)
  case (Suc m)
  then show ?case using strings_nth [of 0 m] by (simp add: letters_def del: strings.simps)
qed simp

lemma letters_next:
  "q < 26 \<Longrightarrow> (letters ! q = CHR ''z'') = (q = 25)"
  "q < 25 \<Longrightarrow> char_of (of_char (letters ! q) + 1 :: nat) = letters ! Suc q"
proof -
  have num: "of_char (letters ! q) = 97 + q" if "q < 26" for q
    using that letters_char [of q, symmetric] by simp
  show "(letters ! q = CHR ''z'') = (q = 25)" if "q < 26"
  proof -
    have "(letters ! q = CHR ''z'') = ((of_char (letters ! q) :: nat) = of_char CHR ''z'')"
      by (simp only: of_char_eq_iff)
    then show ?thesis using num [OF that] by simp
  qed
  show "char_of (of_char (letters ! q) + 1 :: nat) = letters ! Suc q" if "q < 25"
    using num [of q] letters_char [of "Suc q"] that by simp
qed

lemma digit_add: "x < m \<Longrightarrow> (q * m + x) div m = q \<and> (q * m + x) mod m = (x :: nat)"
  by simp

lemma successor_strings:
  "k < 26 ^ m \<Longrightarrow> successor (strings m ! k) = (if k + 1 < 26 ^ m then Some (strings m ! (k + 1)) else None)"
proof (induction m arbitrary: k)
  case (Suc m)
  let ?M = "26 ^ m :: nat" and ?q = "k div 26 ^ m" and ?r = "k mod 26 ^ m"
  have k: "k = ?q * ?M + ?r" by (rule div_mult_mod_eq [symmetric])
  have q: "?q < 26" using Suc.prems by (simp add: less_mult_imp_div_less)
  have r: "?r < ?M" by simp
  have s: "strings (Suc m) ! k = letters ! ?q # strings m ! ?r" by (rule strings_nth [OF Suc.prems])
  show ?case
  proof (cases "?r + 1 < ?M")
    case True
    have k1: "k + 1 = ?q * ?M + (?r + 1)" using k by linarith
    have "(k + 1) div ?M = ?q" "(k + 1) mod ?M = ?r + 1"
      using digit_add [OF True, of ?q] unfolding k1 [symmetric] by simp_all
    moreover have "k + 1 < 26 ^ Suc m"
    proof -
      have "k + 1 < (?q + 1) * ?M" using True k1 by simp
      also have "\<dots> \<le> 26 * ?M" using q by (intro mult_right_mono) auto
      finally show ?thesis by simp
    qed
    ultimately show ?thesis
      using Suc.IH [OF r] True s strings_nth [of "k + 1" m] by simp
  next
    case False
    then have last: "?r + 1 = ?M" using r by linarith
    have nxt: "k + 1 = (?q + 1) * ?M" using last k by (simp only: add_mult_distrib)
    have "successor (strings m ! ?r) = None" using Suc.IH [OF r] False by simp
    show ?thesis
    proof (cases "?q = 25")
      case True
      then have "\<not> k + 1 < 26 ^ Suc m" using nxt by simp
      then show ?thesis using True s \<open>successor _ = None\<close> letters_next(1) [OF q] by simp
    next
      case other: False
      then have "k + 1 < 26 ^ Suc m"
        using q nxt mult_strict_right_mono [of "?q + 1" 26 ?M] by simp
      moreover have "(k + 1) div ?M = ?q + 1" "(k + 1) mod ?M = 0" by (simp_all only: nxt) simp_all
      ultimately show ?thesis
        using other q s \<open>successor _ = None\<close> letters_next [of ?q] strings_nth [of "k + 1" m] strings_first [of m]
          length_strings_nth [OF r] by simp
    qed
  qed
qed simp

definition sample_utils :: utils where
  "sample_utils = \<lparr>prefix_length = dots, subrange = (\<lambda>m n i. (0, 26 ^ m)), increment = successor, crypt_r = rev\<rparr>"

lemma sample_utils_ok: "covers sample_utils 1" "increments sample_utils"
  by (auto simp: covers_def increments_def sample_utils_def successor_strings intro!: successor_append)

text \<open>A schedule: \<open>None\<close> is a step of \<open>start\<close>, \<open>Some i\<close> one of thread \<open>i\<close>.\<close>

definition crack2_act :: "utils \<Rightarrow> nat \<Rightarrow> nat option \<Rightarrow> crack2 \<Rightarrow> crack2 option" where
  "crack2_act u n x s = (case x of None \<Rightarrow> main2 n s | Some i \<Rightarrow> if i < n then worker2 u n i s else None)"

lemma crack2_act_step: "crack2_act u n x s = Some t \<Longrightarrow> step2 u n s t"
  by (auto simp: crack2_act_def step2_def split: option.splits if_splits)

lemma sample_run2:
  "map_option printed (run_schedule (crack2_act sample_utils 1) (None # replicate 8 (Some 0) @ [None]) (init2 [''bob ba a.'']))
    = Some [(''bob ba a.'', Some ''ab'', 0)]"
  by code_simp

lemma crack2_answers_witness:
  "list_all (right_answer sample_utils) [(''bob ba a.'', Some ''ab'', 0)]"
proof -
  obtain s where run: "run_schedule (crack2_act sample_utils 1) (None # replicate 8 (Some 0) @ [None]) (init2 [''bob ba a.'']) = Some s"
    and p: "printed s = [(''bob ba a.'', Some ''ab'', 0)]"
    using sample_run2 by (auto simp del: run_schedule.simps)
  have "reachable (\<lambda>s. s = init2 [''bob ba a.'']) (step2 sample_utils 1) s"
    by (rule run_schedule_reachable [OF run]) (auto intro: reach_init crack2_act_step)
  from crack2_answers [OF this sample_utils_ok] show ?thesis by (simp add: p)
qed

end
