(* ===== verification/Lookup.thy ===== *)
theory Lookup
  imports Prelude "HOL-Library.Word" "HOL-Library.Tree"
begin

text \<open>
  The lookups in a binary search tree on the disk, by \<open>fseek\<close> and \<open>fread\<close> (\<open>lookup1.c\<close>) and by
  \<open>mmap\<close> and \<open>strncpy\<close> (\<open>lookup2.c\<close>). A node is the offsets of its children, a count and a price,
  of four bytes each in the byte order of the machine, followed by its word. A price is the bit
  pattern of its \<open>float\<close>. Strings are without their terminating zero.
\<close>

type_synonym byte = "8 word"

datatype message = Usage | Open_fail | Not_found "byte list" | Found "byte list" nat nat

definition u32 :: "byte list \<Rightarrow> nat" where
  "u32 bs = foldr (\<lambda>b n. unat b + 256 * n) bs 0"

fun strcmp :: "byte list \<Rightarrow> byte list \<Rightarrow> int" where
  "strcmp [] [] = 0"
| "strcmp [] (b # bs) = - 1"
| "strcmp (a # as) [] = 1"
| "strcmp (a # as) (b # bs) = (if a = b then strcmp as bs else if a < b then - 1 else 1)"

definition c_string :: "byte list \<Rightarrow> byte list" where
  "c_string = takeWhile (\<lambda>b. b \<noteq> 0)"

definition BTRE :: "byte list" where
  "BTRE = [0x42, 0x54, 0x52, 0x45]"

section \<open>lookup1\<close>

text \<open>A stream is its bytes and a position. A negative offset is an error of \<open>fseek\<close>, which the code
  does not look at: the position stays.\<close>

definition fread :: "byte list \<Rightarrow> nat \<Rightarrow> nat \<Rightarrow> byte list \<times> nat" where
  "fread f pos n = (let bs = take n (drop pos f) in (bs, pos + length bs))"

definition fseek :: "nat \<Rightarrow> int \<Rightarrow> nat" where
  "fseek pos offset = (if offset < 0 then pos else nat offset)"

definition read_u32 :: "byte list \<Rightarrow> nat \<Rightarrow> (nat \<times> nat) res" where
  "read_u32 f pos =
     (case fread f pos 4 of (bs, pos) \<Rightarrow> rbind (guard (\<not> length bs < 4) (Exited 2)) (\<lambda>_. Inr (u32 bs, pos)))"

text \<open>The loop over \<open>fgetc\<close> counts the bytes up to a zero; at the end of the file it goes on for ever.\<close>

primrec fgetc_loop :: "byte list \<Rightarrow> nat res" where
  "fgetc_loop [] = Inl Diverges"
| "fgetc_loop (b # bs) = (if b = 0 then Inr 0 else rbind (fgetc_loop bs) (\<lambda>n. Inr (n + 1)))"

definition read_words :: "byte list \<Rightarrow> nat \<Rightarrow> (byte list \<times> nat) res" where
  "read_words f pos =
     rbind (fgetc_loop (drop pos f)) (\<lambda>len.
       let pos = pos + len + 1; len = len + 1
       in case fread f (pos - len) len of (words, pos) \<Rightarrow>
         rbind (guard (\<not> length words < len) (Exited 2)) (\<lambda>_.
         rbind (guard (words ! (len - 1) = 0) Assert_failed) (\<lambda>_. Inr (c_string words, pos))))"

text \<open>The result is the returned offset, what is left in \<open>count\<close> and \<open>price\<close>, and the position.\<close>

primrec search1 :: "nat \<Rightarrow> byte list \<Rightarrow> byte list \<Rightarrow> int \<Rightarrow> nat \<Rightarrow> (int \<times> nat \<times> nat \<times> nat) res" where
  "search1 0 f word offset pos = Inl Out_of_fuel"
| "search1 (Suc k) f word offset pos =
     rbind (read_u32 f (fseek pos offset)) (\<lambda>(left_child, pos).
     rbind (read_u32 f pos) (\<lambda>(right_child, pos).
     rbind (read_u32 f pos) (\<lambda>(count, pos).
     rbind (read_u32 f pos) (\<lambda>(price, pos).
     rbind (read_words f pos) (\<lambda>(words, pos).
       if strcmp word words = 0 then Inr (offset, count, price, pos)
       else if strcmp word words < 0 then
         (if left_child = 0 then Inr (- 1, count, price, pos) else search1 k f word (int32 (int left_child)) pos)
       else
         (if right_child = 0 then Inr (- 1, count, price, pos) else search1 k f word (int32 (int right_child)) pos))))))"

primrec find_words1 :: "nat \<Rightarrow> byte list \<Rightarrow> nat \<Rightarrow> byte list list \<Rightarrow> message list res" where
  "find_words1 k f pos [] = Inr []"
| "find_words1 k f pos (w # ws) =
     rbind (search1 k f w 4 pos) (\<lambda>(offset, count, price, pos).
     rbind (find_words1 k f pos ws) (\<lambda>ms.
       Inr ((if offset = - 1 then Not_found w else Found w count price) # ms)))"

definition lookup1 :: "nat \<Rightarrow> byte list option \<Rightarrow> byte list list \<Rightarrow> (int \<times> message list) res" where
  "lookup1 k file ws =
     (if ws = [] then Inr (1, [Usage])
      else case file of
        None \<Rightarrow> Inr (1, [Open_fail])
      | Some f \<Rightarrow>
          (case fread f 0 4 of (check, pos) \<Rightarrow>
             rbind (guard (\<not> length check < 4) (Exited 2)) (\<lambda>_.
             rbind (guard (strcmp (c_string check) BTRE = 0) (Exited 2)) (\<lambda>_.
             rbind (find_words1 k f pos ws) (\<lambda>ms. Inr (0, ms))))))"

section \<open>lookup2\<close>

text \<open>The mapping holds whole pages, the last one filled up with zeros; what is before and behind it is
  not mapped. A length of 0 gives no mapping.\<close>

definition mapped :: "nat \<Rightarrow> byte list \<Rightarrow> byte list" where
  "mapped page f = f @ replicate ((page - length f mod page) mod page) 0"

definition at :: "byte list \<Rightarrow> int \<Rightarrow> byte list" where
  "at m offset = (if offset < 0 then [] else drop (nat offset) m)"

primrec strncpy :: "nat \<Rightarrow> byte list \<Rightarrow> byte list res" where
  "strncpy 0 src = Inr []"
| "strncpy (Suc n) src =
     (case src of
        [] \<Rightarrow> Inl Bad_access
      | b # bs \<Rightarrow> if b = 0 then Inr (replicate (Suc n) 0) else rbind (strncpy n bs) (\<lambda>r. Inr (b # r)))"

primrec len_loop :: "byte list \<Rightarrow> nat res" where
  "len_loop [] = Inl Bad_access"
| "len_loop (b # bs) = (if b = 0 then Inr 0 else rbind (len_loop bs) (\<lambda>n. Inr (n + 1)))"

primrec search2 :: "nat \<Rightarrow> byte list \<Rightarrow> byte list \<Rightarrow> int \<Rightarrow> (int \<times> nat \<times> nat) res" where
  "search2 0 m word offset = Inl Out_of_fuel"
| "search2 (Suc k) m word offset =
     rbind (strncpy 4 (at m offset)) (\<lambda>left_child.
     rbind (strncpy 4 (at m (offset + 4))) (\<lambda>right_child.
     rbind (strncpy 4 (at m (offset + 8))) (\<lambda>count.
     rbind (strncpy 4 (at m (offset + 12))) (\<lambda>price.
     rbind (len_loop (at m (offset + 16))) (\<lambda>len.
     rbind (strncpy (len + 1) (at m (offset + 16))) (\<lambda>words.
     rbind (guard (words ! len = 0) Assert_failed) (\<lambda>_.
       if strcmp word (c_string words) = 0 then Inr (offset, u32 count, u32 price)
       else if strcmp word (c_string words) < 0 then
         (if u32 left_child = 0 then Inr (- 1, u32 count, u32 price)
          else search2 k m word (int32 (int (u32 left_child))))
       else
         (if u32 right_child = 0 then Inr (- 1, u32 count, u32 price)
          else search2 k m word (int32 (int (u32 right_child)))))))))))"

primrec find_words2 :: "nat \<Rightarrow> byte list \<Rightarrow> byte list list \<Rightarrow> message list res" where
  "find_words2 k m [] = Inr []"
| "find_words2 k m (w # ws) =
     rbind (search2 k m w 4) (\<lambda>(offset, count, price).
     rbind (find_words2 k m ws) (\<lambda>ms.
       Inr ((if offset = - 1 then Not_found w else Found w count price) # ms)))"

definition lookup2 :: "nat \<Rightarrow> nat \<Rightarrow> byte list option \<Rightarrow> byte list list \<Rightarrow> (int \<times> message list) res" where
  "lookup2 k page file ws =
     (if ws = [] then Inr (1, [Usage])
      else case file of
        None \<Rightarrow> Inr (1, [Open_fail])
      | Some f \<Rightarrow>
          (let m = mapped page f
           in rbind (strncpy 4 (at m 0)) (\<lambda>check.
              rbind (guard (strcmp (c_string check) BTRE = 0) (Exited 2)) (\<lambda>_.
              rbind (find_words2 k m ws) (\<lambda>ms. Inr (0, ms))))))"

section \<open>The dictionary on the disk\<close>

text \<open>\<open>stored f off t\<close>: the file holds the tree \<open>t\<close> of words with the bytes of their counts and prices
  at the offset \<open>off\<close>; the offset 0 is the empty tree.\<close>

primrec stored :: "byte list \<Rightarrow> nat \<Rightarrow> (byte list \<times> byte list \<times> byte list) tree \<Rightarrow> bool" where
  "stored f off Leaf \<longleftrightarrow> off = 0"
| "stored f off (Node l x r) \<longleftrightarrow>
     (case x of (w, c, p) \<Rightarrow> 0 < off \<and> off < 2 ^ 31 \<and> 0 \<notin> set w \<and> length c = 4 \<and> length p = 4
        \<and> take (17 + length w) (drop off f) = take 8 (drop off f) @ c @ p @ w @ [0])
     \<and> stored f (u32 (take 4 (drop off f))) l \<and> stored f (u32 (take 4 (drop (off + 4) f))) r"

definition ordered :: "(byte list \<times> 'b) tree \<Rightarrow> bool" where
  "ordered t \<longleftrightarrow> sorted_wrt (\<lambda>a b. strcmp (fst a) (fst b) < 0) (inorder t)"

fun tree_find :: "byte list \<Rightarrow> (byte list \<times> 'b) tree \<Rightarrow> 'b option" where
  "tree_find w Leaf = None"
| "tree_find w (Node l (v, x) r) =
     (if strcmp w v = 0 then Some x else if strcmp w v < 0 then tree_find w l else tree_find w r)"

lemma strcmp_zero [simp]: "strcmp a b = 0 \<longleftrightarrow> a = b"
  by (induction a b rule: strcmp.induct) auto

lemma strcmp_self [simp]: "strcmp a a = 0"
  by simp

lemma strcmp_flip: "strcmp b a = - strcmp a b"
  by (induction a b rule: strcmp.induct) auto

lemma map_of_absent: "(\<And>x. x \<in> set xs \<Longrightarrow> fst x \<noteq> w) \<Longrightarrow> map_of xs w = None"
  by (auto simp: map_of_eq_None_iff)

lemma tree_find_map_of: "ordered t \<Longrightarrow> tree_find w t = map_of (inorder t) w"
proof (induction w t rule: tree_find.induct)
  case (2 w l v x r)
  have l: "strcmp (fst y) v < 0" if "y \<in> set (inorder l)" for y
    using 2(3) that unfolding ordered_def by (auto simp: sorted_wrt_append)
  have r: "strcmp v (fst y) < 0" if "y \<in> set (inorder r)" for y
    using 2(3) that unfolding ordered_def by (auto simp: sorted_wrt_append)
  have o: "ordered l" "ordered r" using 2(3) unfolding ordered_def by (auto simp: sorted_wrt_append)
  have "map_of (inorder l) w = None" if "0 \<le> strcmp w v"
    using l that by (intro map_of_absent) fastforce
  moreover have "map_of (inorder r) w = None" if "strcmp w v \<le> 0"
    using r that strcmp_flip [of v w] by (intro map_of_absent) fastforce
  ultimately show ?case using 2(1,2) o by (auto simp: map_add_def split: option.split)
qed simp


section \<open>lookup1 finds the words\<close>

lemma split_four: "4 \<le> length xs \<Longrightarrow> \<exists>a b. xs = a @ b \<and> length a = 4"
  by (rule exI [of _ "take 4 xs"], rule exI [of _ "drop 4 xs"]) simp

lemma stored_node:
  assumes "stored f off (Node l (w, c, p) r)"
  obtains lb rb rest where "drop off f = lb @ rb @ c @ p @ w @ 0 # rest"
    "length lb = 4" "length rb = 4" "length c = 4" "length p = 4" "0 \<notin> set w" "0 < off" "off < 2 ^ 31"
    "take 4 (drop off f) = lb" "take 4 (drop (off + 4) f) = rb" "stored f (u32 lb) l" "stored f (u32 rb) r"
proof -
  let ?d = "drop off f"
  have eq: "take (17 + length w) ?d = take 8 ?d @ c @ p @ w @ [0]" and len: "length c = 4" "length p = 4"
    using assms by auto
  have "length (take (17 + length w) ?d) = length (take 8 ?d @ c @ p @ w @ [0])" by (simp only: eq)
  then have long: "17 + length w \<le> length ?d" using len by (simp split: if_splits)
  let ?lb = "take 4 ?d" and ?rb = "take 4 (drop 4 ?d)"
  have "take 8 ?d = ?lb @ ?rb" using take_add [of 4 4 ?d] by simp
  moreover have "?d = take (17 + length w) ?d @ drop (17 + length w) ?d" by (rule append_take_drop_id [symmetric])
  ultimately have split: "?d = ?lb @ ?rb @ c @ p @ w @ 0 # drop (17 + length w) ?d"
    by (simp only: eq append_assoc append_Cons append_Nil)
  have rb: "take 4 (drop (off + 4) f) = ?rb" by (simp add: add.commute)
  show thesis
  proof (rule that [OF split _ _ len])
    show "length ?lb = 4" "length ?rb = 4" using long by simp_all
    show "0 \<notin> set w" "0 < off" "off < 2 ^ 31" "take 4 ?d = ?lb" using assms by simp_all
    show "take 4 (drop (off + 4) f) = ?rb" by (rule rb)
    show "stored f (u32 ?lb) l" "stored f (u32 ?rb) r" using assms unfolding rb [symmetric] by simp_all
  qed
qed

lemma read_u32_ok:
  "drop pos f = bs @ r \<Longrightarrow> length bs = 4 \<Longrightarrow> read_u32 f pos = Inr (u32 bs, pos + 4)"
  by (simp add: read_u32_def fread_def Let_def)

lemma fgetc_loop_ok: "0 \<notin> set w \<Longrightarrow> fgetc_loop (w @ 0 # r) = Inr (length w)"
  by (induction w) auto

lemma c_string_ok: "0 \<notin> set w \<Longrightarrow> c_string (w @ 0 # r) = w"
  by (induction w) (auto simp: c_string_def)

lemma read_words_ok:
  assumes "drop pos f = w @ 0 # r" and "0 \<notin> set w"
  shows "read_words f pos = Inr (w, pos + length w + 1)"
proof -
  have "length f - pos = Suc (length w + length r)"
    using arg_cong [OF assms(1), of length] by simp
  then show ?thesis
    using assms by (simp add: read_words_def fgetc_loop_ok Let_def fread_def c_string_ok)
qed

lemma drop_after: "drop pos f = a @ b \<Longrightarrow> drop (pos + length a) f = b"
  by (simp only: add.commute [of pos] drop_drop [symmetric]) simp

lemma search1_node:
  assumes "drop off f = lb @ rb @ c @ p @ w @ 0 # rest"
    and "length lb = 4" "length rb = 4" "length c = 4" "length p = 4" "0 \<notin> set w"
  shows "search1 (Suc k) f word (int off) pos =
    (let pos = off + 17 + length w
     in if word = w then Inr (int off, u32 c, u32 p, pos)
        else if strcmp word w < 0 then
          (if u32 lb = 0 then Inr (- 1, u32 c, u32 p, pos) else search1 k f word (int32 (int (u32 lb))) pos)
        else
          (if u32 rb = 0 then Inr (- 1, u32 c, u32 p, pos) else search1 k f word (int32 (int (u32 rb))) pos))"
proof -
  have 1: "drop (off + 4) f = rb @ c @ p @ w @ 0 # rest" using drop_after [OF assms(1)] assms(2) by simp
  have 2: "drop (off + 8) f = c @ p @ w @ 0 # rest" using drop_after [OF 1] assms(3) by (simp add: add.assoc)
  have 3: "drop (off + 12) f = p @ w @ 0 # rest" using drop_after [OF 2] assms(4) by (simp add: add.assoc)
  have 4: "drop (off + 16) f = w @ 0 # rest" using drop_after [OF 3] assms(5) by (simp add: add.assoc)
  show ?thesis
    using assms(2-6)
    by (simp add: read_u32_ok [OF assms(1)] read_u32_ok [OF 1] read_u32_ok [OF 2] read_u32_ok [OF 3]
        read_words_ok [OF 4] fseek_def Let_def ac_simps)
qed

definition answers :: "(byte list \<times> byte list) option \<Rightarrow> int \<Rightarrow> nat \<Rightarrow> nat \<Rightarrow> bool" where
  "answers x offset count price \<longleftrightarrow>
     (case x of None \<Rightarrow> offset = - 1 | Some (c, p) \<Rightarrow> 0 \<le> offset \<and> count = u32 c \<and> price = u32 p)"

lemma stored_offset: "stored f n t \<Longrightarrow> t \<noteq> Leaf \<Longrightarrow> n < 2 ^ 31 \<and> n \<noteq> 0"
  by (cases t) auto

lemma search1_finds:
  assumes "stored f off t" and "t \<noteq> Leaf" and "height t \<le> k"
  shows "\<exists>offset count price pos'. search1 k f word (int off) pos = Inr (offset, count, price, pos')
    \<and> answers (tree_find word t) offset count price"
  using assms
proof (induction t arbitrary: off k pos)
  case (Node l x r)
  obtain w c p where x: "x = (w, c, p)" by (cases x)
  obtain k' where k: "k = Suc k'" using Node.prems(3) by (cases k) auto
  from Node.prems(1) [unfolded x] show ?case
  proof (rule stored_node)
    fix lb rb rest
    assume n: "drop off f = lb @ rb @ c @ p @ w @ 0 # rest" "length lb = 4" "length rb = 4" "length c = 4"
      "length p = 4" "0 \<notin> set w" and l: "stored f (u32 lb) l" and r: "stored f (u32 rb) r"
    have sub: "\<exists>offset count price pos'. (if u32 b = 0 then Inr (- 1, u32 c, u32 p, q) else search1 k' f word (int32 (int (u32 b))) q)
        = Inr (offset, count, price, pos') \<and> answers (tree_find word s) offset count price"
      if "s = l \<and> b = lb \<or> s = r \<and> b = rb" for s b q
    proof (cases "s = Leaf")
      case True
      then show ?thesis using that l r by (auto simp: answers_def)
    next
      case False
      then have "int32 (int (u32 b)) = int (u32 b)" "u32 b \<noteq> 0"
        using stored_offset [of f "u32 b" s] that l r by (auto simp: int32_id)
      then show ?thesis using that l r False Node.IH [of _ k'] Node.prems(3) k by auto
    qed
    show ?thesis
      unfolding x k search1_node [OF n] Let_def
      using sub [of l lb] sub [of r rb] by (auto simp: answers_def)
  qed
qed simp

definition report :: "(byte list \<times> byte list \<times> byte list) list \<Rightarrow> byte list \<Rightarrow> message" where
  "report d w = (case map_of d w of None \<Rightarrow> Not_found w | Some (c, p) \<Rightarrow> Found w (u32 c) (u32 p))"

lemma answers_report:
  "answers (map_of d w) offset count price \<Longrightarrow>
     (if offset = - 1 then Not_found w else Found w count price) = report d w"
  by (auto simp: answers_def report_def split: option.splits)

lemma find_words1_ok:
  assumes "stored f 4 t" and "ordered t" and "height t \<le> k"
  shows "find_words1 k f pos ws = Inr (map (report (inorder t)) ws)"
proof (induction ws arbitrary: pos)
  case (Cons w ws)
  have "t \<noteq> Leaf" using assms(1) by auto
  from search1_finds [OF assms(1) this assms(3), of w pos]
  obtain offset count price pos' where "search1 k f w 4 pos = Inr (offset, count, price, pos')"
    "answers (map_of (inorder t) w) offset count price"
    using tree_find_map_of [OF assms(2)] by auto
  then show ?case using Cons.IH answers_report by simp
qed simp

text \<open>C35: when the file holds a search tree that starts with the magic number, \<open>lookup1\<close> reports
  each word of the command line with its count and price in the tree, and the other words as not found.\<close>

theorem lookup1_reports:
  assumes "take 4 f = BTRE" and "stored f 4 t" and "ordered t" and "height t \<le> k" and "ws \<noteq> []"
  shows "lookup1 k (Some f) ws = Inr (0, map (report (inorder t)) ws)"
  using assms by (simp add: lookup1_def fread_def find_words1_ok c_string_def BTRE_def)

section \<open>lookup2 agrees when no zero hides a byte\<close>

text \<open>\<open>strncpy\<close> stops at the first zero and fills up with zeros.\<close>

definition no_hidden :: "byte list \<Rightarrow> bool" where
  "no_hidden bs \<longleftrightarrow> list_all (\<lambda>b. b = 0) (dropWhile (\<lambda>b. b \<noteq> 0) bs)"

primrec plain_fields :: "byte list \<Rightarrow> nat \<Rightarrow> (byte list \<times> byte list \<times> byte list) tree \<Rightarrow> bool" where
  "plain_fields f off Leaf \<longleftrightarrow> True"
| "plain_fields f off (Node l x r) \<longleftrightarrow>
     no_hidden (take 4 (drop off f)) \<and> no_hidden (take 4 (drop (off + 4) f))
     \<and> (case x of (w, c, p) \<Rightarrow> no_hidden c \<and> no_hidden p)
     \<and> plain_fields f (u32 (take 4 (drop off f))) l \<and> plain_fields f (u32 (take 4 (drop (off + 4) f))) r"

lemma strncpy_plain: "length bs = n \<Longrightarrow> no_hidden bs \<Longrightarrow> strncpy n (bs @ r) = Inr bs"
proof (induction n arbitrary: bs)
  case (Suc n)
  then obtain b cs where bs: "bs = b # cs" by (cases bs) auto
  show ?case
  proof (cases "b = 0")
    case True
    then have "bs = replicate (Suc n) 0"
      using Suc.prems unfolding bs no_hidden_def by (auto simp: list_all_iff intro!: replicate_eqI)
    then show ?thesis by simp
  next
    case False
    then show ?thesis using Suc.IH [of cs] Suc.prems unfolding bs by (simp add: no_hidden_def)
  qed
qed simp

lemma len_loop_ok: "0 \<notin> set w \<Longrightarrow> len_loop (w @ 0 # r) = Inr (length w)"
  by (induction w) auto

lemma no_hidden_string: "0 \<notin> set w \<Longrightarrow> no_hidden (w @ [0])"
  by (induction w) (auto simp: no_hidden_def)

lemma strncpy_string: "0 \<notin> set w \<Longrightarrow> strncpy (Suc (length w)) (w @ 0 # r) = Inr (w @ [0])"
  using strncpy_plain [of "w @ [0]" "Suc (length w)" r] no_hidden_string by (simp del: strncpy.simps)

lemma search2_node:
  assumes "drop off m = lb @ rb @ c @ p @ w @ 0 # rest"
    and "length lb = 4" "length rb = 4" "length c = 4" "length p = 4" "0 \<notin> set w"
    and "no_hidden lb" "no_hidden rb" "no_hidden c" "no_hidden p"
  shows "search2 (Suc k) m word (int off) =
    (if word = w then Inr (int off, u32 c, u32 p)
     else if strcmp word w < 0 then
       (if u32 lb = 0 then Inr (- 1, u32 c, u32 p) else search2 k m word (int32 (int (u32 lb))))
     else
       (if u32 rb = 0 then Inr (- 1, u32 c, u32 p) else search2 k m word (int32 (int (u32 rb)))))"
proof -
  have at_nat: "at m (int off + int i) = drop (off + i) m" for i by (simp add: at_def nat_add_distrib)
  have 1: "drop (off + 4) m = rb @ c @ p @ w @ 0 # rest" using drop_after [OF assms(1)] assms(2) by simp
  have 2: "drop (off + 8) m = c @ p @ w @ 0 # rest" using drop_after [OF 1] assms(3) by (simp add: add.assoc)
  have 3: "drop (off + 12) m = p @ w @ 0 # rest" using drop_after [OF 2] assms(4) by (simp add: add.assoc)
  have 4: "drop (off + 16) m = w @ 0 # rest" using drop_after [OF 3] assms(5) by (simp add: add.assoc)
  have "at m (int off) = lb @ rb @ c @ p @ w @ 0 # rest" "at m (int off + 4) = rb @ c @ p @ w @ 0 # rest"
    "at m (int off + 8) = c @ p @ w @ 0 # rest" "at m (int off + 12) = p @ w @ 0 # rest"
    "at m (int off + 16) = w @ 0 # rest"
    using at_nat [of 0] at_nat [of 4] at_nat [of 8] at_nat [of 12] at_nat [of 16] assms(1) 1 2 3 4 by simp_all
  then show ?thesis
    using assms(2-10)
    by (simp add: strncpy_plain len_loop_ok strncpy_string c_string_ok del: strncpy.simps)
qed

lemma drop_mapped: "drop off f = xs \<Longrightarrow> xs \<noteq> [] \<Longrightarrow> \<exists>z. drop off (mapped page f) = xs @ z"
  by (auto simp: mapped_def)

lemma search2_agrees:
  assumes "stored f off t" and "t \<noteq> Leaf" and "plain_fields f off t"
  shows "rbind (search1 k f word (int off) pos) (\<lambda>(offset, count, price, _). Inr (offset, count, price))
    = search2 k (mapped page f) word (int off)"
  using assms
proof (induction t arbitrary: off k pos)
  case (Node l x r)
  obtain w c p where x: "x = (w, c, p)" by (cases x)
  show ?case
  proof (cases k)
    case (Suc k')
    from Node.prems(1) [unfolded x] show ?thesis
    proof (rule stored_node)
      fix lb rb rest
      assume n: "drop off f = lb @ rb @ c @ p @ w @ 0 # rest" "length lb = 4" "length rb = 4" "length c = 4"
        "length p = 4" "0 \<notin> set w" and l: "stored f (u32 lb) l" and r: "stored f (u32 rb) r"
        and b: "take 4 (drop off f) = lb" "take 4 (drop (off + 4) f) = rb"
      have h: "no_hidden lb" "no_hidden rb" "no_hidden c" "no_hidden p" "plain_fields f (u32 lb) l" "plain_fields f (u32 rb) r"
        using Node.prems(3) b x by simp_all
      obtain z where m: "drop off (mapped page f) = lb @ rb @ c @ p @ w @ 0 # (rest @ z)"
        using drop_mapped [OF n(1)] by auto
      have sub: "rbind (search1 k' f word (int32 (int (u32 b))) q) (\<lambda>(offset, count, price, _). Inr (offset, count, price))
          = search2 k' (mapped page f) word (int32 (int (u32 b)))"
        if "s = l \<and> b = lb \<or> s = r \<and> b = rb" and "u32 b \<noteq> 0" for s b q
      proof -
        have "s \<noteq> Leaf" using that l r by auto
        moreover from this have "int32 (int (u32 b)) = int (u32 b)"
          using stored_offset [of f "u32 b" s] that l r by (auto simp: int32_id)
        ultimately show ?thesis using that l r h Node.IH by metis
      qed
      show ?thesis
        unfolding x Suc search1_node [OF n] search2_node [OF m n(2-6) h(1-4)] Let_def
        by (simp add: sub [of l lb] sub [of r rb])
    qed
  qed simp
qed simp

lemma find_words2_agrees:
  assumes "stored f 4 t" and "plain_fields f 4 t"
  shows "find_words2 k (mapped page f) ws = find_words1 k f pos ws"
proof (induction ws arbitrary: pos)
  case (Cons w ws)
  have "t \<noteq> Leaf" using assms(1) by auto
  from search2_agrees [OF assms(1) this assms(2), of k w pos page]
  have "search2 k (mapped page f) w 4
      = rbind (search1 k f w 4 pos) (\<lambda>(offset, count, price, _). Inr (offset, count, price))" by simp
  then show ?case
    using Cons.IH by (cases "search1 k f w 4 pos") (auto split: prod.split)
qed simp

text \<open>C34: on a tree whose offsets, counts and prices have no zero byte before another byte, \<open>lookup2\<close>
  does what \<open>lookup1\<close> does, for every page size.\<close>

theorem lookup2_agrees:
  assumes "take 4 f = BTRE" and "stored f 4 t" and "plain_fields f 4 t"
  shows "lookup2 k page (Some f) ws = lookup1 k (Some f) ws"
proof -
  have "f = BTRE @ drop 4 f" using assms(1) by (metis append_take_drop_id)
  moreover have "no_hidden BTRE" "length BTRE = 4" by (simp_all add: no_hidden_def BTRE_def)
  ultimately have "strncpy 4 (mapped page f) = Inr BTRE"
    using strncpy_plain [of BTRE 4] unfolding mapped_def by (metis append_assoc)
  then show ?thesis
    using assms(1) find_words2_agrees [OF assms(2,3), of k page ws 4] \<open>length BTRE = 4\<close>
    by (simp add: lookup2_def lookup1_def at_def fread_def Let_def del: strncpy.simps)
qed

section \<open>A sample\<close>

text \<open>A root with the word \<open>b\<close>, a count of 256 and the word \<open>a\<close> to its left; \<open>sample_plain\<close> has the count 1.\<close>

definition sample_file :: "byte list \<Rightarrow> byte list" where
  "sample_file count = BTRE @ [22, 0, 0, 0] @ [0, 0, 0, 0] @ count @ [5, 0, 0, 0] @ [98, 0]
     @ [0, 0, 0, 0] @ [0, 0, 0, 0] @ [7, 0, 0, 0] @ [9, 0, 0, 0] @ [97, 0]"

definition sample_tree :: "byte list \<Rightarrow> (byte list \<times> byte list \<times> byte list) tree" where
  "sample_tree count = Node (Node Leaf ([97], [7, 0, 0, 0], [9, 0, 0, 0]) Leaf) ([98], count, [5, 0, 0, 0]) Leaf"

lemma sample_stored: "stored (sample_file [1, 0, 0, 0]) 4 (sample_tree [1, 0, 0, 0])"
  by (simp add: sample_file_def sample_tree_def BTRE_def u32_def)

text \<open>\<open>strncpy\<close> takes the count 256, whose lowest byte is zero, for 0.\<close>

lemma strncpy_numeral:
  "strncpy (numeral n) src = (case src of [] \<Rightarrow> Inl Bad_access
     | b # bs \<Rightarrow> if b = 0 then Inr (replicate (numeral n) 0) else rbind (strncpy (pred_numeral n) bs) (\<lambda>r. Inr (b # r)))"
  unfolding numeral_eq_Suc by simp

lemma funpow_zero: "(((*) m) ^^ n) (0::nat) = 0"
  by (induction n) simp_all

lemma lookup2_loses_count:
  "lookup1 1 (Some (sample_file [0, 1, 0, 0])) [[98]] = Inr (0, [Found [98] 256 5])"
  "lookup2 1 16 (Some (sample_file [0, 1, 0, 0])) [[98]] = Inr (0, [Found [98] 0 5])"
  by (simp_all add: lookup1_def lookup2_def sample_file_def BTRE_def u32_def fread_def fseek_def read_u32_def read_words_def
      c_string_def mapped_def at_def strncpy_numeral funpow_zero Let_def)

lemma sample_ok:
  "take 4 (sample_file c) = BTRE" "ordered (sample_tree c)" "height (sample_tree c) = 2"
  "plain_fields (sample_file [1, 0, 0, 0]) 4 (sample_tree [1, 0, 0, 0])"
  by (simp_all add: sample_file_def sample_tree_def BTRE_def u32_def ordered_def no_hidden_def)

lemma lookup1_reports_witness:
  "lookup1 2 (Some (sample_file [1, 0, 0, 0])) [[97], [99]]
    = Inr (0, map (report (inorder (sample_tree [1, 0, 0, 0]))) [[97], [99]])"
  by (rule lookup1_reports) (simp_all add: sample_ok sample_stored)

lemma lookup2_agrees_witness:
  "lookup2 2 4096 (Some (sample_file [1, 0, 0, 0])) [[97], [99]] = lookup1 2 (Some (sample_file [1, 0, 0, 0])) [[97], [99]]"
  by (rule lookup2_agrees [of _ "sample_tree [1, 0, 0, 0]"]) (simp_all add: sample_ok sample_stored)

end
