(* ===== verification/Reduce.thy ===== *)
theory Reduce
  imports Prelude
begin

text \<open>
  The parallel reduction of a list (\<open>teaching_threads/par_reduce.c\<close>). The threads share nothing but
  the list, which they only read, and their results are joined in the order of the tasks, so each
  thread is the value of its start routine. The reducer is an argument, as in the code.
\<close>

record task =
  base_case :: int
  t_list :: "int list"
  t_length :: nat
  reduce_func :: "int \<Rightarrow> int \<Rightarrow> int"

primrec reduce_loop :: "(int \<Rightarrow> int \<Rightarrow> int) \<Rightarrow> int list \<Rightarrow> nat \<Rightarrow> nat \<Rightarrow> int \<Rightarrow> int res" where
  "reduce_loop f xs i 0 result = Inr result"
| "reduce_loop f xs i (Suc n) result =
     rbind (guard (i < length xs) Bad_access) (\<lambda>_. reduce_loop f xs (i + 1) n (f result (xs ! i)))"

definition startR :: "task \<Rightarrow> int res" where
  "startR t = reduce_loop (reduce_func t) (t_list t) 0 (t_length t) (base_case t)"

definition thread_len :: "nat \<Rightarrow> nat \<Rightarrow> nat \<Rightarrow> nat" where
  "thread_len list_len num_threads i = list_len div num_threads + (if i < list_len mod num_threads then 1 else 0)"

text \<open>The loop that makes the tasks, from thread \<open>i\<close> on.\<close>

primrec make_tasks :: "nat \<Rightarrow> nat \<Rightarrow> nat \<Rightarrow> nat \<Rightarrow> int list \<Rightarrow> (int \<Rightarrow> int \<Rightarrow> int) \<Rightarrow> int \<Rightarrow> task list" where
  "make_tasks 0 i num_threads count xs f base = []"
| "make_tasks (Suc n) i num_threads count xs f base =
     (let len = thread_len (length xs) num_threads i
      in \<lparr>base_case = base, t_list = drop count xs, t_length = len, reduce_func = f\<rparr>
           # make_tasks n (i + 1) num_threads (count + len) xs f base)"

primrec join_loop :: "task list \<Rightarrow> int list res" where
  "join_loop [] = Inr []"
| "join_loop (t # ts) = rbind (startR t) (\<lambda>r. rbind (join_loop ts) (\<lambda>rs. Inr (r # rs)))"

text \<open>With no thread, the remainder of the length divides by zero.\<close>

definition par_reduce :: "int list \<Rightarrow> (int \<Rightarrow> int \<Rightarrow> int) \<Rightarrow> int \<Rightarrow> nat \<Rightarrow> int res" where
  "par_reduce xs f base num_threads =
     (if length xs < num_threads then reduce_loop f xs 0 (length xs) base
      else rbind (guard (num_threads \<noteq> 0) Div_by_zero) (\<lambda>_.
           rbind (join_loop (make_tasks num_threads 0 num_threads 0 xs f base)) (\<lambda>result.
             reduce_loop f result 0 num_threads base)))"

section \<open>The threads cover the list\<close>

lemma reduce_loop_fold:
  "i + n \<le> length xs \<Longrightarrow> reduce_loop f xs i n r = Inr (foldl f r (take n (drop i xs)))"
proof (induction n arbitrary: i r)
  case (Suc n)
  then have "drop i xs = xs ! i # drop (Suc i) xs" by (intro Cons_nth_drop_Suc [symmetric]) simp
  then show ?case using Suc by simp
qed simp

text \<open>The parts of the list from thread \<open>i\<close> on.\<close>

primrec parts :: "nat \<Rightarrow> nat \<Rightarrow> nat \<Rightarrow> nat \<Rightarrow> 'a list \<Rightarrow> 'a list list" where
  "parts 0 i m count xs = []"
| "parts (Suc n) i m count xs =
     take (thread_len (length xs) m i) (drop count xs) # parts n (i + 1) m (count + thread_len (length xs) m i) xs"

lemma parts_length [simp]: "length (parts n i m count xs) = n"
  by (induction n arbitrary: i count) auto

definition covered :: "nat \<Rightarrow> nat \<Rightarrow> nat \<Rightarrow> nat" where
  "covered l m i = l div m * i + min i (l mod m)"

lemma covered_step: "covered l m i + thread_len l m i = covered l m (i + 1)"
  by (auto simp: covered_def thread_len_def)

lemma covered_all: "0 < m \<Longrightarrow> covered l m m = l"
  using mod_less_divisor [of m l] by (simp add: covered_def min_absorb2 less_imp_le)

lemma covered_mono: "i \<le> j \<Longrightarrow> covered l m i \<le> covered l m j"
  unfolding covered_def by (intro add_mono mult_le_mono) auto

lemma join_parts:
  assumes "0 < m" and "i + n = m"
  shows "join_loop (make_tasks n i m (covered (length xs) m i) xs f base)
    = Inr (map (foldl f base) (parts n i m (covered (length xs) m i) xs))"
  using assms(2)
proof (induction n arbitrary: i)
  case (Suc n)
  have "covered (length xs) m (i + 1) \<le> length xs"
    using covered_mono [of "i + 1" m "length xs" m] covered_all [OF assms(1), of "length xs"] Suc.prems by simp
  then have "thread_len (length xs) m i \<le> length (drop (covered (length xs) m i) xs)"
    using covered_step [of "length xs" m i] by simp
  then show ?case
    using Suc covered_step [of "length xs" m i]
    by (simp add: startR_def Let_def reduce_loop_fold)
qed simp

lemma concat_parts:
  assumes "0 < m" and "i + n = m"
  shows "concat (parts n i m (covered (length xs) m i) xs) = drop (covered (length xs) m i) xs"
  using assms(2)
proof (induction n arbitrary: i)
  case 0
  then show ?case using covered_all [OF assms(1), of "length xs"] by simp
next
  case (Suc n)
  then show ?case
    using covered_step [of "length xs" m i] Suc.IH [of "i + 1"]
    by (simp del: drop_drop add: drop_drop [symmetric] add.commute)
       (metis add.commute append_take_drop_id drop_drop)
qed

lemma par_reduce_parts:
  assumes "0 < num_threads" and "num_threads \<le> length xs"
  shows "par_reduce xs f base num_threads
    = Inr (foldl f base (map (foldl f base) (parts num_threads 0 num_threads 0 xs)))"
  using join_parts [OF assms(1), of 0 num_threads xs f base] assms
  by (simp add: par_reduce_def covered_def reduce_loop_fold)

section \<open>The result\<close>

lemma foldl_assoc:
  assumes "\<And>x y z. f (f x y) z = f x (f y z)" and "\<And>x. f x base = x"
  shows "f a (foldl f base xs) = foldl f a xs"
proof (induction xs arbitrary: a rule: rev_induct)
  case (snoc x xs)
  have "f a (foldl f base (xs @ [x])) = f (f a (foldl f base xs)) x" using assms(1) by simp
  then show ?case using snoc by simp
qed (simp add: assms(2))

lemma foldl_parts:
  assumes "\<And>x y z. f (f x y) z = f x (f y z)" and "\<And>x. f x base = x"
  shows "foldl f a (map (foldl f base) ps) = foldl f a (concat ps)"
  by (induction ps arbitrary: a) (simp_all add: foldl_assoc [of f, OF assms])

text \<open>C36: with at least one thread, an associative reducer and a base case that is its unit, the
  parallel reduction is the sequential one, however the list is divided.\<close>

theorem par_reduce_sequential:
  assumes "0 < num_threads" and "\<And>x y z. f (f x y) z = f x (f y z)" and "\<And>x. f x base = x"
  shows "par_reduce xs f base num_threads = Inr (foldl f base xs)"
proof (cases "num_threads \<le> length xs")
  case True
  then show ?thesis
    using par_reduce_parts [OF assms(1) True] concat_parts [OF assms(1), of 0 num_threads xs]
      foldl_parts [of f base base, OF assms(2,3)]
    by (simp add: covered_def)
next
  case False
  then show ?thesis by (simp add: par_reduce_def reduce_loop_fold)
qed

text \<open>A base case that is not a unit counts once for each thread and once more.\<close>

lemma par_reduce_sum_base:
  assumes "0 < num_threads" and "num_threads \<le> length xs"
  shows "par_reduce xs (+) base num_threads = Inr (sum_list xs + (int num_threads + 1) * base)"
proof -
  have fold: "foldl (+) a ys = a + sum_list ys" for a :: int and ys by (induction ys arbitrary: a) auto
  have "sum_list (map (foldl (+) base) ps) = sum_list (concat ps) + int (length ps) * base" for ps
    by (induction ps) (auto simp: fold algebra_simps)
  then show ?thesis
    using par_reduce_parts [OF assms] concat_parts [OF assms(1), of 0 num_threads xs]
    by (simp add: covered_def fold algebra_simps)
qed

lemma par_reduce_no_threads: "par_reduce xs f base 0 = Inl Div_by_zero"
  by (simp add: par_reduce_def)

lemma par_reduce_sequential_witness: "par_reduce [1, 2, 3, 4, 5] (+) 0 2 = Inr (foldl (+) 0 [1, 2, 3, 4, 5])"
  by (rule par_reduce_sequential) simp_all

end
