(* ===== verification/Otp.thy ===== *)
theory Otp
  imports Prelude "HOL-Library.Word"
begin

unbundle bit_operations_syntax

text \<open>
  The one-time pad (\<open>final/helloworld.c\<close>). A file system maps names to contents; the random bytes are an
  argument. Files can be opened for writing. A file that is mapped and then truncated has no byte left to
  access.
\<close>

type_synonym files = "string \<rightharpoonup> 8 word list"

section \<open>The code\<close>

text \<open>The loops over \<open>i < length\<close>; a mapped file is its content at the time.\<close>

primrec encrypt_loop :: "8 word list \<Rightarrow> nat \<Rightarrow> nat \<Rightarrow> 8 word list \<Rightarrow> 8 word list \<Rightarrow> 8 word list
    \<Rightarrow> (8 word list \<times> 8 word list \<times> 8 word list) res" where
  "encrypt_loop rand i 0 addr file1 file2 = Inr (addr, file1, file2)"
| "encrypt_loop rand i (Suc n) addr file1 file2 =
     rbind (guard (i < length addr) Bad_access) (\<lambda>_.
       let rw = rand ! i; mychar = addr ! i
       in encrypt_loop rand (i + 1) n (addr[i := 0]) (file1 @ [rw]) (file2 @ [rw XOR mychar]))"

text \<open>Opening \<open>bin1\<close> and \<open>bin2\<close> for writing truncates them, also when one is the mapped file.\<close>

definition encrypt :: "8 word list \<Rightarrow> files \<Rightarrow> string \<Rightarrow> string \<Rightarrow> string \<Rightarrow> files res" where
  "encrypt rand fs mystuff bin1 bin2 =
     (case fs mystuff of
        None \<Rightarrow> Inl (Exited 1)
      | Some content \<Rightarrow>
          let addr = (if mystuff = bin1 \<or> mystuff = bin2 then [] else content)
          in rbind (encrypt_loop rand 0 (length content) addr [] []) (\<lambda>(addr, file1, file2).
               Inr ((fs(mystuff \<mapsto> addr))(bin1 \<mapsto> file1, bin2 \<mapsto> file2))))"

primrec decrypt_loop :: "nat \<Rightarrow> nat \<Rightarrow> 8 word list \<Rightarrow> 8 word list \<Rightarrow> 8 word list \<Rightarrow> 8 word list res" where
  "decrypt_loop i 0 addr1 addr2 out = Inr out"
| "decrypt_loop i (Suc n) addr1 addr2 out =
     rbind (guard (i < length addr1 \<and> i < length addr2) Bad_access) (\<lambda>_.
       decrypt_loop (i + 1) n addr1 addr2 (out @ [(addr1 ! i) XOR (addr2 ! i)]))"

definition decrypt :: "files \<Rightarrow> string \<Rightarrow> string \<Rightarrow> string \<Rightarrow> files res" where
  "decrypt fs mystuff bin1 bin2 =
     (case fs bin1 of
        None \<Rightarrow> Inl (Exited 1)
      | Some c1 \<Rightarrow>
          (case fs bin2 of
             None \<Rightarrow> Inl (Exited 1)
           | Some c2 \<Rightarrow>
               rbind (guard (length c2 = length c1) (Exited 1)) (\<lambda>_.
                 let addr1 = (if mystuff = bin1 then [] else c1);
                     addr2 = (if mystuff = bin2 then [] else c2)
                 in rbind (decrypt_loop 0 (length c2) addr1 addr2 []) (\<lambda>out.
                      Inr ((fs(mystuff \<mapsto> out))(bin1 := None, bin2 := None))))))"

text \<open>\<open>main\<close>: the name of the program chooses what it does; \<open>None\<close> is the greeting.\<close>

definition otp_main :: "8 word list \<Rightarrow> files \<Rightarrow> string list \<Rightarrow> files option res" where
  "otp_main rand fs argv =
     (case argv of
        [cmd, mystuff, bin1, bin2] \<Rightarrow>
          if cmd = ''./encrypt'' then rbind (encrypt rand fs mystuff bin1 bin2) (\<lambda>fs. Inr (Some fs))
          else if cmd = ''./decrypt'' then rbind (decrypt fs mystuff bin1 bin2) (\<lambda>fs. Inr (Some fs))
          else Inr None
      | _ \<Rightarrow> Inr None)"

section \<open>What the files hold\<close>

definition pad :: "8 word list \<Rightarrow> 8 word list \<Rightarrow> 8 word list" where
  "pad r c = map2 (XOR) (take (length c) r) c"

lemma map2_snoc:
  "i < length xs \<Longrightarrow> i < length ys \<Longrightarrow>
     map2 f (take i xs) (take i ys) @ [f (xs ! i) (ys ! i)] = map2 f (take (Suc i) xs) (take (Suc i) ys)"
  by (simp add: take_Suc_conv_app_nth)

lemma encrypt_loop_ok:
  "i + n = length c \<Longrightarrow> length c \<le> length rand \<Longrightarrow>
     encrypt_loop rand i n (replicate i 0 @ drop i c) (take i rand) (map2 (XOR) (take i rand) (take i c))
     = Inr (replicate (length c) 0, take (length c) rand, pad rand c)"
proof (induction n arbitrary: i)
  case (Suc n)
  then have i: "i < length c" "i < length rand" by simp_all
  then have d: "drop i c = c ! i # drop (Suc i) c" by (simp add: Cons_nth_drop_Suc)
  let ?addr = "replicate i 0 @ drop i c"
  have addr: "?addr ! i = c ! i" "i < length ?addr" using i by (simp_all add: nth_append)
  have "?addr[i := 0] = (replicate i 0 @ [0]) @ drop (Suc i) c" by (simp add: d list_update_append)
  also have "replicate i (0 :: 8 word) @ [0] = replicate (Suc i) 0" by (simp only: replicate_append_same replicate_Suc)
  finally have upd: "?addr[i := 0] = replicate (Suc i) 0 @ drop (Suc i) c" .
  have "encrypt_loop rand i (Suc n) ?addr (take i rand) (map2 (XOR) (take i rand) (take i c))
      = encrypt_loop rand (Suc i) n (replicate (Suc i) 0 @ drop (Suc i) c) (take (Suc i) rand)
          (map2 (XOR) (take (Suc i) rand) (take (Suc i) c))"
    unfolding encrypt_loop.simps addr upd map2_snoc [OF i(2,1), symmetric] take_Suc_conv_app_nth [OF i(2), symmetric]
    using addr(2) by (simp add: Let_def take_Suc_conv_app_nth [OF i(2)] del: replicate_Suc)
  then show ?case using Suc.IH [of "Suc i"] Suc.prems by simp
qed (simp add: pad_def)

lemma decrypt_loop_ok:
  "i + n = length a \<Longrightarrow> length b = length a \<Longrightarrow>
     decrypt_loop i n a b (map2 (XOR) (take i a) (take i b)) = Inr (map2 (XOR) a b)"
proof (induction n arbitrary: i)
  case (Suc n)
  then have "i < length a" "i < length b" by simp_all
  then show ?case using Suc.IH [of "Suc i"] Suc.prems by (simp add: map2_snoc)
qed simp

lemma length_pad [simp]: "length c \<le> length r \<Longrightarrow> length (pad r c) = length c"
  by (simp add: pad_def)

lemma encrypt_files:
  assumes "fs f = Some c" and "f \<noteq> b1" and "f \<noteq> b2" and "length c \<le> length rand"
  shows "encrypt rand fs f b1 b2
    = Inr ((fs(f \<mapsto> replicate (length c) 0))(b1 \<mapsto> take (length c) rand, b2 \<mapsto> pad rand c))"
  using encrypt_loop_ok [of 0 "length c" c rand] assms by (simp add: encrypt_def)

lemma xor_cancel: "a XOR (a XOR b) = (b :: 8 word)"
  by (simp flip: xor.assoc)

lemma pad_pad: "length c \<le> length r \<Longrightarrow> map2 (XOR) (take (length c) r) (pad r c) = c"
  unfolding pad_def by (rule nth_equalityI) (auto simp: xor_cancel)

text \<open>C38: decrypting with the two files that encrypting wrote restores the file, whatever the random
  bytes were, and removes the two; all other files stay as they were.\<close>

theorem decrypt_encrypt:
  assumes "fs f = Some c" and "distinct [f, b1, b2]" and "length c \<le> length rand"
  shows "rbind (encrypt rand fs f b1 b2) (\<lambda>fs. decrypt fs f b1 b2) = Inr (fs(b1 := None, b2 := None))"
proof -
  have "decrypt_loop 0 (length c) (take (length c) rand) (pad rand c) [] = Inr c"
    using decrypt_loop_ok [of 0 "length c" "take (length c) rand" "pad rand c"] assms(3) pad_pad by simp
  moreover have "fs(f \<mapsto> c) = fs" using assms(1) by auto
  ultimately show ?thesis
    using assms by (auto simp: encrypt_files decrypt_def Let_def fun_eq_iff)
qed

text \<open>Neither of the two files tells anything but the length: for every content, each possible
  content of the second file comes from exactly one choice of the random bytes.\<close>

theorem pad_secret:
  assumes "fs f = Some c" and "distinct [f, b1, b2]" and "length b = length c"
  shows "\<exists>!rand. length rand = length c \<and> (\<exists>fs'. encrypt rand fs f b1 b2 = Inr fs' \<and> fs' b2 = Some b)"
proof (rule ex1I [of _ "pad b c"])
  have "pad (pad b c) c = b"
    using assms(3) unfolding pad_def by (intro nth_equalityI) (auto simp: xor.assoc)
  then show "length (pad b c) = length c \<and> (\<exists>fs'. encrypt (pad b c) fs f b1 b2 = Inr fs' \<and> fs' b2 = Some b)"
    using assms by (simp add: encrypt_files)
next
  fix rand
  assume "length rand = length c \<and> (\<exists>fs'. encrypt rand fs f b1 b2 = Inr fs' \<and> fs' b2 = Some b)"
  then have "length rand = length c" "b = pad rand c" using assms by (auto simp: encrypt_files)
  then show "rand = pad b c"
    unfolding pad_def by (intro nth_equalityI) (auto simp: xor.assoc)
qed

text \<open>When the file to encrypt is named again for the pad, it is lost: it has been truncated.\<close>

lemma encrypt_same_name: "encrypt [5] [''f'' \<mapsto> [7]] ''f'' ''f'' ''b'' = Inl Bad_access"
  by (simp add: encrypt_def)

lemma decrypt_encrypt_witness:
  "rbind (encrypt [5, 6] [''f'' \<mapsto> [7, 8]] ''f'' ''a'' ''b'') (\<lambda>fs. decrypt fs ''f'' ''a'' ''b'')
    = Inr ([''f'' \<mapsto> [7, 8]](''a'' := None, ''b'' := None))"
  by (rule decrypt_encrypt [of _ _ "[7, 8]"]) simp_all

lemma pad_secret_witness:
  "\<exists>!rand. length rand = length [7, 8 :: 8 word]
    \<and> (\<exists>fs'. encrypt rand [''f'' \<mapsto> [7, 8]] ''f'' ''a'' ''b'' = Inr fs' \<and> fs' ''b'' = Some [1, 2])"
  by (rule pad_secret [of _ _ "[7, 8]"]) simp_all

end
