(* ===== verification/Dd.thy ===== *)
theory Dd
  imports Shell
begin

text \<open>
  Copying by blocks (\<open>deepfried_dd/dd.c\<close>). The output is opened for appending, so what is written goes
  to its end, wherever the stream has been positioned. Input and output are different files, and
  writes succeed. The report has the counters, and
  the handler prints them at any time; times are left out.
\<close>

section \<open>The code\<close>

record dd =
  fullblockin :: nat
  partblockin :: nat
  fullblockout :: nat
  partblockout :: nat
  bytescopy :: nat

definition zero_dd :: dd where
  "zero_dd = \<lparr>fullblockin = 0, partblockin = 0, fullblockout = 0, partblockout = 0, bytescopy = 0\<rparr>"

record options =
  inputname :: "string option"
  outputname :: "string option"
  blocksize :: int
  blocknum :: int
  inputskip :: int
  outputskip :: int

definition default_options :: options where
  "default_options = \<lparr>inputname = None, outputname = None, blocksize = 512, blocknum = -1, inputskip = 0, outputskip = 0\<rparr>"

text \<open>The counters after a block of which \<open>n\<close> bytes were read and written.\<close>

definition count_block :: "nat \<Rightarrow> nat \<Rightarrow> dd \<Rightarrow> dd" where
  "count_block bs n s =
     (let s = (if 0 < n then
                 (if n < bs then s\<lparr>partblockin := partblockin s + 1\<rparr> else s\<lparr>fullblockin := fullblockin s + 1\<rparr>)
               else s);
          s = (if 0 < n then
                 (if n < bs then s\<lparr>partblockout := partblockout s + 1\<rparr> else s\<lparr>fullblockout := fullblockout s + 1\<rparr>)
               else s)
      in s\<lparr>bytescopy := bytescopy s + n\<rparr>)"

text \<open>
  The loop. A read that gets less than a block meets the end of the file, which the next turn sees. With
  blocks of no bytes the end is never met. A length that is not positive, like that of a negative array,
  is outside of the language.
\<close>

function dd_loop :: "nat \<Rightarrow> int \<Rightarrow> bool \<Rightarrow> string \<Rightarrow> string \<Rightarrow> dd \<Rightarrow> (string \<times> dd) res" where
  "dd_loop bs totalbytes eof inp out s =
     (if 0 < totalbytes \<and> totalbytes \<le> int (bytescopy s) then Inr (out, s)
      else if eof then Inr (out, s)
      else if bs = 0 then Inl Diverges
      else let block = take bs inp
           in dd_loop bs totalbytes (length block < bs) (drop bs inp) (out @ block) (count_block bs (length block) s))"
  by auto

termination
  by (relation "measure (\<lambda>(bs, tb, eof, inp, out, s). length inp + (if eof then 0 else 1))") auto

declare dd_loop.simps [simp del]

text \<open>\<open>fseek\<close> to a negative position is an error that is not looked at.\<close>

definition seek :: "int \<Rightarrow> string \<Rightarrow> string" where
  "seek pos content = (if pos < 0 then content else drop (nat pos) content)"

definition dd_main :: "(string \<rightharpoonup> string) \<Rightarrow> string \<Rightarrow> options \<Rightarrow> (string \<times> dd) res" where
  "dd_main fs stdin_bytes opts =
     rbind (case inputname opts of
         None \<Rightarrow> Inr stdin_bytes
       | Some f \<Rightarrow> (case fs f of None \<Rightarrow> Inl (Exited 1) | Some c \<Rightarrow> Inr (seek (inputskip opts * blocksize opts) c))) (\<lambda>inp.
     rbind (guard (0 \<le> blocksize opts) Bad_access) (\<lambda>_.
       let out = (case outputname opts of None \<Rightarrow> [] | Some f \<Rightarrow> (case fs f of None \<Rightarrow> [] | Some c \<Rightarrow> c));
           totalbytes = (if blocknum opts < 0 then -1 else blocknum opts * blocksize opts)
       in dd_loop (nat (blocksize opts)) totalbytes False inp out zero_dd))"

text \<open>The options as \<open>getopt\<close> gives them: a letter and its argument. \<open>strtol\<close> is \<open>atoi\<close> in the range of a
  \<open>long\<close>, at whose ends it stops.\<close>

definition strtol :: "string \<Rightarrow> int" where
  "strtol s =
     (let s = dropWhile (\<lambda>c. c = CHR '' '' \<or> 9 \<le> (of_char c :: nat) \<and> (of_char c :: nat) \<le> 13) s;
          n = (case s of
                 [] \<Rightarrow> 0
               | c # r \<Rightarrow> if c = CHR ''-'' then - digits_value r
                   else if c = CHR ''+'' then digits_value r else digits_value s)
      in max (- (2 ^ 63)) (min (2 ^ 63 - 1) n))"

text \<open>Opening the output creates it.\<close>

definition parse_option :: "char \<times> string \<Rightarrow> (string \<rightharpoonup> string) \<Rightarrow> options \<Rightarrow> ((string \<rightharpoonup> string) \<times> options) res" where
  "parse_option x fs opts =
     (case x of (opt, optarg) \<Rightarrow>
        if opt = CHR ''i'' then
          (if fs optarg = None then Inl (Exited 1) else Inr (fs, opts\<lparr>inputname := Some optarg\<rparr>))
        else if opt = CHR ''o'' then
          Inr (if fs optarg = None then fs(optarg \<mapsto> []) else fs, opts\<lparr>outputname := Some optarg\<rparr>)
        else if opt = CHR ''b'' then Inr (fs, opts\<lparr>blocksize := strtol optarg\<rparr>)
        else if opt = CHR ''c'' then Inr (fs, opts\<lparr>blocknum := strtol optarg\<rparr>)
        else if opt = CHR ''p'' then Inr (fs, opts\<lparr>inputskip := strtol optarg\<rparr>)
        else if opt = CHR ''k'' then Inr (fs, opts\<lparr>outputskip := strtol optarg\<rparr>)
        else Inl (Exited 1))"

primrec parse_options :: "(char \<times> string) list \<Rightarrow> (string \<rightharpoonup> string) \<Rightarrow> options \<Rightarrow> ((string \<rightharpoonup> string) \<times> options) res" where
  "parse_options [] fs opts = Inr (fs, opts)"
| "parse_options (x # xs) fs opts = rbind (parse_option x fs opts) (\<lambda>(fs, opts). parse_options xs fs opts)"

text \<open>The whole program: the bytes of the output, and the report.\<close>

definition dd_program :: "(char \<times> string) list \<Rightarrow> (string \<rightharpoonup> string) \<Rightarrow> string \<Rightarrow> (string \<times> dd) res" where
  "dd_program args fs stdin_bytes =
     rbind (parse_options args fs default_options) (\<lambda>(fs, opts). dd_main fs stdin_bytes opts)"

section \<open>What is copied\<close>

text \<open>The number of bytes: all of them unless a positive number of blocks is given.\<close>

definition wanted :: "options \<Rightarrow> string \<Rightarrow> string" where
  "wanted opts inp = (if 0 < blocknum opts then take (nat (blocknum opts * blocksize opts)) inp else inp)"

definition report_of :: "nat \<Rightarrow> nat \<Rightarrow> dd" where
  "report_of bs n = \<lparr>fullblockin = n div bs, partblockin = (if n mod bs = 0 then 0 else 1),
     fullblockout = n div bs, partblockout = (if n mod bs = 0 then 0 else 1), bytescopy = n\<rparr>"

lemma count_full: "0 < bs \<Longrightarrow> count_block bs bs (report_of bs (q * bs)) = report_of bs (Suc q * bs)"
  by (simp add: count_block_def report_of_def Let_def)

lemma count_part: "n < bs \<Longrightarrow> count_block bs n (report_of bs (q * bs)) = report_of bs (q * bs + n)"
  by (simp add: count_block_def report_of_def Let_def)

lemma dd_loop_all:
  assumes "0 < bs" and "totalbytes \<le> 0"
  shows "dd_loop bs totalbytes False inp out (report_of bs (q * bs))
    = Inr (out @ inp, report_of bs (q * bs + length inp))"
proof (induction "length inp" arbitrary: inp out q rule: less_induct)
  case less
  show ?case
  proof (cases "length inp < bs")
    case True
    then show ?thesis using assms by (simp add: dd_loop.simps [of _ _ _ inp] dd_loop.simps [of _ _ True] count_part Let_def)
  next
    case False
    then have "dd_loop bs totalbytes False (drop bs inp) (out @ take bs inp) (report_of bs (Suc q * bs))
        = Inr ((out @ take bs inp) @ drop bs inp, report_of bs (Suc q * bs + length (drop bs inp)))"
      using assms by (intro less) auto
    then show ?thesis using False assms by (subst dd_loop.simps) (simp add: count_full Let_def)
  qed
qed

lemma dd_loop_some:
  assumes "0 < bs" and "q \<le> c" and "0 < c"
  shows "dd_loop bs (int (c * bs)) False inp out (report_of bs (q * bs))
    = Inr (out @ take ((c - q) * bs) inp, report_of bs (q * bs + min ((c - q) * bs) (length inp)))"
  using assms(2)
proof (induction "length inp" arbitrary: inp out q rule: less_induct)
  case less
  have bytes: "bytescopy (report_of bs n) = n" for n by (simp add: report_of_def)
  show ?case
  proof (cases "q = c")
    case True
    then show ?thesis using assms by (subst dd_loop.simps) (simp add: bytes)
  next
    case False
    then have lt: "q < c" using less.prems by simp
    then have go: "\<not> (0 < int (c * bs) \<and> int (c * bs) \<le> int (q * bs))" using assms(1) by (simp del: of_nat_mult)
    have ge: "bs \<le> (c - q) * bs" using lt by (cases "c - q") auto
    show ?thesis
    proof (cases "length inp < bs")
      case True
      then have "dd_loop bs (int (c * bs)) True [] (out @ inp) (report_of bs (q * bs + length inp))
          = Inr (out @ inp, report_of bs (q * bs + length inp))"
        by (subst dd_loop.simps) simp
      moreover have "take ((c - q) * bs) inp = inp" "min ((c - q) * bs) (length inp) = length inp"
        using order_trans [OF less_imp_le [OF True] ge] by (simp_all add: min_absorb2)
      ultimately show ?thesis
        using True assms(1) go lt by (subst dd_loop.simps) (simp add: bytes count_part Let_def del: of_nat_mult)
    next
      case False
      have split: "(c - q) * bs = bs + (c - Suc q) * bs" using lt by (metis Suc_diff_Suc mult_Suc)
      have "dd_loop bs (int (c * bs)) False (drop bs inp) (out @ take bs inp) (report_of bs (Suc q * bs))
          = Inr ((out @ take bs inp) @ take ((c - Suc q) * bs) (drop bs inp),
              report_of bs (Suc q * bs + min ((c - Suc q) * bs) (length (drop bs inp))))"
        using False assms(1) lt by (intro less) auto
      moreover have "take bs inp @ take ((c - Suc q) * bs) (drop bs inp) = take ((c - q) * bs) inp"
        unfolding split by (simp add: take_add)
      moreover have "report_of bs (Suc q * bs + min ((c - Suc q) * bs) (length (drop bs inp)))
          = report_of bs (q * bs + min ((c - q) * bs) (length inp))"
        using False unfolding split by (intro arg_cong [of _ _ "report_of bs"]) simp
      ultimately show ?thesis
        using False assms(1) go lt by (subst dd_loop.simps) (simp add: bytes count_full Let_def del: of_nat_mult)
    qed
  qed
qed

lemma dd_copies_stream:
  assumes "0 < blocksize opts"
    and "case inputname opts of None \<Rightarrow> inp = stdin_bytes
      | Some f \<Rightarrow> \<exists>c. fs f = Some c \<and> inp = seek (inputskip opts * blocksize opts) c"
    and "out = (case outputname opts of None \<Rightarrow> [] | Some f \<Rightarrow> (case fs f of None \<Rightarrow> [] | Some c \<Rightarrow> c))"
  shows "dd_main fs stdin_bytes opts
    = Inr (out @ wanted opts inp, report_of (nat (blocksize opts)) (length (wanted opts inp)))"
proof -
  let ?bs = "nat (blocksize opts)" and ?c = "nat (blocknum opts)"
  have zero: "zero_dd = report_of ?bs (0 * ?bs)" by (simp add: zero_dd_def report_of_def)
  have main: "dd_main fs stdin_bytes opts
      = dd_loop ?bs (if blocknum opts < 0 then -1 else blocknum opts * blocksize opts) False inp out (report_of ?bs (0 * ?bs))"
    using assms unfolding zero [symmetric] by (auto simp: dd_main_def Let_def split: option.splits)
  show ?thesis
  proof (cases "0 < blocknum opts")
    case True
    then have "blocknum opts * blocksize opts = int (?c * ?bs)" "nat (blocknum opts * blocksize opts) = ?c * ?bs"
      using assms(1) by (simp_all add: nat_mult_distrib)
    then show ?thesis
      using dd_loop_some [of ?bs 0 ?c inp out] True assms(1) unfolding main
      by (simp add: wanted_def min.commute del: of_nat_mult)
  next
    case False
    then have "(if blocknum opts < 0 then -1 else blocknum opts * blocksize opts) \<le> 0" by simp
    then show ?thesis
      using dd_loop_all [of ?bs _ inp out 0] False assms(1) unfolding main by (simp add: wanted_def)
  qed
qed

lemma dd_copies_stdin:
  "inputname opts = None \<Longrightarrow> 0 < blocksize opts \<Longrightarrow> dd_main fs inp opts
    = Inr ((case outputname opts of None \<Rightarrow> [] | Some f \<Rightarrow> (case fs f of None \<Rightarrow> [] | Some c \<Rightarrow> c)) @ wanted opts inp,
        report_of (nat (blocksize opts)) (length (wanted opts inp)))"
  by (rule dd_copies_stream) simp_all


lemma dd_no_blocksize: "dd_main fs inp (default_options\<lparr>blocksize := 0\<rparr>) = Inl Diverges"
  by (simp add: dd_main_def default_options_def dd_loop.simps zero_dd_def)


text \<open>An option \<open>-c 0\<close> copies everything, and skipping blocks of the output has no effect.\<close>

lemma dd_program_samples:
  "dd_program [(CHR ''b'', ''2''), (CHR ''c'', ''0'')] Map.empty ''abcde'' = Inr (''abcde'', report_of 2 5)"
  "dd_program [(CHR ''o'', ''f''), (CHR ''b'', ''1''), (CHR ''k'', ''1'')] [''f'' \<mapsto> ''xyz''] ''ab'' = Inr (''xyzab'', report_of 1 2)"
proof -
  have n: "strtol ''2'' = 2" "strtol ''1'' = 1" "strtol ''0'' = 0"
    by (simp_all add: strtol_def digits_value_def digit_def)
  show "dd_program [(CHR ''b'', ''2''), (CHR ''c'', ''0'')] Map.empty ''abcde'' = Inr (''abcde'', report_of 2 5)"
    using dd_copies_stdin [of "default_options\<lparr>blocksize := 2, blocknum := 0\<rparr>" Map.empty "''abcde''"]
    by (simp add: dd_program_def parse_option_def n default_options_def wanted_def eval_nat_numeral)
  show "dd_program [(CHR ''o'', ''f''), (CHR ''b'', ''1''), (CHR ''k'', ''1'')] [''f'' \<mapsto> ''xyz''] ''ab'' = Inr (''xyzab'', report_of 1 2)"
    using dd_copies_stdin [of "default_options\<lparr>outputname := Some ''f'', blocksize := 1, outputskip := 1\<rparr>" "[''f'' \<mapsto> ''xyz'']" "''ab''"]
    by (simp add: dd_program_def parse_option_def n default_options_def wanted_def eval_nat_numeral)
qed

end
