(* ===== verification/Launchers.thy ===== *)
theory Launchers
  imports Prelude Complex_Main
begin

text \<open>
  The programs that run another program: \<open>env.c\<close> and \<open>time.c\<close> of \<open>utilities_unleashed\<close>, and
  \<open>final/restart.c\<close>. What \<open>fork\<close> and \<open>waitpid\<close> give is an argument. The function that prints the usage is
  not in the repository: the argument \<open>exits\<close> says whether it exits.
\<close>

section \<open>env.c\<close>

type_synonym environment = "string \<rightharpoonup> string"

datatype env_end = Usage_exit | Change_failed | Execute "string list" environment | Falls_through environment

text \<open>The loop over the characters splits at the first equals sign; without one, key and value are the
  whole string.\<close>

definition split_var :: "string \<Rightarrow> bool \<times> string \<times> string" where
  "split_var str =
     (case dropWhile (\<lambda>c. c \<noteq> CHR ''='') str of
        [] \<Rightarrow> (False, str, str)
      | _ # value \<Rightarrow> (True, takeWhile (\<lambda>c. c \<noteq> CHR ''='') str, value))"

text \<open>\<open>setenv\<close> reads through a value that \<open>getenv\<close> did not find, and fails on an empty name and on one
  with an equals sign.\<close>

definition setenv :: "string \<Rightarrow> string option \<Rightarrow> environment \<Rightarrow> environment option res" where
  "setenv key value e =
     (if key = [] \<or> CHR ''='' \<in> set key then Inr None
      else case value of None \<Rightarrow> Inl Null_deref | Some v \<Rightarrow> Inr (Some (e(key \<mapsto> v))))"

text \<open>What the child does with the arguments behind the name of the program.\<close>

primrec env_child :: "bool \<Rightarrow> environment \<Rightarrow> string list \<Rightarrow> env_end res" where
  "env_child exits e [] = Inr (if exits then Usage_exit else Falls_through e)"
| "env_child exits e (a # as) =
     (if a = ''--'' then
        (if as = [] then (if exits then Inr Usage_exit else Inl Null_deref) else Inr (Execute as e))
      else case split_var a of (found, key, value) \<Rightarrow>
        if \<not> found \<and> exits then Inr Usage_exit
        else rbind (setenv key (if take 1 value = ''%'' then e (drop 1 value) else Some value) e) (\<lambda>r.
          case r of None \<Rightarrow> Inr Change_failed | Some e \<Rightarrow> env_child exits e as))"

text \<open>\<open>main\<close> with what \<open>fork\<close> gives: the parent waits and returns 0 (\<open>None\<close>), the child goes on.\<close>

definition env_main :: "bool \<Rightarrow> environment \<Rightarrow> string list \<Rightarrow> int \<Rightarrow> env_end option res" where
  "env_main exits e argv pid =
     (if length argv < 2 \<and> exits then Inr (Some Usage_exit)
      else if pid < 0 then Inl (Exited 1)
      else if pid > 0 then Inr None
      else rbind (env_child exits e (tl argv)) (\<lambda>r. Inr (Some r)))"

text \<open>An assignment, with a value or with the name of the variable whose value is copied.\<close>

datatype var = Copy string | Literal string

definition text_of :: "string \<times> var \<Rightarrow> string" where
  "text_of a = fst a @ ''='' @ (case snd a of Copy n \<Rightarrow> ''%'' @ n | Literal v \<Rightarrow> v)"

primrec assign :: "environment \<Rightarrow> (string \<times> var) list \<Rightarrow> environment" where
  "assign e [] = e"
| "assign e (a # as) = assign (e(fst a := (case snd a of Copy n \<Rightarrow> e n | Literal v \<Rightarrow> Some v))) as"

primrec well_formed :: "environment \<Rightarrow> (string \<times> var) list \<Rightarrow> bool" where
  "well_formed e [] \<longleftrightarrow> True"
| "well_formed e (a # as) \<longleftrightarrow> fst a \<noteq> [] \<and> CHR ''='' \<notin> set (fst a)
     \<and> (case snd a of Copy n \<Rightarrow> e n \<noteq> None | Literal v \<Rightarrow> take 1 v \<noteq> ''%'')
     \<and> well_formed (e(fst a := (case snd a of Copy n \<Rightarrow> e n | Literal v \<Rightarrow> Some v))) as"

lemma split_var_assignment: "CHR ''='' \<notin> set key \<Longrightarrow> split_var (key @ ''='' @ value) = (True, key, value)"
proof -
  assume k: "CHR ''='' \<notin> set key"
  have "dropWhile (\<lambda>c. c \<noteq> CHR ''='') (key @ ''='' @ value) = ''='' @ value"
    using k by (subst dropWhile_append2) auto
  moreover have "takeWhile (\<lambda>c. c \<noteq> CHR ''='') (key @ ''='' @ value) = key"
    using k by (subst takeWhile_append2) auto
  ultimately show ?thesis unfolding split_var_def by simp
qed

text \<open>The assignments take effect from left to right, so that a copied value can be one that was just
  assigned, and the words behind the two dashes are run in the resulting environment.\<close>

theorem env_runs:
  assumes "well_formed e as" and "cmd \<noteq> []"
  shows "env_child exits e (map text_of as @ ''--'' # cmd) = Inr (Execute cmd (assign e as))"
  using assms(1)
proof (induction as arbitrary: e)
  case Nil
  then show ?case using assms(2) by simp
next
  case (Cons a as)
  obtain key v where a: "a = (key, v)" by (cases a)
  let ?e = "e(key := (case v of Copy n \<Rightarrow> e n | Literal v \<Rightarrow> Some v))"
  have key: "key \<noteq> []" "CHR ''='' \<notin> set key" using Cons.prems a by simp_all
  have split: "split_var (text_of (key, v)) = (True, key, case v of Copy n \<Rightarrow> ''%'' @ n | Literal v \<Rightarrow> v)" for v
    using split_var_assignment [OF key(2)] by (simp add: text_of_def)
  have "CHR ''='' \<in> set (text_of a)" by (simp add: text_of_def)
  then have "text_of a \<noteq> ''--''" by auto
  moreover have "env_child exits ?e (map text_of as @ ''--'' # cmd) = Inr (Execute cmd (assign ?e as))"
    using Cons.prems unfolding a by (intro Cons.IH) (simp only: well_formed.simps fst_conv snd_conv)
  ultimately show ?case
    using Cons.prems key a by (cases v) (auto simp: split setenv_def)
qed

section \<open>time.c and restart.c\<close>

text \<open>How one run of the other program comes out: \<open>fork\<close> or \<open>waitpid\<close> fails, it exits, or a signal ends
  it.\<close>

datatype ending = Fork_failed | Wait_failed | Exits int | Signalled int

text \<open>\<open>time\<close> shows the duration only after success. A time is seconds and nanoseconds; the rounding of the
  \<open>double\<close> is left out.\<close>

definition duration :: "int \<times> int \<Rightarrow> int \<times> int \<Rightarrow> rat" where
  "duration start end' =
     (let d = of_int (fst end' - fst start) * 10 ^ 9
      in (d + of_int (snd end' - snd start)) / 10 ^ 9)"

definition time_main :: "nat \<Rightarrow> int \<times> int \<Rightarrow> ending \<Rightarrow> int \<times> int \<Rightarrow> int \<times> rat option" where
  "time_main argc start r end' =
     (if argc < 2 then (1, None)
      else case r of
        Fork_failed \<Rightarrow> (1, None)
      | Exits n \<Rightarrow> (0, if n = 0 then Some (duration start end') else None)
      | _ \<Rightarrow> (0, None))"

text \<open>What is shown is the number of nanoseconds between the two times, in seconds.\<close>

theorem time_shows:
  assumes "2 \<le> argc"
  shows "time_main argc (s, n) (Exits 0) (s', n') = (0, Some (of_int ((10 ^ 9 * s' + n') - (10 ^ 9 * s + n)) / 10 ^ 9))"
  using assms by (simp add: time_main_def duration_def Let_def algebra_simps)

definition SIGSEGV :: int where "SIGSEGV = 11"

text \<open>\<open>restart\<close> over the outcomes of the runs to come: what it returns and how many runs there were.\<close>

primrec restart_loop :: "ending list \<Rightarrow> nat \<Rightarrow> (int \<times> nat) res" where
  "restart_loop [] n = Inl Out_of_fuel"
| "restart_loop (r # rs) n =
     (case r of
        Fork_failed \<Rightarrow> Inr (1, n)
      | Wait_failed \<Rightarrow> Inr (1, n + 1)
      | Exits st \<Rightarrow> Inr (st, n + 1)
      | Signalled sg \<Rightarrow> if sg = SIGSEGV then restart_loop rs (n + 1) else Inr (1, n + 1))"

definition restart_main :: "nat \<Rightarrow> ending list \<Rightarrow> (int \<times> nat) res" where
  "restart_main argc rs = (if argc < 2 then Inr (1, 0) else restart_loop rs 0)"

text \<open>The handler of SIGINT: the processes it kills, and the exit status.\<close>

definition restart_handler :: "int \<Rightarrow> int list \<times> int" where
  "restart_handler child_pid = (if child_pid \<noteq> -1 then [child_pid] else [], 1)"

lemma restart_loop_crashes: "restart_loop (replicate k (Signalled SIGSEGV) @ rs) n = restart_loop rs (n + k)"
  by (induction k arbitrary: n) auto

text \<open>The program is run again exactly as often as it ends in a segmentation fault; then its exit
  status is returned, or 1 when it ended otherwise.\<close>

theorem restart_until_exit:
  assumes "2 \<le> argc" and "r \<noteq> Signalled SIGSEGV"
  shows "restart_main argc (replicate k (Signalled SIGSEGV) @ r # rs)
    = Inr (case r of Exits st \<Rightarrow> st | _ \<Rightarrow> 1, k + (if r = Fork_failed then 0 else 1))"
  using assms restart_loop_crashes [of k "r # rs" 0] by (cases r) (auto simp: restart_main_def)

lemma env_runs_witness:
  "env_child True [''HOME'' \<mapsto> ''/r''] (map text_of [(''A'', Copy ''HOME''), (''B'', Copy ''A'')] @ ''--'' # [''ls''])
    = Inr (Execute [''ls''] (assign [''HOME'' \<mapsto> ''/r''] [(''A'', Copy ''HOME''), (''B'', Copy ''A'')]))"
  by (rule env_runs) simp_all

lemma restart_until_exit_witness:
  "restart_main 2 (replicate 3 (Signalled SIGSEGV) @ Exits 7 # []) = Inr (7, 4)"
  using restart_until_exit [of 2 "Exits 7" 3 "[]"] by simp

end
