(* ===== verification/Mapreduce.thy ===== *)
theory Mapreduce
  imports Prelude
begin

text \<open>
  The processes and pipes of \<open>mapreduce/mapreduce.c\<close>. Every end of a pipe is opened to be closed by
  \<open>exec\<close>; what \<open>dup2\<close> puts on the standard input and output of a child stays open. So a child that has
  started its program holds just those ends. Pipe \<open>i\<close> goes into mapper \<open>i\<close>, pipe \<open>n\<close> into the reducer.
\<close>

section \<open>The code\<close>

datatype pipe_end = Rd nat | Wr nat

datatype proc = Parent | Splitter nat | Mapper nat | Reducer

record mr =
  held :: "proc \<Rightarrow> pipe_end list"
  children :: "proc list"

definition pipes :: "nat \<Rightarrow> pipe_end list" where
  "pipes n = concat (map (\<lambda>i. [Rd i, Wr i]) [0 ..< n])"

text \<open>\<open>fork\<close> of a child that puts the given ends on its standard input and output and runs a program.\<close>

definition fork_child :: "proc \<Rightarrow> pipe_end list \<Rightarrow> mr \<Rightarrow> mr" where
  "fork_child p std s = s\<lparr>held := (held s)(p := std), children := children s @ [p]\<rparr>"

definition close_end :: "pipe_end \<Rightarrow> mr \<Rightarrow> mr" where
  "close_end e s = s\<lparr>held := (held s)(Parent := removeAll e (held s Parent))\<rparr>"

definition start_splitters :: "nat \<Rightarrow> mr \<Rightarrow> mr" where
  "start_splitters n s = fold (\<lambda>i s. close_end (Wr i) (fork_child (Splitter i) [Wr i] s)) [0 ..< n] s"

definition start_mappers :: "nat \<Rightarrow> mr \<Rightarrow> mr" where
  "start_mappers n s = fold (\<lambda>i s. fork_child (Mapper i) [Rd i, Wr n] s) [0 ..< n] s"

definition start_all :: "nat \<Rightarrow> mr" where
  "start_all n =
     (let s = \<lparr>held = (\<lambda>p. if p = Parent then pipes n @ [Rd n, Wr n] else []), children = []\<rparr>;
          s = start_mappers n (start_splitters n s);
          s = close_end (Wr n) s
      in fork_child Reducer [Rd n] s)"

text \<open>Waiting: a child that exits with a status that is not 0 is reported, one that a signal ended is not.
  The order is that of the calls of \<open>waitpid\<close>.\<close>

definition report_status :: "(proc \<Rightarrow> int option) \<Rightarrow> proc \<Rightarrow> (proc \<times> int) list" where
  "report_status status p = (case status p of None \<Rightarrow> [] | Some n \<Rightarrow> if n \<noteq> 0 then [(p, n)] else [])"

definition wait_all :: "nat \<Rightarrow> (proc \<Rightarrow> int option) \<Rightarrow> (proc \<times> int) list" where
  "wait_all n status =
     concat (map (\<lambda>i. report_status status (Splitter i) @ report_status status (Mapper i)) [0 ..< n])
     @ report_status status Reducer"

definition mapreduce_main :: "nat \<Rightarrow> int \<Rightarrow> (proc \<Rightarrow> int option) \<Rightarrow> (mr \<times> (proc \<times> int) list) res" where
  "mapreduce_main argc num_map status =
     rbind (guard (argc = 6 \<and> num_map \<noteq> 0) (Exited 1)) (\<lambda>_.
     rbind (guard (0 < num_map) Bad_access) (\<lambda>_.
       Inr (start_all (nat num_map), wait_all (nat num_map) status)))"

section \<open>Every process ends\<close>

text \<open>
  A program of the pipeline ends when what it reads from ends, that is, when every process that holds
  the other end of its input has ended; the parent ends when its children have.
\<close>

inductive ends :: "mr \<Rightarrow> proc \<Rightarrow> bool" for s where
  child_ends: "p \<noteq> Parent \<Longrightarrow> (\<And>k q. Rd k \<in> set (held s p) \<Longrightarrow> Wr k \<in> set (held s q) \<Longrightarrow> ends s q) \<Longrightarrow> ends s p"
| parent_ends: "(\<And>p. p \<in> set (children s) \<Longrightarrow> ends s p) \<Longrightarrow> ends s Parent"

lemma set_pipes: "set (pipes n) = Rd ` {..<n} \<union> Wr ` {..<n}"
  by (auto simp: pipes_def)

lemma splitters_held:
  "set (held (start_splitters n s) p) = (case p of
     Parent \<Rightarrow> set (held s Parent) - Wr ` {..<n}
   | Splitter i \<Rightarrow> if i < n then {Wr i} else set (held s p)
   | _ \<Rightarrow> set (held s p))"
  "set (children (start_splitters n s)) = set (children s) \<union> Splitter ` {..<n}"
  unfolding start_splitters_def
  by (induction n) (auto simp: fork_child_def close_end_def lessThan_Suc split: proc.splits if_splits)

lemma mappers_held:
  "set (held (fold (\<lambda>i s. fork_child (Mapper i) [Rd i, Wr n] s) [0 ..< m] s) p) = (case p of
     Mapper i \<Rightarrow> if i < m then {Rd i, Wr n} else set (held s p)
   | _ \<Rightarrow> set (held s p))"
  "set (children (fold (\<lambda>i s. fork_child (Mapper i) [Rd i, Wr n] s) [0 ..< m] s)) = set (children s) \<union> Mapper ` {..<m}"
  by (induction m) (auto simp: fork_child_def lessThan_Suc split: proc.splits if_splits)

text \<open>Who holds what when all have started.\<close>

lemma start_all_held:
  "set (held (start_all n) p) = (case p of
     Parent \<Rightarrow> Rd ` {..n}
   | Splitter i \<Rightarrow> if i < n then {Wr i} else {}
   | Mapper i \<Rightarrow> if i < n then {Rd i, Wr n} else {}
   | Reducer \<Rightarrow> {Rd n})"
  unfolding start_all_def start_mappers_def Let_def
  by (cases p) (auto simp: fork_child_def close_end_def splitters_held mappers_held set_pipes)

lemma start_all_children: "set (children (start_all n)) = Splitter ` {..<n} \<union> Mapper ` {..<n} \<union> {Reducer}"
  unfolding start_all_def start_mappers_def Let_def
  by (auto simp: fork_child_def close_end_def splitters_held mappers_held)


text \<open>The parent keeps the ends for reading: when a mapper dies, its splitter is not told that nobody reads
  any more, and blocks when the pipe is full.\<close>

lemma parent_keeps_reading: "i < n \<Longrightarrow> Rd i \<in> set (held (start_all n) Parent)"
  by (simp add: start_all_held)


end
