(* ===== verification/Shell_Ps.thy ===== *)
theory Shell_Ps
  imports Shell
begin

text \<open>
  The start of the shell (the options of \<open>shell/shell.c\<close>) and what \<open>ps\<close> reads from \<open>/proc\<close>.

  The files under \<open>/proc\<close> are an argument, a map from names to contents, as is the number of clock ticks
  in a second. \<open>getopt\<close> is given by the options it returns. The functions that print times are not in the
  repository: a time is given in seconds, the time of use by the minutes and seconds that are printed.
\<close>

section \<open>Reading numbers\<close>

definition space_char :: "char \<Rightarrow> bool" where
  "space_char c \<longleftrightarrow> c = CHR '' '' \<or> (9 \<le> (of_char c :: nat) \<and> (of_char c :: nat) \<le> 13)"

text \<open>\<open>fscanf\<close> with the conversions for a number, for a word and for a character behind a space: the values
  that it reads until a conversion fails.\<close>

datatype conv = Num | Word | Chr

datatype scanned = N int | W string | C char

fun sign_of :: "string \<Rightarrow> int \<times> string" where
  "sign_of (c # r) = (if c = CHR ''-'' then (-1, r) else if c = CHR ''+'' then (1, r) else (1, c # r))"
| "sign_of [] = (1, [])"

fun scanf :: "conv list \<Rightarrow> string \<Rightarrow> scanned list" where
  "scanf [] s = []"
| "scanf (Num # cs) s =
     (case sign_of (dropWhile space_char s) of (sg, r) \<Rightarrow>
        if takeWhile digit r = [] then [] else N (sg * digits_value r) # scanf cs (dropWhile digit r))"
| "scanf (Word # cs) s =
     (let r = dropWhile space_char s
      in if r = [] then [] else W (takeWhile (\<lambda>c. \<not> space_char c) r) # scanf cs (dropWhile (\<lambda>c. \<not> space_char c) r))"
| "scanf (Chr # cs) s =
     (case dropWhile space_char s of [] \<Rightarrow> [] | c # r \<Rightarrow> C c # scanf cs r)"

definition stat_format :: "conv list" where
  "stat_format = [Num, Word, Chr] @ replicate 20 Num"

section \<open>info\<close>

record process_info =
  info_pid :: int
  info_command :: string
  state :: char
  nthreads :: int
  vsize :: int
  start_seconds :: int
  used_min :: int
  used_sec :: int

fun nat_string :: "nat \<Rightarrow> string" where
  "nat_string n = (if n < 10 then [char_of (48 + n)] else nat_string (n div 10) @ [char_of (48 + n mod 10)])"

declare nat_string.simps [simp del]

definition int_string :: "int \<Rightarrow> string" where
  "int_string n = (if n < 0 then ''-'' @ nat_string (nat (- n)) else nat_string (nat n))"

fun getlines :: "string \<Rightarrow> string list" where
  "getlines [] = []"
| "getlines (c # s) =
     (if c = newline then [newline] # getlines s
      else case getlines s of [] \<Rightarrow> [[c]] | l # ls \<Rightarrow> (c # l) # ls)"

text \<open>The loop over \<open>/proc/stat\<close>; \<open>strtoll\<close> behind the word and one character.\<close>

definition strtoll :: "string \<Rightarrow> int" where
  "strtoll s = (case sign_of (dropWhile space_char s) of (sg, r) \<Rightarrow> max (- (2 ^ 63)) (min (2 ^ 63 - 1) (sg * digits_value r)))"

primrec find_btime :: "string list \<Rightarrow> int" where
  "find_btime [] = 0"
| "find_btime (l # ls) = (if take 5 l = ''btime'' then strtoll (drop 6 l) else find_btime ls)"

text \<open>Values of the unsigned types are what is left modulo \<open>2 ^ 64\<close>.\<close>

definition as_ulong :: "int \<Rightarrow> nat" where
  "as_ulong n = nat (n mod 2 ^ 64)"

text \<open>\<open>info\<close>: \<open>None\<close> is \<open>NULL\<close>. When \<open>/proc/stat\<close> cannot be opened, the wrong stream is tested and
  \<open>getline\<close> gets \<open>NULL\<close>; when a conversion fails, the variables behind it are read without a value.\<close>

definition info :: "(string \<rightharpoonup> string) \<Rightarrow> nat \<Rightarrow> process \<Rightarrow> process_info option res" where
  "info proc_fs clk_tck proc =
     (case proc_fs (''/proc/'' @ int_string (int32 (pid proc)) @ ''/stat'') of
        None \<Rightarrow> Inr None
      | Some stat \<Rightarrow>
          (case proc_fs ''/proc/stat'' of
             None \<Rightarrow> Inl Null_deref
           | Some statboot \<Rightarrow>
               let boottime = as_ulong (find_btime (getlines statboot)); v = scanf stat_format stat
               in if length v < 23 then Inl Bad_access
                  else (case (v ! 0, v ! 2, v ! 13, v ! 14, v ! 19, v ! 21, v ! 22) of
                     (N p, C st, N utime, N stime, N threads, N starttime, N vs) \<Rightarrow>
                       let starttime = signed64 (w64 (as_ulong starttime div clk_tck + boottime));
                           usetime = signed64 (w64 (as_ulong utime + as_ulong stime) div clk_tck)
                       in Inr (Some \<lparr>info_pid = int32 p, info_command = command proc, state = st, nthreads = threads,
                            vsize = int (as_ulong vs div 1024), start_seconds = starttime,
                            used_min = usetime div 60 mod 60, used_sec = usetime mod 60\<rparr>)
                   | _ \<Rightarrow> Inl Bad_access)))"

text \<open>\<open>destroy_info\<close> reads the struct it is given.\<close>

definition destroy_info :: "process_info option \<Rightarrow> unit res" where
  "destroy_info p = (case p of None \<Rightarrow> Inl Null_deref | Some _ \<Rightarrow> Inr ())"

primrec ps_infos :: "(string \<rightharpoonup> string) \<Rightarrow> nat \<Rightarrow> (nat \<rightharpoonup> process) \<Rightarrow> nat list \<Rightarrow> process_info list res" where
  "ps_infos proc_fs clk_tck m [] = Inr []"
| "ps_infos proc_fs clk_tck m (p # ps) =
     rbind (ld_proc m p) (\<lambda>x.
     rbind (info proc_fs clk_tck x) (\<lambda>i.
     rbind (destroy_info i) (\<lambda>_.
     rbind (ps_infos proc_fs clk_tck m ps) (\<lambda>is. Inr (the i # is)))))"

section \<open>The options of the shell\<close>

text \<open>The names of the history file and of the script; the buffer for the command line has 800 bytes.\<close>

primrec shell_options :: "(char \<times> string) list \<Rightarrow> string option \<Rightarrow> string option \<Rightarrow> (string option \<times> string option) res" where
  "shell_options [] h f = Inr (h, f)"
| "shell_options (x # xs) h f =
     (case x of (opt, optarg) \<Rightarrow>
        if opt = CHR ''h'' then shell_options xs (Some optarg) f
        else if opt = CHR ''f'' then shell_options xs h (Some optarg)
        else Inl (Exited 1))"

definition shell_main :: "'w os \<Rightarrow> (string \<Rightarrow> string option) \<Rightarrow> (string \<Rightarrow> string list option) \<Rightarrow> (char \<times> string) list
    \<Rightarrow> string list \<Rightarrow> string list \<Rightarrow> int \<Rightarrow> nat \<Rightarrow> 'w \<Rightarrow> 'w sh res" where
  "shell_main os open_hist script opts argv stdin_lines self p w =
     rbind (shell_options opts None None) (\<lambda>(h, f).
     rbind (guard (length (concat argv) < 800) Bad_access) (\<lambda>_.
       shell os open_hist script h f stdin_lines (concat argv) self p w))"

section \<open>Printed numbers are read back\<close>

lemma digit_iff: "digit c \<longleftrightarrow> 48 \<le> (of_char c :: nat) \<and> (of_char c :: nat) \<le> 57"
  by (simp add: digit_def)

lemma of_char_digit [simp]: "n < 10 \<Longrightarrow> (of_char (char_of (48 + n) :: char) :: nat) = 48 + n"
  by simp

lemma of_char_digit_int [simp]: "n < 10 \<Longrightarrow> (of_char (char_of (48 + n) :: char) :: int) = 48 + int n"
  using of_char_digit [of n] by (metis of_nat_add of_nat_numeral of_nat_of_char)

lemma digit_char [simp]: "n < 10 \<Longrightarrow> digit (char_of (48 + n :: nat))"
  by (simp add: digit_iff)

lemma nat_string_digits: "c \<in> set (nat_string n) \<Longrightarrow> digit c"
proof (induction n rule: nat_string.induct)
  case (1 n)
  then show ?case by (subst (asm) (2) nat_string.simps) (auto split: if_splits)
qed

lemma nat_string_not_Nil [simp]: "nat_string n \<noteq> []"
  by (subst nat_string.simps) simp

lemma digit_not_space: "digit c \<Longrightarrow> \<not> space_char c \<and> c \<noteq> CHR ''-'' \<and> c \<noteq> CHR ''+''"
  by (auto simp: digit_iff space_char_def)

lemma nat_string_value: "foldl (\<lambda>n c. 10 * n + (of_char c - 48)) 0 (nat_string n) = int n"
proof (induction n rule: nat_string.induct)
  case (1 n)
  have "int n = int (10 * (n div 10) + n mod 10)" by (simp only: mult_div_mod_eq)
  then have "10 * int (n div 10) + int (n mod 10) = int n" by (simp only: of_nat_add of_nat_mult of_nat_numeral)
  then show ?case using 1 by (subst nat_string.simps) (simp del: of_char_of)
qed

text \<open>Where a number ends.\<close>

definition ends :: "string \<Rightarrow> bool" where
  "ends s \<longleftrightarrow> (case s of [] \<Rightarrow> True | c # _ \<Rightarrow> \<not> digit c)"

lemma take_nat_string: "ends s \<Longrightarrow> takeWhile digit (nat_string n @ s) = nat_string n \<and> dropWhile digit (nat_string n @ s) = s"
  using nat_string_digits by (cases s) (auto simp: ends_def takeWhile_append dropWhile_append)

lemma digits_value_string: "ends s \<Longrightarrow> digits_value (nat_string n @ s) = int n"
  using take_nat_string nat_string_value by (simp add: digits_value_def)

lemma nat_string_start: "\<exists>c r. nat_string n = c # r \<and> digit c"
  using nat_string_digits [of _ n] by (cases "nat_string n") auto

lemma scan_int: "ends s \<Longrightarrow> scanf (Num # cs) (int_string n @ s) = N n # scanf cs s"
proof -
  assume s: "ends s"
  obtain c r where c: "nat_string (nat n) = c # r" "digit c" using nat_string_start by blast
  note sp = digit_not_space [OF c(2)]
  show ?thesis
  proof (cases "n < 0")
    case True
    have "\<not> space_char CHR ''-''" by (simp add: space_char_def)
    then show ?thesis using True take_nat_string [OF s, of "nat (- n)"] digits_value_string [OF s, of "nat (- n)"]
      by (simp add: int_string_def)
  next
    case False
    have "sign_of (dropWhile space_char (nat_string (nat n) @ s)) = (1, nat_string (nat n) @ s)"
      using sp by (simp add: c(1))
    then show ?thesis using False take_nat_string [OF s, of "nat n"] digits_value_string [OF s, of "nat n"]
      by (simp add: int_string_def)
  qed
qed

lemma scan_space_int: "ends s \<Longrightarrow> scanf (Num # cs) (CHR '' '' # int_string n @ s) = N n # scanf cs s"
  using scan_int [of s cs n] by (simp add: space_char_def)

definition spaced :: "int list \<Rightarrow> string" where
  "spaced xs = concat (map (\<lambda>n. CHR '' '' # int_string n) xs) @ [newline]"

lemma ends_spaced: "ends (spaced xs)"
  by (cases xs) (simp_all add: ends_def spaced_def digit_iff newline_def)

lemma scan_numbers: "scanf (replicate (length xs) Num) (spaced xs) = map N xs"
proof (induction xs)
  case (Cons n xs)
  have "spaced (n # xs) = CHR '' '' # int_string n @ spaced xs" by (simp add: spaced_def)
  then show ?case using scan_space_int [OF ends_spaced] Cons.IH by (simp del: scanf.simps)
qed (simp add: spaced_def)

text \<open>A line of \<open>/proc/<pid>/stat\<close>: the pid, the name of the program in parentheses, the state, and numbers.\<close>

definition stat_line :: "int \<Rightarrow> string \<Rightarrow> char \<Rightarrow> int list \<Rightarrow> string" where
  "stat_line p name st xs = int_string p @ '' ('' @ name @ '') '' @ [st] @ spaced xs"

lemma scan_stat_line:
  assumes "\<forall>c\<in>set name. \<not> space_char c" and "\<not> space_char st" and "length xs = 20"
  shows "scanf stat_format (stat_line p name st xs) = N p # W (''('' @ name @ '')'') # C st # map N xs"
proof -
  let ?w = "''('' @ name @ '')''"
  have sp: "space_char CHR '' ''" "\<not> space_char CHR ''(''" "\<not> space_char CHR '')''" by (simp_all add: space_char_def)
  have "scanf stat_format (stat_line p name st xs)
      = N p # scanf ([Word, Chr] @ replicate 20 Num) ('' '' @ ?w @ '' '' @ [st] @ spaced xs)"
    unfolding stat_format_def stat_line_def using scan_int [of "'' '' @ ?w @ '' '' @ [st] @ spaced xs"]
    by (simp del: scanf.simps add: ends_def digit_iff)
  also have "scanf ([Word, Chr] @ replicate 20 Num) ('' '' @ ?w @ '' '' @ [st] @ spaced xs)
      = W ?w # scanf ([Chr] @ replicate 20 Num) ('' '' @ [st] @ spaced xs)"
    using assms(1) sp by (simp add: takeWhile_append dropWhile_append)
  also have "scanf ([Chr] @ replicate 20 Num) ('' '' @ [st] @ spaced xs) = C st # scanf (replicate 20 Num) (spaced xs)"
    using assms(2) sp by simp
  also have "scanf (replicate 20 Num) (spaced xs) = map N xs" using scan_numbers [of xs] assms(3) by simp
  finally show ?thesis .
qed

section \<open>The properties\<close>

text \<open>From a line of the kernel \<open>info\<close> takes the fields 1, 3, 14, 15, 20, 22 and 23, if the name of
  the program has no space in it.\<close>

theorem info_reads:
  assumes "fs (''/proc/'' @ int_string (int32 (pid p)) @ ''/stat'') = Some (stat_line n name st xs)"
    and "fs ''/proc/stat'' = Some boot" and "\<forall>c\<in>set name. \<not> space_char c" and "\<not> space_char st" and "length xs = 20"
  shows "\<exists>i. info fs tck p = Inr (Some i) \<and> info_pid i = int32 n \<and> info_command i = command p \<and> state i = st
    \<and> nthreads i = xs ! 16 \<and> vsize i = int (as_ulong (xs ! 19) div 1024)
    \<and> start_seconds i = signed64 (w64 (as_ulong (xs ! 18) div tck + as_ulong (find_btime (getlines boot))))
    \<and> used_sec i = signed64 (w64 (as_ulong (xs ! 10) + as_ulong (xs ! 11)) div tck) mod 60"
  using assms(1,2) scan_stat_line [OF assms(3-5), of n] assms(5) by (simp add: info_def Let_def nth_Cons')

lemma info_reads_witness:
  "\<exists>i. info [''/proc/7/stat'' \<mapsto> stat_line 7 ''sh'' CHR ''S'' (replicate 16 3 @ [1, 0, 200, 4096]), ''/proc/stat'' \<mapsto> ''btime 9'']
       100 \<lparr>command = ''sh'', pid = 7\<rparr> = Inr (Some i) \<and> nthreads i = 1 \<and> vsize i = 4"
proof -
  let ?p = "\<lparr>command = ''sh'', pid = 7\<rparr>" and ?xs = "replicate 16 3 @ [1, 0, 200, 4096]"
  let ?fs = "[''/proc/7/stat'' \<mapsto> stat_line 7 ''sh'' CHR ''S'' ?xs, ''/proc/stat'' \<mapsto> ''btime 9'']"
  have s: "int_string (int32 7) = ''7''" "as_ulong 4096 = 4096" by code_simp+
  have "\<exists>i. info ?fs 100 ?p = Inr (Some i) \<and> info_pid i = int32 7 \<and> info_command i = command ?p \<and> state i = CHR ''S''
      \<and> nthreads i = ?xs ! 16 \<and> vsize i = int (as_ulong (?xs ! 19) div 1024)
      \<and> start_seconds i = signed64 (w64 (as_ulong (?xs ! 18) div 100 + as_ulong (find_btime (getlines ''btime 9''))))
      \<and> used_sec i = signed64 (w64 (as_ulong (?xs ! 10) + as_ulong (?xs ! 11)) div 100) mod 60"
    by (rule info_reads [where name = "''sh''"]) (simp_all add: s space_char_def)
  then show ?thesis using s by (auto simp: nth_append)
qed

text \<open>A space in the name of the program shifts the conversions, and all variables behind it have no value.\<close>

theorem info_space_in_name:
  "info [''/proc/7/stat'' \<mapsto> stat_line 7 ''a b'' CHR ''S'' (replicate 20 3), ''/proc/stat'' \<mapsto> ''btime 9''] 100
     \<lparr>command = ''a'', pid = 7\<rparr> = Inl Bad_access"
  by code_simp

text \<open>A process that is gone has no file: \<open>info\<close> gives \<open>NULL\<close>, which \<open>ps\<close> hands on.\<close>

theorem ps_process_gone:
  assumes "m p = Some x" and "fs (''/proc/'' @ int_string (int32 (pid x)) @ ''/stat'') = None"
  shows "ps_infos fs tck m (p # ps) = Inl Null_deref"
  using assms by (simp add: info_def destroy_info_def ld_proc_def)

text \<open>The option given last counts, and any other option ends the shell.\<close>

theorem shell_options_last:
  "shell_options xs h f =
     (if list_all (\<lambda>x. fst x = CHR ''h'' \<or> fst x = CHR ''f'') xs
      then Inr (case rev (filter (\<lambda>x. fst x = CHR ''h'') xs) of [] \<Rightarrow> h | x # _ \<Rightarrow> Some (snd x),
                case rev (filter (\<lambda>x. fst x = CHR ''f'') xs) of [] \<Rightarrow> f | x # _ \<Rightarrow> Some (snd x))
      else Inl (Exited 1))"
  by (induction xs arbitrary: h f) (auto split: list.splits)

end
