(* ===== verification/Pointers.thy ===== *)
theory Pointers
  imports Shell_Ps "HOL-Library.Word" Complex_Main
begin

text \<open>
  The exercises of \<open>perilous_pointers/part1-functions.c\<close>. A function that prints gives the line that it
  prints. A \<open>float\<close> is the rational number it stands for; \<open>to_float\<close> rounds to 24 binary digits, the half
  way to even, which is what a conversion or a division does for the numbers that occur here.
\<close>

unbundle bit_operations_syntax

section \<open>Rounding\<close>

definition half_even :: "rat \<Rightarrow> int" where
  "half_even x =
     (let n = \<lfloor>x\<rfloor>; r = x - of_int n
      in if r < 1 / 2 then n else if r > 1 / 2 then n + 1 else if even n then n else n + 1)"

text \<open>Scaling by powers of two until the number has 24 binary digits; \<open>s\<close> is the factor so far. Numbers
  between \<open>2 ^ -200\<close> and \<open>2 ^ 200\<close> need no more than 230 steps.\<close>

primrec scale :: "nat \<Rightarrow> rat \<Rightarrow> rat \<Rightarrow> rat \<times> rat" where
  "scale 0 x s = (x, s)"
| "scale (Suc k) x s =
     (if \<bar>x\<bar> < 2 ^ 23 then scale k (2 * x) (s / 2)
      else if 2 ^ 24 \<le> \<bar>x\<bar> then scale k (x / 2) (2 * s) else (x, s))"

definition to_float :: "rat \<Rightarrow> rat" where
  "to_float x = (if x = 0 then 0 else case scale 230 x 1 of (y, s) \<Rightarrow> of_int (half_even y) * s)"

section \<open>The functions\<close>

datatype line =
    Line string
  | Passed rat
  | Not_passed string
  | Equals int rat
  | Numbers "rat list"
  | Integers "int list"
  | Radius rat
  | Cleared "64 word"
  | Final_state int

text \<open>\<open>sscanf\<close> with \<open>%f\<close> for decimal numbers: a sign, digits with a point, and an exponent. Infinities, \<open>nan\<close>
  and hexadecimal numbers are left out. It sets nothing when there is no number.\<close>

definition exponent :: "string \<Rightarrow> int" where
  "exponent s =
     (case s of
        [] \<Rightarrow> 0
      | c # r \<Rightarrow>
          if c = CHR ''e'' \<or> c = CHR ''E'' then (case sign_of r of (sg, r) \<Rightarrow> sg * digits_value r) else 0)"

definition scan_float :: "string \<Rightarrow> rat option" where
  "scan_float s =
     (case sign_of (dropWhile space_char s) of (sg, r) \<Rightarrow>
        let whole = takeWhile digit r; r = dropWhile digit r;
            point = (r \<noteq> [] \<and> hd r = CHR ''.'');
            frac = (if point then takeWhile digit (tl r) else []);
            r = (if point then dropWhile digit (tl r) else r);
            ex = exponent r - int (length frac);
            m = of_int (sg * digits_value (whole @ frac))
        in if whole = [] \<and> frac = [] then None
           else Some (to_float (if 0 \<le> ex then m * 10 ^ nat ex else m / 10 ^ nat (- ex))))"

text \<open>\<open>junk\<close> is what the variable held before.\<close>

definition one :: "rat \<Rightarrow> string \<Rightarrow> line" where
  "one junk grade =
     (let numeric_grade = (case scan_float grade of None \<Rightarrow> junk | Some x \<Rightarrow> x)
      in if numeric_grade > 70 then Passed numeric_grade else Not_passed grade)"

definition two :: "line" where
  "two = Integers [4]"

definition three :: "int \<Rightarrow> int \<Rightarrow> line" where
  "three x y = (if x = y then Line ''x and y are equal.'' else Line ''x and y are different.'')"

text \<open>\<open>malloc\<close> gives the address of the \<open>float\<close>, or none.\<close>

definition four :: "nat option \<Rightarrow> int \<Rightarrow> (line \<times> nat \<times> rat) res" where
  "four p x =
     (case p of None \<Rightarrow> Inl Null_deref | Some a \<Rightarrow> Inr (Equals x (to_float (of_int x)), a, to_float (of_int x)))"

definition isalpha :: "char \<Rightarrow> bool" where
  "isalpha c \<longleftrightarrow> (65 \<le> (of_char c :: nat) \<and> (of_char c :: nat) \<le> 90) \<or> (97 \<le> (of_char c :: nat) \<and> (of_char c :: nat) \<le> 122)"

text \<open>The first character of a C string is its zero when the string is empty.\<close>

definition five :: "string \<Rightarrow> line" where
  "five a =
     (if isalpha (case a of [] \<Rightarrow> CHR 0x00 | c # _ \<Rightarrow> c) then Line ''a is a letter.'' else Line ''a is not a letter.'')"

text \<open>\<open>strcpy\<close> and \<open>strcat\<close> into an array of \<open>n\<close> characters, with the zero at the end.\<close>

definition strcpy :: "nat \<Rightarrow> string \<Rightarrow> string res" where
  "strcpy n s = rbind (guard (length s + 1 \<le> n) Bad_access) (\<lambda>_. Inr s)"

definition strcat :: "nat \<Rightarrow> string \<Rightarrow> string \<Rightarrow> string res" where
  "strcat n dest s = rbind (guard (length dest + length s + 1 \<le> n) Bad_access) (\<lambda>_. Inr (dest @ s))"

definition six :: "string \<Rightarrow> line res" where
  "six str = rbind (strcpy 20 ''Hello '') (\<lambda>dest. rbind (strcat 20 dest str) (\<lambda>dest. Inr (Line dest)))"

definition seven :: "line" where
  "seven = Numbers (map (\<lambda>i. to_float (to_float (of_nat i) / to_float 10)) [0 ..< 10])"

definition eight_values :: "int \<Rightarrow> int list list" where
  "eight_values a = map (\<lambda>i. map (\<lambda>j. int32 (int i * int j * a)) [0 ..< 10]) [0 ..< 10]"

definition eight :: "int \<Rightarrow> line" where
  "eight a = Integers (map (\<lambda>i. eight_values a ! i ! i) [0 ..< 10])"

definition nine :: "string \<Rightarrow> line" where
  "nine s =
     (if s = ''blue'' then Line ''Orange and BLUE!''
      else if s = ''orange'' then Line ''ORANGE and blue!''
      else Line ''orange and blue!'')"

definition ten :: "int \<Rightarrow> line" where
  "ten d = Radius (to_float (to_float (of_int d) / to_float 2))"

definition clear_bits :: "64 word \<Rightarrow> 64 word \<Rightarrow> line" where
  "clear_bits v flag = Cleared (v AND (NOT (v AND flag)))"

text \<open>The loop walks over the string; \<open>transition\<close> is the function that is passed.\<close>

fun automaton_loop :: "(int \<Rightarrow> char \<Rightarrow> int) \<Rightarrow> int \<Rightarrow> string \<Rightarrow> int" where
  "automaton_loop transition s [] = s"
| "automaton_loop transition s (c # input_string) = automaton_loop transition (transition s c) input_string"

definition little_automaton :: "(int \<Rightarrow> char \<Rightarrow> int) \<Rightarrow> string \<Rightarrow> line" where
  "little_automaton transition input_string = Final_state (automaton_loop transition 0 input_string)"

section \<open>What they print\<close>

text \<open>The first comment: a text that is no number is never a passing grade. It can be, since the variable
  is compared without a value.\<close>

theorem one_passes_junk: "one 71 ''its over 9000'' = Passed 71" "one 0 ''its over 9000'' = Not_passed ''its over 9000''"
  by (code_simp)+

lemma one_examples:
  "\<exists>x. one junk '' 7.36e1'' = Passed x \<and> \<bar>x - 736 / 10\<bar> < 1 / 100000" "one junk ''70'' = Not_passed ''70''"
proof -
  have "scan_float ''70'' = Some 70" "(case scan_float '' 7.36e1'' of None \<Rightarrow> False | Some x \<Rightarrow> \<bar>x - 736 / 10\<bar> < 1 / 100000 \<and> 70 < x)"
    by code_simp+
  then show "\<exists>x. one junk '' 7.36e1'' = Passed x \<and> \<bar>x - 736 / 10\<bar> < 1 / 100000" "one junk ''70'' = Not_passed ''70''"
    by (auto simp: one_def split: option.splits)
qed

text \<open>\<open>six\<close> prints its greeting for strings of up to 13 characters and writes past its array for longer ones.\<close>

theorem six_prints: "six str = (if length str \<le> 13 then Inr (Line (''Hello '' @ str)) else Inl Bad_access)"
  by (simp add: six_def strcpy_def strcat_def guard_def)

text \<open>\<open>clear_bits\<close> satisfies the three rules of its comment, bit by bit.\<close>

theorem clear_bits_rules:
  "clear_bits v flag = Cleared (v AND NOT flag)"
  "clear_bits v flag = Cleared r \<Longrightarrow> n < 64 \<Longrightarrow> bit r n \<longleftrightarrow> bit v n \<and> \<not> bit flag n"
  by (auto simp: clear_bits_def intro!: bit_word_eqI simp: bit_simps)

lemma clear_bits_examples:
  "clear_bits 0xFF 0x55 = Cleared 0xAA" "clear_bits 0x00 0xF0 = Cleared 0x00" "clear_bits 0xAB 0x00 = Cleared 0xAB"
  by (simp_all add: clear_bits_def)

text \<open>The automaton is the fold of its transition function.\<close>

theorem little_automaton_fold: "little_automaton f s = Final_state (foldl f 0 s)"
proof -
  have "automaton_loop f q s = foldl f q s" for q by (induction s arbitrary: q) simp_all
  then show ?thesis by (simp add: little_automaton_def)
qed

text \<open>The diagonal of \<open>eight\<close>, as long as the products fit into an \<open>int\<close>.\<close>

theorem eight_diagonal:
  assumes "\<bar>a\<bar> < 2 ^ 24"
  shows "eight a = Integers (map (\<lambda>i. int i * int i * a) [0 ..< 10])"
proof -
  have "int32 (int i * int i * a) = int i * int i * a" if "i < 10" for i
  proof (rule int32_id)
    have "int i * int i \<le> 9 * 9" using that by (intro mult_mono) auto
    then have "\<bar>int i * int i * a\<bar> \<le> 81 * \<bar>a\<bar>" unfolding abs_mult by (intro mult_right_mono) auto
    then show "- (2 ^ 31) \<le> int i * int i * a" "int i * int i * a < 2 ^ 31" using assms by auto
  qed
  then show ?thesis by (simp add: eight_def eight_values_def)
qed

text \<open>Numbers with at most 24 binary digits are floats; the next ones are rounded.\<close>

lemma half_even_int [simp]: "half_even (of_int n) = n"
  by (simp add: half_even_def)

lemma scale_int:
  "0 < \<bar>n\<bar> \<Longrightarrow> \<bar>n\<bar> < 2 ^ 24 \<Longrightarrow> \<exists>m. fst (scale k (of_int n) s) = of_int m \<and> of_int m * snd (scale k (of_int n) s) = of_int n * s"
proof (induction k arbitrary: n s)
  case (Suc k)
  show ?case
  proof (cases "\<bar>n\<bar> < 2 ^ 23")
    case True
    have "\<exists>m. fst (scale k (of_int (2 * n)) (s / 2)) = of_int m
        \<and> of_int m * snd (scale k (of_int (2 * n)) (s / 2)) = of_int (2 * n) * (s / 2)"
      by (rule Suc.IH) (use True Suc.prems in auto)
    moreover have "\<bar>of_int n :: rat\<bar> < 2 ^ 23"
      using True by (metis of_int_abs of_int_less_iff of_int_numeral of_int_power)
    ultimately show ?thesis by simp
  next
    case False
    have "\<not> \<bar>of_int n :: rat\<bar> < 2 ^ 23" "\<not> 2 ^ 24 \<le> \<bar>of_int n :: rat\<bar>"
      using False Suc.prems(2) by (metis of_int_abs of_int_less_iff of_int_numeral of_int_power not_less)+
    then show ?thesis by simp
  qed
qed simp

theorem four_exact:
  assumes "\<bar>x\<bar> < 2 ^ 24"
  shows "four (Some a) x = Inr (Equals x (of_int x), a, of_int x)"
proof -
  have "to_float (of_int x) = of_int x"
  proof (cases "x = 0")
    case False
    then obtain m where "fst (scale 230 (of_int x) 1) = of_int m" "of_int m * snd (scale 230 (of_int x) 1) = of_int x * 1"
      using scale_int [of x 230 1] assms by auto
    then show ?thesis using False by (cases "scale 230 (of_int x :: rat) 1") (simp add: to_float_def)
  qed (simp add: to_float_def)
  then show ?thesis by (simp add: four_def)
qed

theorem four_rounds: "four (Some a) 16777217 = Inr (Equals 16777217 16777216, a, 16777216)"
proof -
  have "\<lfloor>16777217 / 2 :: rat\<rfloor> = 8388608" by (simp add: floor_eq_iff)
  then show ?thesis by (simp add: four_def to_float_def eval_nat_numeral half_even_def Let_def)
qed

end
