(* ===== verification/Spec2Isabelle.thy ===== *)
theory Spec2Isabelle
  imports Alloc_Props SString_Correct Memcheck Minixfs_Correct Parmake_Single Mmu_Correct Scheduler_Correct
    Cqueue Semamore Barrier Rendezvous Drm Server_Props Shell_Correct
    Hooks Sockets Cracker2 Lookup Camel Reduce Otp Dd Launchers Mapreduce Shell_Ps Pointers
begin

text \<open>
  A verification of the programs of a systems programming course: a heap allocator, containers, a
  leak checker, a file system, a parallel make, a memory management unit, a scheduler, a shell, a
  file server with its client, a chat room, password crackers, primitives for threads, and smaller
  programs. The programs do not call each other, except where the text below says so;
  each is modelled as it is written and proved against its own specification.

  \<^bold>\<open>Conventions.\<close> Results that can fail are values of \<open>'a res\<close> (\<open>Prelude\<close>): \<open>Inl\<close> of a reason
  (failed assertion, access through \<open>NULL\<close> or outside of an object, exit, divergence, fuel used up)
  or \<open>Inr\<close> of the value. \<open>rbind\<close> is sequencing. A \<open>size_t\<close> is a \<open>nat\<close> whose operations are
  followed by \<open>w64\<close> (modulo \<open>2 ^ 64\<close>) where the code can wrap around, an \<open>int\<close> an \<open>int\<close> with
  \<open>int32\<close>; bit patterns are words. Code that is not part of the repository (the kernel of the MMU,
  the helper functions of the file system, the graph and priority queue libraries, the element
  constructors of a vector) is an argument of the model, with its documented laws as hypotheses
  that are shown to be satisfiable by an instance.

  \<^bold>\<open>malloc/alloc.c\<close>. \<open>Alloc\<close> models the heap as headers, end tags and payload bytes at addresses,
  with \<open>head\<close>, \<open>start\<close>, \<open>final\<close> and the program break, and \<open>malloc\<close>, \<open>calloc\<close>, \<open>realloc\<close> and \<open>free\<close>
  with all their pointer updates. \<open>Alloc_Correct\<close> shows that the heap always is a list of blocks in
  address order with correct tags and a free list that links exactly the free blocks, and that the
  operations are first fit with splitting and coalescing on that list. \<open>Alloc_Client\<close> and
  \<open>Alloc_Props\<close> let a program call the four functions and show that no call fails and that its
  objects keep their contents. The walk of the free list has the fuel \<open>walk_fuel\<close>: a header and an
  end tag take 40 bytes and no block is empty, so entries are at least 48 bytes apart.

  \<^bold>\<open>vector/vector.c, vector/sstring.c\<close>. \<open>Vector\<close> models the array of slots, its size and capacity,
  over a memory of element objects; \<open>Vector_Correct\<close> and \<open>Vector_Props\<close> show that every sequence of
  operations acts as on a list and leaks nothing. The loop of \<open>get_new_capacity\<close> is a \<open>while_option\<close>,
  whose divergence is a result. \<open>SString\<close> is built on the vector as in the code: \<open>SString_Correct\<close>
  proves conversion, append, split, substitute and slice, and the cases in which they fail.

  \<^bold>\<open>mini_memcheck/mini_memcheck.c\<close>. \<open>Memcheck\<close> models the wrappers around an allocator, which is the
  locale \<open>allocator\<close>; it is interpreted with the allocator of \<open>malloc/alloc.c\<close>, so that the accounting
  of the wrappers holds for it. The fuel of the list walk is the length of the list.

  \<^bold>\<open>finding_filesystems/minixfs.c\<close>. \<open>Minixfs\<close> models \<open>chmod\<close>, \<open>chown\<close>, the creation of inodes, the
  virtual file, and reading and writing over direct and indirect blocks; \<open>Minixfs_Correct\<close> shows that
  the loops over blocks act as one copy into, or out of, the byte sequence of the file.

  \<^bold>\<open>parallel_make/parmake.c\<close>. \<open>Parmake\<close> models the search for cycles, the marking of the rules, the
  turn of a worker and the main thread as a sequential program, which is what runs with one worker.
  \<open>Parmake_Correct\<close> shows when it finishes, in which order rules run, and that the search decides whether a
  cycle is reachable. The searches have one unit of fuel for each vertex, which the theorems show to be
  enough; the worker has one unit for each turn. \<open>Parmake_Threads\<close> gives the same code as the
  interleavings of any number of workers with the main thread: a rule is built only behind its
  dependencies, the sequential program is one of the runs with one worker, and with two workers rules can
  be built twice, assertions fail and goals get lost. \<open>Parmake_Single\<close> shows that every run with one worker
  ends.

  \<^bold>\<open>ideal_indirection/mmu.c\<close>. \<open>Mmu\<close> models address translation with page directories, page tables, the
  TLB and page faults over a memory that the kernel changes; \<open>Mmu_Correct\<close> shows that the TLB only
  holds current translations, that it changes no result, and that what is written is read.

  \<^bold>\<open>savvy_scheduler/libscheduler.c\<close>. \<open>Scheduler\<close> models the comparisons of the six schemes and the
  operations on the queue of jobs; \<open>Scheduler_Correct\<close> shows that a job that is dispatched is minimal
  in the order of the scheme and that round robin is first in, first out. A \<open>double\<close> is a rational
  number: rounding and infinities are not modelled.

  \<^bold>\<open>critical_concurrency, deadlock_demolition\<close>. \<open>Monitor\<close> holds the locales for a mutex with a condition
  variable: an operation waits while it is blocked, takes effect and signals or broadcasts. \<open>Cqueue\<close>
  and \<open>Semamore\<close> are interpretations with the operations of \<open>queue.c\<close> and \<open>semamore.c\<close>. \<open>Barrier\<close>,
  \<open>Rendezvous\<close> and \<open>Drm\<close> give \<open>barrier.c\<close>, \<open>rendezvous_sol.c\<close> and \<open>libdrm.c\<close> as step relations on
  the states of all threads, with invariants over the reachable states. A step is the code between
  two points at which a thread releases the mutex or can block.

  \<^bold>\<open>nonstop_networking.\<close> \<open>Net\<close> models the helpers of \<open>common.c\<close> (reading and writing in full,
  copying, \<open>mygetline\<close>) over the outcomes that \<open>read\<close> and \<open>write\<close> give, \<open>Server\<close> the event loop of
  \<open>server.c\<close> with its dictionary of half-read uploads and the four requests, \<open>Client\<close> the program
  \<open>client.c\<close> over a connected socket. \<open>Net_Correct\<close> shows what the helpers do under any division of
  the bytes, \<open>Server_Correct\<close> that an upload is stored however it arrives, and \<open>Server_Props\<close>
  composes client and server. \<open>getline_loop\<close> recurs on the outcomes of the reads that are left. \<open>Sockets\<close>
  gives the calls by which both clients and both servers (of this and of the chat room) set up their
  sockets, with the ways to \<open>exit\<close>.

  \<^bold>\<open>shell/shell.c\<close>. \<open>Shell\<close> models the commands of the shell over an operating system that is an
  argument; \<open>Shell_Correct\<close> shows that it comes back from every script, how lines are split, what the
  commands on the history do, and when reaping frees the struct of the shell. \<open>runcommand\<close> has two units
  of fuel, which \<open>shell_terminates\<close> shows to be enough. \<open>Shell_Ps\<close> adds the options of the shell and what
  \<open>ps\<close> reads from \<open>/proc\<close>.

  \<^bold>\<open>charming_chatroom.\<close> \<open>Chat\<close> models the framing of \<open>utils.c\<close>, the slots of \<open>server.c\<close> and the threads
  of \<open>client.c\<close> on the sockets of \<open>Net\<close>; \<open>Chat_Correct\<close> shows that a message reaches every client once,
  that the count of clients is right as long as \<open>accept\<close> succeeds, and two ways in which it goes wrong.
  \<open>Hooks\<close> puts the failing reads of \<open>user_hooks.c\<close> under the reading in full and shows that they cannot be
  seen.

  \<^bold>\<open>password_cracker.\<close> \<open>Cracker\<close> gives \<open>cracker1.c\<close>: the recursive search and the workers that share a
  queue. \<open>Cracker2\<close> gives \<open>cracker2.c\<close>: the tokens, the barrier and the answers of threads that share one
  password. Both are step relations whose invariants say what the printed summaries mean.

  \<^bold>\<open>Smaller programs.\<close> \<open>Lookup\<close>: the two searches of \<open>mad_mad_access_patterns\<close> in a tree on the disk, with
  fuel of at least the height of the tree. \<open>Camel\<close>: \<open>extreme_edge_cases/camelCaser.c\<close>. \<open>Reduce\<close>:
  \<open>teaching_threads/par_reduce.c\<close>. \<open>Otp\<close>: the one-time pad \<open>final/helloworld.c\<close>. \<open>Dd\<close>:
  \<open>deepfried_dd/dd.c\<close>. \<open>Launchers\<close>: \<open>env.c\<close>, \<open>time.c\<close> and \<open>final/restart.c\<close>. \<open>Mapreduce\<close>: the processes and
  pipes of \<open>mapreduce.c\<close>. \<open>Pointers\<close>: the exercises of \<open>perilous_pointers/part1-functions.c\<close>, with
  \<open>float\<close> as rounded rational numbers.

  \<^bold>\<open>Not modelled.\<close> Input and output without logic of their own: the window of the chat client, signal
  handlers, messages and times. \<open>perilous_pointers/part2-main.c\<close> calls functions outside of the repository,
  \<open>critical_concurrency/rendezvous.c\<close> is the exercise whose solution is modelled, and
  \<open>deepfried_dd/format.c\<close> prints. The test programs have no contract of their own.
\<close>

end
